(* ===== verification/Kernel_Prelude.thy ===== *)
theory Kernel_Prelude
  imports Main "HOL-Library.Word" "HOL-Library.Monad_Syntax"
begin

text \<open>
  Shared vocabulary of the kernel development: machine words at the widths of lib/hw.h, the null
  address, option-valued access to memory, and the generic lemmas on lists and words that the
  components use.  An operation of the model has a result type \<open>'a option\<close>; the
  result \<open>None\<close> stands for an access the C++ program must not make (a load or store through
  the null pointer, or an index outside an array), or for a loop that does not end.
\<close>

type_synonym u8 = "8 word"
type_synonym u32 = "32 word"
type_synonym u64 = "64 word"
type_synonym addr = "64 word"

abbreviation (input) NULL :: addr where
  "NULL \<equiv> 0"

named_theorems rep_intros "introduction rules for representation predicates"
named_theorems frame_simps "operations leave a field of the state alone"

section \<open>Memory access\<close>

definition deref :: "(addr \<Rightarrow> 'a) \<Rightarrow> addr \<Rightarrow> 'a option" where
  "deref h p = (if p = NULL then None else Some (h p))"

definition store_at :: "addr \<Rightarrow> ('a \<Rightarrow> 'a) \<Rightarrow> (addr \<Rightarrow> 'a) \<Rightarrow> (addr \<Rightarrow> 'a) option" where
  "store_at p f h = (if p = NULL then None else Some (h(p := f (h p))))"

lemma deref_nonnull [simp]: "p \<noteq> NULL \<Longrightarrow> deref h p = Some (h p)"
  by (simp add: deref_def)

lemma deref_null [simp]: "deref h NULL = None"
  by (simp add: deref_def)

lemma store_at_nonnull [simp]: "p \<noteq> NULL \<Longrightarrow> store_at p f h = Some (h(p := f (h p)))"
  by (simp add: store_at_def)

lemma store_at_null [simp]: "store_at NULL f h = None"
  by (simp add: store_at_def)

section \<open>First and last elements with a default\<close>

definition first_or :: "'a \<Rightarrow> 'a list \<Rightarrow> 'a" where
  "first_or d xs = (case xs of [] \<Rightarrow> d | x # _ \<Rightarrow> x)"

definition last_or :: "'a \<Rightarrow> 'a list \<Rightarrow> 'a" where
  "last_or d xs = (if xs = [] then d else last xs)"

lemma first_or_simps [simp]:
  "first_or d [] = d"
  "first_or d (x # xs) = x"
  "first_or d (xs @ ys) = first_or (first_or d ys) xs"
  by (auto simp: first_or_def split: list.splits)

lemma last_or_simps [simp]:
  "last_or d [] = d"
  "last_or d [x] = x"
  "last_or d (x # xs) = last_or x xs"
  "last_or d (xs @ ys) = last_or (last_or d xs) ys"
  by (auto simp: last_or_def)

lemma first_or_nonempty: "xs \<noteq> [] \<Longrightarrow> first_or d xs = hd xs"
  by (cases xs) auto

lemma last_or_nonempty: "xs \<noteq> [] \<Longrightarrow> last_or d xs = last xs"
  by (simp add: last_or_def)

lemma first_or_in: "xs \<noteq> [] \<Longrightarrow> first_or d xs \<in> set xs"
  by (cases xs) auto

lemma last_or_in: "xs \<noteq> [] \<Longrightarrow> last_or d xs \<in> set xs"
  by (auto simp: last_or_def)

lemma first_or_null_iff: "d \<notin> set xs \<Longrightarrow> first_or d xs = d \<longleftrightarrow> xs = []"
  by (cases xs) auto

lemma last_or_null_iff: "d \<notin> set xs \<Longrightarrow> last_or d xs = d \<longleftrightarrow> xs = []"
  using last_or_in[of xs d] by (cases "xs = []") auto

lemma last_neq [simp]: "y \<notin> set xs \<Longrightarrow> xs \<noteq> [] \<Longrightarrow> last xs \<noteq> y"
  by (metis last_in_set)

lemma hd_neq [simp]: "y \<notin> set xs \<Longrightarrow> xs \<noteq> [] \<Longrightarrow> hd xs \<noteq> y"
  by (metis hd_in_set)

section \<open>Decimal digits of a natural number\<close>

fun dec_digits :: "nat \<Rightarrow> nat list" where
  "dec_digits n = (if n < 10 then [n] else dec_digits (n div 10) @ [n mod 10])"

declare dec_digits.simps [simp del]

lemma dec_digits_by_powers:
  "n < 10 ^ Suc k \<Longrightarrow> 10 ^ k \<le> max 1 n \<Longrightarrow>
   dec_digits n = map (\<lambda>i. n div 10 ^ i mod 10) (rev [0..<Suc k])"
proof (induction k arbitrary: n)
  case 0
  then show ?case by (simp add: dec_digits.simps [of n])
next
  case (Suc k)
  have "(1 :: nat) < 10 ^ Suc k" by (rule one_less_power) simp_all
  with Suc.prems(2) have big: "10 ^ Suc k \<le> n" by linarith
  moreover have "(10 :: nat) \<le> 10 ^ Suc k" by simp
  ultimately have n10: "\<not> n < 10" by linarith
  have "n div 10 < 10 ^ Suc k"
    using Suc.prems(1) by (simp add: less_mult_imp_div_less)
  moreover have "10 ^ k \<le> max 1 (n div 10)"
    using big by (simp add: less_eq_div_iff_mult_less_eq max_def mult.commute)
  ultimately have "dec_digits (n div 10) = map (\<lambda>i. n div 10 div 10 ^ i mod 10) (rev [0..<Suc k])"
    by (rule Suc.IH)
  also have "\<dots> = map (\<lambda>i. n div 10 ^ i mod 10) (rev [1..<Suc (Suc k)])"
    by (simp add: div_mult2_eq rev_map map_Suc_upt [symmetric] del: map_Suc_upt upt_Suc)
  finally have "dec_digits n = map (\<lambda>i. n div 10 ^ i mod 10) (rev [1..<Suc (Suc k)]) @ [n mod 10]"
    using n10 by (simp add: dec_digits.simps [of n])
  then show ?case
    by (simp add: upt_conv_Cons [of 0] del: upt_Suc)
qed

lemma dec_digits_value: "foldl (\<lambda>a d. 10 * a + d) 0 (dec_digits n) = n"
  by (induction n rule: dec_digits.induct) (subst dec_digits.simps, auto)

lemma dec_digits_bounded: "d \<in> set (dec_digits n) \<Longrightarrow> d < 10"
  by (induction n rule: dec_digits.induct) (subst (asm) (2) dec_digits.simps, auto split: if_splits)

section \<open>Machine words\<close>

lemma unat_u64_of_nat [simp]: "n < 2 ^ 64 \<Longrightarrow> unat (of_nat n :: u64) = n"
  by (simp add: unat_of_nat)

lemma unat_u32_of_nat [simp]: "n < 2 ^ 32 \<Longrightarrow> unat (of_nat n :: u32) = n"
  by (simp add: unat_of_nat)

lemma unat_lt64: "unat (w :: u64) < 2 ^ 64"
  using unsigned_less[of w, where ?'a = nat] by simp

lemma unat_lt32: "unat (w :: u32) < 2 ^ 32"
  using unsigned_less[of w, where ?'a = nat] by simp

lemma unat_add_no_wrap:
  fixes a b :: u64
  assumes "unat a + unat b < 2 ^ 64"
  shows "unat (a + b) = unat a + unat b"
  using assms by (simp add: unat_word_ariths)

lemma unat_sub_no_wrap:
  fixes a b :: u64
  assumes "unat b \<le> unat a"
  shows "unat (a - b) = unat a - unat b"
  using assms by (simp add: unat_sub word_le_nat_alt)

lemma unat_mult_no_wrap:
  fixes a b :: u64
  assumes "unat a * unat b < 2 ^ 64"
  shows "unat (a * b) = unat a * unat b"
  using assms by (simp add: unat_word_ariths)

lemma unat_ucast_u32_u64 [simp]: "unat (ucast (w :: u32) :: u64) = unat w"
  using unat_lt32[of w] by (simp add: unsigned_ucast_eq take_bit_nat_eq_self)

lemma unat_ucast_u64_u32: "unat (ucast (w :: u64) :: u32) = unat w mod 2 ^ 32"
  by (simp add: unsigned_ucast_eq take_bit_eq_mod)

lemma word_of_nat_unat_eq: "unat w = n \<Longrightarrow> w = of_nat n"
  by auto

end
