(* ===== verification/Kernel_Utils.thy ===== *)
theory Kernel_Utils
  imports Kernel_Prelude
begin

text \<open>
  h/k_utils.hpp: the conversion from bytes to allocation blocks and the decimal weight of the most
  significant digit, together with the digit loop that Console::print_uint64 and the panic path of
  k_handle_ecall share.  Every quantity is a 64-bit word, so the wrap-around of the C++ expressions
  is kept.
\<close>

definition MEM_BLOCK_SIZE :: u64 where
  "MEM_BLOCK_SIZE = 64"

definition to_blocks :: "u64 \<Rightarrow> u32" where
  "to_blocks n_bytes = ucast ((n_bytes + (MEM_BLOCK_SIZE - 1)) div MEM_BLOCK_SIZE)"

function decimal_weight_loop :: "u64 \<Rightarrow> u64 \<Rightarrow> u64" where
  "decimal_weight_loop number weight =
     (if weight * 10 \<le> number \<and> weight * 10 > weight
      then decimal_weight_loop number (weight * 10) else weight)"
  by pat_completeness auto
termination
  by (relation "measure (\<lambda>(number, weight). 2 ^ 64 - unat weight)")
    (use unat_lt64 in \<open>auto simp: word_less_nat_alt intro!: diff_less_mono2\<close>)

declare decimal_weight_loop.simps [simp del]

definition get_decimal_weight :: "u64 \<Rightarrow> u64" where
  "get_decimal_weight number = decimal_weight_loop number 1"

function digits_loop :: "u64 \<Rightarrow> u64 \<Rightarrow> u8 list" where
  "digits_loop number weight =
     (if weight \<noteq> 0
      then (48 + ucast ((number div weight) mod 10)) # digits_loop number (weight div 10)
      else [])"
  by pat_completeness auto
termination
  by (relation "measure (\<lambda>(number, weight). unat weight)")
    (auto simp: unat_div unat_gt_0 intro: div_less_dividend)

declare digits_loop.simps [simp del]

definition decimal_chars :: "u64 \<Rightarrow> u8 list" where
  "decimal_chars number = digits_loop number (get_decimal_weight number)"

section \<open>Blocks\<close>

lemma unat_to_blocks: "unat (to_blocks n) = (unat n + 63) mod 2 ^ 64 div 64 mod 2 ^ 32"
  by (simp add: to_blocks_def MEM_BLOCK_SIZE_def unat_ucast_u64_u32 unat_div unat_word_ariths)

lemma unat_to_blocks_small:
  assumes "unat n \<le> 64 * (2 ^ 32 - 1)"
  shows "unat (to_blocks n) = (unat n + 63) div 64"
  using assms by (simp add: unat_to_blocks)

section \<open>Decimal weight\<close>

lemma decimal_weight_loop_power:
  "unat weight = 10 ^ k \<Longrightarrow> 10 ^ k \<le> max 1 (unat number) \<Longrightarrow>
   \<exists>m. unat (decimal_weight_loop number weight) = 10 ^ m \<and>
       10 ^ m \<le> max 1 (unat number) \<and> unat number < 10 ^ Suc m"
proof (induction number weight arbitrary: k rule: decimal_weight_loop.induct)
  case (1 number weight)
  have bound: "unat number < 2 ^ 64" by (rule unat_lt64)
  have k: "k < 20"
  proof (rule ccontr)
    assume "\<not> k < 20"
    then have "(10 :: nat) ^ 20 \<le> 10 ^ k" by (intro power_increasing) simp_all
    with unat_lt64 [of weight] "1.prems"(1) show False by simp
  qed
  show ?case
  proof (cases "k = 19")
    case True
    then have "unat (weight * 10) = 10 ^ 20 mod 2 ^ 64" and "unat weight = 10 ^ 19"
      using "1.prems"(1) by (simp_all add: unat_word_ariths)
    then have "\<not> weight * 10 > weight" by (simp add: word_less_nat_alt)
    then have "decimal_weight_loop number weight = weight"
      by (simp add: decimal_weight_loop.simps [of number weight])
    then show ?thesis using "1.prems" True bound by (intro exI [of _ k]) simp
  next
    case False
    with k have "(10 :: nat) ^ Suc k \<le> 10 ^ 19" by (intro power_increasing) simp_all
    then have w10: "unat (weight * 10) = 10 ^ Suc k"
      using "1.prems"(1) by (simp add: unat_word_ariths)
    then have gt: "weight * 10 > weight"
      using "1.prems"(1) by (simp add: word_less_nat_alt)
    show ?thesis
    proof (cases "weight * 10 \<le> number")
      case True
      then have "10 ^ Suc k \<le> max 1 (unat number)" using w10 by (simp add: word_le_nat_alt)
      from "1.IH" [OF _ w10 this] True gt show ?thesis
        by (simp add: decimal_weight_loop.simps [of number weight])
    next
      case False
      then have "unat number < 10 ^ Suc k" using w10 by (simp add: word_le_nat_alt)
      with False "1.prems" show ?thesis
        by (intro exI [of _ k]) (simp add: decimal_weight_loop.simps [of number weight])
    qed
  qed
qed

lemma get_decimal_weight_power:
  "\<exists>m. unat (get_decimal_weight number) = 10 ^ m \<and>
       10 ^ m \<le> max 1 (unat number) \<and> unat number < 10 ^ Suc m"
  unfolding get_decimal_weight_def by (rule decimal_weight_loop_power [where k = 0]) simp_all

lemma digit_char:
  fixes number weight :: u64
  shows "ucast ((number div weight) mod 10) = (of_nat (unat number div unat weight mod 10) :: u8)"
proof -
  have "unat ((number div weight) mod (10 :: u64)) = unat number div unat weight mod 10"
    by (simp add: unat_div unat_mod)
  then show ?thesis by (metis of_nat_unat)
qed

lemma digits_loop_powers:
  "unat weight = 10 ^ k \<Longrightarrow>
   digits_loop number weight =
     map (\<lambda>i. 48 + of_nat (unat number div 10 ^ i mod 10)) (rev [0..<Suc k])"
proof (induction k arbitrary: weight)
  case 0
  then have "weight = 1" by (simp add: word_unat_eq_iff)
  then show ?case
    by (simp add: digits_loop.simps [of number 1] digits_loop.simps [of number 0] digit_char
        del: div_by_1)
next
  case (Suc k)
  have nz: "weight \<noteq> 0" using Suc.prems by auto
  have "unat (weight div 10) = 10 ^ k" using Suc.prems by (simp add: unat_div)
  then have "digits_loop number (weight div 10) =
      map (\<lambda>i. 48 + of_nat (unat number div 10 ^ i mod 10)) (rev [0..<Suc k])"
    by (rule Suc.IH)
  then show ?case
    using nz Suc.prems by (simp add: digits_loop.simps [of number weight] digit_char)
qed

lemma decimal_chars_digits:
  "decimal_chars number = map (\<lambda>d. 48 + of_nat d) (dec_digits (unat number))"
proof -
  obtain m where m: "unat (get_decimal_weight number) = 10 ^ m"
    "10 ^ m \<le> max 1 (unat number)" "unat number < 10 ^ Suc m"
    using get_decimal_weight_power by blast
  show ?thesis
    unfolding decimal_chars_def digits_loop_powers [OF m(1)] dec_digits_by_powers [OF m(3,2)]
    by simp
qed

end
