(* ===== verification/Intrusive_List.thy ===== *)
theory Intrusive_List
  imports Kernel_Prelude
begin

text \<open>
  h/list.hpp: the intrusive doubly linked list \<open>List<T>\<close>.  The template expects
  \<open>T\<close> to have fields \<open>next\<close> and \<open>prev\<close>; here \<open>T\<close> is any
  extension of the record \<open>node\<close>, and the objects live in a heap from addresses to such
  records, which every operation takes and returns.  Accesses that the code does not guard against
  the null pointer go through \<open>store_at\<close> and yield \<open>None\<close> there.  The
  predicate \<open>list_rep h l xs\<close> says that the list header \<open>l\<close> represents
  the sequence of addresses \<open>xs\<close> in heap \<open>h\<close>; the locale
  \<open>shared_fifo\<close> is the contract the kernel's queues rely on when several lists share one
  heap.
\<close>

section \<open>The class template\<close>

record node =
  nxt :: addr
  prv :: addr

record list_hd =
  lh_head :: addr
  lh_tail :: addr

definition list_initialize :: "list_hd \<Rightarrow> list_hd" where
  "list_initialize l = l\<lparr>lh_head := NULL, lh_tail := NULL\<rparr>"

definition list_is_empty :: "list_hd \<Rightarrow> bool" where
  "list_is_empty l \<longleftrightarrow> lh_head l = NULL"

definition list_peek_first :: "list_hd \<Rightarrow> addr" where
  "list_peek_first l = lh_head l"

definition list_peek_last :: "list_hd \<Rightarrow> addr" where
  "list_peek_last l = lh_tail l"

definition list_unlink :: "addr \<Rightarrow> (addr \<Rightarrow> 'a node_scheme) \<Rightarrow> (addr \<Rightarrow> 'a node_scheme)" where
  "list_unlink t h = (if t \<noteq> NULL then h(t := (h t)\<lparr>nxt := NULL, prv := NULL\<rparr>) else h)"

definition list_set_first ::
  "addr \<Rightarrow> list_hd \<Rightarrow> (addr \<Rightarrow> 'a node_scheme) \<Rightarrow> list_hd \<times> (addr \<Rightarrow> 'a node_scheme)" where
  "list_set_first t l h =
     (if t \<noteq> NULL \<and> list_is_empty l
      then (l\<lparr>lh_head := t, lh_tail := t\<rparr>, list_unlink t h)
      else (l, h))"

definition list_add_first ::
  "addr \<Rightarrow> list_hd \<Rightarrow> (addr \<Rightarrow> 'a node_scheme) \<Rightarrow> (list_hd \<times> (addr \<Rightarrow> 'a node_scheme)) option" where
  "list_add_first t l h =
     (if list_is_empty l then Some (list_set_first t l h)
      else if t \<noteq> NULL then do {
        let h1 = h(t := (h t)\<lparr>prv := NULL, nxt := lh_head l\<rparr>);
        h2 \<leftarrow> store_at (lh_head l) (prv_update (\<lambda>_. t)) h1;
        Some (l\<lparr>lh_head := t\<rparr>, h2)
      }
      else Some (l, h))"

definition list_add_last ::
  "addr \<Rightarrow> list_hd \<Rightarrow> (addr \<Rightarrow> 'a node_scheme) \<Rightarrow> (list_hd \<times> (addr \<Rightarrow> 'a node_scheme)) option" where
  "list_add_last t l h =
     (if list_is_empty l then Some (list_set_first t l h)
      else if t \<noteq> NULL then do {
        let h1 = h(t := (h t)\<lparr>nxt := NULL, prv := lh_tail l\<rparr>);
        h2 \<leftarrow> store_at (lh_tail l) (nxt_update (\<lambda>_. t)) h1;
        Some (l\<lparr>lh_tail := t\<rparr>, h2)
      }
      else Some (l, h))"

definition list_take_first ::
  "list_hd \<Rightarrow> (addr \<Rightarrow> 'a node_scheme) \<Rightarrow> addr \<times> list_hd \<times> (addr \<Rightarrow> 'a node_scheme)" where
  "list_take_first l h =
     (let t = lh_head l;
          (l1, h1) =
            (if \<not> list_is_empty l
             then let l' = l\<lparr>lh_head := nxt (h (lh_head l))\<rparr> in
               (if lh_head l' = NULL then (l'\<lparr>lh_tail := NULL\<rparr>, h)
                else (l', h(lh_head l' := (h (lh_head l'))\<lparr>prv := NULL\<rparr>)))
             else (l, h))
      in (t, l1, list_unlink t h1))"

definition list_take_last ::
  "list_hd \<Rightarrow> (addr \<Rightarrow> 'a node_scheme) \<Rightarrow> (addr \<times> list_hd \<times> (addr \<Rightarrow> 'a node_scheme)) option" where
  "list_take_last l h =
     (let t = lh_tail l in
      do {
        (l1, h1) \<leftarrow>
          (if \<not> list_is_empty l
           then do {
             n \<leftarrow> deref h (lh_tail l);
             let l' = l\<lparr>lh_tail := prv n\<rparr>;
             (if lh_tail l' = NULL then Some (l'\<lparr>lh_head := NULL\<rparr>, h)
              else Some (l', h(lh_tail l' := (h (lh_tail l'))\<lparr>nxt := NULL\<rparr>)))
           }
           else Some (l, h));
        Some (t, l1, list_unlink t h1)
      })"

section \<open>Doubly linked segments\<close>

text \<open>
  \<open>dll h p xs q\<close>: the nodes \<open>xs\<close> are linked in order, the first one points
  back to \<open>p\<close> and the last one forward to \<open>q\<close>.
\<close>

fun dll :: "(addr \<Rightarrow> 'a node_scheme) \<Rightarrow> addr \<Rightarrow> addr list \<Rightarrow> addr \<Rightarrow> bool" where
  "dll h p [] q = True"
| "dll h p (x # xs) q = (prv (h x) = p \<and> nxt (h x) = first_or q xs \<and> dll h x xs q)"

lemma dll_append [simp]:
  "dll h p (xs @ ys) q \<longleftrightarrow> dll h p xs (first_or q ys) \<and> dll h (last_or p xs) ys q"
  by (induction xs arbitrary: p) auto

lemma dll_cong:
  "(\<And>x. x \<in> set xs \<Longrightarrow> nxt (h' x) = nxt (h x) \<and> prv (h' x) = prv (h x)) \<Longrightarrow>
   dll h' p xs q = dll h p xs q"
  by (induction xs arbitrary: p) auto

text \<open>
  Every relinking of the code changes at most the back pointer of the first and the forward pointer
  of the last node of a segment.
\<close>

lemma dll_ends:
  assumes "dll h p xs q" "distinct xs"
    and "\<And>x. x \<in> set xs \<Longrightarrow> prv (h' x) = (if x = hd xs then p' else prv (h x))"
    and "\<And>x. x \<in> set xs \<Longrightarrow> nxt (h' x) = (if x = last xs then q' else nxt (h x))"
  shows "dll h' p' xs q'"
  using assms
proof (induction xs arbitrary: p p')
  case Nil
  then show ?case by simp
next
  case (Cons x xs)
  have "dll h' x xs q'"
  proof (rule Cons.IH [of x])
    fix y assume y: "y \<in> set xs"
    show "prv (h' y) = (if y = hd xs then x else prv (h y))"
      using Cons.prems(1,2) Cons.prems(3) [of y] y by (cases xs) auto
    show "nxt (h' y) = (if y = last xs then q' else nxt (h y))"
      using Cons.prems(4) [of y] y by auto
  qed (use Cons.prems in auto)
  moreover have "nxt (h' x) = first_or q' xs"
  proof (cases xs)
    case Nil
    then show ?thesis using Cons.prems(4) [of x] by simp
  next
    case (Cons y ys)
    then have "last (x # xs) \<in> set xs" by simp
    then have "x \<noteq> last (x # xs)" using Cons.prems(2) by (metis distinct.simps(2))
    then show ?thesis using Cons.prems(1) Cons.prems(4) [of x] Cons by simp
  qed
  ultimately show ?case using Cons.prems(3) [of x] by simp
qed

lemma dll_hd: "dll h p xs q \<Longrightarrow> xs \<noteq> [] \<Longrightarrow> prv (h (hd xs)) = p"
  by (cases xs) auto

lemma dll_last: "dll h p xs q \<Longrightarrow> xs \<noteq> [] \<Longrightarrow> nxt (h (last xs)) = q"
  by (induction xs arbitrary: p) auto

lemma dll_new_prev:
  assumes "dll h p xs q" "distinct xs"
    and "\<And>x. x \<in> set xs \<Longrightarrow> prv (h' x) = (if x = hd xs then p' else prv (h x))"
    and "\<And>x. x \<in> set xs \<Longrightarrow> nxt (h' x) = nxt (h x)"
  shows "dll h' p' xs q"
  by (rule dll_ends [OF assms(1-3)])
    (use assms(1,4) dll_last in \<open>auto simp: in_set_conv_nth dest: dll_last\<close>)

lemma dll_new_next:
  assumes "dll h p xs q" "distinct xs"
    and "\<And>x. x \<in> set xs \<Longrightarrow> prv (h' x) = prv (h x)"
    and "\<And>x. x \<in> set xs \<Longrightarrow> nxt (h' x) = (if x = last xs then q' else nxt (h x))"
  shows "dll h' p xs q'"
  by (rule dll_ends [OF assms(1,2) _ assms(4)])
    (use assms(1,3) in \<open>auto dest: dll_hd\<close>)

text \<open>Replacing a segment \<open>xs\<close> in the middle of a list by \<open>ys\<close>.\<close>

lemma dll_splice:
  assumes "dll h p (as @ xs @ bs) q" "distinct (as @ bs)"
    and "\<And>x. x \<in> set as \<Longrightarrow> prv (h' x) = prv (h x)"
    and "\<And>x. x \<in> set as \<Longrightarrow> nxt (h' x) = (if x = last as then first_or q (ys @ bs) else nxt (h x))"
    and "\<And>x. x \<in> set bs \<Longrightarrow> prv (h' x) = (if x = hd bs then last_or p (as @ ys) else prv (h x))"
    and "\<And>x. x \<in> set bs \<Longrightarrow> nxt (h' x) = nxt (h x)"
    and "dll h' (last_or p as) ys (first_or q bs)"
  shows "dll h' p (as @ ys @ bs) q"
proof -
  have "dll h' p as (first_or q (ys @ bs))"
    by (rule dll_new_next [of h p as "first_or q (xs @ bs)"]) (use assms(1-4) in simp_all)
  moreover have "dll h' (last_or p (as @ ys)) bs q"
    by (rule dll_new_prev [of h "last_or p (as @ xs)" bs q]) (use assms(1,2,5,6) in simp_all)
  ultimately show ?thesis using assms(7) by simp
qed

text \<open>Recognising the neighbours of a gap by their addresses.\<close>

lemma gap_neighbours:
  assumes "distinct (as @ bs)" "NULL \<notin> set as" "NULL \<notin> set bs"
  shows "p \<in> set as \<Longrightarrow> p \<noteq> NULL \<and> (p = last_or NULL as \<longleftrightarrow> p = last as) \<and> p \<noteq> first_or NULL bs"
    and "p \<in> set bs \<Longrightarrow> p \<noteq> NULL \<and> (p = first_or NULL bs \<longleftrightarrow> p = hd bs) \<and> p \<noteq> last_or NULL as"
proof -
  show "p \<in> set as \<Longrightarrow> p \<noteq> NULL \<and> (p = last_or NULL as \<longleftrightarrow> p = last as) \<and> p \<noteq> first_or NULL bs"
    using assms first_or_in [of bs NULL] by (cases "bs = []") (auto simp: last_or_def)
  show "p \<in> set bs \<Longrightarrow> p \<noteq> NULL \<and> (p = first_or NULL bs \<longleftrightarrow> p = hd bs) \<and> p \<noteq> last_or NULL as"
    using assms last_or_in [of as NULL] by (cases "as = []"; cases bs) auto
qed

lemma dll_relink:
  assumes "dll h NULL (as @ xs @ bs) NULL" "distinct (as @ bs)" "NULL \<notin> set as" "NULL \<notin> set bs"
    and "\<And>p. p \<in> set as \<union> set bs \<Longrightarrow>
      nxt (h' p) = (if p = last_or NULL as then first_or NULL (ys @ bs) else nxt (h p))"
    and "\<And>p. p \<in> set as \<union> set bs \<Longrightarrow>
      prv (h' p) = (if p = first_or NULL bs then last_or NULL (as @ ys) else prv (h p))"
    and "dll h' (last_or NULL as) ys (first_or NULL bs)"
  shows "dll h' NULL (as @ ys @ bs) NULL"
  by (rule dll_splice [OF assms(1,2) _ _ _ _ assms(7)])
    (use gap_neighbours [OF assms(2-4)] assms(5,6) in auto)

section \<open>Representation of a sequence by a list header\<close>

definition list_rep :: "(addr \<Rightarrow> 'a node_scheme) \<Rightarrow> list_hd \<Rightarrow> addr list \<Rightarrow> bool" where
  "list_rep h l xs \<longleftrightarrow> dll h NULL xs NULL \<and> lh_head l = first_or NULL xs \<and>
     lh_tail l = last_or NULL xs \<and> distinct xs \<and> NULL \<notin> set xs"

lemma list_rep_cong:
  assumes "\<And>x. x \<in> set xs \<Longrightarrow> nxt (h' x) = nxt (h x) \<and> prv (h' x) = prv (h x)"
  shows "list_rep h' l xs = list_rep h l xs"
  using dll_cong [OF assms] by (simp add: list_rep_def)

lemma list_rep_frame:
  assumes "list_rep h l xs" "\<And>x. x \<in> set xs \<Longrightarrow> h' x = h x"
  shows "list_rep h' l xs"
  using list_rep_cong [of xs h' h l] assms by simp

lemma list_rep_distinct: "list_rep h l xs \<Longrightarrow> distinct xs \<and> NULL \<notin> set xs"
  by (simp add: list_rep_def)

lemma list_rep_is_empty: "list_rep h l xs \<Longrightarrow> list_is_empty l \<longleftrightarrow> xs = []"
  by (cases xs) (auto simp: list_rep_def list_is_empty_def)

lemma list_rep_initialize: "list_rep h (list_initialize l) []"
  by (simp add: list_rep_def list_initialize_def)

lemma list_rep_nil_iff: "list_rep h l [] \<longleftrightarrow> lh_head l = NULL \<and> lh_tail l = NULL"
  by (simp add: list_rep_def)

lemma list_rep_unique:
  assumes "list_rep h l xs" "list_rep h l ys"
  shows "xs = ys"
proof -
  have "dll h p xs NULL \<Longrightarrow> dll h p ys NULL \<Longrightarrow> first_or NULL xs = first_or NULL ys \<Longrightarrow>
        NULL \<notin> set xs \<Longrightarrow> NULL \<notin> set ys \<Longrightarrow> xs = ys" for p
  proof (induction xs arbitrary: p ys)
    case Nil
    then show ?case by (cases ys) auto
  next
    case (Cons x xs)
    then show ?case by (cases ys) auto
  qed
  then show ?thesis using assms by (auto simp: list_rep_def)
qed

section \<open>Operations refine operations on sequences\<close>

lemma add_last_rep:
  assumes rep: "list_rep h l xs" and t: "t \<noteq> NULL" "t \<notin> set xs"
  obtains l' h' where "list_add_last t l h = Some (l', h')" "list_rep h' l' (xs @ [t])"
    "\<And>p. p \<notin> set xs \<Longrightarrow> p \<noteq> t \<Longrightarrow> h' p = h p" "\<And>p. node.more (h' p) = node.more (h p)"
proof (cases "xs = []")
  case True
  then have "list_add_last t l h = Some (l\<lparr>lh_head := t, lh_tail := t\<rparr>, list_unlink t h)"
    using rep t by (simp add: list_rep_def list_add_last_def list_is_empty_def list_set_first_def)
  then show ?thesis
    by (rule that) (use True t in \<open>auto simp: list_rep_def list_unlink_def\<close>)
next
  case False
  let ?h = "h(t := (h t)\<lparr>nxt := NULL, prv := last xs\<rparr>)"
  let ?h' = "?h(last xs := (?h (last xs))\<lparr>nxt := t\<rparr>)"
  have last: "lh_tail l = last xs" "last xs \<noteq> NULL" "last xs \<noteq> t" "last xs \<in> set xs"
    using rep False t by (auto simp: list_rep_def last_or_def)
  have "list_add_last t l h = Some (l\<lparr>lh_tail := t\<rparr>, ?h')"
    using rep t False last
    by (simp add: list_rep_is_empty list_add_last_def)
  moreover have "dll ?h' NULL xs t"
    by (rule dll_new_next [of h NULL xs NULL]) (use rep t in \<open>auto simp: list_rep_def\<close>)
  then have "list_rep ?h' (l\<lparr>lh_tail := t\<rparr>) (xs @ [t])"
    using rep t False last not_sym [OF last(3)]
    by (simp add: list_rep_def last_or_nonempty first_or_nonempty)
  moreover have "p \<notin> set xs \<Longrightarrow> p \<noteq> t \<Longrightarrow> ?h' p = h p" for p
    using last(4) by auto
  moreover have "node.more (?h' p) = node.more (h p)" for p by simp
  ultimately show ?thesis by (rule that)
qed

lemma add_first_rep:
  assumes rep: "list_rep h l xs" and t: "t \<noteq> NULL" "t \<notin> set xs"
  obtains l' h' where "list_add_first t l h = Some (l', h')" "list_rep h' l' (t # xs)"
    "\<And>p. p \<notin> set xs \<Longrightarrow> p \<noteq> t \<Longrightarrow> h' p = h p" "\<And>p. node.more (h' p) = node.more (h p)"
proof (cases xs)
  case Nil
  then have "list_add_first t l h = Some (l\<lparr>lh_head := t, lh_tail := t\<rparr>, list_unlink t h)"
    using rep t by (simp add: list_rep_def list_add_first_def list_is_empty_def list_set_first_def)
  then show ?thesis
    by (rule that) (use Nil t in \<open>auto simp: list_rep_def list_unlink_def\<close>)
next
  case (Cons x ys)
  let ?h = "h(t := (h t)\<lparr>prv := NULL, nxt := x\<rparr>)"
  let ?h' = "?h(x := (?h x)\<lparr>prv := t\<rparr>)"
  have x: "lh_head l = x" "x \<noteq> NULL" "x \<noteq> t"
    using rep Cons t by (auto simp: list_rep_def)
  have "list_add_first t l h = Some (l\<lparr>lh_head := t\<rparr>, ?h')"
    using rep t Cons x by (simp add: list_is_empty_def list_add_first_def)
  moreover have "dll ?h' t xs NULL"
    by (rule dll_new_prev [of h NULL xs NULL]) (use rep t Cons in \<open>auto simp: list_rep_def\<close>)
  then have "list_rep ?h' (l\<lparr>lh_head := t\<rparr>) (t # xs)"
    using rep t Cons x by (simp add: list_rep_def)
  ultimately show ?thesis by (rule that) (use Cons in auto)
qed

lemma take_first_empty:
  "list_rep h l [] \<Longrightarrow> list_take_first l h = (NULL, l, h)"
  by (simp add: list_rep_def list_take_first_def list_is_empty_def list_unlink_def)

lemma take_first_rep:
  assumes rep: "list_rep h l (x # xs)"
  obtains l' h' where "list_take_first l h = (x, l', h')" "list_rep h' l' xs"
    "\<And>p. p \<noteq> x \<Longrightarrow> p \<notin> set xs \<Longrightarrow> h' p = h p" "\<And>p. node.more (h' p) = node.more (h p)"
    "nxt (h' x) = NULL" "prv (h' x) = NULL"
proof -
  let ?h1 = "if xs = [] then h else h(hd xs := (h (hd xs))\<lparr>prv := NULL\<rparr>)"
  let ?h' = "?h1(x := (?h1 x)\<lparr>nxt := NULL, prv := NULL\<rparr>)"
  let ?l' = "if xs = [] then l\<lparr>lh_head := NULL, lh_tail := NULL\<rparr> else l\<lparr>lh_head := hd xs\<rparr>"
  have "lh_head l = x" "x \<noteq> NULL" "nxt (h x) = first_or NULL xs" "NULL \<notin> set xs" "x \<notin> set xs"
    using rep by (simp_all add: list_rep_def)
  then have "list_take_first l h = (x, ?l', ?h')"
    by (cases xs) (simp_all add: list_take_first_def list_is_empty_def list_unlink_def fun_upd_twist)
  moreover have "dll ?h' NULL xs NULL"
    by (rule dll_new_prev [of h x xs NULL]) (use rep in \<open>auto simp: list_rep_def\<close>)
  then have "list_rep ?h' ?l' xs"
    using rep by (auto simp: list_rep_def neq_Nil_conv)
  ultimately show ?thesis by (rule that) auto
qed

lemma take_last_empty:
  "list_rep h l [] \<Longrightarrow> list_take_last l h = Some (NULL, l, h)"
  by (simp add: list_rep_def list_take_last_def list_is_empty_def list_unlink_def)

lemma take_last_rep:
  assumes rep: "list_rep h l (xs @ [x])"
  obtains l' h' where "list_take_last l h = Some (x, l', h')" "list_rep h' l' xs"
    "\<And>p. p \<noteq> x \<Longrightarrow> p \<notin> set xs \<Longrightarrow> h' p = h p" "\<And>p. node.more (h' p) = node.more (h p)"
proof -
  let ?h1 = "if xs = [] then h else h(last xs := (h (last xs))\<lparr>nxt := NULL\<rparr>)"
  let ?h' = "?h1(x := (?h1 x)\<lparr>nxt := NULL, prv := NULL\<rparr>)"
  let ?l' = "if xs = [] then l\<lparr>lh_tail := NULL, lh_head := NULL\<rparr> else l\<lparr>lh_tail := last xs\<rparr>"
  have ne: "\<not> list_is_empty l" using rep list_rep_is_empty by blast
  have lx: "xs \<noteq> [] \<Longrightarrow> last xs \<in> set xs \<and> last xs \<noteq> NULL \<and> last xs \<noteq> x"
    using rep by (auto simp: list_rep_def)
  have "list_take_last l h = Some (x, ?l', ?h')"
    using rep ne lx by (auto simp: list_rep_def list_take_last_def list_unlink_def last_or_def Let_def)
  moreover have "dll ?h' NULL xs NULL"
    by (rule dll_new_next [of h NULL xs x]) (use rep in \<open>auto simp: list_rep_def\<close>)
  then have "list_rep ?h' ?l' xs"
    using rep lx by (auto simp: list_rep_def last_or_def first_or_def split: list.splits)
  ultimately show ?thesis by (rule that) auto
qed

section \<open>The contract of queues that share a heap\<close>

text \<open>
  A client that keeps several queues in one heap needs more than the effect of an operation on its
  own queue: an operation on one queue must leave every disjoint queue alone.
\<close>

locale shared_fifo =
  fixes put :: "addr \<Rightarrow> 'l \<Rightarrow> 'h \<Rightarrow> ('l \<times> 'h) option"
    and take_out :: "'l \<Rightarrow> 'h \<Rightarrow> addr \<times> 'l \<times> 'h"
    and rep :: "'h \<Rightarrow> 'l \<Rightarrow> addr list \<Rightarrow> bool"
  assumes rep_nodes: "rep h l xs \<Longrightarrow> distinct xs \<and> NULL \<notin> set xs"
    and put_last: "rep h l xs \<Longrightarrow> t \<noteq> NULL \<Longrightarrow> t \<notin> set xs \<Longrightarrow>
           \<exists>l' h'. put t l h = Some (l', h') \<and> rep h' l' (xs @ [t])"
    and put_frame: "rep h l xs \<Longrightarrow> t \<noteq> NULL \<Longrightarrow> t \<notin> set xs \<Longrightarrow> put t l h = Some (l', h') \<Longrightarrow>
           rep h m ys \<Longrightarrow> set ys \<inter> insert t (set xs) = {} \<Longrightarrow> rep h' m ys"
    and take_first: "rep h l (x # xs) \<Longrightarrow> \<exists>l' h'. take_out l h = (x, l', h') \<and> rep h' l' xs"
    and take_frame: "rep h l (x # xs) \<Longrightarrow> take_out l h = (x, l', h') \<Longrightarrow>
           rep h m ys \<Longrightarrow> set ys \<inter> insert x (set xs) = {} \<Longrightarrow> rep h' m ys"
    and take_empty: "rep h l [] \<Longrightarrow> take_out l h = (NULL, l, h)"
begin

lemma rotate:
  assumes "rep h l (x # xs)"
  shows "\<exists>l1 h1 l' h'. take_out l h = (x, l1, h1) \<and> put x l1 h1 = Some (l', h') \<and> rep h' l' (xs @ [x])"
proof -
  from take_first [OF assms] obtain l1 h1 where 1: "take_out l h = (x, l1, h1)" "rep h1 l1 xs"
    by blast
  have "x \<noteq> NULL" "x \<notin> set xs" using rep_nodes [OF assms] by auto
  with put_last [OF 1(2)] 1(1) show ?thesis by blast
qed

lemma move_first:
  assumes m: "rep h m (x # ys)" and l: "rep h l xs" and disj: "set (x # ys) \<inter> set xs = {}"
  shows "\<exists>m' h1 l' h'. take_out m h = (x, m', h1) \<and> put x l h1 = Some (l', h') \<and>
           rep h' m' ys \<and> rep h' l' (xs @ [x]) \<and>
           (\<forall>n zs. rep h n zs \<longrightarrow> set zs \<inter> (set (x # ys) \<union> set xs) = {} \<longrightarrow> rep h' n zs)"
proof -
  from take_first [OF m] obtain m' h1 where 1: "take_out m h = (x, m', h1)" "rep h1 m' ys"
    by blast
  have l1: "rep h1 l xs" by (rule take_frame [OF m 1(1) l]) (use disj in auto)
  have x: "x \<noteq> NULL" "x \<notin> set ys" "x \<notin> set xs" using rep_nodes [OF m] disj by auto
  from put_last [OF l1 x(1,3)] obtain l' h' where
    2: "put x l h1 = Some (l', h')" "rep h' l' (xs @ [x])" by blast
  have "rep h' m' ys"
    by (rule put_frame [OF l1 x(1,3) 2(1) 1(2)]) (use disj x in auto)
  moreover have "rep h' n zs" if "rep h n zs" "set zs \<inter> (set (x # ys) \<union> set xs) = {}" for n zs
    by (rule put_frame [OF l1 x(1,3) 2(1)], rule take_frame [OF m 1(1)]) (use that in auto)
  ultimately show ?thesis using 1 2 by blast
qed

end

lemma add_last_frame:
  assumes "list_rep h l xs" "t \<noteq> NULL" "t \<notin> set xs" "list_add_last t l h = Some (l', h')"
    and "list_rep h m ys" "set ys \<inter> insert t (set xs) = {}"
  shows "list_rep h' m ys"
proof -
  obtain l'' h'' where "list_add_last t l h = Some (l'', h'')"
    "\<And>p. p \<notin> set xs \<Longrightarrow> p \<noteq> t \<Longrightarrow> h'' p = h p"
    using add_last_rep [OF assms(1-3)] by metis
  with assms show ?thesis by (intro list_rep_frame [OF assms(5)]) auto
qed

lemma take_first_frame:
  assumes "list_rep h l (x # xs)" "list_take_first l h = (x, l', h')"
    and "list_rep h m ys" "set ys \<inter> insert x (set xs) = {}"
  shows "list_rep h' m ys"
proof -
  obtain l'' h'' where "list_take_first l h = (x, l'', h'')"
    "\<And>p. p \<noteq> x \<Longrightarrow> p \<notin> set xs \<Longrightarrow> h'' p = h p"
    using take_first_rep [OF assms(1)] by metis
  with assms(2,4) show ?thesis by (intro list_rep_frame [OF assms(3)]) (metis Int_iff empty_iff
        insertI1 insertI2 prod.inject)
qed

interpretation ilist: shared_fifo list_add_last list_take_first list_rep
proof unfold_locales
  fix h :: "addr \<Rightarrow> 'a node_scheme" and l xs t x
  show "list_rep h l xs \<Longrightarrow> distinct xs \<and> NULL \<notin> set xs" by (rule list_rep_distinct)
  show "list_rep h l xs \<Longrightarrow> t \<noteq> NULL \<Longrightarrow> t \<notin> set xs \<Longrightarrow>
      \<exists>l' h'. list_add_last t l h = Some (l', h') \<and> list_rep h' l' (xs @ [t])"
    by (metis add_last_rep)
  show "list_rep h l (x # xs) \<Longrightarrow> \<exists>l' h'. list_take_first l h = (x, l', h') \<and> list_rep h' l' xs"
    by (metis take_first_rep)
  show "list_rep h l [] \<Longrightarrow> list_take_first l h = (NULL, l, h)" by (rule take_first_empty)
qed (fact add_last_frame take_first_frame)+

end
