(* ===== verification/Mem_Allocator.thy ===== *)
theory Mem_Allocator
  imports Kernel_Utils Intrusive_List
begin

text \<open>
  h/k_memory.hpp and src/k_memory.cpp: the best-fit allocator.  The free blocks form a doubly linked
  list threaded through the free memory itself (\<open>fbs\<close> maps an address to the
  \<open>FreeBlocks\<close> header stored there); the allocation table holds, for the first block of
  every allocation, its number of blocks.  \<open>heap_start\<close> is the global
  \<open>HEAP_START_ADDR\<close> after the constructor has moved it behind the table.  An index
  outside the table yields \<open>None\<close>, as does a list traversal that does not end.
\<close>

section \<open>State and helpers\<close>

record free_blocks = node +
  n_blocks :: u32

record mem_allocator =
  fb_head :: addr
  alloc_table :: "u32 list"
  fbs :: "addr \<Rightarrow> free_blocks"
  heap_start :: addr

definition set_next :: "addr \<Rightarrow> addr \<Rightarrow> (addr \<Rightarrow> 'a node_scheme) \<Rightarrow> addr \<Rightarrow> 'a node_scheme" where
  "set_next p v h = h(p := (h p)\<lparr>nxt := v\<rparr>)"

definition set_prev :: "addr \<Rightarrow> addr \<Rightarrow> (addr \<Rightarrow> 'a node_scheme) \<Rightarrow> addr \<Rightarrow> 'a node_scheme" where
  "set_prev p v h = h(p := (h p)\<lparr>prv := v\<rparr>)"

definition set_blocks :: "addr \<Rightarrow> u32 \<Rightarrow> (addr \<Rightarrow> free_blocks) \<Rightarrow> addr \<Rightarrow> free_blocks" where
  "set_blocks p v h = h(p := (h p)\<lparr>n_blocks := v\<rparr>)"

lemma set_field_simps [simp]:
  "nxt (set_next p v h x) = (if x = p then v else nxt (h x))"
  "prv (set_next p v h x) = prv (h x)"
  "nxt (set_prev p v h x) = nxt (h x)"
  "prv (set_prev p v h x) = (if x = p then v else prv (h x))"
  "nxt (set_blocks p w f x) = nxt (f x)"
  "prv (set_blocks p w f x) = prv (f x)"
  "n_blocks (set_blocks p w f x) = (if x = p then w else n_blocks (f x))"
  "n_blocks (set_next p v f x) = n_blocks (f x)"
  "n_blocks (set_prev p v f x) = n_blocks (f x)"
  by (simp_all add: set_next_def set_prev_def set_blocks_def)

abbreviation (input) MEM_SUCCESS :: int where "MEM_SUCCESS \<equiv> 0"
abbreviation (input) MEM_FAILED :: int where "MEM_FAILED \<equiv> -1"
abbreviation (input) ADDRESS_IS_NULL :: int where "ADDRESS_IS_NULL \<equiv> -2"
abbreviation (input) ADDRESS_IS_NOT_ALIGNED :: int where "ADDRESS_IS_NOT_ALIGNED \<equiv> -3"
abbreviation (input) ADDRESS_IS_NOT_USED :: int where "ADDRESS_IS_NOT_USED \<equiv> -4"

text \<open>The byte sizes of the structures that the kernel allocates (lp64 layout).\<close>

definition sizeof_blocks_t :: u64 where "sizeof_blocks_t = 4"
definition sizeof_FreeBlocks :: u64 where "sizeof_FreeBlocks = 24"

section \<open>The constructor\<close>

definition mem_allocator_new :: "addr \<Rightarrow> addr \<Rightarrow> (addr \<Rightarrow> free_blocks) \<Rightarrow> mem_allocator" where
  "mem_allocator_new start_addr end_addr memory =
     (let total_blocks0 = (ucast ((end_addr - start_addr + 1) div (MEM_BLOCK_SIZE + sizeof_blocks_t)) :: u32);
          unaligned = (start_addr + ucast total_blocks0 * sizeof_blocks_t) mod MEM_BLOCK_SIZE \<noteq> 0;
          total_blocks = (if unaligned then total_blocks0 - 1 else total_blocks0);
          padding = (if unaligned
                     then (ucast (MEM_BLOCK_SIZE -
                            (start_addr + ucast total_blocks * sizeof_blocks_t) mod MEM_BLOCK_SIZE) :: u32)
                     else 0);
          hs = start_addr + ucast total_blocks * sizeof_blocks_t + ucast padding;
          h = set_prev hs NULL (set_next hs NULL (set_blocks hs total_blocks memory))
      in \<lparr>fb_head = hs, alloc_table = replicate (unat total_blocks) 0, fbs = h, heap_start = hs\<rparr>)"

section \<open>alloc\<close>

partial_function (option) best_fit ::
  "(addr \<Rightarrow> free_blocks) \<Rightarrow> u32 \<Rightarrow> addr \<Rightarrow> addr \<Rightarrow> addr option" where
  "best_fit h n cur best =
     (if cur \<noteq> NULL \<and> (best = NULL \<or> n_blocks (h best) \<noteq> n)
      then best_fit h n (nxt (h cur))
             (if n_blocks (h cur) \<ge> n \<and> (best = NULL \<or> n_blocks (h cur) < n_blocks (h best))
              then cur else best)
      else Some best)"

definition table_index :: "mem_allocator \<Rightarrow> addr \<Rightarrow> nat" where
  "table_index a p = unat ((p - heap_start a) div MEM_BLOCK_SIZE)"

definition split_block ::
  "addr \<Rightarrow> u32 \<Rightarrow> addr \<Rightarrow> (addr \<Rightarrow> free_blocks) \<Rightarrow> addr \<times> (addr \<Rightarrow> free_blocks)" where
  "split_block best n hd0 h =
     (let remaining = n_blocks (h best) - n;
          new_fb = best + ucast n * MEM_BLOCK_SIZE;
          h1 = set_blocks new_fb remaining h;
          h2 = set_next new_fb (nxt (h1 best)) h1;
          h3 = set_prev new_fb (prv (h2 best)) h2;
          h4 = (if prv (h3 new_fb) \<noteq> NULL then set_next (prv (h3 new_fb)) new_fb h3 else h3);
          h5 = (if nxt (h4 new_fb) \<noteq> NULL then set_prev (nxt (h4 new_fb)) new_fb h4 else h4)
      in (if hd0 = best then new_fb else hd0, h5))"

definition unchain_block ::
  "addr \<Rightarrow> addr \<Rightarrow> (addr \<Rightarrow> free_blocks) \<Rightarrow> addr \<times> (addr \<Rightarrow> free_blocks)" where
  "unchain_block best hd0 h =
     (let h1 = (if prv (h best) \<noteq> NULL then set_next (prv (h best)) (nxt (h best)) h else h);
          h2 = (if nxt (h1 best) \<noteq> NULL then set_prev (nxt (h1 best)) (prv (h1 best)) h1 else h1)
      in (if hd0 = best then nxt (h2 best) else hd0, h2))"

definition mem_alloc_blocks :: "u32 \<Rightarrow> mem_allocator \<Rightarrow> (addr \<times> mem_allocator) option" where
  "mem_alloc_blocks n a = do {
     best \<leftarrow> best_fit (fbs a) n (fb_head a) NULL;
     if best \<noteq> NULL then
       (let remaining = n_blocks (fbs a best) - n;
            (hd1, h1) = (if to_blocks sizeof_FreeBlocks \<le> remaining
                         then split_block best n (fb_head a) (fbs a)
                         else unchain_block best (fb_head a) (fbs a));
            i = table_index a best
        in if i < length (alloc_table a)
           then Some (best, a\<lparr>fb_head := hd1, fbs := h1, alloc_table := (alloc_table a)[i := n]\<rparr>)
           else None)
     else Some (NULL, a)
   }"

section \<open>free\<close>

definition merge_blocks :: "addr \<Rightarrow> (addr \<Rightarrow> free_blocks) \<Rightarrow> int \<times> (addr \<Rightarrow> free_blocks)" where
  "merge_blocks fb h =
     (if fb = NULL then (ADDRESS_IS_NULL, h)
      else if nxt (h fb) \<noteq> NULL \<and> nxt (h fb) = fb + ucast (n_blocks (h fb)) * MEM_BLOCK_SIZE
      then (let h1 = set_blocks fb (n_blocks (h fb) + n_blocks (h (nxt (h fb)))) h;
                h2 = set_next fb (nxt (h1 (nxt (h1 fb)))) h1;
                h3 = (if nxt (h2 fb) \<noteq> NULL then set_prev (nxt (h2 fb)) fb h2 else h2)
            in (MEM_SUCCESS, h3))
      else (MEM_FAILED, h))"

partial_function (option) find_place ::
  "(addr \<Rightarrow> free_blocks) \<Rightarrow> addr \<Rightarrow> addr \<Rightarrow> addr \<Rightarrow> (int + addr) option" where
  "find_place h new_fb cur_fb prev =
     (if cur_fb \<noteq> NULL \<and> new_fb \<ge> cur_fb
      then (if new_fb < cur_fb + ucast (n_blocks (h cur_fb)) * MEM_BLOCK_SIZE
            then Some (Inl ADDRESS_IS_NOT_USED)
            else find_place h new_fb (nxt (h cur_fb)) cur_fb)
      else Some (Inr prev))"

definition chain_block ::
  "addr \<Rightarrow> addr \<Rightarrow> addr \<Rightarrow> (addr \<Rightarrow> free_blocks) \<Rightarrow> addr \<times> (addr \<Rightarrow> free_blocks)" where
  "chain_block new_fb prev hd0 h =
     (if prev \<noteq> NULL
      then (let h1 = set_prev new_fb prev h;
                h2 = set_next new_fb (nxt (h1 prev)) h1;
                h3 = (if nxt (h2 new_fb) \<noteq> NULL then set_prev (nxt (h2 new_fb)) new_fb h2 else h2)
            in (hd0, set_next prev new_fb h3))
      else (let h1 = set_next new_fb hd0 h;
                h2 = set_prev new_fb NULL h1;
                h3 = (if hd0 \<noteq> NULL then set_prev hd0 new_fb h2 else h2)
            in (new_fb, h3)))"

definition mem_free_blocks :: "addr \<Rightarrow> mem_allocator \<Rightarrow> (int \<times> mem_allocator) option" where
  "mem_free_blocks address a =
     (if address = NULL then Some (ADDRESS_IS_NULL, a)
      else if address mod MEM_BLOCK_SIZE \<noteq> 0 then Some (ADDRESS_IS_NOT_ALIGNED, a)
      else (let i = table_index a address in
        if i < length (alloc_table a)
        then (let n = alloc_table a ! i in
          if n = 0 then Some (ADDRESS_IS_NOT_USED, a)
          else do {
            place \<leftarrow> find_place (fbs a) address (fb_head a) NULL;
            (case place of
               Inl err \<Rightarrow> Some (err, a)
             | Inr prev \<Rightarrow>
                 (let h1 = set_blocks address n (fbs a);
                      (hd1, h2) = chain_block address prev (fb_head a) h1;
                      h3 = snd (merge_blocks address h2);
                      h4 = snd (merge_blocks (prv (h3 address)) h3)
                  in Some (MEM_SUCCESS,
                       a\<lparr>fb_head := hd1, fbs := h4, alloc_table := (alloc_table a)[i := 0]\<rparr>)))
          })
        else None))"

end
