(* ===== verification/Ring_Queue.thy ===== *)
theory Ring_Queue
  imports Kernel_Prelude
begin

text \<open>
  h/queue.hpp: the circular buffer \<open>Queue<T, size>\<close> behind the console's input and
  output.  The template argument \<open>size\<close> is the first argument \<open>sz\<close> of every
  operation, \<open>T()\<close> is \<open>0\<close>.  The contract of a bounded first-in first-out
  buffer is the locale \<open>bounded_fifo\<close>; the circular buffer is an interpretation of it.
\<close>

section \<open>The class template\<close>

record 'a queue =
  q_head :: nat
  q_tail :: nat
  q_count :: nat
  q_buffer :: "'a list"

definition q_new :: "'a list \<Rightarrow> 'a queue" where
  "q_new storage = \<lparr>q_head = 0, q_tail = 0, q_count = 0, q_buffer = storage\<rparr>"

definition q_get_length :: "'a queue \<Rightarrow> nat" where
  "q_get_length q = q_count q"

definition q_get_capacity :: "nat \<Rightarrow> 'a queue \<Rightarrow> nat" where
  "q_get_capacity sz q = sz"

definition q_get :: "nat \<Rightarrow> 'a queue \<Rightarrow> 'a::zero \<times> 'a queue" where
  "q_get sz q =
     (if q_count q > 0
      then (q_buffer q ! q_head q,
            q\<lparr>q_head := (q_head q + 1) mod sz, q_count := q_count q - 1\<rparr>)
      else (0, q))"

definition q_put :: "nat \<Rightarrow> 'a \<Rightarrow> 'a queue \<Rightarrow> 'a queue" where
  "q_put sz t q =
     (if q_count q < sz
      then q\<lparr>q_buffer := (q_buffer q)[q_tail q := t], q_tail := (q_tail q + 1) mod sz,
             q_count := q_count q + 1\<rparr>
      else q)"

definition q_clear :: "'a queue \<Rightarrow> 'a queue" where
  "q_clear q = q\<lparr>q_head := 0, q_tail := 0, q_count := 0\<rparr>"

section \<open>The contract of a bounded queue\<close>

locale bounded_fifo =
  fixes put :: "'a \<Rightarrow> 'q \<Rightarrow> 'q"
    and get :: "'q \<Rightarrow> 'a \<times> 'q"
    and len :: "'q \<Rightarrow> nat"
    and capacity :: nat
    and dflt :: 'a
    and contents :: "'q \<Rightarrow> 'a list"
    and invar :: "'q \<Rightarrow> bool"
  assumes len_contents: "invar q \<Longrightarrow> len q = length (contents q)"
    and len_capacity: "invar q \<Longrightarrow> length (contents q) \<le> capacity"
    and put_room: "invar q \<Longrightarrow> length (contents q) < capacity \<Longrightarrow>
           invar (put x q) \<and> contents (put x q) = contents q @ [x]"
    and put_full: "invar q \<Longrightarrow> length (contents q) = capacity \<Longrightarrow> put x q = q"
    and get_some: "invar q \<Longrightarrow> contents q = x # xs \<Longrightarrow>
           fst (get q) = x \<and> invar (snd (get q)) \<and> contents (snd (get q)) = xs"
    and get_none: "invar q \<Longrightarrow> contents q = [] \<Longrightarrow> get q = (dflt, q)"
begin

lemma put_contents:
  assumes "invar q"
  shows "invar (put x q) \<and>
         contents (put x q) = (if length (contents q) < capacity then contents q @ [x] else contents q)"
  using put_room [OF assms] put_full [OF assms] len_capacity [OF assms] assms
  by (cases "length (contents q) < capacity") auto

lemma put_all:
  "invar q \<Longrightarrow> invar (fold put xs q) \<and> contents (fold put xs q) = take capacity (contents q @ xs)"
proof (induction xs arbitrary: q)
  case Nil
  then show ?case using len_capacity by simp
next
  case (Cons x xs)
  have q': "invar (put x q)" using put_contents Cons.prems by blast
  from Cons.IH [OF q'] put_contents [OF Cons.prems, of x] len_capacity [OF Cons.prems]
  show ?case by (auto simp: take_Cons')
qed

fun get_many :: "nat \<Rightarrow> 'q \<Rightarrow> 'a list \<times> 'q" where
  "get_many 0 q = ([], q)"
| "get_many (Suc n) q = (let (x, q1) = get q; (xs, q2) = get_many n q1 in (x # xs, q2))"

lemma get_many_contents:
  "invar q \<Longrightarrow> n \<le> length (contents q) \<Longrightarrow>
   fst (get_many n q) = take n (contents q) \<and> invar (snd (get_many n q)) \<and>
   contents (snd (get_many n q)) = drop n (contents q)"
proof (induction n arbitrary: q)
  case 0
  then show ?case by simp
next
  case (Suc n)
  then obtain x xs where c: "contents q = x # xs" by (cases "contents q") auto
  from get_some [OF Suc.prems(1) c] Suc.IH [of "snd (get q)"] Suc.prems c
  show ?case by (simp add: split_beta Let_def)
qed

lemma put_all_get_all:
  assumes "invar q" "contents q = []" "length xs \<le> capacity"
  shows "fst (get_many (length xs) (fold put xs q)) = xs"
  using put_all [OF assms(1), of xs] get_many_contents [of "fold put xs q" "length xs"] assms
  by simp

end

section \<open>The circular buffer keeps the contract\<close>

definition q_contents :: "nat \<Rightarrow> 'a queue \<Rightarrow> 'a list" where
  "q_contents sz q = map (\<lambda>i. q_buffer q ! ((q_head q + i) mod sz)) [0..<q_count q]"

definition q_inv :: "nat \<Rightarrow> 'a queue \<Rightarrow> bool" where
  "q_inv sz q \<longleftrightarrow> 0 < sz \<and> length (q_buffer q) = sz \<and> q_head q < sz \<and> q_count q \<le> sz \<and>
     q_tail q = (q_head q + q_count q) mod sz"

lemma length_q_contents [simp]: "length (q_contents sz q) = q_count q"
  by (simp add: q_contents_def)

lemma q_inv_new: "length storage = sz \<Longrightarrow> 0 < sz \<Longrightarrow> q_inv sz (q_new storage)"
  by (simp add: q_inv_def q_new_def)

lemma q_contents_new [simp]: "q_contents sz (q_new storage) = []"
  by (simp add: q_contents_def q_new_def)

lemma mod_add_distinct:
  fixes h i c sz :: nat
  assumes "i < c" "c < sz"
  shows "(h + i) mod sz \<noteq> (h + c) mod sz"
proof
  assume "(h + i) mod sz = (h + c) mod sz"
  then have "sz dvd (h + c) - (h + i)" using assms by (intro mod_eq_dvd_iff_nat [THEN iffD1]) auto
  then have "sz dvd c - i" by simp
  then show False using assms by (auto dest: dvd_imp_le)
qed

lemma q_put_room:
  assumes "q_inv sz q" "q_count q < sz"
  shows "q_inv sz (q_put sz x q)" "q_contents sz (q_put sz x q) = q_contents sz q @ [x]"
proof -
  show "q_inv sz (q_put sz x q)"
    using assms by (simp add: q_inv_def q_put_def mod_Suc_eq)
  have "\<And>i. i < q_count q \<Longrightarrow> (q_head q + i) mod sz \<noteq> q_tail q"
    using assms mod_add_distinct by (simp add: q_inv_def)
  moreover have "q_tail q < length (q_buffer q)" using assms by (simp add: q_inv_def)
  ultimately show "q_contents sz (q_put sz x q) = q_contents sz q @ [x]"
    using assms by (auto simp: q_contents_def q_put_def q_inv_def nth_list_update_neq [OF not_sym])
qed

lemma q_get_some:
  assumes "q_inv sz q" "q_count q > 0"
  shows "q_inv sz (snd (q_get sz q))"
    "fst (q_get sz q) # q_contents sz (snd (q_get sz q)) = q_contents sz q"
proof -
  obtain c where c: "q_count q = Suc c" using assms(2) by (cases "q_count q") auto
  show "q_inv sz (snd (q_get sz q))"
    using assms c by (simp add: q_inv_def q_get_def mod_simps)
  have "q_contents sz q =
      q_buffer q ! (q_head q mod sz) # map (\<lambda>i. q_buffer q ! ((q_head q + Suc i) mod sz)) [0..<c]"
    unfolding q_contents_def c map_upt_Suc by simp
  then show "fst (q_get sz q) # q_contents sz (snd (q_get sz q)) = q_contents sz q"
    using assms c by (simp add: q_contents_def q_get_def q_inv_def mod_simps)
qed

interpretation ring: bounded_fifo "q_put sz" "q_get sz" q_get_length sz 0 "q_contents sz" "q_inv sz"
  for sz
proof unfold_locales
  fix q :: "'a queue" and x xs
  assume q: "q_inv sz q"
  show "q_get_length q = length (q_contents sz q)" by (simp add: q_get_length_def)
  show "length (q_contents sz q) \<le> sz" using q by (simp add: q_inv_def)
  show "q_inv sz (q_put sz x q) \<and> q_contents sz (q_put sz x q) = q_contents sz q @ [x]"
    if "length (q_contents sz q) < sz"
    using q_put_room [OF q] that by simp
  show "q_put sz x q = q" if "length (q_contents sz q) = sz"
    using that by (simp add: q_put_def)
  show "fst (q_get sz q) = x \<and> q_inv sz (snd (q_get sz q)) \<and> q_contents sz (snd (q_get sz q)) = xs"
    if "q_contents sz q = x # xs"
  proof -
    have "q_count q > 0" using that length_q_contents [of sz q] by (metis length_greater_0_conv list.discI)
    with q_get_some [OF q] that show ?thesis by simp
  qed
  show "q_get sz q = (0, q)" if "q_contents sz q = []"
    using that length_q_contents [of sz q] by (simp add: q_get_def)
qed

end
