(* ===== verification/Reg_Context.thy ===== *)
theory Reg_Context
  imports Kernel_Prelude
begin

text \<open>
  h/k_context.hpp with src/k_save_context.S and src/k_restore_context.S: the register file a thread
  leaves behind.  A \<open>cpu\<close> holds the general registers and the supervisor registers that
  the kernel reads and writes.  Register \<open>sp\<close> is the kernel stack pointer in both
  routines, so it is exchanged with the field \<open>sys_sp\<close>.
\<close>

record reg_context =
  c_ra :: u64
  c_usr_sp :: u64
  c_sys_sp :: u64
  c_gp :: u64
  c_tp :: u64
  c_s11 :: u64
  c_s10 :: u64
  c_s9 :: u64
  c_s8 :: u64
  c_s7 :: u64
  c_s6 :: u64
  c_s5 :: u64
  c_s4 :: u64
  c_s3 :: u64
  c_s2 :: u64
  c_s1 :: u64
  c_s0 :: u64
  c_t6 :: u64
  c_t5 :: u64
  c_t4 :: u64
  c_t3 :: u64
  c_t2 :: u64
  c_t1 :: u64
  c_t0 :: u64
  c_a7 :: u64
  c_a6 :: u64
  c_a5 :: u64
  c_a4 :: u64
  c_a3 :: u64
  c_a2 :: u64
  c_a1 :: u64
  c_a0 :: u64
  c_sepc :: u64
  c_sstatus :: u64

definition zero_context :: reg_context where
  "zero_context =
    \<lparr>c_ra = 0, c_usr_sp = 0, c_sys_sp = 0, c_gp = 0, c_tp = 0, c_s11 = 0, c_s10 = 0, c_s9 = 0,
     c_s8 = 0, c_s7 = 0, c_s6 = 0, c_s5 = 0, c_s4 = 0, c_s3 = 0, c_s2 = 0, c_s1 = 0, c_s0 = 0,
     c_t6 = 0, c_t5 = 0, c_t4 = 0, c_t3 = 0, c_t2 = 0, c_t1 = 0, c_t0 = 0, c_a7 = 0, c_a6 = 0,
     c_a5 = 0, c_a4 = 0, c_a3 = 0, c_a2 = 0, c_a1 = 0, c_a0 = 0, c_sepc = 0, c_sstatus = 0\<rparr>"

datatype gpr = X_ra | X_sp | X_gp | X_tp | X_s11 | X_s10 | X_s9 | X_s8 | X_s7 | X_s6 | X_s5 | X_s4 | X_s3
  | X_s2 | X_s1 | X_s0 | X_t6 | X_t5 | X_t4 | X_t3 | X_t2 | X_t1 | X_t0 | X_a7 | X_a6 | X_a5
  | X_a4 | X_a3 | X_a2 | X_a1 | X_a0

record cpu =
  regs :: "gpr \<Rightarrow> u64"
  csr_sepc :: u64
  csr_sstatus :: u64
  csr_scause :: u64
  csr_sip :: u64
  csr_sie :: u64
  csr_stvec :: u64

text \<open>
  \<open>k_save_context\<close> stores everything but the user stack pointer and a0, and leaves 0 in
  a0; \<open>k_restore_context\<close> loads what was stored and leaves \<open>lui a0, 1\<close>,
  that is 0x1000, in a0.
\<close>

definition k_save_context :: "cpu \<Rightarrow> reg_context \<Rightarrow> reg_context \<times> cpu" where
  "k_save_context c x =
    (x\<lparr>c_ra := regs c X_ra, c_sys_sp := regs c X_sp, c_gp := regs c X_gp, c_tp := regs c X_tp,
     c_s11 := regs c X_s11, c_s10 := regs c X_s10, c_s9 := regs c X_s9, c_s8 := regs c X_s8, c_s7
     := regs c X_s7, c_s6 := regs c X_s6, c_s5 := regs c X_s5, c_s4 := regs c X_s4, c_s3 := regs
     c X_s3, c_s2 := regs c X_s2, c_s1 := regs c X_s1, c_s0 := regs c X_s0, c_t6 := regs c X_t6,
     c_t5 := regs c X_t5, c_t4 := regs c X_t4, c_t3 := regs c X_t3, c_t2 := regs c X_t2, c_t1 :=
     regs c X_t1, c_t0 := regs c X_t0, c_a7 := regs c X_a7, c_a6 := regs c X_a6, c_a5 := regs c
     X_a5, c_a4 := regs c X_a4, c_a3 := regs c X_a3, c_a2 := regs c X_a2, c_a1 := regs c X_a1,
     c_sepc := csr_sepc c, c_sstatus := csr_sstatus c\<rparr>,
     c\<lparr>regs := (regs c)(X_a0 := 0)\<rparr>)"

definition k_restore_context :: "reg_context \<Rightarrow> cpu \<Rightarrow> cpu" where
  "k_restore_context x c =
    c\<lparr>csr_sepc := c_sepc x, csr_sstatus := c_sstatus x,
      regs := (\<lambda>r. case r of
        X_a0 \<Rightarrow> 0x1000
      | X_ra \<Rightarrow> c_ra x
      | X_sp \<Rightarrow> c_sys_sp x
      | X_gp \<Rightarrow> c_gp x
      | X_tp \<Rightarrow> c_tp x
      | X_s11 \<Rightarrow> c_s11 x
      | X_s10 \<Rightarrow> c_s10 x
      | X_s9 \<Rightarrow> c_s9 x
      | X_s8 \<Rightarrow> c_s8 x
      | X_s7 \<Rightarrow> c_s7 x
      | X_s6 \<Rightarrow> c_s6 x
      | X_s5 \<Rightarrow> c_s5 x
      | X_s4 \<Rightarrow> c_s4 x
      | X_s3 \<Rightarrow> c_s3 x
      | X_s2 \<Rightarrow> c_s2 x
      | X_s1 \<Rightarrow> c_s1 x
      | X_s0 \<Rightarrow> c_s0 x
      | X_t6 \<Rightarrow> c_t6 x
      | X_t5 \<Rightarrow> c_t5 x
      | X_t4 \<Rightarrow> c_t4 x
      | X_t3 \<Rightarrow> c_t3 x
      | X_t2 \<Rightarrow> c_t2 x
      | X_t1 \<Rightarrow> c_t1 x
      | X_t0 \<Rightarrow> c_t0 x
      | X_a7 \<Rightarrow> c_a7 x
      | X_a6 \<Rightarrow> c_a6 x
      | X_a5 \<Rightarrow> c_a5 x
      | X_a4 \<Rightarrow> c_a4 x
      | X_a3 \<Rightarrow> c_a3 x
      | X_a2 \<Rightarrow> c_a2 x
      | X_a1 \<Rightarrow> c_a1 x)\<rparr>"

section \<open>Saving and restoring\<close>

lemma restore_after_save:
  "regs (k_restore_context (fst (k_save_context c x)) c') = (regs c)(X_a0 := 0x1000)"
  "csr_sepc (k_restore_context (fst (k_save_context c x)) c') = csr_sepc c"
  "csr_sstatus (k_restore_context (fst (k_save_context c x)) c') = csr_sstatus c"
  by (auto simp: k_restore_context_def k_save_context_def split: gpr.split)

lemma save_keeps:
  "c_usr_sp (fst (k_save_context c x)) = c_usr_sp x"
  "c_a0 (fst (k_save_context c x)) = c_a0 x"
  "regs (snd (k_save_context c x)) X_a0 = 0"
  by (simp_all add: k_save_context_def)

text \<open>
  The value with which the routine returns tells the two returns apart.
\<close>

lemma restore_returns_nonzero: "regs (k_restore_context x c) X_a0 \<noteq> 0"
  by (simp add: k_restore_context_def)

end
