(* ===== verification/Kernel_State.thy ===== *)
theory Kernel_State
  imports Mem_Allocator Ring_Queue Reg_Context
begin

text \<open>
  The state of the kernel: the thread control blocks of h/k_tcb.hpp, the semaphores of h/k_sem.hpp,
  and the variables that k_tcb.cpp, k_scheduler.hpp and k_trap_handlers.cpp define.  Thread control
  blocks and semaphores live in heaps indexed by address; the addresses that the linker chooses are
  collected in the record \<open>layout\<close>.

  A context switch abandons the C++ call stack of the running thread and later resumes it.  What the
  suspended call still has to do is kept in the field \<open>resume\<close> of its thread control block,
  one constructor of \<open>kcont\<close> for each place in the kernel from which a thread switches away.
\<close>

section \<open>Threads and semaphores\<close>

datatype tcb_status = INITIALIZING | SUSPENDED | TERMINATING | READY | RUNNING

datatype kcont =
    KStart          \<comment> \<open>a new thread: its ra is k_tcb_start\<close>
  | KDispatch       \<comment> \<open>dispatch() in k_handle_ecall, then break\<close>
  | KInterrupt      \<comment> \<open>dispatch() in k_handle_timer or fill_getc_buffer\<close>
  | KJoin           \<comment> \<open>wait() of THREAD_JOIN, its value unused\<close>
  | KSemWait        \<comment> \<open>wait() of SEM_WAIT, its value goes to a0\<close>
  | KGetC           \<comment> \<open>getc_sem.wait() of GET_C\<close>
  | KPutC u8        \<comment> \<open>putc_sem.wait() of PUT_C, with the character\<close>

record tcb = node +
  tcontext :: reg_context
  usr_stack :: addr
  sys_stack :: addr
  interrupted :: bool
  join_sem :: addr
  sleep_for :: u64
  time_slice :: u64
  status :: tcb_status
  body :: u64
  args :: u64
  resume :: kcont
  trap_frame :: "gpr \<Rightarrow> u64"

record sem =
  sem_value :: "32 word"
  suspended :: list_hd

definition DEFAULT_STACK_SIZE :: u64 where "DEFAULT_STACK_SIZE = 4096"
definition DEFAULT_TIME_SLICE :: u64 where "DEFAULT_TIME_SLICE = 2"
definition sizeof_TCB :: u64 where "sizeof_TCB = 360"
definition sizeof_Sem :: u64 where "sizeof_Sem = 24"
definition IO_BUFFER_SIZE :: nat where "IO_BUFFER_SIZE = 2048"

section \<open>The kernel\<close>

record layout =
  main_tcb :: addr
  putc_sem :: addr
  getc_sem :: addr
  flush_tcb_cell :: addr
  addr_k_tcb_start :: u64
  addr_k_intr_table :: u64

record kstate =
  lay :: layout
  mem :: mem_allocator
  tcbs :: "addr \<Rightarrow> tcb"
  sems :: "addr \<Rightarrow> sem"
  sched_queue :: list_hd
  sleep_queue :: list_hd
  current_tcb :: addr
  current_context :: addr
  timer_ticks :: u64
  putc_buffer :: "u8 queue"
  getc_buffer :: "u8 queue"
  cpu_of :: cpu
  user_cells :: "addr \<Rightarrow> u64"
  tx_out :: "u8 list"

text \<open>
  What a kernel function that may switch threads leaves behind: it returned a value, it restored
  another context, or it loops forever.
\<close>

datatype 'a flow = Returns 'a | Switches | Halts

text \<open>Field updates through a pointer.\<close>

definition upd_tcb :: "addr \<Rightarrow> (tcb \<Rightarrow> tcb) \<Rightarrow> kstate \<Rightarrow> kstate option" where
  "upd_tcb p f k = map_option (\<lambda>h. k\<lparr>tcbs := h\<rparr>) (store_at p f (tcbs k))"

definition upd_sem :: "addr \<Rightarrow> (sem \<Rightarrow> sem) \<Rightarrow> kstate \<Rightarrow> kstate option" where
  "upd_sem p f k = map_option (\<lambda>h. k\<lparr>sems := h\<rparr>) (store_at p f (sems k))"

lemma upd_tcb_nonnull [simp]: "p \<noteq> NULL \<Longrightarrow> upd_tcb p f k = Some (k\<lparr>tcbs := (tcbs k)(p := f (tcbs k p))\<rparr>)"
  by (simp add: upd_tcb_def)

lemma upd_tcb_null [simp]: "upd_tcb NULL f k = None"
  by (simp add: upd_tcb_def)

lemma upd_sem_nonnull [simp]: "p \<noteq> NULL \<Longrightarrow> upd_sem p f k = Some (k\<lparr>sems := (sems k)(p := f (sems k p))\<rparr>)"
  by (simp add: upd_sem_def)

lemma upd_sem_null [simp]: "upd_sem NULL f k = None"
  by (simp add: upd_sem_def)

text \<open>The static initialisers of k_tcb.cpp, and the zero-initialised variables of the other files.\<close>

definition main_tcb_init :: tcb where
  "main_tcb_init =
    \<lparr>nxt = NULL, prv = NULL, tcontext = zero_context, usr_stack = NULL, sys_stack = NULL,
     interrupted = False, join_sem = NULL, sleep_for = 0, time_slice = DEFAULT_TIME_SLICE,
     status = RUNNING, body = 0, args = 0, resume = KStart, trap_frame = (\<lambda>_. 0)\<rparr>"

definition kernel_image ::
  "layout \<Rightarrow> mem_allocator \<Rightarrow> (addr \<Rightarrow> tcb) \<Rightarrow> (addr \<Rightarrow> sem) \<Rightarrow> cpu \<Rightarrow> (addr \<Rightarrow> u64) \<Rightarrow> kstate" where
  "kernel_image l m ts ss c cells =
    \<lparr>lay = l, mem = m, tcbs = ts(main_tcb l := main_tcb_init),
     sems = ss(putc_sem l := \<lparr>sem_value = 0, suspended = \<lparr>lh_head = NULL, lh_tail = NULL\<rparr>\<rparr>,
               getc_sem l := \<lparr>sem_value = 0, suspended = \<lparr>lh_head = NULL, lh_tail = NULL\<rparr>\<rparr>),
     sched_queue = \<lparr>lh_head = NULL, lh_tail = NULL\<rparr>, sleep_queue = \<lparr>lh_head = NULL, lh_tail = NULL\<rparr>,
     current_tcb = main_tcb l, current_context = main_tcb l, timer_ticks = 0,
     putc_buffer = q_new (replicate IO_BUFFER_SIZE 0), getc_buffer = q_new (replicate IO_BUFFER_SIZE 0),
     cpu_of = c, user_cells = cells(flush_tcb_cell l := 0), tx_out = []\<rparr>"

end
