(* ===== verification/Context_Switch.thy ===== *)
theory Context_Switch
  imports Kernel_State
begin

text \<open>
  src/k_scheduler.cpp and yield of src/k_tcb.cpp: the ready queue, and the switch to another
  thread.  \<open>yield\<close> takes as an extra argument what its caller does after the call
  returns; k_save_context stores it in the old thread's \<open>resume\<close>.
\<close>

section \<open>The ready queue\<close>

definition next_tcb :: "kstate \<Rightarrow> addr \<times> kstate" where
  "next_tcb k =
     (let (t, l, h) = list_take_first (sched_queue k) (tcbs k)
      in (t, k\<lparr>tcbs := h, sched_queue := l\<rparr>))"

definition put_tcb :: "addr \<Rightarrow> kstate \<Rightarrow> kstate option" where
  "put_tcb t k =
     (if t \<noteq> NULL then do {
        k1 \<leftarrow> upd_tcb t (status_update (\<lambda>_. READY)) k;
        (l, h) \<leftarrow> list_add_last t (sched_queue k1) (tcbs k1);
        Some (k1\<lparr>tcbs := h, sched_queue := l\<rparr>)
      }
      else Some k)"

section \<open>Switching\<close>

definition save_context :: "kcont \<Rightarrow> addr \<Rightarrow> kstate \<Rightarrow> kstate option" where
  "save_context cont t k = do {
     k1 \<leftarrow> upd_tcb t (\<lambda>x. x\<lparr>tcontext := fst (k_save_context (cpu_of k) (tcontext x)), resume := cont\<rparr>) k;
     Some (k1\<lparr>cpu_of := snd (k_save_context (cpu_of k) (tcontext (tcbs k t)))\<rparr>)
   }"

definition yield :: "kcont \<Rightarrow> addr \<Rightarrow> addr \<Rightarrow> kstate \<Rightarrow> (unit flow \<times> kstate) option" where
  "yield cont old_tcb new_tcb k = do {
     k1 \<leftarrow> (if old_tcb \<noteq> NULL then save_context cont old_tcb k else Some k);
     (if new_tcb \<noteq> NULL then do {
        k2 \<leftarrow> upd_tcb new_tcb (status_update (\<lambda>_. RUNNING)) k1;
        let k3 = k2\<lparr>current_context := current_tcb k2\<rparr>;
        Some (Switches, k3\<lparr>cpu_of := k_restore_context (tcontext (tcbs k3 new_tcb)) (cpu_of k3)\<rparr>)
      }
      else Some (Returns (), k1))
   }"

end
