(* ===== verification/Semaphores.thy ===== *)
theory Semaphores
  imports Context_Switch
begin

text \<open>
  src/k_sem.cpp and h/k_sem.hpp.  The counter is a 32-bit word read as a signed integer.
  \<open>sem_wait\<close> is split where the thread switches away: the part after block() is
  \<open>sem_wait_return\<close>, which runs when block() returns or when the thread is resumed.
\<close>

abbreviation (input) UNBLOCK_FAIL :: int where "UNBLOCK_FAIL \<equiv> -1"
abbreviation (input) UNBLOCK_SUCCESS :: int where "UNBLOCK_SUCCESS \<equiv> 0"
abbreviation (input) WAIT_FAIL :: int where "WAIT_FAIL \<equiv> -1"
abbreviation (input) WAIT_SUCCESS :: int where "WAIT_SUCCESS \<equiv> 0"
abbreviation (input) SIGNAL_SUCCESS :: int where "SIGNAL_SUCCESS \<equiv> 0"
abbreviation (input) CLOSE_SUCCESS :: int where "CLOSE_SUCCESS \<equiv> 0"

definition sem_initialize :: "addr \<Rightarrow> 32 word \<Rightarrow> kstate \<Rightarrow> kstate option" where
  "sem_initialize s v k =
     upd_sem s (\<lambda>x. x\<lparr>sem_value := v, suspended := list_initialize (suspended x)\<rparr>) k"

definition create_sem :: "32 word \<Rightarrow> kstate \<Rightarrow> (addr \<times> kstate) option" where
  "create_sem v k = do {
     (new_sem, m) \<leftarrow> mem_alloc_blocks (to_blocks sizeof_Sem) (mem k);
     k1 \<leftarrow> sem_initialize new_sem v (k\<lparr>mem := m\<rparr>);
     Some (new_sem, k1)
   }"

definition free_sem :: "addr \<Rightarrow> kstate \<Rightarrow> (int \<times> kstate) option" where
  "free_sem s k = do {
     (r, m) \<leftarrow> mem_free_blocks s (mem k);
     Some (r, k\<lparr>mem := m\<rparr>)
   }"

definition sem_block :: "kcont \<Rightarrow> addr \<Rightarrow> kstate \<Rightarrow> (unit flow \<times> kstate) option" where
  "sem_block cont s k = do {
     let suspended_tcb = current_tcb k;
     k1 \<leftarrow> upd_tcb suspended_tcb (status_update (\<lambda>_. SUSPENDED)) k;
     (l, h) \<leftarrow> list_add_last suspended_tcb (suspended (sems k1 s)) (tcbs k1);
     k2 \<leftarrow> upd_sem s (suspended_update (\<lambda>_. l)) (k1\<lparr>tcbs := h\<rparr>);
     let (t, k3) = next_tcb k2;
     yield cont suspended_tcb t (k3\<lparr>current_tcb := t\<rparr>)
   }"

definition sem_wait_return :: "kstate \<Rightarrow> int option" where
  "sem_wait_return k = do {
     t \<leftarrow> deref (tcbs k) (current_tcb k);
     Some (if interrupted t then WAIT_FAIL else WAIT_SUCCESS)
   }"

definition sem_wait :: "kcont \<Rightarrow> addr \<Rightarrow> kstate \<Rightarrow> (int flow \<times> kstate) option" where
  "sem_wait cont s k = do {
     k1 \<leftarrow> upd_sem s (\<lambda>x. x\<lparr>sem_value := sem_value x - 1\<rparr>) k;
     (if sint (sem_value (sems k1 s)) < 0 then do {
        (f, k2) \<leftarrow> sem_block cont s k1;
        (case f of
           Returns _ \<Rightarrow> do { r \<leftarrow> sem_wait_return k2; Some (Returns r, k2) }
         | Switches \<Rightarrow> Some (Switches, k2)
         | Halts \<Rightarrow> Some (Halts, k2))
      }
      else Some (Returns WAIT_SUCCESS, k1))
   }"

definition sem_unblock :: "bool \<Rightarrow> addr \<Rightarrow> kstate \<Rightarrow> (int \<times> kstate) option" where
  "sem_unblock wait_error s k = do {
     let (t, l, h) = list_take_first (suspended (sems k s)) (tcbs k);
     k1 \<leftarrow> upd_sem s (suspended_update (\<lambda>_. l)) (k\<lparr>tcbs := h\<rparr>);
     (if t \<noteq> NULL then do {
        k2 \<leftarrow> upd_tcb t (interrupted_update (\<lambda>_. wait_error)) k1;
        k3 \<leftarrow> put_tcb t k2;
        Some (UNBLOCK_SUCCESS, k3)
      }
      else Some (UNBLOCK_FAIL, k1))
   }"

definition sem_signal :: "addr \<Rightarrow> kstate \<Rightarrow> (int \<times> kstate) option" where
  "sem_signal s k = do {
     k1 \<leftarrow> upd_sem s (\<lambda>x. x\<lparr>sem_value := sem_value x + 1\<rparr>) k;
     (if sint (sem_value (sems k1 s)) \<le> 0 then do {
        (r, k2) \<leftarrow> sem_unblock False s k1;
        Some (SIGNAL_SUCCESS, k2)
      }
      else Some (SIGNAL_SUCCESS, k1))
   }"

partial_function (option) sem_close :: "addr \<Rightarrow> kstate \<Rightarrow> (int \<times> kstate) option" where
  "sem_close s k = do {
     (r, k1) \<leftarrow> sem_unblock True s k;
     (if r = UNBLOCK_SUCCESS then sem_close s k1 else Some (CLOSE_SUCCESS, k1))
   }"

end
