(* ===== verification/Thread_Control.thy ===== *)
theory Thread_Control
  imports Semaphores
begin

text \<open>
  src/k_tcb.cpp: creating, freeing and dispatching threads, and what a resumed thread still has to
  do in the kernel.
\<close>

unbundle bit_operations_syntax

definition free_mem :: "addr \<Rightarrow> kstate \<Rightarrow> kstate option" where
  "free_mem p k = do { (r, m) \<leftarrow> mem_free_blocks p (mem k); Some (k\<lparr>mem := m\<rparr>) }"

definition free_tcb :: "addr \<Rightarrow> kstate \<Rightarrow> kstate option" where
  "free_tcb t k =
     (if t \<noteq> NULL \<and> t \<noteq> main_tcb (lay k) then do {
        k1 \<leftarrow> free_mem (usr_stack (tcbs k t) - DEFAULT_STACK_SIZE) k;
        k2 \<leftarrow> upd_tcb t (usr_stack_update (\<lambda>_. NULL)) k1;
        k3 \<leftarrow> free_mem (sys_stack (tcbs k2 t)) k2;
        k4 \<leftarrow> upd_tcb t (sys_stack_update (\<lambda>_. NULL)) k3;
        (r, k5) \<leftarrow> free_sem (join_sem (tcbs k4 t)) k4;
        k6 \<leftarrow> upd_tcb t (join_sem_update (\<lambda>_. NULL)) k5;
        free_mem t k6
      }
      else Some k)"

definition create_tcb :: "u64 \<Rightarrow> u64 \<Rightarrow> addr \<Rightarrow> kstate \<Rightarrow> (addr \<times> kstate) option" where
  "create_tcb bdy ags stack_space k =
     (if bdy \<noteq> 0 \<and> stack_space \<noteq> NULL then do {
        (t, m) \<leftarrow> mem_alloc_blocks (to_blocks sizeof_TCB) (mem k);
        let k0 = k\<lparr>mem := m\<rparr>;
        (if t = NULL then Some (NULL, k0)
         else do {
           k1 \<leftarrow> upd_tcb t (\<lambda>x. x\<lparr>sleep_for := 0, time_slice := DEFAULT_TIME_SLICE,
                    status := INITIALIZING, interrupted := False, body := bdy, args := ags,
                    nxt := NULL, prv := NULL, usr_stack := stack_space,
                    tcontext := (tcontext x)\<lparr>c_usr_sp := stack_space\<rparr>\<rparr>) k0;
           (st, m2) \<leftarrow> mem_alloc_blocks (to_blocks DEFAULT_STACK_SIZE) (mem k1);
           k2 \<leftarrow> upd_tcb t (sys_stack_update (\<lambda>_. st)) (k1\<lparr>mem := m2\<rparr>);
           (if st = NULL then do { k3 \<leftarrow> free_tcb t k2; Some (NULL, k3) }
            else do {
              k3 \<leftarrow> upd_tcb t (\<lambda>x. x\<lparr>tcontext := (tcontext x)\<lparr>
                       c_sys_sp := sys_stack x + DEFAULT_STACK_SIZE, c_tp := 0,
                       c_sstatus := csr_sstatus (cpu_of k2) OR push_bit 5 1,
                       c_ra := addr_k_tcb_start (lay k2)\<rparr>, resume := KStart\<rparr>) k2;
              (js, k4) \<leftarrow> create_sem 0 k3;
              k5 \<leftarrow> upd_tcb t (join_sem_update (\<lambda>_. js)) k4;
              (if js = NULL then do { k6 \<leftarrow> free_tcb t k5; Some (NULL, k6) }
               else Some (t, k5))
            })
         })
      }
      else Some (NULL, k))"

definition dispatch :: "kcont \<Rightarrow> kstate \<Rightarrow> (unit flow \<times> kstate) option" where
  "dispatch cont k = do {
     let previous_tcb = current_tcb k;
     (prev, k1) \<leftarrow>
       (if previous_tcb \<noteq> NULL \<and> status (tcbs k previous_tcb) = RUNNING
        then do { k1 \<leftarrow> put_tcb previous_tcb k; Some (previous_tcb, k1) }
        else if previous_tcb \<noteq> NULL \<and> status (tcbs k previous_tcb) = TERMINATING
        then do {
          k1 \<leftarrow> (if join_sem (tcbs k previous_tcb) \<noteq> NULL
                 then do { (r, k1) \<leftarrow> sem_close (join_sem (tcbs k previous_tcb)) k; Some k1 }
                 else Some k);
          k2 \<leftarrow> free_tcb previous_tcb k1;
          Some (NULL, k2)
        }
        else Some (previous_tcb, k));
     let (t, k2) = next_tcb k1;
     yield cont prev t (k2\<lparr>current_tcb := t\<rparr>)
   }"

end
