(* ===== verification/Sleep_Queue.thy ===== *)
theory Sleep_Queue
  imports Context_Switch
begin

text \<open>
  src/k_tcb_sleep_queue.cpp: the delta list of sleeping threads.  The first thread's
  \<open>sleep_for\<close> counts from now, every other thread's from its predecessor.
\<close>

text \<open>
  The search loop: it returns the thread before which the new one goes (NULL for the end of the
  queue) and \<open>total_time\<close> as it stands there, before the current thread's own
  \<open>sleep_for\<close> is added.
\<close>

partial_function (option) sleep_search ::
  "(addr \<Rightarrow> tcb) \<Rightarrow> u64 \<Rightarrow> addr \<Rightarrow> u64 \<Rightarrow> (addr \<times> u64) option" where
  "sleep_search h wanted cur total_time =
     (if cur \<noteq> NULL then
        (let total1 = total_time + sleep_for (h cur) in
         if wanted \<ge> total1 then sleep_search h wanted (nxt (h cur)) total1
         else Some (cur, total1 - sleep_for (h cur)))
      else Some (NULL, total_time))"

definition chain_sleeper :: "addr \<Rightarrow> addr \<Rightarrow> u64 \<Rightarrow> list_hd \<Rightarrow> (addr \<Rightarrow> tcb) \<Rightarrow> list_hd \<times> (addr \<Rightarrow> tcb)" where
  "chain_sleeper t cur total_time l h =
     (let h1 = h(t := (h t)\<lparr>nxt := cur, prv := prv (h cur)\<rparr>);
          p = prv (h1 t);
          (l1, h2) =
            (if p \<noteq> NULL
             then (l, let h' = h1(p := (h1 p)\<lparr>nxt := t\<rparr>) in
                      h'(t := (h' t)\<lparr>sleep_for := sleep_for (h' t) - total_time\<rparr>))
             else (l\<lparr>lh_head := t\<rparr>, h1));
          h3 = h2(cur := (h2 cur)\<lparr>sleep_for := sleep_for (h2 cur) - sleep_for (h2 t)\<rparr>)
      in (l1, h3(cur := (h3 cur)\<lparr>prv := t\<rparr>)))"

definition put_to_sleep :: "addr \<Rightarrow> u64 \<Rightarrow> kstate \<Rightarrow> kstate option" where
  "put_to_sleep t ticks k =
     (if t = NULL then Some k
      else do {
        k1 \<leftarrow> upd_tcb t (\<lambda>x. x\<lparr>sleep_for := ticks, status := SUSPENDED\<rparr>) k;
        let k2 = k1\<lparr>tcbs := list_unlink t (tcbs k1)\<rparr>;
        (if list_is_empty (sleep_queue k2) then
           (let (l, h) = list_set_first t (sleep_queue k2) (tcbs k2)
            in Some (k2\<lparr>tcbs := h, sleep_queue := l\<rparr>))
         else do {
           (cur, total) \<leftarrow> sleep_search (tcbs k2) (sleep_for (tcbs k2 t)) (lh_head (sleep_queue k2)) 0;
           let (l3, h3) = (if cur \<noteq> NULL then chain_sleeper t cur total (sleep_queue k2) (tcbs k2)
                           else (sleep_queue k2, tcbs k2));
           (if nxt (h3 t) = NULL then do {
              let h4 = h3(t := (h3 t)\<lparr>sleep_for := sleep_for (h3 t) - total\<rparr>);
              (l5, h5) \<leftarrow> list_add_last t l3 h4;
              Some (k2\<lparr>tcbs := h5, sleep_queue := l5\<rparr>)
            }
            else Some (k2\<lparr>tcbs := h3, sleep_queue := l3\<rparr>))
         })
      })"

partial_function (option) wake_expired :: "kstate \<Rightarrow> kstate option" where
  "wake_expired k =
     (if \<not> list_is_empty (sleep_queue k) \<and> sleep_for (tcbs k (list_peek_first (sleep_queue k))) \<le> 0
      then do {
        let (t, l, h) = list_take_first (sleep_queue k) (tcbs k);
        k1 \<leftarrow> put_tcb t (k\<lparr>tcbs := h, sleep_queue := l\<rparr>);
        wake_expired k1
      }
      else Some k)"

definition timer_tick :: "kstate \<Rightarrow> kstate option" where
  "timer_tick k =
     (if \<not> list_is_empty (sleep_queue k) then do {
        k1 \<leftarrow> upd_tcb (list_peek_first (sleep_queue k)) (\<lambda>x. x\<lparr>sleep_for := sleep_for x - 1\<rparr>) k;
        wake_expired k1
      }
      else Some k)"

end
