(* ===== verification/Trap_Handlers.thy ===== *)
theory Trap_Handlers
  imports Thread_Control Sleep_Queue
begin

unbundle bit_operations_syntax

text \<open>
  src/k_trap_handlers.cpp with the entry and exit code of src/k_traps.S and src/k_tcb_start.S: the
  console buffers, the system call dispatcher, and the timer and console interrupts.  The console's
  status and data registers are read through arguments: \<open>stat i\<close> is the value of the
  \<open>i\<close>-th read of the status register.
\<close>

section \<open>Constants of h/k_trap_handlers.hpp and h/k_syscall_codes.hpp\<close>

definition INSTRUCTION_SIZE :: u64 where "INSTRUCTION_SIZE = 4"
definition SCAUSE_ECALL_USER :: u64 where "SCAUSE_ECALL_USER = 8"
definition SCAUSE_ECALL_SUPERVISOR :: u64 where "SCAUSE_ECALL_SUPERVISOR = 9"
definition SCAUSE_ILLEGAL_INSTRUCTION :: u64 where "SCAUSE_ILLEGAL_INSTRUCTION = 2"
definition SCAUSE_LOAD_ACCESS_FAULT :: u64 where "SCAUSE_LOAD_ACCESS_FAULT = 5"
definition SCAUSE_STORE_AMO_ACCESS_FAULT :: u64 where "SCAUSE_STORE_AMO_ACCESS_FAULT = 7"
definition CONSOLE_TX_STATUS_BIT :: u8 where "CONSOLE_TX_STATUS_BIT = 0x20"
definition CONSOLE_RX_STATUS_BIT :: u8 where "CONSOLE_RX_STATUS_BIT = 1"

definition SUCCESS_SYSCALL :: u64 where "SUCCESS_SYSCALL = 0"
definition FAILED_SYSCALL :: u64 where "FAILED_SYSCALL = - 1"
definition MEM_ALLOC_CODE :: u64 where "MEM_ALLOC_CODE = 0x01"
definition MEM_FREE_CODE :: u64 where "MEM_FREE_CODE = 0x02"
definition CREATE_THREAD_CODE :: u64 where "CREATE_THREAD_CODE = 0x11"
definition THREAD_EXIT_CODE :: u64 where "THREAD_EXIT_CODE = 0x12"
definition THREAD_DISPATCH_CODE :: u64 where "THREAD_DISPATCH_CODE = 0x13"
definition THREAD_JOIN_CODE :: u64 where "THREAD_JOIN_CODE = 0x14"
definition SEM_OPEN_CODE :: u64 where "SEM_OPEN_CODE = 0x21"
definition SEM_CLOSE_CODE :: u64 where "SEM_CLOSE_CODE = 0x22"
definition SEM_WAIT_CODE :: u64 where "SEM_WAIT_CODE = 0x23"
definition SEM_SIGNAL_CODE :: u64 where "SEM_SIGNAL_CODE = 0x24"
definition TIME_SLEEP_CODE :: u64 where "TIME_SLEEP_CODE = 0x31"
definition GET_C_CODE :: u64 where "GET_C_CODE = 0x41"
definition PUT_C_CODE :: u64 where "PUT_C_CODE = 0x42"
definition USER_MODE_CODE :: u64 where "USER_MODE_CODE = 0xFF"

lemmas scause_defs = SCAUSE_ECALL_USER_def SCAUSE_ECALL_SUPERVISOR_def SCAUSE_ILLEGAL_INSTRUCTION_def
  SCAUSE_LOAD_ACCESS_FAULT_def SCAUSE_STORE_AMO_ACCESS_FAULT_def

lemmas syscall_code_defs = MEM_ALLOC_CODE_def MEM_FREE_CODE_def CREATE_THREAD_CODE_def
  THREAD_EXIT_CODE_def THREAD_DISPATCH_CODE_def THREAD_JOIN_CODE_def SEM_OPEN_CODE_def
  SEM_CLOSE_CODE_def SEM_WAIT_CODE_def SEM_SIGNAL_CODE_def TIME_SLEEP_CODE_def GET_C_CODE_def
  PUT_C_CODE_def USER_MODE_CODE_def

section \<open>The console buffers\<close>

partial_function (option) flush_loop :: "(nat \<Rightarrow> u8) \<Rightarrow> kstate \<Rightarrow> kstate option" where
  "flush_loop stat k =
     (if q_get_length (putc_buffer k) > 0 \<and> stat 0 AND CONSOLE_TX_STATUS_BIT \<noteq> 0
      then do {
        let (c, q) = q_get IO_BUFFER_SIZE (putc_buffer k);
        (r, k1) \<leftarrow> sem_signal (putc_sem (lay k)) (k\<lparr>tx_out := tx_out k @ [c], putc_buffer := q\<rparr>);
        flush_loop (\<lambda>i. stat (Suc i)) k1
      }
      else Some k)"

definition flush_putc_buffer :: "(nat \<Rightarrow> u8) \<Rightarrow> kstate \<Rightarrow> kstate option" where
  "flush_putc_buffer stat k = do {
     let sstatus_val = csr_sstatus (cpu_of k);
     k1 \<leftarrow> flush_loop stat
             (k\<lparr>cpu_of := (cpu_of k)\<lparr>csr_sstatus := sstatus_val AND NOT 0x02\<rparr>\<rparr>);
     Some (k1\<lparr>cpu_of := (cpu_of k1)\<lparr>csr_sstatus := sstatus_val\<rparr>\<rparr>)
   }"

definition fill_getc_buffer :: "kcont \<Rightarrow> u8 \<Rightarrow> u8 \<Rightarrow> kstate \<Rightarrow> (unit flow \<times> kstate) option" where
  "fill_getc_buffer cont stat data k =
     (if stat AND CONSOLE_RX_STATUS_BIT \<noteq> 0
      then (if q_get_length (getc_buffer k) < q_get_capacity IO_BUFFER_SIZE (getc_buffer k)
            then do {
              (r, k1) \<leftarrow> sem_signal (getc_sem (lay k))
                            (k\<lparr>getc_buffer := q_put IO_BUFFER_SIZE data (getc_buffer k)\<rparr>);
              dispatch cont k1
            }
            else Some (Returns (), k))
      else Some (Returns (), k))"

section \<open>System calls\<close>

definition set_a0 :: "u64 \<Rightarrow> kstate \<Rightarrow> kstate option" where
  "set_a0 v k = upd_tcb (current_context k) (\<lambda>x. x\<lparr>tcontext := (tcontext x)\<lparr>c_a0 := v\<rparr>\<rparr>) k"

definition int_to_u64 :: "int \<Rightarrow> u64" where
  "int_to_u64 i = word_of_int i"

definition prepare_user_mode :: "kstate \<Rightarrow> kstate" where
  "prepare_user_mode k =
     k\<lparr>cpu_of := (cpu_of k)\<lparr>csr_sstatus := csr_sstatus (cpu_of k) AND NOT (push_bit 8 1)\<rparr>\<rparr>"

text \<open>
  What k_handle_ecall does after the call that may switch threads has returned; a resumed thread
  continues here.
\<close>

definition after_wait :: "kcont \<Rightarrow> int \<Rightarrow> kstate \<Rightarrow> kstate option" where
  "after_wait cont r k =
     (case cont of
        KSemWait \<Rightarrow> set_a0 (int_to_u64 r) k
      | KGetC \<Rightarrow>
          (let (c, q) = q_get IO_BUFFER_SIZE (getc_buffer k)
           in set_a0 (ucast c) (k\<lparr>getc_buffer := q\<rparr>))
      | KPutC c \<Rightarrow> Some (k\<lparr>putc_buffer := q_put IO_BUFFER_SIZE c (putc_buffer k)\<rparr>)
      | _ \<Rightarrow> Some k)"

definition wait_then :: "kcont \<Rightarrow> addr \<Rightarrow> kstate \<Rightarrow> (unit flow \<times> kstate) option" where
  "wait_then cont s k = do {
     (f, k1) \<leftarrow> sem_wait cont s k;
     (case f of
        Returns r \<Rightarrow> do { k2 \<leftarrow> after_wait cont r k1; Some (Returns (), k2) }
      | Switches \<Rightarrow> Some (Switches, k1)
      | Halts \<Rightarrow> Some (Halts, k1))
   }"

abbreviation (input) done_call :: "kstate option \<Rightarrow> (unit flow \<times> kstate) option" where
  "done_call r \<equiv> map_option (Pair (Returns ())) r"

definition handle_create_thread :: "addr \<Rightarrow> u64 \<Rightarrow> u64 \<Rightarrow> addr \<Rightarrow> kstate \<Rightarrow> kstate option" where
  "handle_create_thread p0 p1 p2 p3 k =
     (if p0 \<noteq> NULL then do {
        (t, k1) \<leftarrow> create_tcb p1 p2 p3 k;
        let k2 = k1\<lparr>user_cells := (user_cells k1)(p0 := t)\<rparr>;
        (if t \<noteq> NULL then do { k3 \<leftarrow> put_tcb t k2; set_a0 SUCCESS_SYSCALL k3 } else Some k2)
      }
      else Some k)"

definition handle_sem_open :: "addr \<Rightarrow> u64 \<Rightarrow> kstate \<Rightarrow> kstate option" where
  "handle_sem_open p0 p1 k =
     (if p0 \<noteq> NULL then do {
        (s, k1) \<leftarrow> create_sem (ucast p1) k;
        let k2 = k1\<lparr>user_cells := (user_cells k1)(p0 := s)\<rparr>;
        (if s \<noteq> NULL then set_a0 SUCCESS_SYSCALL k2 else Some k2)
      }
      else Some k)"

definition handle_sem_close :: "addr \<Rightarrow> kstate \<Rightarrow> kstate option" where
  "handle_sem_close p0 k =
     (if p0 \<noteq> NULL then do {
        (temp_val, k1) \<leftarrow> sem_close p0 k;
        (r, k2) \<leftarrow> free_sem p0 k1;
        (if r = MEM_SUCCESS then set_a0 (int_to_u64 temp_val) k2 else Some k2)
      }
      else Some k)"

definition syscall ::
  "u64 \<Rightarrow> u64 \<Rightarrow> u64 \<Rightarrow> u64 \<Rightarrow> u64 \<Rightarrow> kstate \<Rightarrow> (unit flow \<times> kstate) option" where
  "syscall code p0 p1 p2 p3 k =
     (if code = MEM_ALLOC_CODE then do {
        (p, m) \<leftarrow> mem_alloc_blocks (ucast p0) (mem k);
        done_call (set_a0 p (k\<lparr>mem := m\<rparr>))
      }
      else if code = MEM_FREE_CODE then do {
        (r, m) \<leftarrow> mem_free_blocks p0 (mem k);
        done_call (set_a0 (int_to_u64 r) (k\<lparr>mem := m\<rparr>))
      }
      else if code = CREATE_THREAD_CODE then done_call (handle_create_thread p0 p1 p2 p3 k)
      else if code = THREAD_EXIT_CODE then
        (if current_tcb k \<noteq> main_tcb (lay k) then do {
           k1 \<leftarrow> upd_tcb (current_tcb k) (status_update (\<lambda>_. TERMINATING)) k;
           k2 \<leftarrow> set_a0 SUCCESS_SYSCALL k1;
           dispatch KDispatch k2
         }
         else Some (Returns (), k))
      else if code = THREAD_DISPATCH_CODE then dispatch KDispatch k
      else if code = THREAD_JOIN_CODE then
        (if p0 \<noteq> NULL \<and> join_sem (tcbs k p0) \<noteq> NULL then wait_then KJoin (join_sem (tcbs k p0)) k
         else Some (Returns (), k))
      else if code = SEM_OPEN_CODE then done_call (handle_sem_open p0 p1 k)
      else if code = SEM_CLOSE_CODE then done_call (handle_sem_close p0 k)
      else if code = SEM_WAIT_CODE then
        (if p0 \<noteq> NULL then wait_then KSemWait p0 k else Some (Returns (), k))
      else if code = SEM_SIGNAL_CODE then
        (if p0 \<noteq> NULL then do {
           (r, k1) \<leftarrow> sem_signal p0 k;
           done_call (set_a0 (int_to_u64 r) k1)
         }
         else Some (Returns (), k))
      else if code = TIME_SLEEP_CODE then
        (if p0 > 0 then do {
           k1 \<leftarrow> put_to_sleep (current_tcb k) p0 k;
           k2 \<leftarrow> set_a0 SUCCESS_SYSCALL k1;
           dispatch KDispatch k2
         }
         else Some (Returns (), k))
      else if code = GET_C_CODE then wait_then KGetC (getc_sem (lay k)) k
      else if code = PUT_C_CODE then wait_then (KPutC (ucast p0)) (putc_sem (lay k)) k
      else if code = USER_MODE_CODE then done_call (set_a0 SUCCESS_SYSCALL (prepare_user_mode k))
      else Some (Returns (), k))"

section \<open>The panic path\<close>

definition put_chars :: "u8 list \<Rightarrow> kstate \<Rightarrow> kstate" where
  "put_chars cs k = k\<lparr>putc_buffer := fold (q_put IO_BUFFER_SIZE) cs (putc_buffer k)\<rparr>"

definition chars_of :: "string \<Rightarrow> u8 list" where
  "chars_of s = map (\<lambda>c. of_nat (of_char c)) s"

definition panic_message :: "u64 \<Rightarrow> u8 list" where
  "panic_message scause_val =
     (let message_idx = (scause_val - 2) div 2 in
      if message_idx = 0 then chars_of ''KERNEL PANIC! ILLEGAL INSTRUCTION AT: ''
      else if message_idx = 1 then chars_of ''KERNEL PANIC! ILLEGAL READ OPERATION AT: ''
      else chars_of ''KERNEL PANIC! ILLEGAL WRITE OPERATION AT: '')"

text \<open>\<open>stat1\<close> and \<open>stat2\<close> are the status registers seen by the two flushes.\<close>

definition kernel_panic ::
  "(nat \<Rightarrow> u8) \<Rightarrow> (nat \<Rightarrow> u8) \<Rightarrow> u64 \<Rightarrow> u64 \<Rightarrow> kstate \<Rightarrow> (unit flow \<times> kstate) option" where
  "kernel_panic stat1 stat2 scause_val sepc_val k = do {
     k1 \<leftarrow> flush_putc_buffer stat1 k;
     let k2 = put_chars (panic_message scause_val) k1;
     let k3 = put_chars (decimal_chars sepc_val) k2;
     let k4 = put_chars [10] k3;
     k5 \<leftarrow> flush_putc_buffer stat2 k4;
     Some (Halts, k5)
   }"

definition k_handle_ecall ::
  "(nat \<Rightarrow> u8) \<Rightarrow> (nat \<Rightarrow> u8) \<Rightarrow> u64 \<Rightarrow> u64 \<Rightarrow> u64 \<Rightarrow> u64 \<Rightarrow> u64 \<Rightarrow> kstate \<Rightarrow>
   (unit flow \<times> kstate) option" where
  "k_handle_ecall stat1 stat2 syscall_code p0 p1 p2 p3 k =
     (let scause_val = csr_scause (cpu_of k);
          sepc_val = csr_sepc (cpu_of k)
      in if scause_val = SCAUSE_ECALL_USER \<or> scause_val = SCAUSE_ECALL_SUPERVISOR
         then do {
           let c = (cpu_of k)\<lparr>csr_sepc := sepc_val + INSTRUCTION_SIZE\<rparr>;
           let c' = c\<lparr>csr_sip := csr_sip c AND NOT 0x02\<rparr>;
           k1 \<leftarrow> set_a0 FAILED_SYSCALL (k\<lparr>cpu_of := c'\<rparr>);
           syscall syscall_code p0 p1 p2 p3 k1
         }
         else if scause_val = SCAUSE_ILLEGAL_INSTRUCTION \<or> scause_val = SCAUSE_LOAD_ACCESS_FAULT \<or>
                 scause_val = SCAUSE_STORE_AMO_ACCESS_FAULT
         then kernel_panic stat1 stat2 scause_val sepc_val k
         else Some (Returns (), k))"

section \<open>Interrupts\<close>

definition k_handle_timer :: "kstate \<Rightarrow> (unit flow \<times> kstate) option" where
  "k_handle_timer k = do {
     let c = cpu_of k;
     k1 \<leftarrow> timer_tick (k\<lparr>cpu_of := c\<lparr>csr_sip := csr_sip c AND NOT 0x02\<rparr>\<rparr>);
     let k2 = k1\<lparr>timer_ticks := timer_ticks k1 + 1\<rparr>;
     t \<leftarrow> deref (tcbs k2) (current_tcb k2);
     (if timer_ticks k2 \<ge> time_slice t then dispatch KInterrupt k2 else Some (Returns (), k2))
   }"

text \<open>plic_claim and plic_complete belong to the board's library; they do not touch this state.\<close>

definition k_handle_console :: "u8 \<Rightarrow> u8 \<Rightarrow> kstate \<Rightarrow> (unit flow \<times> kstate) option" where
  "k_handle_console stat data k =
     (let c = cpu_of k
      in fill_getc_buffer KInterrupt stat data (k\<lparr>cpu_of := c\<lparr>csr_sip := csr_sip c AND NOT 0x200\<rparr>\<rparr>))"

section \<open>Trap entry and exit\<close>

text \<open>
  k_traps.S: on entry the stack pointers are exchanged through the current context and the other
  general registers go to the kernel stack, here the field \<open>trap_frame\<close> of the thread (a
  thread has at most one frame, since interrupts are off in a trap).  On exit the frame is loaded
  back; a system call then takes a0 from the context.
\<close>

definition trap_frame_size :: u64 where "trap_frame_size = 240"

definition trap_enter :: "kstate \<Rightarrow> kstate option" where
  "trap_enter k = do {
     let c = cpu_of k;
     k1 \<leftarrow> upd_tcb (current_context k)
             (\<lambda>x. x\<lparr>tcontext := (tcontext x)\<lparr>c_usr_sp := regs c X_sp\<rparr>, trap_frame := regs c\<rparr>) k;
     let sp = c_sys_sp (tcontext (tcbs k1 (current_context k))) - trap_frame_size;
     Some (k1\<lparr>cpu_of := c\<lparr>regs := (regs c)(X_sp := sp)\<rparr>\<rparr>)
   }"

definition trap_exit :: "bool \<Rightarrow> kstate \<Rightarrow> kstate option" where
  "trap_exit ecall k = do {
     let c = cpu_of k;
     let sp = regs c X_sp + trap_frame_size;
     k1 \<leftarrow> upd_tcb (current_context k) (\<lambda>x. x\<lparr>tcontext := (tcontext x)\<lparr>c_sys_sp := sp\<rparr>\<rparr>) k;
     let t = tcbs k1 (current_context k);
     let r = (trap_frame t)(X_sp := c_usr_sp (tcontext t));
     Some (k1\<lparr>cpu_of := c\<lparr>regs := (if ecall then r(X_a0 := c_a0 (tcontext t)) else r)\<rparr>\<rparr>)
   }"

text \<open>k_tcb_start.S: a new thread leaves the trap straight into k_tcb_run_wrapper.\<close>

definition k_tcb_start :: "u64 \<Rightarrow> kstate \<Rightarrow> kstate option" where
  "k_tcb_start run_wrapper k = do {
     let c = cpu_of k;
     k1 \<leftarrow> upd_tcb (current_context k) (\<lambda>x. x\<lparr>tcontext := (tcontext x)\<lparr>c_sys_sp := regs c X_sp\<rparr>\<rparr>) k;
     let sp = c_usr_sp (tcontext (tcbs k1 (current_context k)));
     Some (k1\<lparr>cpu_of := c\<lparr>regs := (regs c)(X_sp := sp, X_ra := run_wrapper), csr_sepc := run_wrapper\<rparr>\<rparr>)
   }"

section \<open>Resuming a thread\<close>

text \<open>
  After a switch the processor runs the new thread's suspended code: k_tcb_start for a new thread,
  and otherwise the end of yield (which resets the tick counter), the rest of the interrupted
  handler, and the exit of the trap that the thread had entered.
\<close>

definition resume_current :: "u64 \<Rightarrow> kstate \<Rightarrow> kstate option" where
  "resume_current run_wrapper k = do {
     t \<leftarrow> deref (tcbs k) (current_tcb k);
     (let k1 = k\<lparr>timer_ticks := 0\<rparr> in
      case resume t of
        KStart \<Rightarrow> k_tcb_start run_wrapper k
      | KInterrupt \<Rightarrow> trap_exit False k1
      | KDispatch \<Rightarrow> trap_exit True k1
      | cont \<Rightarrow> do {
          r \<leftarrow> sem_wait_return k1;
          k2 \<leftarrow> after_wait cont r k1;
          trap_exit True k2
        })
   }"

definition leave_trap :: "u64 \<Rightarrow> bool \<Rightarrow> unit flow \<times> kstate \<Rightarrow> (unit flow \<times> kstate) option" where
  "leave_trap run_wrapper ecall r =
     (case fst r of
        Returns _ \<Rightarrow> done_call (trap_exit ecall (snd r))
      | Switches \<Rightarrow> done_call (resume_current run_wrapper (snd r))
      | Halts \<Rightarrow> Some r)"

definition k_ecall_trap ::
  "u64 \<Rightarrow> (nat \<Rightarrow> u8) \<Rightarrow> (nat \<Rightarrow> u8) \<Rightarrow> kstate \<Rightarrow> (unit flow \<times> kstate) option" where
  "k_ecall_trap run_wrapper stat1 stat2 k = do {
     k1 \<leftarrow> trap_enter k;
     let r = regs (cpu_of k1);
     res \<leftarrow> k_handle_ecall stat1 stat2 (r X_a0) (r X_a1) (r X_a2) (r X_a3) (r X_a4) k1;
     leave_trap run_wrapper True res
   }"

definition k_timer_trap :: "u64 \<Rightarrow> kstate \<Rightarrow> (unit flow \<times> kstate) option" where
  "k_timer_trap run_wrapper k = do {
     k1 \<leftarrow> trap_enter k;
     res \<leftarrow> k_handle_timer k1;
     leave_trap run_wrapper False res
   }"

definition k_console_trap :: "u64 \<Rightarrow> u8 \<Rightarrow> u8 \<Rightarrow> kstate \<Rightarrow> (unit flow \<times> kstate) option" where
  "k_console_trap run_wrapper stat data k = do {
     k1 \<leftarrow> trap_enter k;
     res \<leftarrow> k_handle_console stat data k1;
     leave_trap run_wrapper False res
   }"

end
