(* ===== verification/Kernel_Frame.thy ===== *)
theory Kernel_Frame
  imports Trap_Handlers
begin

text \<open>
  What the operations of the kernel leave alone, whatever state they run in:
  \<open>frame X k k'\<close> says that between \<open>k\<close> and \<open>k'\<close> the heap and the
  layout are unchanged, every thread keeps its stacks, its join semaphore and its time slice, and every thread outside
  \<open>X\<close> keeps its whole saved part, that is everything but its place in a queue, its status,
  its sleeping time and the flag of an interrupted wait.
\<close>

definition regions_of :: "tcb \<Rightarrow> addr \<times> addr \<times> addr \<times> u64" where
  "regions_of x = (usr_stack x, sys_stack x, join_sem x, time_slice x)"

definition saved :: "tcb \<Rightarrow> reg_context \<times> u64 \<times> u64 \<times> u64 \<times> kcont \<times> (gpr \<Rightarrow> u64)" where
  "saved x = (tcontext x, time_slice x, body x, args x, resume x, trap_frame x)"

lemma saved_upd [simp]:
  "saved (status_update f x) = saved x" "saved (sleep_for_update g x) = saved x"
  "saved (interrupted_update b x) = saved x" "saved (nxt_update n x) = saved x" "saved (prv_update n x) = saved x"
  "regions_of (status_update f x) = regions_of x" "regions_of (sleep_for_update g x) = regions_of x"
  "regions_of (interrupted_update b x) = regions_of x" "regions_of (nxt_update n x) = regions_of x"
  "regions_of (prv_update n x) = regions_of x" "regions_of (tcontext_update c x) = regions_of x"
  "regions_of (resume_update r x) = regions_of x" "regions_of (trap_frame_update t x) = regions_of x"
  by (simp_all add: saved_def regions_of_def)

definition heap_frame :: "addr set \<Rightarrow> (addr \<Rightarrow> tcb) \<Rightarrow> (addr \<Rightarrow> tcb) \<Rightarrow> bool" where
  "heap_frame X h h' \<longleftrightarrow> (\<forall>p. regions_of (h' p) = regions_of (h p)) \<and> (\<forall>p. p \<notin> X \<longrightarrow> saved (h' p) = saved (h p))"

definition frame :: "addr set \<Rightarrow> kstate \<Rightarrow> kstate \<Rightarrow> bool" where
  "frame X k k' \<longleftrightarrow> mem k' = mem k \<and> lay k' = lay k \<and> heap_frame X (tcbs k) (tcbs k')"

lemma frame_refl [simp, intro]: "frame X k k"
  by (simp add: frame_def heap_frame_def)

lemma frame_trans: "frame X k k1 \<Longrightarrow> frame Y k1 k2 \<Longrightarrow> frame (X \<union> Y) k k2"
  by (simp add: frame_def heap_frame_def)

lemma frame_trans_same: "frame X k k1 \<Longrightarrow> frame X k1 k2 \<Longrightarrow> frame X k k2"
  using frame_trans [of X k k1 X k2] by simp

lemma frame_mono: "frame X k k' \<Longrightarrow> X \<subseteq> Y \<Longrightarrow> frame Y k k'"
  by (auto simp: frame_def heap_frame_def)

lemma frame_fields [simp]:
  "frame X k (k'\<lparr>sems := s\<rparr>) = frame X k k'" "frame X k (k'\<lparr>sched_queue := q\<rparr>) = frame X k k'"
  "frame X k (k'\<lparr>sleep_queue := q\<rparr>) = frame X k k'" "frame X k (k'\<lparr>current_tcb := t\<rparr>) = frame X k k'"
  "frame X k (k'\<lparr>current_context := t\<rparr>) = frame X k k'" "frame X k (k'\<lparr>timer_ticks := n\<rparr>) = frame X k k'"
  "frame X k (k'\<lparr>putc_buffer := b\<rparr>) = frame X k k'" "frame X k (k'\<lparr>getc_buffer := b\<rparr>) = frame X k k'"
  "frame X k (k'\<lparr>cpu_of := c\<rparr>) = frame X k k'" "frame X k (k'\<lparr>user_cells := u\<rparr>) = frame X k k'"
  "frame X k (k'\<lparr>tx_out := out\<rparr>) = frame X k k'"
  "frame X (k\<lparr>cpu_of := c\<rparr>) k' = frame X k k'" "frame X (k\<lparr>user_cells := u\<rparr>) k' = frame X k k'"
  "frame X (k\<lparr>getc_buffer := b\<rparr>) k' = frame X k k'" "frame X (k\<lparr>putc_buffer := b\<rparr>) k' = frame X k k'"
  "frame X (k\<lparr>timer_ticks := n\<rparr>) k' = frame X k k'" "frame X (k\<lparr>current_tcb := t\<rparr>) k' = frame X k k'"
  "frame X (k\<lparr>sems := s\<rparr>) k' = frame X k k'"
  by (simp_all add: frame_def)

lemma frame_tcbs: "heap_frame X (tcbs k) h \<Longrightarrow> frame X k (k\<lparr>tcbs := h\<rparr>)"
  by (simp add: frame_def)

lemma heap_frame_refl [simp, intro]: "heap_frame X h h"
  by (simp add: heap_frame_def)

lemma heap_frame_trans: "heap_frame X h h1 \<Longrightarrow> heap_frame X h1 h2 \<Longrightarrow> heap_frame X h h2"
  by (simp add: heap_frame_def)

lemma heap_frame_upd:
  "heap_frame X h h' \<Longrightarrow> regions_of x = regions_of (h' p) \<Longrightarrow> p \<in> X \<or> saved x = saved (h' p) \<Longrightarrow>
   heap_frame X h (h'(p := x))"
  by (auto simp: heap_frame_def)

lemma upd_tcb_frame:
  assumes "upd_tcb p f k = Some k'" "\<And>x. regions_of (f x) = regions_of x" "p \<in> X \<or> (\<forall>x. saved (f x) = saved x)"
  shows "frame X k k'"
  using assms by (cases "p = NULL") (auto intro!: frame_tcbs heap_frame_upd)

lemma upd_sem_frame: "upd_sem p f k = Some k' \<Longrightarrow> frame X k k'"
  by (cases "p = NULL") auto

section \<open>The lists\<close>

lemma store_at_frame:
  "store_at p f h = Some h' \<Longrightarrow> (\<And>x. regions_of (f x) = regions_of x) \<Longrightarrow> (\<And>x. saved (f x) = saved x) \<Longrightarrow>
   heap_frame X h h'"
  by (cases "p = NULL") (auto simp: store_at_def intro!: heap_frame_upd)

lemma list_unlink_frame: "heap_frame X h (list_unlink t h)"
  by (auto simp: list_unlink_def intro!: heap_frame_upd)

lemma list_set_first_frame: "list_set_first t l h = (l', h') \<Longrightarrow> heap_frame X h h'"
  using list_unlink_frame by (auto simp: list_set_first_def split: if_splits)

lemma list_add_last_frame:
  assumes "list_add_last t l h = Some (l', h')"
  shows "heap_frame X h h'"
proof -
  have s: "heap_frame X h1 h2" if "store_at p (nxt_update g) h1 = Some h2" for p g h1 h2
    using store_at_frame [OF that] by simp
  have u: "heap_frame X h (h(t := (h t)\<lparr>nxt := a, prv := b\<rparr>))" for a b
    by (rule heap_frame_upd) simp_all
  show ?thesis
    using assms list_set_first_frame [where X = X] heap_frame_trans [OF u s]
    by (auto simp: list_add_last_def split: if_splits bind_splits)
qed

lemma list_take_first_frame:
  assumes "list_take_first l h = (t, l', h')"
  shows "heap_frame X h h'"
proof -
  have "heap_frame X h (h(p := (h p)\<lparr>prv := b\<rparr>))" for p b by (rule heap_frame_upd) simp_all
  then show ?thesis
    using assms heap_frame_trans [OF _ list_unlink_frame] list_unlink_frame
    by (auto simp: list_take_first_def Let_def split: if_splits prod.splits)
qed

section \<open>Scheduling\<close>

lemma next_tcb_frame: "next_tcb k = (t, k') \<Longrightarrow> frame X k k'"
  using list_take_first_frame by (auto simp: next_tcb_def intro!: frame_tcbs split: prod.splits)

lemma put_tcb_frame:
  assumes "put_tcb t k = Some k'"
  shows "frame X k k'"
proof (cases "t = NULL")
  case False
  then obtain k1 l h where u: "upd_tcb t (status_update (\<lambda>_. READY)) k = Some k1"
    "list_add_last t (sched_queue k1) (tcbs k1) = Some (l, h)" "k' = k1\<lparr>tcbs := h, sched_queue := l\<rparr>"
    using assms by (auto simp: put_tcb_def split: bind_splits)
  have "frame X k k1" by (rule upd_tcb_frame [OF u(1)]) simp_all
  moreover have "frame X k1 k'" using list_add_last_frame [OF u(2)] u(3) by (simp add: frame_tcbs)
  ultimately show ?thesis by (rule frame_trans_same)
qed (use assms in \<open>simp add: put_tcb_def\<close>)

lemma save_context_frame:
  assumes "save_context cont t k = Some k'"
  shows "frame {t} k k'"
  using assms by (cases "t = NULL") (auto simp: save_context_def intro!: frame_tcbs heap_frame_upd)

lemma yield_frame:
  assumes "yield cont old new k = Some (f, k')"
  shows "frame {old} k k'"
proof -
  obtain k1 where k1: "(if old \<noteq> NULL then save_context cont old k else Some k) = Some k1"
    using assms by (auto simp: yield_def split: bind_splits)
  then have "frame {old} k k1" using save_context_frame by (auto split: if_splits)
  moreover have "frame {old} k1 k'"
    using assms k1 by (auto simp: yield_def Let_def intro!: frame_tcbs heap_frame_upd split: if_splits bind_splits)
  ultimately show ?thesis by (rule frame_trans_same)
qed

lemma switch_away_frame:
  assumes "(let (t, k1) = next_tcb k in yield cont old t (k1\<lparr>current_tcb := t\<rparr>)) = Some (f, k')"
  shows "frame {old} k k'"
proof -
  obtain t k1 where n: "next_tcb k = (t, k1)" by (cases "next_tcb k")
  have "frame {old} (k1\<lparr>current_tcb := t\<rparr>) k'" using assms n by (intro yield_frame [of cont old t]) simp
  then show ?thesis using frame_trans_same [OF next_tcb_frame [OF n]] by simp
qed

lemma dispatch_frame:
  assumes "dispatch cont k = Some (f, k')" "status (tcbs k (current_tcb k)) \<noteq> TERMINATING"
  shows "frame {current_tcb k} k k'"
proof (cases "current_tcb k \<noteq> NULL \<and> status (tcbs k (current_tcb k)) = RUNNING")
  case True
  then obtain k1 where k1: "put_tcb (current_tcb k) k = Some k1"
    "(let (t, k2) = next_tcb k1 in yield cont (current_tcb k) t (k2\<lparr>current_tcb := t\<rparr>)) = Some (f, k')"
    using assms(1) by (auto simp: dispatch_def Let_def split: bind_splits)
  show ?thesis using frame_trans_same [OF put_tcb_frame [OF k1(1)] switch_away_frame [OF k1(2)]] .
next
  case False
  then have "(let (t, k2) = next_tcb k in yield cont (current_tcb k) t (k2\<lparr>current_tcb := t\<rparr>)) = Some (f, k')"
    using assms by (auto simp: dispatch_def)
  then show ?thesis by (rule switch_away_frame)
qed

section \<open>Semaphores\<close>

lemma sem_block_frame:
  assumes "sem_block cont s k = Some (f, k')"
  shows "frame {current_tcb k} k k'"
proof -
  let ?t = "current_tcb k"
  obtain k1 l h k2 where s: "upd_tcb ?t (status_update (\<lambda>_. SUSPENDED)) k = Some k1"
    "list_add_last ?t (suspended (sems k1 s)) (tcbs k1) = Some (l, h)"
    "upd_sem s (suspended_update (\<lambda>_. l)) (k1\<lparr>tcbs := h\<rparr>) = Some k2"
    "(let (t, k3) = next_tcb k2 in yield cont ?t t (k3\<lparr>current_tcb := t\<rparr>)) = Some (f, k')"
    using assms by (clarsimp simp: sem_block_def Option.bind_eq_Some_conv Let_def)
  have 1: "frame {?t} k k1" by (rule upd_tcb_frame [OF s(1)]) simp_all
  have 2: "frame {?t} k1 (k1\<lparr>tcbs := h\<rparr>)" using list_add_last_frame [OF s(2)] by (rule frame_tcbs)
  show ?thesis
    using frame_trans_same [OF frame_trans_same [OF 1 2] frame_trans_same [OF upd_sem_frame [OF s(3)] switch_away_frame [OF s(4)]]] .
qed

lemma upd_sem_keeps: "upd_sem s f k = Some k' \<Longrightarrow> tcbs k' = tcbs k \<and> current_tcb k' = current_tcb k"
  by (cases "s = NULL") auto

lemma sem_wait_frame:
  assumes "sem_wait cont s k = Some (f, k')"
  shows "frame {current_tcb k} k k'"
proof -
  obtain k1 where u: "upd_sem s (\<lambda>x. x\<lparr>sem_value := sem_value x - 1\<rparr>) k = Some k1"
    using assms by (auto simp: sem_wait_def split: bind_splits)
  then have 1: "frame {current_tcb k} k k1" "current_tcb k1 = current_tcb k"
    using upd_sem_frame upd_sem_keeps by auto
  show ?thesis
  proof (cases "sint (sem_value (sems k1 s)) < 0")
    case True
    then obtain g k2 where b: "sem_block cont s k1 = Some (g, k2)" "k' = k2"
      using assms u by (auto simp: sem_wait_def split: bind_splits flow.splits)
    show ?thesis using frame_trans_same [OF 1(1)] sem_block_frame [OF b(1)] b(2) 1(2) by simp
  qed (use assms u 1 in \<open>simp add: sem_wait_def\<close>)
qed

lemma sem_unblock_frame:
  assumes "sem_unblock err s k = Some (r, k')"
  shows "frame X k k'"
proof -
  obtain t l h k1 where s: "list_take_first (suspended (sems k s)) (tcbs k) = (t, l, h)"
    "upd_sem s (suspended_update (\<lambda>_. l)) (k\<lparr>tcbs := h\<rparr>) = Some k1"
    using assms by (cases "list_take_first (suspended (sems k s)) (tcbs k)")
      (auto simp: sem_unblock_def split: bind_splits prod.splits)
  have 1: "frame X k k1"
    using frame_trans_same [OF frame_tcbs [OF list_take_first_frame [OF s(1)]] upd_sem_frame [OF s(2)]] .
  show ?thesis
  proof (cases "t = NULL")
    case False
    then obtain k2 where k2: "upd_tcb t (interrupted_update (\<lambda>_. err)) k1 = Some k2" "put_tcb t k2 = Some k'"
      using assms s by (auto simp: sem_unblock_def split: bind_splits)
    have "frame X k1 k2" by (rule upd_tcb_frame [OF k2(1)]) simp_all
    then show ?thesis using 1 put_tcb_frame [OF k2(2)] frame_trans_same by metis
  qed (use assms s 1 in \<open>auto simp: sem_unblock_def\<close>)
qed

lemma sem_signal_frame:
  assumes "sem_signal s k = Some (r, k')"
  shows "frame X k k'"
proof -
  obtain k1 where u: "upd_sem s (\<lambda>x. x\<lparr>sem_value := sem_value x + 1\<rparr>) k = Some k1"
    using assms by (auto simp: sem_signal_def split: bind_splits)
  have "frame X k1 k'"
    using assms u sem_unblock_frame by (auto simp: sem_signal_def split: if_splits bind_splits)
  then show ?thesis using frame_trans_same [OF upd_sem_frame [OF u]] by simp
qed

text \<open>close loops; the frame holds by induction on its graph.\<close>

lemma sem_close_frame:
  assumes "sem_close s k = Some (r, k')"
  shows "frame X k k'"
proof -
  have "frame X k (snd (r, k'))"
  proof (rule sem_close.raw_induct [OF _ assms, where P = "\<lambda>s k y. frame X k (snd y)"])
    fix f s k y
    assume IH: "\<And>s k y. f s k = Some y \<Longrightarrow> frame X k (snd y)"
      and y: "sem_unblock True s k \<bind> (\<lambda>(r, k1). if r = 0 then f s k1 else Some (0, k1)) = Some y"
    then obtain r k1 where u: "sem_unblock True s k = Some (r, k1)"
      "(if r = 0 then f s k1 else Some (0, k1)) = Some y"
      by (auto split: bind_splits)
    show "frame X k (snd y)"
      using frame_trans_same [OF sem_unblock_frame [OF u(1)]] IH u sem_unblock_frame [OF u(1), of X]
      by (auto split: if_splits)
  qed
  then show ?thesis by simp
qed

section \<open>Sleeping\<close>

lemma chain_sleeper_frame:
  assumes "chain_sleeper t c tot l h = (l', h')"
  shows "heap_frame X h h'"
  using assms by (auto simp: chain_sleeper_def Let_def intro!: heap_frame_upd split: if_splits)

lemma put_to_sleep_frame:
  assumes "put_to_sleep t n k = Some k'"
  shows "frame X k k'"
proof (cases "t = NULL")
  case False
  let ?k1 = "k\<lparr>tcbs := (tcbs k)(t := (tcbs k t)\<lparr>sleep_for := n, status := SUSPENDED\<rparr>)\<rparr>"
  let ?k2 = "?k1\<lparr>tcbs := list_unlink t (tcbs ?k1)\<rparr>"
  have 2: "frame X k ?k2"
    using frame_tcbs [OF heap_frame_trans [OF heap_frame_upd [OF heap_frame_refl] list_unlink_frame], of _ k t X]
    by simp
  show ?thesis
  proof (cases "list_is_empty (sleep_queue ?k2)")
    case True
    obtain l h where l: "list_set_first t (sleep_queue ?k2) (tcbs ?k2) = (l, h)"
      by (cases "list_set_first t (sleep_queue ?k2) (tcbs ?k2)")
    then have "k' = ?k2\<lparr>tcbs := h, sleep_queue := l\<rparr>"
      using assms True False by (simp add: put_to_sleep_def Let_def)
    moreover have "frame X ?k2 (?k2\<lparr>tcbs := h\<rparr>)" using list_set_first_frame [OF l] by (rule frame_tcbs)
    ultimately show ?thesis using frame_trans_same [OF 2, of "?k2\<lparr>tcbs := h\<rparr>"] by simp
  next
    case ne: False
    obtain c tot where c: "sleep_search (tcbs ?k2) (sleep_for (tcbs ?k2 t)) (lh_head (sleep_queue ?k2)) 0 = Some (c, tot)"
      using assms False ne by (auto simp: put_to_sleep_def Let_def split: bind_splits)
    obtain l3 h3 where h3: "(if c \<noteq> NULL then chain_sleeper t c tot (sleep_queue ?k2) (tcbs ?k2)
                           else (sleep_queue ?k2, tcbs ?k2)) = (l3, h3)"
      by (cases "if c \<noteq> NULL then chain_sleeper t c tot (sleep_queue ?k2) (tcbs ?k2) else (sleep_queue ?k2, tcbs ?k2)")
    have f3: "heap_frame X (tcbs ?k2) h3" using h3 chain_sleeper_frame by (auto split: if_splits)
    let ?h4 = "h3(t := (h3 t)\<lparr>sleep_for := sleep_for (h3 t) - tot\<rparr>)"
    have f4: "heap_frame X (tcbs ?k2) ?h4" by (rule heap_frame_upd [OF f3]) simp_all
    have "k' = ?k2\<lparr>tcbs := h3, sleep_queue := l3\<rparr> \<or>
       (\<exists>l5 h5. list_add_last t l3 ?h4 = Some (l5, h5) \<and> k' = ?k2\<lparr>tcbs := h5, sleep_queue := l5\<rparr>)"
      using assms False ne c h3 by (simp add: put_to_sleep_def Let_def split: if_splits bind_splits prod.splits)
    then show ?thesis
      using frame_trans_same [OF 2 frame_tcbs [OF f3]]
        frame_trans_same [OF 2 frame_tcbs [OF heap_frame_trans [OF f4 list_add_last_frame]]] by auto
  qed
qed (use assms in \<open>simp add: put_to_sleep_def\<close>)

lemma wake_expired_frame:
  assumes "wake_expired k = Some k'"
  shows "frame X k k'"
proof (rule wake_expired.raw_induct [OF _ assms, where P = "frame X"])
  fix f k k'
  assume IH: "\<And>k k'. f k = Some k' \<Longrightarrow> frame X k k'"
    and step: "(if \<not> list_is_empty (sleep_queue k) \<and> sleep_for (tcbs k (list_peek_first (sleep_queue k))) \<le> 0
      then let (t, l, h) = list_take_first (sleep_queue k) (tcbs k)
           in put_tcb t (k\<lparr>tcbs := h, sleep_queue := l\<rparr>) \<bind> f
      else Some k) = Some k'"
  show "frame X k k'"
  proof (cases "\<not> list_is_empty (sleep_queue k) \<and> sleep_for (tcbs k (list_peek_first (sleep_queue k))) \<le> 0")
    case True
    obtain t l h where t: "list_take_first (sleep_queue k) (tcbs k) = (t, l, h)"
      by (cases "list_take_first (sleep_queue k) (tcbs k)")
    then obtain k1 where k1: "put_tcb t (k\<lparr>tcbs := h, sleep_queue := l\<rparr>) = Some k1" "f k1 = Some k'"
      using step True by (auto simp: Let_def split: bind_splits)
    have "frame X k (k\<lparr>tcbs := h, sleep_queue := l\<rparr>)"
      using frame_tcbs [OF list_take_first_frame [OF t]] by simp
    then show ?thesis using put_tcb_frame [OF k1(1)] IH [OF k1(2)] frame_trans_same by metis
  qed (use step in \<open>auto split: if_splits\<close>)
qed

lemma timer_tick_frame:
  assumes "timer_tick k = Some k'"
  shows "frame X k k'"
proof (cases "list_is_empty (sleep_queue k)")
  case False
  then obtain k1 where k1: "upd_tcb (list_peek_first (sleep_queue k)) (\<lambda>x. x\<lparr>sleep_for := sleep_for x - 1\<rparr>) k = Some k1"
    "wake_expired k1 = Some k'"
    using assms by (auto simp: timer_tick_def split: bind_splits)
  have "frame X k k1" by (rule upd_tcb_frame [OF k1(1)]) (simp_all add: saved_def regions_of_def)
  then show ?thesis using wake_expired_frame [OF k1(2)] by (rule frame_trans_same)
qed (use assms in \<open>simp add: timer_tick_def\<close>)

section \<open>Traps\<close>

lemma set_a0_frame: "set_a0 v k = Some k' \<Longrightarrow> frame {current_context k} k k'"
  using upd_tcb_frame [of "current_context k" "\<lambda>x. x\<lparr>tcontext := (tcontext x)\<lparr>c_a0 := v\<rparr>\<rparr>" k k']
  by (simp add: set_a0_def regions_of_def)

lemma after_wait_frame: "after_wait cont r k = Some k' \<Longrightarrow> frame {current_context k} k k'"
  using set_a0_frame by (fastforce simp: after_wait_def split: kcont.splits prod.splits)

lemma trap_enter_frame:
  "trap_enter k = Some k' \<Longrightarrow> frame {current_context k} k k'"
  by (cases "current_context k = NULL") (auto simp: trap_enter_def Let_def intro!: frame_tcbs heap_frame_upd simp: regions_of_def)

lemma trap_exit_frame:
  "trap_exit e k = Some k' \<Longrightarrow> frame {current_context k} k k'"
  by (cases "current_context k = NULL")
    (auto simp: trap_exit_def Let_def intro!: frame_tcbs heap_frame_upd simp: regions_of_def)

lemma k_tcb_start_frame:
  "k_tcb_start rw k = Some k' \<Longrightarrow> frame {current_context k} k k'"
  by (cases "current_context k = NULL")
    (auto simp: k_tcb_start_def Let_def intro!: frame_tcbs heap_frame_upd simp: regions_of_def)

lemma resume_current_frame:
  assumes "resume_current rw k = Some k'"
  shows "frame {current_context k} k k'"
proof -
  let ?k0 = "k\<lparr>timer_ticks := 0\<rparr>"
  have k0: "frame {current_context k} k ?k0" by simp
  have aw: "frame {current_context k} k k'" if "after_wait cont r ?k0 = Some k2" "trap_exit True k2 = Some k'" for cont r k2
  proof -
    have "current_context k2 = current_context k"
      using that(1) by (auto simp: after_wait_def set_a0_def upd_tcb_def store_at_def split: kcont.splits prod.splits if_splits)
    then show ?thesis
      using frame_trans_same [OF after_wait_frame [OF that(1)]] trap_exit_frame [OF that(2)] by simp
  qed
  show ?thesis
    using assms aw k_tcb_start_frame [of rw k k'] trap_exit_frame [of True ?k0 k'] trap_exit_frame [of False ?k0 k']
    by (auto simp: resume_current_def Let_def split: kcont.splits bind_splits)
qed

lemma wait_then_frame:
  assumes "wait_then cont s k = Some (f, k')" "current_context k = current_tcb k"
  shows "frame {current_tcb k} k k' \<or> f = Returns () \<and> (\<exists>k1. frame {current_tcb k} k k1 \<and> frame {current_context k1} k1 k')"
proof -
  obtain g k1 where w: "sem_wait cont s k = Some (g, k1)"
    using assms by (auto simp: wait_then_def split: bind_splits)
  show ?thesis
    using assms w sem_wait_frame [OF w] after_wait_frame
    by (auto simp: wait_then_def split: flow.splits bind_splits)
qed

end
