(* ===== verification/Sched_Spec.thy ===== *)
theory Sched_Spec
  imports Semaphores
begin

text \<open>
  The abstract scheduler: a running thread and a queue of threads for each place where a thread can
  wait.  \<open>queues_rep k vs Q\<close> says that the linked lists of the kernel state \<open>k\<close> hold
  the queues \<open>Q\<close>, for the places \<open>vs\<close> in use, and that no thread is in two of them.  The
  list operations are lifted to this view once, through the interpretation of the locale
  \<open>shared_fifo\<close>.
\<close>

section \<open>Places and queues\<close>

datatype place = Ready | Sleeping | Waiting addr

fun queue_hd :: "kstate \<Rightarrow> place \<Rightarrow> list_hd" where
  "queue_hd k Ready = sched_queue k"
| "queue_hd k Sleeping = sleep_queue k"
| "queue_hd k (Waiting s) = suspended (sems k s)"

fun set_queue_hd :: "place \<Rightarrow> list_hd \<Rightarrow> kstate \<Rightarrow> kstate" where
  "set_queue_hd Ready l k = k\<lparr>sched_queue := l\<rparr>"
| "set_queue_hd Sleeping l k = k\<lparr>sleep_queue := l\<rparr>"
| "set_queue_hd (Waiting s) l k = k\<lparr>sems := (sems k)(s := (sems k s)\<lparr>suspended := l\<rparr>)\<rparr>"

lemma queue_hd_set [simp]:
  "queue_hd (set_queue_hd q l k) r = (if r = q then l else queue_hd k r)"
  by (cases q; cases r) auto

lemma queue_hd_tcbs [simp]: "queue_hd (k\<lparr>tcbs := h\<rparr>) q = queue_hd k q"
  by (cases q) auto

lemma set_queue_hd_tcbs [simp]:
  "tcbs (set_queue_hd q l k) = tcbs k" "set_queue_hd q l k\<lparr>tcbs := h\<rparr> = set_queue_hd q l (k\<lparr>tcbs := h\<rparr>)"
  by (cases q; simp)+

text \<open>The fields that scheduling never touches.\<close>

definition env_eq :: "kstate \<Rightarrow> kstate \<Rightarrow> bool" where
  "env_eq k k' \<longleftrightarrow> lay k' = lay k \<and> mem k' = mem k \<and> timer_ticks k' = timer_ticks k \<and>
     putc_buffer k' = putc_buffer k \<and> getc_buffer k' = getc_buffer k \<and>
     user_cells k' = user_cells k \<and> tx_out k' = tx_out k"

lemma env_eq_refl [simp]: "env_eq k k"
  by (simp add: env_eq_def)

lemma env_eq_trans [trans]: "env_eq k k' \<Longrightarrow> env_eq k' k'' \<Longrightarrow> env_eq k k''"
  by (simp add: env_eq_def)

text \<open>Two heaps of thread control blocks that differ in the list links only.\<close>

definition payload_eq :: "(addr \<Rightarrow> tcb) \<Rightarrow> (addr \<Rightarrow> tcb) \<Rightarrow> bool" where
  "payload_eq h h' \<longleftrightarrow> (\<forall>p. node.more (h p) = node.more (h' p))"

lemma payload_eq_refl [simp, intro]: "payload_eq h h"
  by (simp add: payload_eq_def)

lemma payload_eq_sym: "payload_eq h h' \<Longrightarrow> payload_eq h' h"
  by (simp add: payload_eq_def)

lemma payload_eq_trans [trans]: "payload_eq h h' \<Longrightarrow> payload_eq h' h'' \<Longrightarrow> payload_eq h h''"
  by (simp add: payload_eq_def)

lemma payload_eqD:
  assumes "payload_eq h h'"
  shows "tcontext (h p) = tcontext (h' p)" "usr_stack (h p) = usr_stack (h' p)"
    "sys_stack (h p) = sys_stack (h' p)" "interrupted (h p) = interrupted (h' p)"
    "join_sem (h p) = join_sem (h' p)" "sleep_for (h p) = sleep_for (h' p)"
    "time_slice (h p) = time_slice (h' p)" "status (h p) = status (h' p)"
    "body (h p) = body (h' p)" "args (h p) = args (h' p)" "resume (h p) = resume (h' p)"
    "trap_frame (h p) = trap_frame (h' p)"
  using assms [unfolded payload_eq_def, rule_format, of p]
  by (cases "h p"; cases "h' p"; simp)+

lemma payload_upd:
  fixes x y :: tcb
  assumes "node.more x = node.more y"
  shows "node.more (tcontext_update f x) = node.more (tcontext_update f y)"
    "node.more (status_update g x) = node.more (status_update g y)"
    "node.more (resume_update c x) = node.more (resume_update c y)"
    "node.more (interrupted_update b x) = node.more (interrupted_update b y)"
    "node.more (sleep_for_update n x) = node.more (sleep_for_update n y)"
  using assms by (cases x; cases y; simp)+

lemma payload_eq_fun_upd:
  assumes "payload_eq h h'" "node.more x = node.more y"
  shows "payload_eq (h(p := x)) (h'(p := y))"
  using assms by (simp add: payload_eq_def)

lemma payload_eqI: "payload_eq h h' \<Longrightarrow> node.more (h p) = node.more (h' p)"
  by (simp add: payload_eq_def)

lemma payload_eq_links: "payload_eq h' h \<Longrightarrow> payload_eq (h'(p := (h' p)\<lparr>nxt := a, prv := b\<rparr>)) h"
  by (auto simp: payload_eq_def)

section \<open>Representation of the queues\<close>

definition queues_rep :: "kstate \<Rightarrow> place set \<Rightarrow> (place \<Rightarrow> addr list) \<Rightarrow> bool" where
  "queues_rep k vs Q \<longleftrightarrow>
     (\<forall>q \<in> vs. list_rep (tcbs k) (queue_hd k q) (Q q)) \<and>
     (\<forall>q \<in> vs. \<forall>r \<in> vs. q \<noteq> r \<longrightarrow> set (Q q) \<inter> set (Q r) = {})"

lemma queues_repD:
  assumes "queues_rep k vs Q" "q \<in> vs"
  shows "list_rep (tcbs k) (queue_hd k q) (Q q)"
    and "r \<in> vs \<Longrightarrow> q \<noteq> r \<Longrightarrow> set (Q q) \<inter> set (Q r) = {}"
    and "distinct (Q q)" "NULL \<notin> set (Q q)"
  using assms list_rep_distinct by (auto simp: queues_rep_def)

lemma queues_rep_cong:
  assumes "queues_rep k vs Q" "\<And>q. q \<in> vs \<Longrightarrow> queue_hd k' q = queue_hd k q"
    and "\<And>q p. q \<in> vs \<Longrightarrow> p \<in> set (Q q) \<Longrightarrow> nxt (tcbs k' p) = nxt (tcbs k p) \<and> prv (tcbs k' p) = prv (tcbs k p)"
  shows "queues_rep k' vs Q"
  unfolding queues_rep_def
proof (intro conjI ballI impI)
  fix q assume q: "q \<in> vs"
  show "list_rep (tcbs k') (queue_hd k' q) (Q q)"
    using list_rep_cong [of "Q q" "tcbs k'" "tcbs k" "queue_hd k q"] assms(2,3) [OF q]
      queues_repD(1) [OF assms(1) q] by simp
next
  fix q r assume "q \<in> vs" "r \<in> vs" "q \<noteq> r"
  then show "set (Q q) \<inter> set (Q r) = {}" using queues_repD(2) [OF assms(1)] by blast
qed

lemma queues_rep_empty: "queues_rep k vs Q \<Longrightarrow> q \<in> vs \<Longrightarrow> list_is_empty (queue_hd k q) \<longleftrightarrow> Q q = []"
  using queues_repD(1) list_rep_is_empty by blast

lemma enqueue_rep:
  assumes rep: "queues_rep k vs Q" and q: "q \<in> vs" and t: "t \<noteq> NULL" "\<And>r. r \<in> vs \<Longrightarrow> t \<notin> set (Q r)"
  obtains l h where "list_add_last t (queue_hd k q) (tcbs k) = Some (l, h)"
    "queues_rep (set_queue_hd q l (k\<lparr>tcbs := h\<rparr>)) vs (Q(q := Q q @ [t]))" "payload_eq h (tcbs k)"
proof -
  note lr = queues_repD(1) [OF rep q]
  obtain l h where a: "list_add_last t (queue_hd k q) (tcbs k) = Some (l, h)" "list_rep h l (Q q @ [t])"
    "\<And>p. node.more (h p) = node.more (tcbs k p)"
    using add_last_rep [OF lr t(1) t(2) [OF q]] by metis
  have "queues_rep (set_queue_hd q l (k\<lparr>tcbs := h\<rparr>)) vs (Q(q := Q q @ [t]))"
    unfolding queues_rep_def
  proof (intro conjI ballI impI)
    fix r assume r: "r \<in> vs"
    show "list_rep (tcbs (set_queue_hd q l (k\<lparr>tcbs := h\<rparr>))) (queue_hd (set_queue_hd q l (k\<lparr>tcbs := h\<rparr>)) r)
            ((Q(q := Q q @ [t])) r)"
    proof (cases "r = q")
      case False
      have "list_rep h (queue_hd k r) (Q r)"
        by (rule ilist.put_frame [OF lr t(1) t(2) [OF q] a(1) queues_repD(1) [OF rep r]])
          (use queues_repD(2) [OF rep q r] t(2) [OF r] False in auto)
      then show ?thesis using False by simp
    qed (simp add: a)
  next
    fix r r' assume "r \<in> vs" "r' \<in> vs" "r \<noteq> r'"
    then show "set ((Q(q := Q q @ [t])) r) \<inter> set ((Q(q := Q q @ [t])) r') = {}"
      using queues_repD(2) [OF rep, of r r'] t(2) [of r] t(2) [of r'] q by auto
  qed
  with a show ?thesis by (intro that) (auto simp: payload_eq_def)
qed

lemma dequeue_rep:
  assumes rep: "queues_rep k vs Q" and q: "q \<in> vs" and Q: "Q q = t # ts"
  obtains l h where "list_take_first (queue_hd k q) (tcbs k) = (t, l, h)"
    "queues_rep (set_queue_hd q l (k\<lparr>tcbs := h\<rparr>)) vs (Q(q := ts))" "payload_eq h (tcbs k)"
    "t \<noteq> NULL" "\<And>r. r \<in> vs \<Longrightarrow> t \<notin> set ((Q(q := ts)) r)"
proof -
  note lr = queues_repD(1) [OF rep q, unfolded Q]
  obtain l h where a: "list_take_first (queue_hd k q) (tcbs k) = (t, l, h)" "list_rep h l ts"
    "\<And>p. node.more (h p) = node.more (tcbs k p)"
    using take_first_rep [OF lr] by metis
  have sub: "set ((Q(q := ts)) r) \<subseteq> set (Q r)" for r using Q by auto
  have "queues_rep (set_queue_hd q l (k\<lparr>tcbs := h\<rparr>)) vs (Q(q := ts))"
    unfolding queues_rep_def
  proof (intro conjI ballI impI)
    fix r assume r: "r \<in> vs"
    show "list_rep (tcbs (set_queue_hd q l (k\<lparr>tcbs := h\<rparr>))) (queue_hd (set_queue_hd q l (k\<lparr>tcbs := h\<rparr>)) r)
            ((Q(q := ts)) r)"
    proof (cases "r = q")
      case False
      have "list_rep h (queue_hd k r) (Q r)"
        by (rule ilist.take_frame [OF lr a(1) queues_repD(1) [OF rep r]])
          (use queues_repD(2) [OF rep q r] Q False in auto)
      then show ?thesis using False by simp
    qed (simp add: a)
  next
    fix r r' assume "r \<in> vs" "r' \<in> vs" "r \<noteq> r'"
    then show "set ((Q(q := ts)) r) \<inter> set ((Q(q := ts)) r') = {}"
      using queues_repD(2) [OF rep, of r r'] sub by blast
  qed
  moreover have "t \<noteq> NULL" "t \<notin> set ts" using list_rep_distinct [OF lr] by auto
  moreover have "t \<notin> set ((Q(q := ts)) r)" if "r \<in> vs" for r
    using queues_repD(2) [OF rep q that] Q \<open>t \<notin> set ts\<close> by (cases "r = q") auto
  ultimately show ?thesis using a by (intro that) (auto simp: payload_eq_def)
qed

lemma dequeue_empty:
  assumes "queues_rep k vs Q" "q \<in> vs" "Q q = []"
  shows "list_take_first (queue_hd k q) (tcbs k) = (NULL, queue_hd k q, tcbs k)"
  using queues_repD(1) [OF assms(1,2)] assms(3) by (simp add: take_first_empty)

end
