(* ===== verification/Sched_Refine.thy ===== *)
theory Sched_Refine
  imports Sched_Spec Thread_Control
begin

text \<open>
  The ready queue, the context switch and the semaphores implement the abstract scheduler: the
  record \<open>sched\<close> keeps the running thread, the queues, the semaphore counters and the ticks
  each sleeper still has to wait; \<open>krep k A\<close> relates it to the kernel state, and the lemmas
  below say that every operation computes its abstract counterpart.
\<close>

section \<open>The abstract scheduler\<close>

record sched =
  a_cur :: addr
  a_queue :: "place \<Rightarrow> addr list"
  a_sems :: "addr set"
  a_val :: "addr \<Rightarrow> int"
  a_wake :: "addr \<Rightarrow> nat"

definition places :: "sched \<Rightarrow> place set" where
  "places A = {Ready, Sleeping} \<union> Waiting ` a_sems A"

lemma places_simps [simp]:
  "Ready \<in> places A" "Sleeping \<in> places A" "Waiting s \<in> places A \<longleftrightarrow> s \<in> a_sems A"
  by (auto simp: places_def)

definition a_set :: "place \<Rightarrow> addr list \<Rightarrow> sched \<Rightarrow> sched" where
  "a_set q ts A = A\<lparr>a_queue := (a_queue A)(q := ts)\<rparr>"

lemma a_set_simps [simp]:
  "a_queue (a_set q ts A) = (a_queue A)(q := ts)" "a_cur (a_set q ts A) = a_cur A"
  "a_sems (a_set q ts A) = a_sems A" "a_val (a_set q ts A) = a_val A" "a_wake (a_set q ts A) = a_wake A"
  "places (a_set q ts A) = places A"
  by (simp_all add: a_set_def places_def)

definition a_enq :: "place \<Rightarrow> addr \<Rightarrow> sched \<Rightarrow> sched" where
  "a_enq q t A = a_set q (a_queue A q @ [t]) A"

definition a_next :: "sched \<Rightarrow> sched" where
  "a_next A = (case a_queue A Ready of [] \<Rightarrow> A | t # ts \<Rightarrow> a_set Ready ts A\<lparr>a_cur := t\<rparr>)"

definition a_dispatch :: "sched \<Rightarrow> sched" where
  "a_dispatch A = a_next (a_enq Ready (a_cur A) A)"

definition a_wait :: "addr \<Rightarrow> sched \<Rightarrow> sched" where
  "a_wait s A =
     (let A1 = A\<lparr>a_val := (a_val A)(s := a_val A s - 1)\<rparr>
      in if a_val A s - 1 < 0 then a_next (a_enq (Waiting s) (a_cur A) A1) else A1)"

definition a_unblock :: "addr \<Rightarrow> sched \<Rightarrow> sched" where
  "a_unblock s A = (case a_queue A (Waiting s) of [] \<Rightarrow> A
     | t # ts \<Rightarrow> a_enq Ready t (a_set (Waiting s) ts A))"

definition a_signal :: "addr \<Rightarrow> sched \<Rightarrow> sched" where
  "a_signal s A =
     (let A1 = A\<lparr>a_val := (a_val A)(s := a_val A s + 1)\<rparr>
      in if a_val A s + 1 \<le> 0 then a_unblock s A1 else A1)"

definition a_close :: "addr \<Rightarrow> sched \<Rightarrow> sched" where
  "a_close s A = a_set (Waiting s) [] (a_set Ready (a_queue A Ready @ a_queue A (Waiting s)) A)"

section \<open>Representation\<close>

text \<open>The delta encoding of the sleeping threads, relative to a base.\<close>

fun deltas :: "(addr \<Rightarrow> tcb) \<Rightarrow> (addr \<Rightarrow> nat) \<Rightarrow> nat \<Rightarrow> addr list \<Rightarrow> bool" where
  "deltas h w b [] = True"
| "deltas h w b (t # ts) =
     (b \<le> w t \<and> w t < 2 ^ 64 \<and> unat (sleep_for (h t)) = w t - b \<and> deltas h w (w t) ts)"

lemma deltas_cong:
  "(\<And>t. t \<in> set ts \<Longrightarrow> sleep_for (h' t) = sleep_for (h t)) \<Longrightarrow> deltas h' w b ts = deltas h w b ts"
  by (induction ts arbitrary: b) auto

definition status_ok :: "kstate \<Rightarrow> sched \<Rightarrow> bool" where
  "status_ok k A \<longleftrightarrow> (\<forall>q \<in> places A. \<forall>t \<in> set (a_queue A q).
     status (tcbs k t) = (if q = Ready then READY else SUSPENDED))"

definition sems_ok :: "kstate \<Rightarrow> sched \<Rightarrow> bool" where
  "sems_ok k A \<longleftrightarrow> NULL \<notin> a_sems A \<and> (\<forall>s \<in> a_sems A. sint (sem_value (sems k s)) = a_val A s)"

definition sleepers_ok :: "kstate \<Rightarrow> sched \<Rightarrow> bool" where
  "sleepers_ok k A \<longleftrightarrow> deltas (tcbs k) (a_wake A) 0 (a_queue A Sleeping)"

text \<open>Without, and with a running thread.\<close>

definition krep0 :: "kstate \<Rightarrow> sched \<Rightarrow> bool" where
  "krep0 k A \<longleftrightarrow> queues_rep k (places A) (a_queue A) \<and> status_ok k A \<and> sems_ok k A \<and> sleepers_ok k A"

definition krep :: "kstate \<Rightarrow> sched \<Rightarrow> bool" where
  "krep k A \<longleftrightarrow> krep0 k A \<and> current_tcb k = a_cur A \<and> current_context k = a_cur A \<and> a_cur A \<noteq> NULL \<and>
     status (tcbs k (a_cur A)) = RUNNING \<and> (\<forall>q \<in> places A. a_cur A \<notin> set (a_queue A q)) \<and>
     (\<forall>t \<in> set (a_queue A Sleeping). 0 < a_wake A t)"

lemma krep0D:
  assumes "krep0 k A"
  shows "queues_rep k (places A) (a_queue A)" "status_ok k A" "sems_ok k A" "sleepers_ok k A"
  using assms by (auto simp: krep0_def)

lemma krepD:
  assumes "krep k A"
  shows "krep0 k A" "current_tcb k = a_cur A" "current_context k = a_cur A" "a_cur A \<noteq> NULL"
    "status (tcbs k (a_cur A)) = RUNNING" "q \<in> places A \<Longrightarrow> a_cur A \<notin> set (a_queue A q)"
    "t \<in> set (a_queue A Sleeping) \<Longrightarrow> 0 < a_wake A t"
  using assms by (auto simp: krep_def)

text \<open>A thread that is in no queue may change its payload freely.\<close>

lemma krep0_upd_tcb:
  assumes rep: "krep0 k A" and t: "\<And>q. q \<in> places A \<Longrightarrow> t \<notin> set (a_queue A q)"
  shows "krep0 (k\<lparr>tcbs := (tcbs k)(t := x)\<rparr>) A"
proof -
  note r = krep0D [OF rep]
  have "queues_rep (k\<lparr>tcbs := (tcbs k)(t := x)\<rparr>) (places A) (a_queue A)"
    by (rule queues_rep_cong [OF r(1)]) (use t in auto)
  moreover have "deltas ((tcbs k)(t := x)) (a_wake A) 0 (a_queue A Sleeping) =
      deltas (tcbs k) (a_wake A) 0 (a_queue A Sleeping)"
    by (rule deltas_cong) (use t [of Sleeping] in auto)
  moreover have "status_ok (k\<lparr>tcbs := (tcbs k)(t := x)\<rparr>) A"
    unfolding status_ok_def
  proof (intro ballI)
    fix q u assume qu: "q \<in> places A" "u \<in> set (a_queue A q)"
    then have "u \<noteq> t" using t by blast
    then show "status (tcbs (k\<lparr>tcbs := (tcbs k)(t := x)\<rparr>) u) = (if q = Ready then READY else SUSPENDED)"
      using r(2) qu by (simp add: status_ok_def)
  qed
  ultimately show ?thesis
    using r(3,4) by (simp add: krep0_def sems_ok_def sleepers_ok_def)
qed

lemma krep0_cong:
  assumes "krep0 k A" "tcbs k' = tcbs k" "sems k' = sems k" "sched_queue k' = sched_queue k"
    "sleep_queue k' = sleep_queue k"
  shows "krep0 k' A"
proof -
  have "queue_hd k' q = queue_hd k q" for q using assms by (cases q) auto
  then show ?thesis
    using assms by (auto simp: krep0_def queues_rep_def status_ok_def sems_ok_def sleepers_ok_def)
qed

lemma krep_cong:
  assumes "krep k A" "tcbs k' = tcbs k" "sems k' = sems k" "sched_queue k' = sched_queue k"
    "sleep_queue k' = sleep_queue k" "current_tcb k' = current_tcb k" "current_context k' = current_context k"
  shows "krep k' A"
  using krep0_cong [of k A k'] assms by (auto simp: krep_def)

text \<open>Moving a thread to the end of a queue, and taking the first one out.\<close>

lemma krep0_enqueue:
  assumes rep: "krep0 k A" and q: "q \<in> places A" "q \<noteq> Sleeping" and t: "t \<noteq> NULL" "\<And>r. r \<in> places A \<Longrightarrow> t \<notin> set (a_queue A r)"
    and st: "status (tcbs k t) = (if q = Ready then READY else SUSPENDED)"
  obtains l h where "list_add_last t (queue_hd k q) (tcbs k) = Some (l, h)"
    "krep0 (set_queue_hd q l (k\<lparr>tcbs := h\<rparr>)) (a_enq q t A)" "payload_eq h (tcbs k)"
proof -
  note r = krep0D [OF rep]
  obtain l h where a: "list_add_last t (queue_hd k q) (tcbs k) = Some (l, h)"
    "queues_rep (set_queue_hd q l (k\<lparr>tcbs := h\<rparr>)) (places A) ((a_queue A)(q := a_queue A q @ [t]))"
    "payload_eq h (tcbs k)"
    using enqueue_rep [OF r(1) q(1) t] by blast
  let ?k = "set_queue_hd q l (k\<lparr>tcbs := h\<rparr>)"
  have sv: "sem_value (sems ?k s) = sem_value (sems k s)" for s by (cases q) auto
  have "status_ok ?k (a_enq q t A)"
    using r(2) st payload_eqD(8) [OF a(3)] q t(2) by (auto simp: status_ok_def a_enq_def)
  moreover have "sleepers_ok ?k (a_enq q t A)"
    using r(4) q deltas_cong [of _ h "tcbs k"] payload_eqD(6) [OF a(3)]
    by (auto simp: sleepers_ok_def a_enq_def)
  ultimately show ?thesis
    using a r(3) sv by (intro that [OF a(1) _ a(3)]) (auto simp: krep0_def sems_ok_def a_enq_def)
qed

lemma krep0_dequeue:
  assumes rep: "krep0 k A" and q: "q \<in> places A" and Q: "a_queue A q = t # ts"
    and sl: "q = Sleeping \<Longrightarrow> a_wake A t = 0"
  obtains l h where "list_take_first (queue_hd k q) (tcbs k) = (t, l, h)"
    "krep0 (set_queue_hd q l (k\<lparr>tcbs := h\<rparr>)) (a_set q ts A)" "payload_eq h (tcbs k)"
    "t \<noteq> NULL" "\<And>r. r \<in> places A \<Longrightarrow> t \<notin> set (a_queue (a_set q ts A) r)"
proof -
  note r = krep0D [OF rep]
  obtain l h where a: "list_take_first (queue_hd k q) (tcbs k) = (t, l, h)"
    "queues_rep (set_queue_hd q l (k\<lparr>tcbs := h\<rparr>)) (places A) ((a_queue A)(q := ts))"
    "payload_eq h (tcbs k)" "t \<noteq> NULL" "\<And>r. r \<in> places A \<Longrightarrow> t \<notin> set (((a_queue A)(q := ts)) r)"
    using dequeue_rep [OF r(1) q Q] by blast
  let ?k = "set_queue_hd q l (k\<lparr>tcbs := h\<rparr>)"
  have sv: "sem_value (sems ?k s) = sem_value (sems k s)" for s by (cases q) auto
  have "status_ok ?k (a_set q ts A)"
    using r(2) Q payload_eqD(8) [OF a(3)] by (auto simp: status_ok_def split: if_splits)
  moreover have "sleepers_ok ?k (a_set q ts A)"
    using r(4) Q sl deltas_cong [of _ h "tcbs k"] payload_eqD(6) [OF a(3)]
    by (auto simp: sleepers_ok_def)
  ultimately show ?thesis
    using a r(3) sv by (intro that [OF a(1) _ a(3,4)]) (auto simp: krep0_def sems_ok_def)
qed

end
