(* ===== verification/Sched_Ops.thy ===== *)
theory Sched_Ops
  imports Sched_Refine
begin

text \<open>
  Every scheduler and semaphore operation of the kernel computes its abstract counterpart, and says
  which fields of the kernel state and of the thread control blocks it changes.
\<close>

lemma krep0_payload:
  assumes rep: "krep0 k A"
    and h: "\<And>p. nxt (h p) = nxt (tcbs k p) \<and> prv (h p) = prv (tcbs k p) \<and>
              status (h p) = status (tcbs k p) \<and> sleep_for (h p) = sleep_for (tcbs k p)"
  shows "krep0 (k\<lparr>tcbs := h\<rparr>) A"
proof -
  note r = krep0D [OF rep]
  have "queues_rep (k\<lparr>tcbs := h\<rparr>) (places A) (a_queue A)"
    by (rule queues_rep_cong [OF r(1)]) (use h in auto)
  moreover have "deltas h (a_wake A) 0 (a_queue A Sleeping) = deltas (tcbs k) (a_wake A) 0 (a_queue A Sleeping)"
    by (rule deltas_cong) (use h in auto)
  ultimately show ?thesis using r h by (simp add: krep0_def status_ok_def sems_ok_def sleepers_ok_def)
qed

lemma krep0_val:
  assumes "krep0 k A" "s \<in> a_sems A" "sint v = n"
  shows "krep0 (k\<lparr>sems := (sems k)(s := (sems k s)\<lparr>sem_value := v\<rparr>)\<rparr>) (A\<lparr>a_val := (a_val A)(s := n)\<rparr>)"
proof -
  let ?k = "k\<lparr>sems := (sems k)(s := (sems k s)\<lparr>sem_value := v\<rparr>)\<rparr>"
  have "queue_hd ?k q = queue_hd k q" for q by (cases q) auto
  then show ?thesis
    using assms by (auto simp: krep0_def queues_rep_def status_ok_def sems_ok_def sleepers_ok_def places_def)
qed

section \<open>The ready queue\<close>

lemma put_tcb_rep:
  assumes rep: "krep0 k A" and t: "t \<noteq> NULL" "\<And>q. q \<in> places A \<Longrightarrow> t \<notin> set (a_queue A q)"
  obtains l h where "put_tcb t k = Some (k\<lparr>tcbs := h, sched_queue := l\<rparr>)"
    "krep0 (k\<lparr>tcbs := h, sched_queue := l\<rparr>) (a_enq Ready t A)"
    "payload_eq h ((tcbs k)(t := (tcbs k t)\<lparr>status := READY\<rparr>))"
proof -
  let ?h = "(tcbs k)(t := (tcbs k t)\<lparr>status := READY\<rparr>)"
  have "krep0 (k\<lparr>tcbs := ?h\<rparr>) A" by (rule krep0_upd_tcb [OF rep t(2)])
  from krep0_enqueue [OF this _ _ t(1) t(2), of Ready] obtain l h where
    "list_add_last t (sched_queue k) ?h = Some (l, h)" "krep0 (k\<lparr>tcbs := h, sched_queue := l\<rparr>) (a_enq Ready t A)"
    "payload_eq h ?h"
    by auto
  then show ?thesis using t(1) by (intro that [where l = l and h = h]) (simp_all add: put_tcb_def)
qed

lemma next_tcb_rep:
  assumes rep: "krep0 k A" and Q: "a_queue A Ready = t # ts"
  obtains l h where "next_tcb k = (t, k\<lparr>tcbs := h, sched_queue := l\<rparr>)"
    "krep0 (k\<lparr>tcbs := h, sched_queue := l\<rparr>) (a_set Ready ts A)" "payload_eq h (tcbs k)"
    "t \<noteq> NULL" "\<And>r. r \<in> places A \<Longrightarrow> t \<notin> set (a_queue (a_set Ready ts A) r)"
proof -
  obtain l h where d: "list_take_first (queue_hd k Ready) (tcbs k) = (t, l, h)"
    "krep0 (set_queue_hd Ready l (k\<lparr>tcbs := h\<rparr>)) (a_set Ready ts A)"
    "payload_eq h (tcbs k)" "t \<noteq> NULL" "\<And>r. r \<in> places A \<Longrightarrow> t \<notin> set (a_queue (a_set Ready ts A) r)"
    by (rule krep0_dequeue [OF rep _ Q]) auto
  show ?thesis
    by (rule that [where l = l and h = h]) (use d in \<open>simp_all add: next_tcb_def\<close>)
qed

section \<open>Switching\<close>

text \<open>The thread control blocks once the old thread's registers have been stored.\<close>

definition saved_tcbs :: "kcont \<Rightarrow> addr \<Rightarrow> kstate \<Rightarrow> addr \<Rightarrow> tcb" where
  "saved_tcbs cont prev k =
     (if prev = NULL then tcbs k
      else (tcbs k)(prev := (tcbs k prev)\<lparr>tcontext := fst (k_save_context (cpu_of k) (tcontext (tcbs k prev))),
                                         resume := cont\<rparr>))"

lemma saved_tcbs_links [simp]:
  "nxt (saved_tcbs cont prev k p) = nxt (tcbs k p)" "prv (saved_tcbs cont prev k p) = prv (tcbs k p)"
  "status (saved_tcbs cont prev k p) = status (tcbs k p)" "sleep_for (saved_tcbs cont prev k p) = sleep_for (tcbs k p)"
  "interrupted (saved_tcbs cont prev k p) = interrupted (tcbs k p)"
  by (auto simp: saved_tcbs_def)

definition switch_cpu :: "addr \<Rightarrow> (addr \<Rightarrow> tcb) \<Rightarrow> kstate \<Rightarrow> cpu" where
  "switch_cpu prev h k = k_restore_context (tcontext (h (current_tcb k)))
     (if prev = NULL then cpu_of k else (cpu_of k)\<lparr>regs := (regs (cpu_of k))(X_a0 := 0)\<rparr>)"

lemma yield_rep:
  assumes rep: "krep0 k A" and t: "t \<noteq> NULL" "\<And>q. q \<in> places A \<Longrightarrow> t \<notin> set (a_queue A q)"
    and cur: "current_tcb k = t" and pos: "\<And>u. u \<in> set (a_queue A Sleeping) \<Longrightarrow> 0 < a_wake A u"
  obtains k' where "yield cont prev t k = Some (Switches, k')" "krep k' (A\<lparr>a_cur := t\<rparr>)"
    "tcbs k' = (saved_tcbs cont prev k)(t := (saved_tcbs cont prev k t)\<lparr>status := RUNNING\<rparr>)"
    "cpu_of k' = switch_cpu prev (saved_tcbs cont prev k) k" "env_eq k k'" "sems k' = sems k"
proof -
  let ?s = "saved_tcbs cont prev k"
  let ?h = "?s(t := (?s t)\<lparr>status := RUNNING\<rparr>)"
  let ?k' = "k\<lparr>tcbs := ?h, current_context := t, cpu_of := switch_cpu prev ?s k\<rparr>"
  have y: "yield cont prev t k = Some (Switches, ?k')"
    using t(1) cur
    by (cases "prev = NULL") (simp_all add: yield_def save_context_def saved_tcbs_def switch_cpu_def k_save_context_def)
  have "krep0 (k\<lparr>tcbs := ?s\<rparr>) A" by (rule krep0_payload [OF rep]) simp
  from krep0_upd_tcb [OF this t(2), of "(?s t)\<lparr>status := RUNNING\<rparr>"] have k0: "krep0 (k\<lparr>tcbs := ?h\<rparr>) A" by simp
  have "krep0 ?k' (A\<lparr>a_cur := t\<rparr>)"
  proof -
    have "krep0 (k\<lparr>tcbs := ?h\<rparr>) (A\<lparr>a_cur := t\<rparr>)"
      using k0 by (simp add: krep0_def status_ok_def sems_ok_def sleepers_ok_def places_def)
    then show ?thesis by (rule krep0_cong) simp_all
  qed
  then have "krep ?k' (A\<lparr>a_cur := t\<rparr>)"
    using t cur pos by (auto simp: krep_def places_def)
  with y show ?thesis by (rule that) (simp_all add: env_eq_def)
qed

text \<open>
  Taking the next thread and switching to it: the step shared by dispatch and block.
\<close>

definition switched :: "kcont \<Rightarrow> addr \<Rightarrow> addr \<Rightarrow> kstate \<Rightarrow> kstate \<Rightarrow> bool" where
  "switched cont prev t k k' \<longleftrightarrow>
     payload_eq (tcbs k') ((saved_tcbs cont prev k)(t := (saved_tcbs cont prev k t)\<lparr>status := RUNNING\<rparr>)) \<and>
     cpu_of k' = switch_cpu prev (saved_tcbs cont prev k) (k\<lparr>current_tcb := t\<rparr>) \<and>
     env_eq k k' \<and> sems k' = sems k"

lemma switch_rep:
  assumes rep: "krep0 k A" and Q: "a_queue A Ready = t # ts"
    and pos: "\<And>u. u \<in> set (a_queue A Sleeping) \<Longrightarrow> 0 < a_wake A u"
  obtains k' where "(let (u, k2) = next_tcb k in yield cont prev u (k2\<lparr>current_tcb := u\<rparr>)) = Some (Switches, k')"
    "krep k' (a_next A)" "switched cont prev t k k'"
proof -
  obtain l h where n: "next_tcb k = (t, k\<lparr>tcbs := h, sched_queue := l\<rparr>)"
    "krep0 (k\<lparr>tcbs := h, sched_queue := l\<rparr>) (a_set Ready ts A)" "payload_eq h (tcbs k)"
    "t \<noteq> NULL" "\<And>r. r \<in> places A \<Longrightarrow> t \<notin> set (a_queue (a_set Ready ts A) r)"
    using next_tcb_rep [OF rep Q] by blast
  let ?k = "k\<lparr>tcbs := h, sched_queue := l, current_tcb := t\<rparr>"
  let ?s = "saved_tcbs cont prev ?k"
  have "krep0 ?k (a_set Ready ts A)" by (rule krep0_cong [OF n(2)]) simp_all
  then obtain k' where y: "yield cont prev t ?k = Some (Switches, k')" "krep k' (a_set Ready ts A\<lparr>a_cur := t\<rparr>)"
    "tcbs k' = ?s(t := (?s t)\<lparr>status := RUNNING\<rparr>)"
    "cpu_of k' = switch_cpu prev ?s ?k" "env_eq ?k k'" "sems k' = sems ?k"
    by (rule yield_rep [where t = t and cont = cont and prev = prev]) (use n(4,5) pos in auto)
  have s: "payload_eq ?s (saved_tcbs cont prev k)"
  proof (cases "prev = NULL")
    case False
    then show ?thesis
      using payload_eq_fun_upd [OF n(3) payload_upd(3) [OF payload_upd(1) [OF payload_eqI [OF n(3), of prev]]]]
        payload_eqD(1) [OF n(3), of prev]
      by (simp add: saved_tcbs_def)
  qed (simp add: saved_tcbs_def n(3))
  have p: "payload_eq (tcbs k') ((saved_tcbs cont prev k)(t := (saved_tcbs cont prev k t)\<lparr>status := RUNNING\<rparr>))"
    unfolding y(3) by (intro payload_eq_fun_upd s payload_upd payload_eqI)
  have c: "switch_cpu prev ?s ?k = switch_cpu prev (saved_tcbs cont prev k) (k\<lparr>current_tcb := t\<rparr>)"
    using payload_eqD(1) [OF s, of t] by (simp add: switch_cpu_def)
  show ?thesis
  proof (rule that)
    show "(let (u, k2) = next_tcb k in yield cont prev u (k2\<lparr>current_tcb := u\<rparr>)) = Some (Switches, k')"
      using y(1) n(1) by simp
    show "krep k' (a_next A)" using y(2) Q by (simp add: a_next_def)
    show "switched cont prev t k k'"
      using p c y(4-6) by (simp add: switched_def env_eq_def)
  qed
qed

end
