(* ===== verification/Semaphore_Correct.thy ===== *)
theory Semaphore_Correct
  imports Sched_Ops
begin

text \<open>
  dispatch of src/k_tcb.cpp and the operations of src/k_sem.cpp implement \<open>a_dispatch\<close>,
  \<open>a_wait\<close>, \<open>a_signal\<close> and \<open>a_close\<close>.  \<open>core\<close> is the part of a thread
  control block that scheduling leaves alone.
\<close>

section \<open>What a switch changes\<close>

definition core :: "tcb \<Rightarrow> reg_context \<times> addr \<times> addr \<times> bool \<times> addr \<times> u64 \<times> u64 \<times> u64 \<times> kcont \<times> (gpr \<Rightarrow> u64)" where
  "core x = (tcontext x, usr_stack x, sys_stack x, interrupted x, join_sem x, time_slice x, body x,
     args x, resume x, trap_frame x)"

lemma core_upd [simp]:
  "core (status_update f x) = core x" "core (sleep_for_update g x) = core x"
  "core (nxt_update n x) = core x" "core (prv_update n x) = core x"
  by (simp_all add: core_def)

lemma payload_core: "payload_eq h h' \<Longrightarrow> core (h p) = core (h' p)"
  using payload_eqD [of h h' p] by (simp add: core_def)

definition core_eq :: "kstate \<Rightarrow> kstate \<Rightarrow> bool" where
  "core_eq k k' \<longleftrightarrow> (\<forall>p. core (tcbs k' p) = core (tcbs k p)) \<and> cpu_of k' = cpu_of k \<and> env_eq k k'"

definition switch_frame :: "kcont \<Rightarrow> addr \<Rightarrow> kstate \<Rightarrow> kstate \<Rightarrow> bool" where
  "switch_frame cont prev k k' \<longleftrightarrow>
     (\<forall>p. core (tcbs k' p) = core (saved_tcbs cont prev k p)) \<and>
     cpu_of k' = k_restore_context (tcontext (tcbs k' (current_tcb k')))
       (if prev = NULL then cpu_of k else (cpu_of k)\<lparr>regs := (regs (cpu_of k))(X_a0 := 0)\<rparr>) \<and>
     env_eq k k'"

lemma core_saved:
  assumes "\<And>p. core (tcbs k' p) = core (tcbs k p)" "cpu_of k' = cpu_of k"
  shows "core (saved_tcbs cont prev k' p) = core (saved_tcbs cont prev k p)"
  using assms(1) [of p] assms(2) by (auto simp: saved_tcbs_def core_def)

lemma core_eq_trans [trans]: "core_eq k k' \<Longrightarrow> core_eq k' k'' \<Longrightarrow> core_eq k k''"
  using env_eq_trans by (fastforce simp: core_eq_def)

lemma core_eq_switch_frame:
  assumes "core_eq k k1" "switch_frame cont prev k1 k'"
  shows "switch_frame cont prev k k'"
  using assms core_saved [of k1 k] env_eq_trans [of k k1 k'] by (simp add: switch_frame_def core_eq_def)

lemma switched_frame:
  assumes "switched cont prev t k k'" "current_tcb k' = t"
  shows "switch_frame cont prev k k'"
proof -
  have c: "core (tcbs k' p) = core (saved_tcbs cont prev k p)" for p
    using assms(1) payload_core [of "tcbs k'" _ p] by (fastforce simp: switched_def)
  have "tcontext (tcbs k' t) = tcontext (saved_tcbs cont prev k t)" using c [of t] by (simp add: core_def)
  then show ?thesis using assms c by (auto simp: switch_frame_def switched_def switch_cpu_def)
qed

section \<open>dispatch\<close>

lemma dispatch_rep:
  assumes rep: "krep k A"
  obtains k' where "dispatch cont k = Some (Switches, k')" "krep k' (a_dispatch A)"
    "switch_frame cont (a_cur A) k k'" "sems k' = sems k"
proof -
  note r = krepD [OF rep]
  let ?cur = "a_cur A" and ?A = "a_enq Ready (a_cur A) A"
  obtain l h where p: "put_tcb ?cur k = Some (k\<lparr>tcbs := h, sched_queue := l\<rparr>)"
    "krep0 (k\<lparr>tcbs := h, sched_queue := l\<rparr>) ?A"
    "payload_eq h ((tcbs k)(?cur := (tcbs k ?cur)\<lparr>status := READY\<rparr>))"
    using put_tcb_rep [OF r(1,4,6)] by blast
  let ?k = "k\<lparr>tcbs := h, sched_queue := l\<rparr>"
  obtain t ts where Q: "a_queue ?A Ready = t # ts" by (cases "a_queue ?A Ready") (auto simp: a_enq_def)
  obtain k' where s: "(let (u, k2) = next_tcb ?k in yield cont ?cur u (k2\<lparr>current_tcb := u\<rparr>)) = Some (Switches, k')"
    "krep k' (a_next ?A)" "switched cont ?cur t ?k k'"
    by (rule switch_rep [OF p(2) Q, where cont = cont and prev = ?cur]) (use r(7) in \<open>auto simp: a_enq_def\<close>)
  have "core_eq k ?k" using payload_core [OF p(3)] by (auto simp: core_eq_def env_eq_def)
  moreover have "current_tcb k' = t" using krepD(2) [OF s(2)] Q by (simp add: a_next_def)
  ultimately have "switch_frame cont ?cur k k'"
    using core_eq_switch_frame switched_frame [OF s(3)] by blast
  then show ?thesis
    using s p(1) r(2,4,5) by (intro that [of k']) (simp_all add: dispatch_def a_dispatch_def switched_def)
qed

text \<open>A thread that has just gone to sleep is in no state to be put back.\<close>

lemma dispatch_suspended_rep:
  assumes rep: "krep0 k A" and cur: "current_tcb k \<noteq> NULL" "status (tcbs k (current_tcb k)) = SUSPENDED"
    and Q: "a_queue A Ready = t # ts" and pos: "\<And>u. u \<in> set (a_queue A Sleeping) \<Longrightarrow> 0 < a_wake A u"
  obtains k' where "dispatch cont k = Some (Switches, k')" "krep k' (a_next A)"
    "switch_frame cont (current_tcb k) k k'" "sems k' = sems k"
proof -
  obtain k' where s: "(let (u, k2) = next_tcb k in yield cont (current_tcb k) u (k2\<lparr>current_tcb := u\<rparr>)) = Some (Switches, k')"
    "krep k' (a_next A)" "switched cont (current_tcb k) t k k'"
    by (rule switch_rep [OF rep Q, where cont = cont and prev = "current_tcb k"]) (use pos in auto)
  have "current_tcb k' = t" using krepD(2) [OF s(2)] Q by (simp add: a_next_def)
  then show ?thesis
    using s cur switched_frame [OF s(3)] by (intro that [of k']) (simp_all add: dispatch_def switched_def)
qed

section \<open>Semaphores\<close>

lemma sem_block_rep:
  assumes rep: "krep k A" and s: "s \<in> a_sems A" and Q: "a_queue A Ready \<noteq> []"
  obtains k' where "sem_block cont s k = Some (Switches, k')" "krep k' (a_next (a_enq (Waiting s) (a_cur A) A))"
    "switch_frame cont (a_cur A) k k'" "\<And>p. sem_value (sems k' p) = sem_value (sems k p)"
proof -
  note r = krepD [OF rep]
  let ?cur = "a_cur A" and ?A = "a_enq (Waiting s) (a_cur A) A"
  let ?h = "(tcbs k)(?cur := (tcbs k ?cur)\<lparr>status := SUSPENDED\<rparr>)"
  have s0: "s \<noteq> NULL" using krep0D(3) [OF r(1)] s by (auto simp: sems_ok_def)
  have "krep0 (k\<lparr>tcbs := ?h\<rparr>) A" by (rule krep0_upd_tcb [OF r(1,6)])
  from krep0_enqueue [OF this _ _ r(4,6), of "Waiting s"] s obtain l h where
    a: "list_add_last ?cur (suspended (sems k s)) ?h = Some (l, h)"
      "krep0 (set_queue_hd (Waiting s) l (k\<lparr>tcbs := h\<rparr>)) ?A" "payload_eq h ?h"
    by auto
  let ?k = "set_queue_hd (Waiting s) l (k\<lparr>tcbs := h\<rparr>)"
  obtain t ts where Q': "a_queue ?A Ready = t # ts" using Q by (cases "a_queue ?A Ready") (auto simp: a_enq_def)
  obtain k' where k': "(let (u, k2) = next_tcb ?k in yield cont ?cur u (k2\<lparr>current_tcb := u\<rparr>)) = Some (Switches, k')"
    "krep k' (a_next ?A)" "switched cont ?cur t ?k k'"
    by (rule switch_rep [OF a(2) Q', where cont = cont and prev = ?cur]) (use r(7) in \<open>auto simp: a_enq_def\<close>)
  have "core_eq k ?k" using payload_core [OF a(3)] by (auto simp: core_eq_def env_eq_def)
  moreover have "current_tcb k' = t" using krepD(2) [OF k'(2)] Q' by (simp add: a_next_def)
  ultimately have f: "switch_frame cont ?cur k k'" using core_eq_switch_frame switched_frame [OF k'(3)] by blast
  have v: "sem_value (sems k' p) = sem_value (sems k p)" for p using k'(3) by (auto simp: switched_def)
  have "sem_block cont s k = Some (Switches, k')"
    using k'(1) a(1) s0 r(2,4) by (simp add: sem_block_def)
  then show ?thesis by (rule that [OF _ k'(2) f v])
qed

text \<open>The counter as a signed 32-bit integer: no operation overflows it while fewer than 2^31 threads wait.\<close>

lemma sint_dec: "- (2 ^ 31) < sint (v :: 32 word) \<Longrightarrow> sint (v - 1) = sint v - 1"
  using sint_less [of v] by (simp add: signed_take_bit_int_eq_self sint_word_ariths)

lemma sint_inc: "sint (v :: 32 word) < 2 ^ 31 - 1 \<Longrightarrow> sint (v + 1) = sint v + 1"
  using sint_ge [of v] by (simp add: signed_take_bit_int_eq_self sint_word_ariths)

text \<open>The state after the counter of \<open>s\<close> has been set.\<close>

abbreviation (input) set_value :: "addr \<Rightarrow> 32 word \<Rightarrow> kstate \<Rightarrow> kstate" where
  "set_value s v k \<equiv> k\<lparr>sems := (sems k)(s := (sems k s)\<lparr>sem_value := v\<rparr>)\<rparr>"

lemma krep_val:
  assumes rep: "krep k A" and s: "s \<in> a_sems A" "sint v = n"
  shows "krep (set_value s v k) (A\<lparr>a_val := (a_val A)(s := n)\<rparr>)"
  using krep0_val [OF krepD(1) [OF rep] s] krepD(2-7) [OF rep] by (auto simp: krep_def places_def)

lemma sem_nonnull: "krep0 k A \<Longrightarrow> s \<in> a_sems A \<Longrightarrow> s \<noteq> NULL \<and> sint (sem_value (sems k s)) = a_val A s"
  by (auto simp: krep0_def sems_ok_def)

lemma sem_wait_pass:
  assumes rep: "krep k A" and s: "s \<in> a_sems A" "0 < a_val A s"
  shows "sem_wait cont s k = Some (Returns WAIT_SUCCESS, set_value s (sem_value (sems k s) - 1) k)"
    and "krep (set_value s (sem_value (sems k s) - 1) k) (a_wait s A)"
proof -
  note v = sem_nonnull [OF krepD(1) [OF rep] s(1)]
  have d: "sint (sem_value (sems k s) - 1) = a_val A s - 1" using sint_dec [of "sem_value (sems k s)"] v s(2) by simp
  show "sem_wait cont s k = Some (Returns WAIT_SUCCESS, set_value s (sem_value (sems k s) - 1) k)"
    using v d s(2) by (simp add: sem_wait_def)
  show "krep (set_value s (sem_value (sems k s) - 1) k) (a_wait s A)"
    using krep_val [OF rep s(1) d] s(2) by (simp add: a_wait_def)
qed

lemma sem_wait_block:
  assumes rep: "krep k A" and s: "s \<in> a_sems A" "a_val A s \<le> 0" "- (2 ^ 31) < a_val A s"
    and Q: "a_queue A Ready \<noteq> []"
  obtains k' where "sem_wait cont s k = Some (Switches, k')" "krep k' (a_wait s A)"
    "switch_frame cont (a_cur A) k k'"
proof -
  note v = sem_nonnull [OF krepD(1) [OF rep] s(1)]
  have d: "sint (sem_value (sems k s) - 1) = a_val A s - 1" using sint_dec [of "sem_value (sems k s)"] v s(3) by simp
  let ?k = "set_value s (sem_value (sems k s) - 1) k" and ?A = "A\<lparr>a_val := (a_val A)(s := a_val A s - 1)\<rparr>"
  obtain k' where b: "sem_block cont s ?k = Some (Switches, k')" "krep k' (a_next (a_enq (Waiting s) (a_cur A) ?A))"
    "switch_frame cont (a_cur A) ?k k'"
    by (rule sem_block_rep [OF krep_val [OF rep s(1) d], of s cont]) (use s Q in auto)
  have "core_eq k ?k" by (simp add: core_eq_def env_eq_def)
  then have "switch_frame cont (a_cur A) k k'" using b(3) by (rule core_eq_switch_frame)
  moreover have "sem_wait cont s k = Some (Switches, k')" using v d s(2) b(1) by (simp add: sem_wait_def)
  moreover have "krep k' (a_wait s A)" using b(2) s(2) by (simp add: a_wait_def)
  ultimately show ?thesis by (intro that)
qed

text \<open>
  Waking one waiter: only the woken thread changes its status and its flag
  \<open>interrupted\<close>.
\<close>

definition woken :: "bool \<Rightarrow> addr set \<Rightarrow> kstate \<Rightarrow> kstate \<Rightarrow> bool" where
  "woken err ws k k' \<longleftrightarrow> env_eq k k' \<and> cpu_of k' = cpu_of k \<and> current_tcb k' = current_tcb k \<and>
     current_context k' = current_context k \<and> (\<forall>p. sem_value (sems k' p) = sem_value (sems k p)) \<and>
     (\<forall>p. core (tcbs k' p) = core (if p \<in> ws then (tcbs k p)\<lparr>interrupted := err\<rparr> else tcbs k p))"

lemma core_interrupted: "core x = core y \<Longrightarrow> core (interrupted_update f x) = core (interrupted_update f y)"
  by (simp add: core_def)

lemma core_interrupted_again:
  "core x = core y \<or> core x = core (y\<lparr>interrupted := e\<rparr>) \<Longrightarrow>
   core (x\<lparr>interrupted := e'\<rparr>) = core (y\<lparr>interrupted := e'\<rparr>)"
  by (auto simp: core_def)

lemma woken_trans:
  assumes "woken err ws k k1" "woken err vs k1 k2"
  shows "woken err (ws \<union> vs) k k2"
proof -
  have "core (tcbs k2 p) = core (if p \<in> ws \<union> vs then (tcbs k p)\<lparr>interrupted := err\<rparr> else tcbs k p)" for p
  proof -
    have 1: "core (tcbs k1 p) = core (if p \<in> ws then (tcbs k p)\<lparr>interrupted := err\<rparr> else tcbs k p)"
      and 2: "core (tcbs k2 p) = core (if p \<in> vs then (tcbs k1 p)\<lparr>interrupted := err\<rparr> else tcbs k1 p)"
      using assms by (simp_all add: woken_def)
    have "core ((tcbs k1 p)\<lparr>interrupted := err\<rparr>) = core ((tcbs k p)\<lparr>interrupted := err\<rparr>)"
      by (rule core_interrupted_again [where e = err]) (use 1 in \<open>simp split: if_splits\<close>)
    then show ?thesis using 1 2 by (cases "p \<in> vs"; cases "p \<in> ws") simp_all
  qed
  then show ?thesis using assms env_eq_trans by (auto simp: woken_def)
qed

lemma krep_from_krep0:
  assumes rep: "krep k A" and k0: "krep0 k' A'" and cur: "current_tcb k' = current_tcb k" "current_context k' = current_context k"
    "a_cur A' = a_cur A" "status (tcbs k' (a_cur A)) = status (tcbs k (a_cur A))"
    and q: "\<And>q. q \<in> places A' \<Longrightarrow> a_cur A \<notin> set (a_queue A' q)"
    and w: "a_wake A' = a_wake A" "set (a_queue A' Sleeping) \<subseteq> set (a_queue A Sleeping)"
  shows "krep k' A'"
  using assms krepD(2-7) [OF rep] by (auto simp: krep_def)

lemma sem_unblock_rep0:
  assumes rep: "krep0 k A" and s: "s \<in> a_sems A" and W: "a_queue A (Waiting s) = t # ts"
  obtains k' where "sem_unblock err s k = Some (UNBLOCK_SUCCESS, k')" "krep0 k' (a_unblock s A)" "woken err {t} k k'"
    "\<And>p. status (tcbs k' p) = (if p = t then READY else status (tcbs k p))"
proof -
  have s0: "s \<noteq> NULL" using sem_nonnull [OF rep s] by simp
  have q: "Waiting s \<in> places A" using s by simp
  obtain l h where d: "list_take_first (queue_hd k (Waiting s)) (tcbs k) = (t, l, h)"
    "krep0 (set_queue_hd (Waiting s) l (k\<lparr>tcbs := h\<rparr>)) (a_set (Waiting s) ts A)" "payload_eq h (tcbs k)"
    "t \<noteq> NULL" "\<And>r. r \<in> places A \<Longrightarrow> t \<notin> set (a_queue (a_set (Waiting s) ts A) r)"
    by (rule krep0_dequeue [OF rep q W]) auto
  let ?k1 = "set_queue_hd (Waiting s) l (k\<lparr>tcbs := h\<rparr>)"
  let ?k2 = "?k1\<lparr>tcbs := h(t := (h t)\<lparr>interrupted := err\<rparr>)\<rparr>"
  have k2: "krep0 ?k2 (a_set (Waiting s) ts A)"
    using krep0_upd_tcb [OF d(2), of t "(h t)\<lparr>interrupted := err\<rparr>"] d(5) by simp
  obtain l' h' where p: "put_tcb t ?k2 = Some (?k2\<lparr>tcbs := h', sched_queue := l'\<rparr>)"
    "krep0 (?k2\<lparr>tcbs := h', sched_queue := l'\<rparr>) (a_enq Ready t (a_set (Waiting s) ts A))"
    "payload_eq h' ((tcbs ?k2)(t := (tcbs ?k2 t)\<lparr>status := READY\<rparr>))"
    by (rule put_tcb_rep [OF k2 d(4)]) (use d(5) in auto)
  let ?k3 = "?k2\<lparr>tcbs := h', sched_queue := l'\<rparr>"
  have "status (tcbs ?k3 q) = (if q = t then READY else status (tcbs k q))" for q
    using payload_eqD(8) [OF p(3)] payload_eqD(8) [OF d(3)] by simp
  moreover have "krep0 ?k3 (a_unblock s A)" using p(2) W by (simp add: a_unblock_def)
  moreover have "woken err {t} k ?k3"
    using payload_core [OF p(3)] payload_core [OF d(3)] core_interrupted [OF payload_core [OF d(3)]]
    by (auto simp: woken_def env_eq_def)
  moreover have "sem_unblock err s k = Some (UNBLOCK_SUCCESS, ?k3)"
    using d(1,4) s0 p(1) by (simp add: sem_unblock_def)
  ultimately show ?thesis by (intro that)
qed

lemma krep_unblocked:
  assumes rep: "krep k A" and s: "s \<in> a_sems A" and W: "a_queue A (Waiting s) = t # ts"
    and k': "krep0 k' (a_unblock s A)" "woken err {t} k k'"
      "\<And>p. status (tcbs k' p) = (if p = t then READY else status (tcbs k p))"
  shows "krep k' (a_unblock s A)"
proof -
  note r = krepD [OF rep]
  have q: "Waiting s \<in> places A" using s by simp
  have cur: "a_cur A \<noteq> t" using r(6) [OF q] W by auto
  show ?thesis
    using k' W r(6) r(6) [OF q] cur
    by (intro krep_from_krep0 [OF rep]) (auto simp: a_unblock_def a_enq_def woken_def split: if_splits)
qed

lemma sem_unblock_rep:
  assumes rep: "krep k A" and s: "s \<in> a_sems A" and W: "a_queue A (Waiting s) = t # ts"
  obtains k' where "sem_unblock err s k = Some (UNBLOCK_SUCCESS, k')" "krep k' (a_unblock s A)" "woken err {t} k k'"
  by (rule sem_unblock_rep0 [OF krepD(1) [OF rep] s W, of err])
    (use krep_unblocked [OF rep s W] that in blast)

lemma sem_unblock_none:
  assumes rep: "krep0 k A" and s: "s \<in> a_sems A" and W: "a_queue A (Waiting s) = []"
  shows "sem_unblock err s k = Some (UNBLOCK_FAIL, k)"
proof -
  have "list_take_first (suspended (sems k s)) (tcbs k) = (NULL, suspended (sems k s), tcbs k)"
    using dequeue_empty [OF krep0D(1) [OF rep], of "Waiting s"] s W by simp
  then show ?thesis using sem_nonnull [OF rep s] by (simp add: sem_unblock_def)
qed

lemma sem_signal_rep:
  assumes rep: "krep k A" and s: "s \<in> a_sems A" "a_val A s < 2 ^ 31 - 1"
    and W: "a_val A s < 0 \<longleftrightarrow> a_queue A (Waiting s) \<noteq> []"
  obtains k' where "sem_signal s k = Some (SIGNAL_SUCCESS, k')" "krep k' (a_signal s A)"
    "woken False (if a_queue A (Waiting s) = [] then {} else {hd (a_queue A (Waiting s))})
       (set_value s (sem_value (sems k s) + 1) k) k'"
proof -
  note v = sem_nonnull [OF krepD(1) [OF rep] s(1)]
  have d: "sint (sem_value (sems k s) + 1) = a_val A s + 1" using sint_inc [of "sem_value (sems k s)"] v s(2) by simp
  let ?k = "set_value s (sem_value (sems k s) + 1) k" and ?A = "A\<lparr>a_val := (a_val A)(s := a_val A s + 1)\<rparr>"
  have rep': "krep ?k ?A" by (rule krep_val [OF rep s(1) d])
  show ?thesis
  proof (cases "a_queue A (Waiting s)")
    case Nil
    then have "0 \<le> a_val A s" using W by auto
    then have "sem_signal s k = Some (SIGNAL_SUCCESS, ?k)" "a_signal s A = ?A"
      using v d by (simp_all add: sem_signal_def a_signal_def)
    then show ?thesis using rep' Nil by (intro that [of ?k]) (auto simp: woken_def)
  next
    case (Cons t ts)
    then have neg: "a_val A s < 0" using W by auto
    obtain k' where u: "sem_unblock False s ?k = Some (UNBLOCK_SUCCESS, k')" "krep k' (a_unblock s ?A)" "woken False {t} ?k k'"
      by (rule sem_unblock_rep [OF rep', of s t ts]) (use s Cons in auto)
    have "sem_signal s k = Some (SIGNAL_SUCCESS, k')" "a_signal s A = a_unblock s ?A"
      using v d neg u(1) by (simp_all add: sem_signal_def a_signal_def)
    then show ?thesis using u Cons by (intro that [of k']) auto
  qed
qed

lemma a_close_step:
  "a_queue A (Waiting s) = t # ts \<Longrightarrow> a_close s (a_unblock s A) = a_close s A"
  by (auto simp: a_close_def a_unblock_def a_enq_def a_set_def fun_eq_iff)

lemma a_unblock_fields:
  assumes "a_queue A (Waiting s) = t # ts"
  shows "a_queue (a_unblock s A) (Waiting s) = ts" "a_sems (a_unblock s A) = a_sems A"
  using assms by (simp_all add: a_unblock_def a_enq_def)

lemma sem_close_rep0:
  assumes "krep0 k A" "s \<in> a_sems A" "a_queue A (Waiting s) = ws"
  obtains k' where "sem_close s k = Some (CLOSE_SUCCESS, k')" "krep0 k' (a_close s A)" "woken True (set ws) k k'"
    "\<And>p. status (tcbs k' p) = (if p \<in> set ws then READY else status (tcbs k p))"
  using assms
proof (induction ws arbitrary: k A thesis)
  case Nil
  then have "a_close s A = A"
    by (simp add: a_close_def a_set_def fun_upd_idem)
  moreover have "sem_close s k = Some (CLOSE_SUCCESS, k)"
    using sem_unblock_none [OF Nil.prems(2-4)] by (subst sem_close.simps) simp
  ultimately show ?case using Nil by (intro Nil(1) [of k]) (auto simp: woken_def)
next
  case (Cons w ws)
  obtain k1 where u: "sem_unblock True s k = Some (UNBLOCK_SUCCESS, k1)" "krep0 k1 (a_unblock s A)" "woken True {w} k k1"
    "\<And>p. status (tcbs k1 p) = (if p = w then READY else status (tcbs k p))"
    using sem_unblock_rep0 [OF Cons.prems(2-4)] by blast
  note f = a_unblock_fields [OF Cons.prems(4)]
  obtain k' where c: "sem_close s k1 = Some (CLOSE_SUCCESS, k')" "krep0 k' (a_close s (a_unblock s A))" "woken True (set ws) k1 k'"
    "\<And>p. status (tcbs k' p) = (if p \<in> set ws then READY else status (tcbs k1 p))"
    by (rule Cons.IH [OF _ u(2)]) (use f Cons.prems(3) in auto)
  have "sem_close s k = Some (CLOSE_SUCCESS, k')"
    using u(1) c(1) by (subst sem_close.simps) simp
  moreover have "status (tcbs k' p) = (if p \<in> set (w # ws) then READY else status (tcbs k p))" for p
    using c(4) [of p] u(4) [of p] by (cases "p = w") auto
  ultimately show ?case
    using c(2) woken_trans [OF u(3) c(3)] a_close_step [OF Cons.prems(4)] by (intro Cons.prems(1)) auto
qed

lemma sem_close_rep:
  assumes rep: "krep k A" and s: "s \<in> a_sems A"
  obtains k' where "sem_close s k = Some (CLOSE_SUCCESS, k')" "krep k' (a_close s A)"
    "woken True (set (a_queue A (Waiting s))) k k'"
proof -
  note r = krepD [OF rep]
  obtain k' where c: "sem_close s k = Some (CLOSE_SUCCESS, k')" "krep0 k' (a_close s A)"
    "woken True (set (a_queue A (Waiting s))) k k'"
    "\<And>p. status (tcbs k' p) = (if p \<in> set (a_queue A (Waiting s)) then READY else status (tcbs k p))"
    using sem_close_rep0 [OF r(1) s refl] by metis
  have "krep k' (a_close s A)"
    using c r(6) r(6) [of "Waiting s"] r(6) [of Ready] s
    by (intro krep_from_krep0 [OF rep]) (auto simp: a_close_def woken_def places_def)
  then show ?thesis using c by (intro that)
qed

end
