(* ===== verification/Sleep_Correct.thy ===== *)
theory Sleep_Correct
  imports Semaphore_Correct Sleep_Queue
begin

text \<open>
  The delta list of src/k_tcb_sleep_queue.cpp implements a queue of threads ordered by the absolute
  time at which they wake, first come first served among equals: put_to_sleep inserts
  (\<open>a_sleep\<close>) and timer_tick counts every thread down and makes those that reached zero
  ready (\<open>a_tick\<close>).
\<close>

section \<open>The abstract operations\<close>

definition a_sleep :: "addr \<Rightarrow> nat \<Rightarrow> sched \<Rightarrow> sched" where
  "a_sleep t n A =
     (let ts = a_queue A Sleeping
      in a_set Sleeping (takeWhile (\<lambda>u. a_wake A u \<le> n) ts @ t # dropWhile (\<lambda>u. a_wake A u \<le> n) ts)
           (A\<lparr>a_wake := (a_wake A)(t := n)\<rparr>))"

definition a_tick :: "sched \<Rightarrow> sched" where
  "a_tick A =
     (let w = (\<lambda>t. a_wake A t - 1);
          ts = a_queue A Sleeping
      in a_set Sleeping (dropWhile (\<lambda>t. w t = 0) ts)
           (a_set Ready (a_queue A Ready @ takeWhile (\<lambda>t. w t = 0) ts) (A\<lparr>a_wake := w\<rparr>)))"

section \<open>Searching\<close>

lemma sleep_search_finds:
  assumes "deltas h w b ts" "dll h p ts NULL" "NULL \<notin> set ts" "b < 2 ^ 64" "\<And>t. t \<in> set ts \<Longrightarrow> w t < 2 ^ 64"
  shows "sleep_search h wanted (first_or NULL ts) (of_nat b) =
    Some (first_or NULL (dropWhile (\<lambda>t. w t \<le> unat wanted) ts),
          of_nat (last_or b (map w (takeWhile (\<lambda>t. w t \<le> unat wanted) ts))))"
  using assms
proof (induction ts arbitrary: b p)
  case Nil
  then show ?case by (subst sleep_search.simps) simp
next
  case (Cons t ts)
  have d: "b \<le> w t" "unat (sleep_for (h t)) = w t - b" "w t < 2 ^ 64" using Cons.prems by auto
  then have "sleep_for (h t) = of_nat (w t - b)" by (metis word_of_nat_unat_eq)
  then have add: "of_nat b + sleep_for (h t) = (of_nat (w t) :: u64)" using d(1) by (simp add: of_nat_diff)
  then have sub: "of_nat (w t) - sleep_for (h t) = (of_nat b :: u64)" by (metis add_diff_cancel_right')
  have le: "of_nat (w t) \<le> wanted \<longleftrightarrow> w t \<le> unat wanted"
    using d(3) by (simp add: word_le_nat_alt unat_u64_of_nat)
  have t0: "t \<noteq> NULL" using Cons.prems by auto
  show ?case
  proof (cases "w t \<le> unat wanted")
    case True
    have "sleep_search h wanted (first_or NULL ts) (of_nat (w t)) =
      Some (first_or NULL (dropWhile (\<lambda>t. w t \<le> unat wanted) ts),
            of_nat (last_or (w t) (map w (takeWhile (\<lambda>t. w t \<le> unat wanted) ts))))"
      by (rule Cons.IH) (use Cons.prems in auto)
    then show ?thesis
      using True t0 le add Cons.prems(2) by (subst sleep_search.simps) simp
  next
    case False
    then show ?thesis using t0 le add sub by (subst sleep_search.simps) simp
  qed
qed

section \<open>Deltas\<close>

lemma deltas_append:
  "deltas h w b (ts @ us) \<longleftrightarrow> deltas h w b ts \<and> deltas h w (last_or b (map w ts)) us"
  by (induction ts arbitrary: b) auto

lemma deltas_sorted: "deltas h w b ts \<Longrightarrow> t \<in> set ts \<Longrightarrow> b \<le> w t \<and> w t < 2 ^ 64"
  by (induction ts arbitrary: b) fastforce+

lemma deltas_wake_cong: "(\<And>t. t \<in> set ts \<Longrightarrow> w' t = w t) \<Longrightarrow> deltas h w' b ts = deltas h w b ts"
  by (induction ts arbitrary: b) auto

lemma deltas_sorted_wrt: "deltas h w b ts \<Longrightarrow> sorted (map w ts)"
  by (induction ts arbitrary: b) (auto dest: deltas_sorted)

text \<open>Inserting a thread with its own absolute time between two halves.\<close>

lemma deltas_insert:
  assumes d: "deltas h w b (as @ bs)" and n: "\<And>u. u \<in> set as \<Longrightarrow> w u \<le> n" "bs \<noteq> [] \<Longrightarrow> n < w (hd bs)"
    "n < 2 ^ 64" "b \<le> n"
    and t: "t \<notin> set (as @ bs)" "distinct bs"
    and h: "\<And>u. u \<in> set as \<Longrightarrow> sleep_for (h' u) = sleep_for (h u)"
      "unat (sleep_for (h' t)) = n - last_or b (map w as)"
      "\<And>u. u \<in> set bs \<Longrightarrow> unat (sleep_for (h' u)) = (if u = hd bs then w u - n else unat (sleep_for (h u)))"
  shows "deltas h' (w(t := n)) b (as @ t # bs)"
proof -
  have "deltas h w b as" using d by (simp add: deltas_append)
  moreover have "deltas h' (w(t := n)) b as = deltas h' w b as"
    by (rule deltas_wake_cong) (use t(1) in auto)
  moreover have "deltas h' w b as = deltas h w b as"
    by (rule deltas_cong) (use h(1) in auto)
  ultimately have as: "deltas h' (w(t := n)) b as" by simp
  have maps: "map (w(t := n)) as = map w as" using t(1) by auto
  have le: "last_or b (map w as) \<le> n"
    using n(1,4) last_or_in [of "map w as" b] by (cases "as = []") auto
  have bs: "deltas h' (w(t := n)) n bs"
  proof (cases bs)
    case (Cons c cs)
    have "deltas h w (w c) cs" "w c < 2 ^ 64" using d Cons by (simp_all add: deltas_append)
    moreover have "unat (sleep_for (h' u)) = unat (sleep_for (h u))" if "u \<in> set cs" for u
      using h(3) [of u] that Cons t(2) by auto
    then have same: "u \<in> set cs \<Longrightarrow> sleep_for (h' u) = sleep_for (h u)" for u
      by (simp add: word_unat_eq_iff)
    moreover have "deltas h' (w(t := n)) (w c) cs = deltas h' w (w c) cs"
      by (rule deltas_wake_cong) (use t(1) Cons in auto)
    moreover have "deltas h' w (w c) cs = deltas h w (w c) cs"
      by (rule deltas_cong) (use same in auto)
    ultimately have "deltas h' (w(t := n)) (w c) cs" by simp
    moreover have "t \<noteq> c" using t(1) Cons by auto
    ultimately show ?thesis using Cons n(2) h(3) [of c] \<open>w c < 2 ^ 64\<close> by simp
  qed simp
  show ?thesis
    unfolding deltas_append maps using as bs le h(2) n(3) by simp
qed

section \<open>Chaining\<close>

lemma chain_sleeper_fields:
  assumes r: "chain_sleeper t c tot l h = (l', h')" and p: "p = prv (h c)"
    and ne: "t \<noteq> c" "t \<noteq> NULL" "p \<noteq> c" "p \<noteq> t"
  shows "l' = (if p = NULL then l\<lparr>lh_head := t\<rparr> else l)"
    and "nxt (h' q) = (if q = t then c else if q = p \<and> p \<noteq> NULL then t else nxt (h q))"
    and "prv (h' q) = (if q = t then p else if q = c then t else prv (h q))"
    and "sleep_for (h' q) =
          (if q = t then (if p = NULL then sleep_for (h t) else sleep_for (h t) - tot)
           else if q = c then sleep_for (h c) - (if p = NULL then sleep_for (h t) else sleep_for (h t) - tot)
           else sleep_for (h q))"
    and "status (h' q) = status (h q)" and "core (h' q) = core (h q)"
  using r ne unfolding p chain_sleeper_def Let_def by (auto split: if_splits)

section \<open>put_to_sleep\<close>

text \<open>
  What the three branches of put_to_sleep have in common: the list gets the thread between the
  threads that wake no later and those that wake later.
\<close>

definition slept :: "(addr \<Rightarrow> tcb) \<Rightarrow> addr \<Rightarrow> nat \<Rightarrow> (addr \<Rightarrow> nat) \<Rightarrow> addr list \<Rightarrow> addr list \<Rightarrow>
    list_hd \<Rightarrow> (addr \<Rightarrow> tcb) \<Rightarrow> bool" where
  "slept h t n w as bs l' h' \<longleftrightarrow> list_rep h' l' (as @ t # bs) \<and> deltas h' (w(t := n)) 0 (as @ t # bs) \<and>
     (\<forall>q. q \<notin> set (as @ t # bs) \<longrightarrow> h' q = h q) \<and> (\<forall>q. status (h' q) = status (h q)) \<and>
     (\<forall>q. core (h' q) = core (h q))"

lemma chain_sleeper_slept:
  assumes rep: "list_rep h l (as @ c # cs)" and d: "deltas h w 0 (as @ c # cs)"
    and as: "\<And>u. u \<in> set as \<Longrightarrow> w u \<le> n" and c: "n < w c" and n: "n < 2 ^ 64"
    and t: "t \<noteq> NULL" "t \<notin> set (as @ c # cs)" "unat (sleep_for (h t)) = n"
    and r: "chain_sleeper t c (of_nat (last_or 0 (map w as))) l h = (l', h')"
  shows "slept h t n w as (c # cs) l' h' \<and> nxt (h' t) = c"
proof -
  let ?p = "last_or NULL as"
  have dl: "dll h NULL (as @ [] @ (c # cs)) NULL" "distinct (as @ c # cs)" "NULL \<notin> set as" "NULL \<notin> set (c # cs)"
    "lh_head l = first_or NULL (as @ c # cs)" "lh_tail l = last_or NULL (as @ c # cs)"
    using rep by (auto simp: list_rep_def)
  have p: "prv (h c) = ?p" using dl(1) by simp
  have ne: "?p \<noteq> c" "?p \<noteq> t" "t \<noteq> c"
    using dl t last_or_in [of as NULL] by (cases "as = []"; auto)+
  have pn: "?p = NULL \<longleftrightarrow> as = []" using last_or_null_iff [of NULL as] dl(3) by simp
  note f = chain_sleeper_fields [OF r p [symmetric] ne(3) t(1) ne(1,2)]
  have base: "last_or 0 (map w as) \<le> n" using as last_or_in [of "map w as" 0] by (cases "as = []") auto
  have dist: "sleep_for (h' t) = sleep_for (h t) - of_nat (last_or 0 (map w as))"
    using f(4) [of t] pn by auto
  moreover have "unat (of_nat (last_or 0 (map w as)) :: u64) = last_or 0 (map w as)"
    using base n by (simp add: unat_u64_of_nat)
  ultimately have st: "unat (sleep_for (h' t)) = n - last_or 0 (map w as)"
    using base t(3) by (simp add: unat_sub_no_wrap)
  have dc: "last_or 0 (map w as) \<le> w c" "unat (sleep_for (h c)) = w c - last_or 0 (map w as)"
    using d by (simp_all add: deltas_append)
  have "sleep_for (h' c) = sleep_for (h c) - sleep_for (h' t)"
    using f(4) [of c] f(4) [of t] ne(3) by auto
  then have sc: "unat (sleep_for (h' c)) = w c - n"
    using st dc base c by (simp add: unat_sub_no_wrap)
  have links: "dll h' NULL (as @ [t] @ (c # cs)) NULL"
  proof (rule dll_relink [OF dl(1-4)])
    fix q assume q: "q \<in> set as \<union> set (c # cs)"
    then have "q \<noteq> t" using t(2) by auto
    moreover have "q \<noteq> NULL" using q dl(3,4) by auto
    ultimately show "nxt (h' q) = (if q = ?p then first_or NULL ([t] @ c # cs) else nxt (h q))"
      and "prv (h' q) = (if q = first_or NULL (c # cs) then last_or NULL (as @ [t]) else prv (h q))"
      using f(2,3) [of q] by auto
  qed (use f(2,3) [of t] in simp)
  have "list_rep h' l' (as @ t # c # cs)"
    using links dl t(1,2) f(1) pn by (cases as) (auto simp: list_rep_def)
  moreover have "deltas h' (w(t := n)) 0 (as @ t # c # cs)"
  proof (rule deltas_insert [OF d as _ n])
    fix u assume "u \<in> set as"
    then have "u \<noteq> t" "u \<noteq> c" using t(2) dl(2) by auto
    then show "sleep_for (h' u) = sleep_for (h u)" using f(4) [of u] by simp
  next
    fix u assume u: "u \<in> set (c # cs)"
    then have "u \<noteq> t" using t(2) by auto
    then show "unat (sleep_for (h' u)) = (if u = hd (c # cs) then w u - n else unat (sleep_for (h u)))"
      using f(4) [of u] sc by auto
  qed (use c t(2) dl(2) st in auto)
  moreover have "h' q = h q" if "q \<notin> set (as @ t # c # cs)" for q
  proof -
    have q: "q \<noteq> t" "q \<noteq> c" "q \<noteq> ?p \<or> ?p = NULL"
      using that last_or_in [of as NULL] by (cases "as = []"; auto)+
    then show ?thesis using r p unfolding chain_sleeper_def Let_def by (auto split: if_splits)
  qed
  ultimately show ?thesis using f(2) [of t] f(5,6) by (simp add: slept_def)
qed

lemma add_sleeper_slept:
  assumes rep: "list_rep h l as" and d: "deltas h w 0 as" and as: "\<And>u. u \<in> set as \<Longrightarrow> w u \<le> n" and n: "n < 2 ^ 64"
    and t: "t \<noteq> NULL" "t \<notin> set as" "unat (sleep_for (h t)) = n"
  obtains l' h' where
    "list_add_last t l (h(t := (h t)\<lparr>sleep_for := sleep_for (h t) - of_nat (last_or 0 (map w as))\<rparr>)) = Some (l', h')"
    "slept h t n w as [] l' h'"
proof -
  let ?h = "h(t := (h t)\<lparr>sleep_for := sleep_for (h t) - of_nat (last_or 0 (map w as))\<rparr>)"
  have rep': "list_rep ?h l as" by (rule list_rep_frame [OF rep]) (use t in auto)
  obtain l' h' where a: "list_add_last t l ?h = Some (l', h')" "list_rep h' l' (as @ [t])"
    "\<And>q. q \<notin> set as \<Longrightarrow> q \<noteq> t \<Longrightarrow> h' q = ?h q" "\<And>q. node.more (h' q) = node.more (?h q)"
    using add_last_rep [OF rep' t(1,2)] by metis
  have pe: "payload_eq h' ?h" using a(4) by (simp add: payload_eq_def)
  note pd = payload_eqD [OF pe]
  have base: "last_or 0 (map w as) \<le> n" using as last_or_in [of "map w as" 0] by (cases "as = []") auto
  have "unat (of_nat (last_or 0 (map w as)) :: u64) = last_or 0 (map w as)"
    using base n by (simp add: unat_u64_of_nat)
  then have st: "unat (sleep_for (h' t)) = n - last_or 0 (map w as)"
    using base t(3) pd(6) [of t] by (simp add: unat_sub_no_wrap)
  have "deltas h' (w(t := n)) 0 (as @ t # [])"
  proof (rule deltas_insert [where h = h])
    fix u assume "u \<in> set as"
    then have "u \<noteq> t" using t(2) by auto
    then show "sleep_for (h' u) = sleep_for (h u)" using pd(6) [of u] by simp
  qed (use d n as st t(2) in auto)
  moreover have "status (h' q) = status (h q)" for q using pd(8) [of q] by simp
  moreover have "core (h' q) = core (h q)" for q using payload_core [OF pe, of q] by simp
  ultimately show ?thesis using a by (intro that [OF a(1)]) (auto simp: slept_def)
qed

lemma put_to_sleep_slept:
  assumes rep: "list_rep (tcbs k) (sleep_queue k) ts" and d: "deltas (tcbs k) w 0 ts"
    and t: "t \<noteq> NULL" "t \<notin> set ts" and n: "0 < n"
  obtains l' h' where "put_to_sleep t n k = Some (k\<lparr>tcbs := h', sleep_queue := l'\<rparr>)"
    "slept (list_unlink t ((tcbs k)(t := (tcbs k t)\<lparr>sleep_for := n, status := SUSPENDED\<rparr>))) t (unat n) w
       (takeWhile (\<lambda>u. w u \<le> unat n) ts) (dropWhile (\<lambda>u. w u \<le> unat n) ts) l' h'"
proof -
  let ?h = "list_unlink t ((tcbs k)(t := (tcbs k t)\<lparr>sleep_for := n, status := SUSPENDED\<rparr>))"
  let ?as = "takeWhile (\<lambda>u. w u \<le> unat n) ts" and ?bs = "dropWhile (\<lambda>u. w u \<le> unat n) ts"
  have h: "?h q = tcbs k q" if "q \<noteq> t" for q using that t(1) by (simp add: list_unlink_def)
  have ht: "unat (sleep_for (?h t)) = unat n" "nxt (?h t) = NULL" "sleep_for (?h t) = n" using t(1) by (simp_all add: list_unlink_def)
  have rep': "list_rep ?h (sleep_queue k) ts" by (rule list_rep_frame [OF rep], rule h) (use t(2) in auto)
  have "deltas ?h w 0 ts = deltas (tcbs k) w 0 ts"
    by (rule deltas_cong, subst h) (use t(2) in auto)
  then have d': "deltas ?h w 0 ts" using d by simp
  have as: "u \<in> set ?as \<Longrightarrow> w u \<le> unat n" for u by (auto dest: set_takeWhileD)
  have n64: "unat n < 2 ^ 64" by (rule unat_lt64)
  have tas: "t \<notin> set ?as" using t(2) by (auto dest: set_takeWhileD)
  have pre: "upd_tcb t (\<lambda>x. x\<lparr>sleep_for := n, status := SUSPENDED\<rparr>) k =
      Some (k\<lparr>tcbs := (tcbs k)(t := (tcbs k t)\<lparr>sleep_for := n, status := SUSPENDED\<rparr>)\<rparr>)"
    using t(1) by simp
  show ?thesis
  proof (cases "ts = []")
    case True
    have e: "list_is_empty (sleep_queue k)" using list_rep_is_empty [OF rep] True by simp
    have u: "list_unlink t ?h = ?h" by (simp add: list_unlink_def)
    let ?l = "(sleep_queue k)\<lparr>lh_head := t, lh_tail := t\<rparr>"
    have "slept ?h t (unat n) w [] [] ?l ?h"
      using t(1) ht n64 by (simp add: slept_def list_rep_def) (simp add: list_unlink_def)
    moreover have "put_to_sleep t n k = Some (k\<lparr>tcbs := ?h, sleep_queue := ?l\<rparr>)"
      using e t(1) u by (simp add: put_to_sleep_def pre list_set_first_def)
    ultimately show ?thesis using True by (intro that) auto
  next
    case False
    have e: "\<not> list_is_empty (sleep_queue k)" using list_rep_is_empty [OF rep] False by simp
    have "sleep_search ?h n (lh_head (sleep_queue k)) 0 = Some (first_or NULL ?bs, of_nat (last_or 0 (map w ?as)))"
      using sleep_search_finds [OF d', of NULL n] rep' deltas_sorted [OF d'] by (auto simp: list_rep_def)
    note search = this
    show ?thesis
    proof (cases "?bs = []")
      case True
      then have all: "?as = ts" by (metis append_Nil2 takeWhile_dropWhile_id)
      obtain l' h' where a:
        "list_add_last t (sleep_queue k) (?h(t := (?h t)\<lparr>sleep_for := sleep_for (?h t) - of_nat (last_or 0 (map w ?as))\<rparr>)) = Some (l', h')"
        "slept ?h t (unat n) w ?as [] l' h'"
        unfolding all by (rule add_sleeper_slept [OF rep' d' _ n64 t ht(1)]) (use as all in auto)
      have "put_to_sleep t n k = Some (k\<lparr>tcbs := h', sleep_queue := l'\<rparr>)"
        using e t(1) search True ht a(1) by (simp add: put_to_sleep_def pre)
      moreover have "slept ?h t (unat n) w ?as ?bs l' h'" using a(2) unfolding True .
      ultimately show ?thesis by (rule that)
    next
      case False
      then obtain c cs where bs: "?bs = c # cs" by (cases ?bs) auto
      have split: "ts = ?as @ c # cs" using bs takeWhile_dropWhile_id [of "\<lambda>u. w u \<le> unat n" ts] by simp
      have c: "unat n < w c" using bs hd_dropWhile [of "\<lambda>u. w u \<le> unat n" ts] by auto
      have c0: "c \<noteq> NULL" using rep split list_rep_distinct by (metis in_set_conv_decomp)
      obtain l' h' where r: "chain_sleeper t c (of_nat (last_or 0 (map w ?as))) (sleep_queue k) ?h = (l', h')"
        by (cases "chain_sleeper t c (of_nat (last_or 0 (map w ?as))) (sleep_queue k) ?h")
      have s: "slept ?h t (unat n) w ?as (c # cs) l' h' \<and> nxt (h' t) = c"
        by (rule chain_sleeper_slept [OF _ _ as c n64 t(1) _ ht(1) r])
          (use rep' d' t(2) split in \<open>metis+\<close>)
      have "put_to_sleep t n k = Some (k\<lparr>tcbs := h', sleep_queue := l'\<rparr>)"
        using e t(1) search bs c0 r s ht(3) by (simp add: put_to_sleep_def pre)
      then show ?thesis using s bs by (intro that) auto
    qed
  qed
qed

lemma put_to_sleep_rep:
  assumes rep: "krep0 k A" and t: "t \<noteq> NULL" "\<And>q. q \<in> places A \<Longrightarrow> t \<notin> set (a_queue A q)" and n: "0 < n"
  obtains k' where "put_to_sleep t n k = Some k'" "krep0 k' (a_sleep t (unat n) A)"
    "core_eq k k'" "\<And>q. status (tcbs k' q) = (if q = t then SUSPENDED else status (tcbs k q))"
    "current_tcb k' = current_tcb k" "current_context k' = current_context k" "sems k' = sems k"
proof -
  note r = krep0D [OF rep]
  let ?ts = "a_queue A Sleeping"
  let ?as = "takeWhile (\<lambda>u. a_wake A u \<le> unat n) ?ts" and ?bs = "dropWhile (\<lambda>u. a_wake A u \<le> unat n) ?ts"
  let ?h = "list_unlink t ((tcbs k)(t := (tcbs k t)\<lparr>sleep_for := n, status := SUSPENDED\<rparr>))"
  have lr: "list_rep (tcbs k) (sleep_queue k) ?ts" using queues_repD(1) [OF r(1), of Sleeping] by simp
  obtain l' h' where p: "put_to_sleep t n k = Some (k\<lparr>tcbs := h', sleep_queue := l'\<rparr>)" "slept ?h t (unat n) (a_wake A) ?as ?bs l' h'"
    by (rule put_to_sleep_slept [OF lr _ t(1) _ n]) (use r(4) t(2) in \<open>auto simp: sleepers_ok_def\<close>)
  let ?k' = "k\<lparr>tcbs := h', sleep_queue := l'\<rparr>"
  have set: "set (?as @ t # ?bs) = insert t (set ?ts)"
    by (metis set_append takeWhile_dropWhile_id list.simps(15) Un_insert_right)
  have same: "h' q = tcbs k q" if "q \<notin> insert t (set ?ts)" for q
  proof -
    have "h' q = ?h q" using p(2) that unfolding slept_def set by blast
    then show ?thesis using that t(1) by (simp add: list_unlink_def)
  qed
  have st: "status (h' q) = (if q = t then SUSPENDED else status (tcbs k q))" for q
    using p(2) t(1) by (simp add: slept_def list_unlink_def)
  have co: "core (h' q) = core (tcbs k q)" for q
    using p(2) t(1) by (simp add: slept_def list_unlink_def)
  let ?Q = "(a_queue A)(Sleeping := ?as @ t # ?bs)"
  have qr: "queues_rep ?k' (places A) ?Q"
    unfolding queues_rep_def
  proof (intro conjI ballI impI)
    fix q assume q: "q \<in> places A"
    show "list_rep (tcbs ?k') (queue_hd ?k' q) (?Q q)"
    proof (cases "q = Sleeping")
      case False
      have "list_rep h' (queue_hd k q) (a_queue A q)"
        by (rule list_rep_frame [OF queues_repD(1) [OF r(1) q]], rule same)
          (use queues_repD(2) [OF r(1) q, of Sleeping] t(2) [OF q] False in auto)
      then show ?thesis using False by (cases q) auto
    qed (use p(2) in \<open>simp add: slept_def\<close>)
  next
    fix q r' assume q: "q \<in> places A" "r' \<in> places A" "q \<noteq> r'"
    have Q: "?Q u = a_queue A u" if "u \<noteq> Sleeping" for u using that by simp
    show "set (?Q q) \<inter> set (?Q r') = {}"
    proof (cases "q = Sleeping")
      case True
      then have "set (?Q q) = insert t (set ?ts)" "?Q r' = a_queue A r'" using set q(3) by auto
      then show ?thesis using queues_repD(2) [OF r(1) q(1,2)] q(3) True t(2) [OF q(2)] by simp
    next
      case q': False
      show ?thesis
      proof (cases "r' = Sleeping")
        case True
        then have "set (?Q r') = insert t (set ?ts)" "?Q q = a_queue A q" using set q(3) by auto
        then show ?thesis using queues_repD(2) [OF r(1) q(1,2)] q(3) True t(2) [OF q(1)] by auto
      next
        case False
        then show ?thesis using q' Q queues_repD(2) [OF r(1) q(1,2)] q(3) by simp
      qed
    qed
  qed
  have "status_ok ?k' (a_sleep t (unat n) A)"
    unfolding status_ok_def
  proof (intro ballI)
    fix q u assume q: "q \<in> places (a_sleep t (unat n) A)" and u: "u \<in> set (a_queue (a_sleep t (unat n) A) q)"
    have q': "q \<in> places A" using q by (simp add: a_sleep_def places_def Let_def)
    have "u \<in> set (a_queue A q) \<or> (u = t \<and> q = Sleeping)"
      using u set by (cases "q = Sleeping") (auto simp: a_sleep_def Let_def)
    then show "status (tcbs ?k' u) = (if q = Ready then READY else SUSPENDED)"
      using r(2) q' st t(2) [OF q'] by (auto simp: status_ok_def)
  qed
  moreover have "queues_rep ?k' (places (a_sleep t (unat n) A)) (a_queue (a_sleep t (unat n) A))"
    using qr by (simp add: a_sleep_def Let_def places_def)
  moreover have "sleepers_ok ?k' (a_sleep t (unat n) A)" "sems_ok ?k' (a_sleep t (unat n) A)"
    using p(2) r(3) by (simp_all add: sleepers_ok_def sems_ok_def a_sleep_def Let_def slept_def)
  ultimately have "krep0 ?k' (a_sleep t (unat n) A)" by (simp add: krep0_def)
  then show ?thesis using p(1) st co by (intro that [of ?k']) (auto simp: core_eq_def env_eq_def)
qed

section \<open>timer_tick\<close>

text \<open>The loop that wakes the threads whose time has come.\<close>

lemma a_enq_wake: "a_wake (a_enq q t A) = a_wake A"
  by (simp add: a_enq_def)

definition a_expire :: "sched \<Rightarrow> sched" where
  "a_expire A =
     (let ts = a_queue A Sleeping
      in a_set Sleeping (dropWhile (\<lambda>t. a_wake A t = 0) ts)
           (a_set Ready (a_queue A Ready @ takeWhile (\<lambda>t. a_wake A t = 0) ts) A))"

lemma a_expire_step:
  assumes "a_queue A Sleeping = t # ts" "a_wake A t = 0"
  shows "a_expire (a_enq Ready t (a_set Sleeping ts A)) = a_expire A"
  using assms by (simp add: a_expire_def a_enq_def a_set_def Let_def fun_upd_twist)

lemma wake_expired_rep:
  assumes "krep0 k A" "a_queue A Sleeping = ts"
  obtains k' where "wake_expired k = Some k'" "krep0 k' (a_expire A)" "core_eq k k'"
    "\<And>q. q \<notin> set ts \<Longrightarrow> status (tcbs k' q) = status (tcbs k q)"
    "current_tcb k' = current_tcb k" "current_context k' = current_context k" "sems k' = sems k"
  using assms
proof (induction ts arbitrary: k A thesis)
  case Nil
  have "list_is_empty (sleep_queue k)"
    using queues_rep_empty [OF krep0D(1) [OF Nil.prems(2)], of Sleeping] Nil.prems(3) by simp
  then have "wake_expired k = Some k" by (subst wake_expired.simps) simp
  moreover have "a_expire A = A"
    using Nil.prems(3) by (simp add: a_expire_def a_set_def Let_def fun_upd_idem)
  ultimately show ?case using Nil.prems(2) by (intro Nil.prems(1) [of k]) (auto simp: core_eq_def)
next
  case (Cons t ts)
  note r = krep0D [OF Cons.prems(2)]
  have lr: "list_rep (tcbs k) (sleep_queue k) (t # ts)"
    using queues_repD(1) [OF r(1), of Sleeping] Cons.prems(3) by simp
  then have ne: "\<not> list_is_empty (sleep_queue k)" "list_peek_first (sleep_queue k) = t"
    using list_rep_is_empty [OF lr] by (simp_all add: list_rep_def list_peek_first_def)
  have w: "unat (sleep_for (tcbs k t)) = a_wake A t" using r(4) Cons.prems(3) by (simp add: sleepers_ok_def)
  show ?case
  proof (cases "a_wake A t = 0")
    case False
    then have "sleep_for (tcbs k t) \<noteq> 0" using w by auto
    then have "wake_expired k = Some k" using ne by (subst wake_expired.simps) simp
    moreover have "a_expire A = A"
      using Cons.prems(3) False by (simp add: a_expire_def a_set_def Let_def fun_upd_idem)
    ultimately show ?thesis using Cons.prems(2) by (intro Cons.prems(1) [of k]) (auto simp: core_eq_def)
  next
    case True
    then have z: "sleep_for (tcbs k t) = 0" using w by (simp add: unat_eq_zero)
    obtain l h where d: "list_take_first (queue_hd k Sleeping) (tcbs k) = (t, l, h)"
      "krep0 (set_queue_hd Sleeping l (k\<lparr>tcbs := h\<rparr>)) (a_set Sleeping ts A)" "payload_eq h (tcbs k)"
      "t \<noteq> NULL" "\<And>r. r \<in> places A \<Longrightarrow> t \<notin> set (a_queue (a_set Sleeping ts A) r)"
      by (rule krep0_dequeue [OF Cons.prems(2) _ Cons.prems(3) True]) auto
    let ?k1 = "k\<lparr>tcbs := h, sleep_queue := l\<rparr>"
    obtain h2 l2 where p: "put_tcb t ?k1 = Some (?k1\<lparr>tcbs := h2, sched_queue := l2\<rparr>)"
      "krep0 (?k1\<lparr>tcbs := h2, sched_queue := l2\<rparr>) (a_enq Ready t (a_set Sleeping ts A))"
      "payload_eq h2 ((tcbs ?k1)(t := (tcbs ?k1 t)\<lparr>status := READY\<rparr>))"
      by (rule put_tcb_rep [of ?k1 "a_set Sleeping ts A" t]) (use d in simp_all)
    let ?k2 = "?k1\<lparr>tcbs := h2, sched_queue := l2\<rparr>"
    have "a_queue (a_enq Ready t (a_set Sleeping ts A)) Sleeping = ts" by (simp add: a_enq_def)
    from Cons.IH [OF _ p(2) this] obtain k' where k': "wake_expired ?k2 = Some k'"
      "krep0 k' (a_expire (a_enq Ready t (a_set Sleeping ts A)))" "core_eq ?k2 k'"
      "\<And>q. q \<notin> set ts \<Longrightarrow> status (tcbs k' q) = status (tcbs ?k2 q)"
      "current_tcb k' = current_tcb ?k2" "current_context k' = current_context ?k2" "sems k' = sems ?k2" by blast
    have ex: "krep0 k' (a_expire A)" using k'(2) a_expire_step [OF Cons.prems(3) True] by simp
    have "core_eq k ?k2" using payload_core [OF p(3)] payload_core [OF d(3)] by (auto simp: core_eq_def env_eq_def)
    then have co: "core_eq k k'" using k'(3) core_eq_trans by blast
    have st: "status (tcbs k' q) = status (tcbs k q)" if "q \<notin> set (t # ts)" for q
      using k'(4) [of q] payload_eqD(8) [OF p(3), of q] payload_eqD(8) [OF d(3), of q] that by simp
    have "wake_expired k = Some k'" using ne z d(1) p(1) k'(1) by (subst wake_expired.simps) simp
    then show ?thesis using ex co st k'(5-7) by (intro Cons.prems(1) [of k']) auto
  qed
qed

lemma deltas_tick:
  assumes "deltas h w b ts" "0 < w (hd ts)" "b = 0" "ts \<noteq> []" "distinct ts"
    and "\<And>t. t \<in> set ts \<Longrightarrow> sleep_for (h' t) = (if t = hd ts then sleep_for (h t) - 1 else sleep_for (h t))"
  shows "deltas h' (\<lambda>t. w t - 1) 0 ts"
proof -
  obtain t us where ts: "ts = t # us" using assms(4) by (cases ts) auto
  have rest: "deltas h w b' us \<Longrightarrow> 0 < b' \<Longrightarrow> deltas h (\<lambda>t. w t - 1) (b' - 1) us" for b'
    by (induction us arbitrary: b') auto
  have "deltas h (\<lambda>t. w t - 1) (w t - 1) us" using rest [of "w t"] assms(1,2) ts by simp
  moreover have "deltas h' (\<lambda>t. w t - 1) (w t - 1) us = deltas h (\<lambda>t. w t - 1) (w t - 1) us"
    by (rule deltas_cong) (use assms(5,6) ts in auto)
  moreover have "unat (sleep_for (h' t)) = w t - 1"
  proof -
    have "unat (sleep_for (h t)) = w t" "0 < w t" using assms(1,2,3) ts by simp_all
    then show ?thesis using assms(6) [of t] ts by (simp add: unat_sub_no_wrap)
  qed
  ultimately show ?thesis using assms(1,2,3) ts by auto
qed

lemma timer_tick_rep:
  assumes rep: "krep k A"
  obtains k' where "timer_tick k = Some k'" "krep k' (a_tick A)" "core_eq k k'" "sems k' = sems k"
proof -
  note r = krepD [OF rep]
  note r0 = krep0D [OF r(1)]
  have lr: "list_rep (tcbs k) (sleep_queue k) (a_queue A Sleeping)" using queues_repD(1) [OF r0(1), of Sleeping] by simp
  show ?thesis
  proof (cases "a_queue A Sleeping")
    case Nil
    then have "list_is_empty (sleep_queue k)" using list_rep_is_empty [OF lr] by simp
    then have "timer_tick k = Some k" by (simp add: timer_tick_def)
    moreover have "krep k (a_tick A)"
      using rep Nil by (simp add: a_tick_def a_set_def Let_def krep_def krep0_def places_def
          status_ok_def sems_ok_def sleepers_ok_def fun_upd_idem)
    ultimately show ?thesis by (intro that) (auto simp: core_eq_def)
  next
    case (Cons t ts)
    have ne: "\<not> list_is_empty (sleep_queue k)" "list_peek_first (sleep_queue k) = t" "t \<noteq> NULL" "distinct (t # ts)"
      using list_rep_is_empty [OF lr] lr Cons by (simp_all add: list_rep_def list_peek_first_def)
    let ?h = "(tcbs k)(t := (tcbs k t)\<lparr>sleep_for := sleep_for (tcbs k t) - 1\<rparr>)"
    let ?A = "A\<lparr>a_wake := \<lambda>t. a_wake A t - 1\<rparr>"
    have q: "queues_rep (k\<lparr>tcbs := ?h\<rparr>) (places A) (a_queue A)"
      by (rule queues_rep_cong [OF r0(1)]) auto
    have d: "deltas ?h (\<lambda>t. a_wake A t - 1) 0 (a_queue A Sleeping)"
      by (rule deltas_tick [where h = "tcbs k" and b = 0])
        (use r0(4) r(7) Cons ne(4) in \<open>auto simp: sleepers_ok_def\<close>)
    have "status (?h u) = status (tcbs k u)" for u by simp
    then have "status_ok (k\<lparr>tcbs := ?h\<rparr>) A" using r0(2) by (simp add: status_ok_def)
    then have k1: "krep0 (k\<lparr>tcbs := ?h\<rparr>) ?A"
      using q d r0(3) by (simp add: krep0_def sems_ok_def sleepers_ok_def status_ok_def places_def)
    have "a_queue ?A Sleeping = t # ts" using Cons by simp
    from wake_expired_rep [OF k1 this] obtain k' where k': "wake_expired (k\<lparr>tcbs := ?h\<rparr>) = Some k'"
      "krep0 k' (a_expire ?A)" "core_eq (k\<lparr>tcbs := ?h\<rparr>) k'"
      "\<And>q. q \<notin> set (t # ts) \<Longrightarrow> status (tcbs k' q) = status (?h q)"
      "current_tcb k' = current_tcb k" "current_context k' = current_context k" "sems k' = sems k"
      by auto
    have eq: "a_expire ?A = a_tick A"
      by (simp add: a_expire_def a_tick_def Let_def a_set_def)
    have cur: "a_cur A \<notin> set (t # ts)" using r(6) [of Sleeping] Cons by simp
    have pos: "0 < a_wake (a_tick A) u" if "u \<in> set (a_queue (a_tick A) Sleeping)" for u
    proof -
      have u: "u \<in> set (dropWhile (\<lambda>t. a_wake A t - 1 = 0) (t # ts))"
        using that Cons by (simp add: a_tick_def Let_def del: dropWhile.simps)
      have sorted: "sorted (map (\<lambda>t. a_wake A t - 1) (t # ts))" using deltas_sorted_wrt [OF d] Cons by simp
      have "sorted (map w us) \<Longrightarrow> v \<in> set (dropWhile (\<lambda>t. w t = 0) us) \<Longrightarrow> 0 < w v" for w :: "addr \<Rightarrow> nat" and us v
        by (induction us) (auto split: if_splits dest: bspec intro: gr0I)
      from this [OF sorted u] show ?thesis by (simp add: a_tick_def Let_def)
    qed
    have sub: "a_cur A \<notin> set (a_queue (a_tick A) q)" if "q \<in> places A" for q
      using r(6) [OF that] r(6) [of Ready] r(6) [of Sleeping]
      by (auto simp: a_tick_def Let_def dest: set_takeWhileD set_dropWhileD)
    have "krep k' (a_tick A)"
      using k'(2) eq r(2-5) k'(4) [OF cur] k'(5,6) cur pos sub
      by (auto simp: krep_def a_tick_def Let_def places_def)
    moreover have "core_eq k (k\<lparr>tcbs := ?h\<rparr>)" by (simp add: core_eq_def env_eq_def)
    then have "core_eq k k'" using k'(3) core_eq_trans by blast
    moreover have "timer_tick k = Some k'" using ne k'(1) by (simp add: timer_tick_def)
    ultimately show ?thesis using k'(7) by (intro that)
  qed
qed

end
