(* ===== verification/Trap_Correct.thy ===== *)
theory Trap_Correct
  imports Sleep_Correct Trap_Handlers
begin

text \<open>
  The trap handlers on top of the abstract scheduler: what entry, exit and resumption do to the
  registers, when the timer switches threads, and what the system calls for dispatching, sleeping
  and waiting compute.
\<close>

section \<open>Updates that leave the queues alone\<close>

lemma krep_upd_cur:
  assumes rep: "krep k A" and st: "status x = RUNNING"
  shows "krep (k\<lparr>tcbs := (tcbs k)(a_cur A := x)\<rparr>) A"
proof -
  have "krep0 (k\<lparr>tcbs := (tcbs k)(a_cur A := x)\<rparr>) A"
    by (rule krep0_upd_tcb [OF krepD(1,6) [OF rep]])
  then show ?thesis using krepD(2-7) [OF rep] st by (auto simp: krep_def)
qed

lemma krep_irrelevant [simp]:
  "krep (k\<lparr>cpu_of := c\<rparr>) A = krep k A" "krep (k\<lparr>timer_ticks := n\<rparr>) A = krep k A"
  "krep (k\<lparr>putc_buffer := q\<rparr>) A = krep k A" "krep (k\<lparr>getc_buffer := q\<rparr>) A = krep k A"
  "krep (k\<lparr>mem := m\<rparr>) A = krep k A" "krep (k\<lparr>user_cells := u\<rparr>) A = krep k A"
  "krep (k\<lparr>tx_out := out\<rparr>) A = krep k A"
proof -
  have *: "krep k A = krep k' A" if "tcbs k' = tcbs k" "sems k' = sems k" "sched_queue k' = sched_queue k"
    "sleep_queue k' = sleep_queue k" "current_tcb k' = current_tcb k" "current_context k' = current_context k" for k k'
    using krep_cong [of k A k'] krep_cong [of k' A k] that by auto
  show "krep (k\<lparr>cpu_of := c\<rparr>) A = krep k A" "krep (k\<lparr>timer_ticks := n\<rparr>) A = krep k A"
    "krep (k\<lparr>putc_buffer := q\<rparr>) A = krep k A" "krep (k\<lparr>getc_buffer := q\<rparr>) A = krep k A"
    "krep (k\<lparr>mem := m\<rparr>) A = krep k A" "krep (k\<lparr>user_cells := u\<rparr>) A = krep k A"
    "krep (k\<lparr>tx_out := out\<rparr>) A = krep k A"
    by (rule * [symmetric], simp_all)+
qed

lemma set_a0_rep:
  assumes rep: "krep k A"
  shows "set_a0 v k = Some (k\<lparr>tcbs := (tcbs k)(a_cur A := (tcbs k (a_cur A))\<lparr>tcontext :=
           (tcontext (tcbs k (a_cur A)))\<lparr>c_a0 := v\<rparr>\<rparr>)\<rparr>)"
    and "krep (k\<lparr>tcbs := (tcbs k)(a_cur A := (tcbs k (a_cur A))\<lparr>tcontext :=
           (tcontext (tcbs k (a_cur A)))\<lparr>c_a0 := v\<rparr>\<rparr>)\<rparr>) A"
  using krepD(3-5) [OF rep] by (auto simp: set_a0_def intro!: krep_upd_cur [OF rep])

section \<open>Entry and exit\<close>

definition entered :: "kstate \<Rightarrow> kstate" where
  "entered k =
     (let t = current_tcb k; c = cpu_of k; x = tcbs k t;
          x' = x\<lparr>tcontext := (tcontext x)\<lparr>c_usr_sp := regs c X_sp\<rparr>, trap_frame := regs c\<rparr>
      in k\<lparr>tcbs := (tcbs k)(t := x'),
           cpu_of := c\<lparr>regs := (regs c)(X_sp := c_sys_sp (tcontext x) - trap_frame_size)\<rparr>\<rparr>)"

lemma trap_enter_rep:
  assumes rep: "krep k A"
  shows "trap_enter k = Some (entered k)" "krep (entered k) A"
proof -
  show "trap_enter k = Some (entered k)"
    using krepD(2-4) [OF rep] by (simp add: trap_enter_def entered_def Let_def)
  show "krep (entered k) A"
    using krep_upd_cur [OF rep] krepD(2,5) [OF rep] by (simp add: entered_def Let_def)
qed

text \<open>
  Leaving a trap: the general registers are those of the frame, with the user stack pointer, and a0
  from the context after a system call.
\<close>

definition exit_regs :: "bool \<Rightarrow> tcb \<Rightarrow> gpr \<Rightarrow> u64" where
  "exit_regs ecall x =
     (let r = (trap_frame x)(X_sp := c_usr_sp (tcontext x))
      in if ecall then r(X_a0 := c_a0 (tcontext x)) else r)"

lemma trap_exit_rep:
  assumes rep: "krep k A"
  obtains k' where "trap_exit e k = Some k'" "krep k' A" "regs (cpu_of k') = exit_regs e (tcbs k (a_cur A))"
    "csr_sepc (cpu_of k') = csr_sepc (cpu_of k)" "csr_sstatus (cpu_of k') = csr_sstatus (cpu_of k)"
    "\<And>p. p \<noteq> a_cur A \<Longrightarrow> tcbs k' p = tcbs k p" "env_eq k k'" "sems k' = sems k"
    "c_sys_sp (tcontext (tcbs k' (a_cur A))) = regs (cpu_of k) X_sp + trap_frame_size"
proof -
  note r = krepD [OF rep]
  let ?x = "tcbs k (a_cur A)"
  let ?x' = "?x\<lparr>tcontext := (tcontext ?x)\<lparr>c_sys_sp := regs (cpu_of k) X_sp + trap_frame_size\<rparr>\<rparr>"
  let ?k' = "k\<lparr>tcbs := (tcbs k)(a_cur A := ?x'), cpu_of := (cpu_of k)\<lparr>regs := exit_regs e ?x\<rparr>\<rparr>"
  have "trap_exit e k = Some ?k'"
    using r(3,4) by (simp add: trap_exit_def exit_regs_def Let_def)
  moreover have "krep ?k' A" using krep_upd_cur [OF rep, of ?x'] r(5) by simp
  ultimately show ?thesis by (rule that) (simp_all add: env_eq_def)
qed

section \<open>Resuming\<close>

lemma krep_cur_nonnull: "krep k A \<Longrightarrow> deref (tcbs k) (current_tcb k) = Some (tcbs k (a_cur A))"
  using krepD(2,4) by simp

text \<open>A preempted thread gets all its registers back.\<close>

lemma resume_interrupt:
  assumes rep: "krep k A" and res: "resume (tcbs k (a_cur A)) = KInterrupt"
  obtains k' where "resume_current rw k = Some k'" "krep k' A" "timer_ticks k' = 0"
    "regs (cpu_of k') = exit_regs False (tcbs k (a_cur A))"
    "csr_sepc (cpu_of k') = csr_sepc (cpu_of k)" "csr_sstatus (cpu_of k') = csr_sstatus (cpu_of k)"
proof -
  have rep0: "krep (k\<lparr>timer_ticks := 0\<rparr>) A" using rep by simp
  obtain k' where k': "trap_exit False (k\<lparr>timer_ticks := 0\<rparr>) = Some k'" "krep k' A"
    "regs (cpu_of k') = exit_regs False (tcbs (k\<lparr>timer_ticks := 0\<rparr>) (a_cur A))"
    "csr_sepc (cpu_of k') = csr_sepc (cpu_of (k\<lparr>timer_ticks := 0\<rparr>))"
    "csr_sstatus (cpu_of k') = csr_sstatus (cpu_of (k\<lparr>timer_ticks := 0\<rparr>))" "env_eq (k\<lparr>timer_ticks := 0\<rparr>) k'"
    using trap_exit_rep [OF rep0, of False] by metis
  show ?thesis
    using k' krep_cur_nonnull [OF rep] res
    by (intro that [of k']) (simp_all add: resume_current_def env_eq_def)
qed

lemma resume_dispatch:
  assumes rep: "krep k A" and res: "resume (tcbs k (a_cur A)) = KDispatch"
  obtains k' where "resume_current rw k = Some k'" "krep k' A" "timer_ticks k' = 0"
    "regs (cpu_of k') = exit_regs True (tcbs k (a_cur A))"
    "csr_sepc (cpu_of k') = csr_sepc (cpu_of k)" "csr_sstatus (cpu_of k') = csr_sstatus (cpu_of k)"
proof -
  have rep0: "krep (k\<lparr>timer_ticks := 0\<rparr>) A" using rep by simp
  obtain k' where k': "trap_exit True (k\<lparr>timer_ticks := 0\<rparr>) = Some k'" "krep k' A"
    "regs (cpu_of k') = exit_regs True (tcbs (k\<lparr>timer_ticks := 0\<rparr>) (a_cur A))"
    "csr_sepc (cpu_of k') = csr_sepc (cpu_of (k\<lparr>timer_ticks := 0\<rparr>))"
    "csr_sstatus (cpu_of k') = csr_sstatus (cpu_of (k\<lparr>timer_ticks := 0\<rparr>))" "env_eq (k\<lparr>timer_ticks := 0\<rparr>) k'"
    using trap_exit_rep [OF rep0, of True] by metis
  show ?thesis
    using k' krep_cur_nonnull [OF rep] res
    by (intro that [of k']) (simp_all add: resume_current_def env_eq_def)
qed

text \<open>A thread that waited on a semaphore learns whether the semaphore was closed.\<close>

lemma resume_sem_wait:
  assumes rep: "krep k A" and res: "resume (tcbs k (a_cur A)) = KSemWait"
  obtains k' where "resume_current rw k = Some k'" "krep k' A" "timer_ticks k' = 0"
    "regs (cpu_of k') = (exit_regs False (tcbs k (a_cur A)))
       (X_a0 := if interrupted (tcbs k (a_cur A)) then int_to_u64 WAIT_FAIL else int_to_u64 WAIT_SUCCESS)"
    "csr_sepc (cpu_of k') = csr_sepc (cpu_of k)" "csr_sstatus (cpu_of k') = csr_sstatus (cpu_of k)"
proof -
  let ?k0 = "k\<lparr>timer_ticks := 0\<rparr>" and ?t = "a_cur A"
  let ?v = "int_to_u64 (if interrupted (tcbs k ?t) then WAIT_FAIL else WAIT_SUCCESS)"
  have rep0: "krep ?k0 A" using rep by simp
  note a = set_a0_rep [OF rep0, of ?v]
  let ?k1 = "?k0\<lparr>tcbs := (tcbs ?k0)(?t := (tcbs ?k0 ?t)\<lparr>tcontext := (tcontext (tcbs ?k0 ?t))\<lparr>c_a0 := ?v\<rparr>\<rparr>)\<rparr>"
  obtain k' where k': "trap_exit True ?k1 = Some k'" "krep k' A" "regs (cpu_of k') = exit_regs True (tcbs ?k1 ?t)"
    "csr_sepc (cpu_of k') = csr_sepc (cpu_of ?k1)" "csr_sstatus (cpu_of k') = csr_sstatus (cpu_of ?k1)" "env_eq ?k1 k'"
    using trap_exit_rep [OF a(2), of True] by metis
  have "sem_wait_return ?k0 = Some (if interrupted (tcbs k ?t) then WAIT_FAIL else WAIT_SUCCESS)"
    using krepD(2,4) [OF rep] by (simp add: sem_wait_return_def)
  then have "resume_current rw k = Some k'"
    using krep_cur_nonnull [OF rep] res a(1) k'(1) by (simp add: resume_current_def after_wait_def)
  moreover have "regs (cpu_of k') = (exit_regs False (tcbs k ?t))(X_a0 := ?v)"
    using k'(3) by (auto simp: exit_regs_def Let_def)
  ultimately show ?thesis using k' by (intro that [of k']) (simp_all add: env_eq_def)
qed

text \<open>A new thread starts in its wrapper, on its own stack; the tick counter is not reset.\<close>

lemma resume_start:
  assumes rep: "krep k A" and res: "resume (tcbs k (a_cur A)) = KStart"
  obtains k' where "resume_current rw k = Some k'" "krep k' A" "timer_ticks k' = timer_ticks k"
    "csr_sepc (cpu_of k') = rw" "regs (cpu_of k') X_sp = c_usr_sp (tcontext (tcbs k (a_cur A)))"
    "csr_sstatus (cpu_of k') = csr_sstatus (cpu_of k)"
proof -
  note r = krepD [OF rep]
  let ?t = "a_cur A"
  let ?x = "(tcbs k ?t)\<lparr>tcontext := (tcontext (tcbs k ?t))\<lparr>c_sys_sp := regs (cpu_of k) X_sp\<rparr>\<rparr>"
  let ?k' = "k\<lparr>tcbs := (tcbs k)(?t := ?x), cpu_of := (cpu_of k)\<lparr>regs := (regs (cpu_of k))
      (X_sp := c_usr_sp (tcontext (tcbs k ?t)), X_ra := rw), csr_sepc := rw\<rparr>\<rparr>"
  have "resume_current rw k = Some ?k'"
    using krep_cur_nonnull [OF rep] res r(3,4) by (simp add: resume_current_def k_tcb_start_def Let_def)
  moreover have "krep ?k' A" using krep_upd_cur [OF rep, of ?x] r(5) by simp
  ultimately show ?thesis by (rule that) simp_all
qed

section \<open>The timer\<close>

lemma core_eq_fields:
  "core_eq k k' \<Longrightarrow> core (tcbs k' p) = core (tcbs k p)" "core_eq k k' \<Longrightarrow> cpu_of k' = cpu_of k"
  "core_eq k k' \<Longrightarrow> env_eq k k'"
  by (simp_all add: core_eq_def)

lemma core_fields:
  assumes "core x = core y"
  shows "tcontext x = tcontext y" "usr_stack x = usr_stack y" "sys_stack x = sys_stack y"
    "interrupted x = interrupted y" "join_sem x = join_sem y" "time_slice x = time_slice y"
    "body x = body y" "args x = args y" "resume x = resume y" "trap_frame x = trap_frame y"
  using assms by (simp_all add: core_def)

lemma a_tick_cur [simp]: "a_cur (a_tick A) = a_cur A" "places (a_tick A) = places A"
  by (simp_all add: a_tick_def Let_def places_def)

text \<open>\<open>quiet k k'\<close>: the thread, its registers and everything outside the queues are the same.\<close>

definition quiet :: "kstate \<Rightarrow> kstate \<Rightarrow> bool" where
  "quiet k k' \<longleftrightarrow> (\<forall>p. core (tcbs k' p) = core (tcbs k p)) \<and> regs (cpu_of k') = regs (cpu_of k) \<and>
     csr_sepc (cpu_of k') = csr_sepc (cpu_of k) \<and> csr_sstatus (cpu_of k') = csr_sstatus (cpu_of k) \<and>
     lay k' = lay k \<and> mem k' = mem k \<and> putc_buffer k' = putc_buffer k \<and> getc_buffer k' = getc_buffer k \<and>
     user_cells k' = user_cells k \<and> tx_out k' = tx_out k"

lemma k_handle_timer_stay:
  assumes rep: "krep k A" and early: "timer_ticks k + 1 < time_slice (tcbs k (a_cur A))"
  obtains k' where "k_handle_timer k = Some (Returns (), k')" "krep k' (a_tick A)"
    "timer_ticks k' = timer_ticks k + 1" "quiet k k'"
proof -
  let ?k0 = "k\<lparr>cpu_of := (cpu_of k)\<lparr>csr_sip := csr_sip (cpu_of k) AND NOT 0x02\<rparr>\<rparr>"
  have "krep ?k0 A" using rep by simp
  then obtain k1 where k1: "timer_tick ?k0 = Some k1" "krep k1 (a_tick A)" "core_eq ?k0 k1"
    by (rule timer_tick_rep)
  have c: "core (tcbs k1 p) = core (tcbs k p)" for p using core_eq_fields(1) [OF k1(3), of p] by simp
  have t: "timer_ticks k1 = timer_ticks k" using core_eq_fields(3) [OF k1(3)] by (simp add: env_eq_def)
  let ?k' = "k1\<lparr>timer_ticks := timer_ticks k + 1\<rparr>"
  have "k_handle_timer k = Some (Returns (), ?k')"
    using k1(1) t krep_cur_nonnull [OF k1(2)] core_fields(6) [OF c [of "a_cur A"]] early [folded not_le]
    by (simp add: k_handle_timer_def Let_def)
  moreover have "quiet k ?k'"
    using c core_eq_fields(2,3) [OF k1(3)] by (simp add: quiet_def env_eq_def)
  ultimately show ?thesis using k1(2) by (intro that [of ?k']) simp_all
qed

text \<open>
  \<open>preempted cont t k k'\<close>: thread \<open>t\<close> has been switched away from with its registers
  stored, no other thread's saved state has changed, and the registers of the new thread are loaded.
\<close>

definition preempted :: "kcont \<Rightarrow> addr \<Rightarrow> kstate \<Rightarrow> kstate \<Rightarrow> bool" where
  "preempted cont t k k' \<longleftrightarrow>
     (\<forall>p. p \<noteq> t \<longrightarrow> core (tcbs k' p) = core (tcbs k p)) \<and>
     core (tcbs k' t) = core ((tcbs k t)\<lparr>tcontext := fst (k_save_context (cpu_of k) (tcontext (tcbs k t))), resume := cont\<rparr>) \<and>
     csr_sepc (cpu_of k') = c_sepc (tcontext (tcbs k' (current_tcb k'))) \<and>
     csr_sstatus (cpu_of k') = c_sstatus (tcontext (tcbs k' (current_tcb k')))"

lemma switch_frame_preempted:
  assumes "switch_frame cont t k k'" "t \<noteq> NULL"
  shows "preempted cont t k k'"
  using assms by (auto simp: switch_frame_def preempted_def saved_tcbs_def k_restore_context_def)

lemma preempted_quiet:
  assumes "preempted cont t k1 k'" "quiet k k1"
  shows "preempted cont t k k'"
proof -
  have "fst (k_save_context (cpu_of k1) x) = fst (k_save_context (cpu_of k) x)" for x
    using assms(2) by (simp add: k_save_context_def quiet_def)
  then have "core ((tcbs k1 t)\<lparr>tcontext := fst (k_save_context (cpu_of k1) (tcontext (tcbs k1 t))), resume := cont\<rparr>) =
      core ((tcbs k t)\<lparr>tcontext := fst (k_save_context (cpu_of k) (tcontext (tcbs k t))), resume := cont\<rparr>)"
    using assms(2) core_fields [of "tcbs k1 t" "tcbs k t"] by (auto simp: quiet_def core_def)
  then show ?thesis using assms by (simp add: preempted_def quiet_def)
qed

lemma k_handle_timer_switch:
  assumes rep: "krep k A" and late: "time_slice (tcbs k (a_cur A)) \<le> timer_ticks k + 1"
  obtains k' where "k_handle_timer k = Some (Switches, k')" "krep k' (a_dispatch (a_tick A))"
    "preempted KInterrupt (a_cur A) k k'"
proof -
  let ?k0 = "k\<lparr>cpu_of := (cpu_of k)\<lparr>csr_sip := csr_sip (cpu_of k) AND NOT 0x02\<rparr>\<rparr>"
  have "krep ?k0 A" using rep by simp
  then obtain k1 where k1: "timer_tick ?k0 = Some k1" "krep k1 (a_tick A)" "core_eq ?k0 k1"
    by (rule timer_tick_rep)
  have c: "core (tcbs k1 p) = core (tcbs k p)" for p using core_eq_fields(1) [OF k1(3), of p] by simp
  have t: "timer_ticks k1 = timer_ticks k" using core_eq_fields(3) [OF k1(3)] by (simp add: env_eq_def)
  let ?k2 = "k1\<lparr>timer_ticks := timer_ticks k + 1\<rparr>"
  have q: "quiet k ?k2" using c core_eq_fields(2,3) [OF k1(3)] by (simp add: quiet_def env_eq_def)
  have "krep ?k2 (a_tick A)" using k1(2) by simp
  then obtain k' where k': "dispatch KInterrupt ?k2 = Some (Switches, k')" "krep k' (a_dispatch (a_tick A))"
    "switch_frame KInterrupt (a_cur A) ?k2 k'"
    by (rule dispatch_rep [where cont = KInterrupt]) simp
  have "preempted KInterrupt (a_cur A) k k'"
    using preempted_quiet [OF switch_frame_preempted [OF k'(3)] q] krepD(4) [OF rep] by simp
  moreover have "k_handle_timer k = Some (Switches, k')"
    using k1(1) t krep_cur_nonnull [OF k1(2)] core_fields(6) [OF c [of "a_cur A"]] late k'(1)
    by (simp add: k_handle_timer_def Let_def)
  ultimately show ?thesis using k'(2) by (intro that)
qed

end
