(* ===== verification/Heap_Tiling.thy ===== *)
theory Heap_Tiling
  imports Kernel_Prelude
begin

text \<open>
  The abstract specification of the allocator: the heap, cut into blocks, is a sequence of free and
  used segments in address order.  The well-formed heaps have no empty segment and no two
  neighbouring free segments.  \<open>abs_alloc\<close> is best fit with the lowest address first,
  \<open>abs_free\<close> releases the used segment at an offset and joins it with free neighbours.
\<close>

section \<open>Segments\<close>

datatype seg = Free nat | Used nat

fun seg_len :: "seg \<Rightarrow> nat" where
  "seg_len (Free n) = n"
| "seg_len (Used n) = n"

definition seg_total :: "seg list \<Rightarrow> nat" where
  "seg_total segs = sum_list (map seg_len segs)"

lemma seg_total_simps [simp]:
  "seg_total [] = 0"
  "seg_total (s # segs) = seg_len s + seg_total segs"
  "seg_total (xs @ ys) = seg_total xs + seg_total ys"
  by (simp_all add: seg_total_def)

fun is_free :: "seg \<Rightarrow> bool" where
  "is_free (Free n) = True"
| "is_free (Used n) = False"

text \<open>The free segments, with their offsets in blocks.\<close>

fun free_at :: "nat \<Rightarrow> seg list \<Rightarrow> (nat \<times> nat) list" where
  "free_at i [] = []"
| "free_at i (Free n # segs) = (i, n) # free_at (i + n) segs"
| "free_at i (Used n # segs) = free_at (i + n) segs"

text \<open>The used segments, with their offsets in blocks.\<close>

fun used_at :: "nat \<Rightarrow> seg list \<Rightarrow> (nat \<times> nat) list" where
  "used_at i [] = []"
| "used_at i (Free n # segs) = used_at (i + n) segs"
| "used_at i (Used n # segs) = (i, n) # used_at (i + n) segs"

fun table_of :: "seg list \<Rightarrow> u32 list" where
  "table_of [] = []"
| "table_of (Free n # segs) = replicate n 0 @ table_of segs"
| "table_of (Used n # segs) = of_nat n # replicate (n - 1) 0 @ table_of segs"

definition segs_pos :: "seg list \<Rightarrow> bool" where
  "segs_pos segs \<longleftrightarrow> (\<forall>s \<in> set segs. 0 < seg_len s)"

fun coalesced :: "seg list \<Rightarrow> bool" where
  "coalesced [] = True"
| "coalesced [s] = True"
| "coalesced (s # t # segs) = (\<not> (is_free s \<and> is_free t) \<and> coalesced (t # segs))"

definition segs_ok :: "seg list \<Rightarrow> bool" where
  "segs_ok segs \<longleftrightarrow> segs_pos segs \<and> coalesced segs"

lemma segs_pos_simps [simp]:
  "segs_pos []"
  "segs_pos (s # segs) \<longleftrightarrow> 0 < seg_len s \<and> segs_pos segs"
  "segs_pos (xs @ ys) \<longleftrightarrow> segs_pos xs \<and> segs_pos ys"
  by (auto simp: segs_pos_def)

lemma free_at_append [simp]: "free_at i (xs @ ys) = free_at i xs @ free_at (i + seg_total xs) ys"
  by (induction i xs rule: free_at.induct) (auto simp: add.assoc)

lemma used_at_append [simp]: "used_at i (xs @ ys) = used_at i xs @ used_at (i + seg_total xs) ys"
  by (induction i xs rule: used_at.induct) (auto simp: add.assoc)

lemma table_of_append [simp]: "table_of (xs @ ys) = table_of xs @ table_of ys"
  by (induction xs rule: table_of.induct) auto

lemma length_table_of [simp]: "segs_pos segs \<Longrightarrow> length (table_of segs) = seg_total segs"
  by (induction segs rule: table_of.induct) auto

lemma free_at_bounds: "(j, n) \<in> set (free_at i segs) \<Longrightarrow> i \<le> j \<and> j + n \<le> i + seg_total segs"
  by (induction i segs rule: free_at.induct) fastforce+

lemma used_at_bounds: "(j, n) \<in> set (used_at i segs) \<Longrightarrow> i \<le> j \<and> j + n \<le> i + seg_total segs"
  by (induction i segs rule: used_at.induct) fastforce+

lemma free_at_split:
  "free_at i segs = xs @ (j, n) # ys \<Longrightarrow>
   \<exists>pre post. segs = pre @ Free n # post \<and> free_at i pre = xs \<and> j = i + seg_total pre \<and>
     free_at (j + n) post = ys"
proof (induction i segs arbitrary: xs rule: free_at.induct)
  case (1 i)
  then show ?case by simp
next
  case (2 i m segs)
  show ?case
  proof (cases xs)
    case Nil
    with 2 show ?thesis by - (rule exI [of _ "[]"], auto)
  next
    case (Cons x zs)
    with 2 obtain pre post where "segs = pre @ Free n # post" "free_at (i + m) pre = zs"
      "j = i + m + seg_total pre" "free_at (j + n) post = ys" by auto
    with 2 Cons show ?thesis by - (rule exI [of _ "Free m # pre"], auto)
  qed
next
  case (3 i m segs)
  then obtain pre post where "segs = pre @ Free n # post" "free_at (i + m) pre = xs"
    "j = i + m + seg_total pre" "free_at (j + n) post = ys" by auto
  then show ?case by - (rule exI [of _ "Used m # pre"], auto)
qed

lemma used_at_split:
  "(j, n) \<in> set (used_at i segs) \<Longrightarrow>
   \<exists>pre post. segs = pre @ Used n # post \<and> j = i + seg_total pre"
proof (induction i segs rule: used_at.induct)
  case (2 i m segs)
  then obtain pre post where "segs = pre @ Used n # post" "j = i + m + seg_total pre" by auto
  then show ?case by - (rule exI [of _ "Free m # pre"], auto)
next
  case (3 i m segs)
  show ?case
  proof (cases "(j, n) = (i, m)")
    case True
    then show ?thesis by - (rule exI [of _ "[]"], auto)
  next
    case False
    with 3 obtain pre post where "segs = pre @ Used n # post" "j = i + m + seg_total pre" by auto
    then show ?thesis by - (rule exI [of _ "Used m # pre"], auto)
  qed
qed simp

lemma used_at_iff_split:
  "(j, n) \<in> set (used_at 0 segs) \<longleftrightarrow> (\<exists>pre post. segs = pre @ Used n # post \<and> j = seg_total pre)"
  using used_at_split [of j n 0 segs] by auto

text \<open>The table has a non-zero entry exactly at the offsets of the used segments.\<close>

lemma table_of_nth:
  assumes "segs_pos segs" "seg_total segs < 2 ^ 32" "j < seg_total segs"
  shows "unat (table_of segs ! j) = (case map_of (used_at 0 segs) j of None \<Rightarrow> 0 | Some n \<Rightarrow> n)"
proof -
  have "unat (table_of segs ! j) = (case map_of (used_at i segs) (i + j) of None \<Rightarrow> 0 | Some n \<Rightarrow> n)"
    if "segs_pos segs" "seg_total segs < 2 ^ 32" "j < seg_total segs" for i
    using that
  proof (induction i segs arbitrary: j rule: used_at.induct)
    case (1 i)
    then show ?case by simp
  next
    case (2 i n segs)
    show ?case
    proof (cases "j < n")
      case True
      have "map_of (used_at (i + n) segs) (i + j) = None"
        using True used_at_bounds [of "i + j" _ "i + n" segs] by (auto simp: map_of_eq_None_iff)
      with True show ?thesis by (simp add: nth_append)
    next
      case False
      with 2 show ?thesis by (simp add: nth_append)
    qed
  next
    case (3 i n segs)
    consider "j = 0" | "0 < j" "j < n" | "n \<le> j" by linarith
    then show ?case
    proof cases
      case 1
      with 3 show ?thesis by simp
    next
      case 2
      have "map_of (used_at (i + n) segs) (i + j) = None"
        using 2 used_at_bounds [of "i + j" _ "i + n" segs] by (auto simp: map_of_eq_None_iff)
      moreover have "j - Suc 0 < n - Suc 0" using 2 by linarith
      ultimately show ?thesis using 2 by (simp add: nth_append nth_Cons')
    next
      case 3
      with "3.prems" have "0 < n" "j - n < seg_total segs" by auto
      moreover have "\<not> j - Suc 0 < n - Suc 0" "j - Suc 0 - (n - Suc 0) = j - n"
        using 3 \<open>0 < n\<close> by linarith+
      ultimately show ?thesis
        using "3.IH" [of "j - n"] "3.prems" 3 by (simp add: nth_append nth_Cons')
    qed
  qed
  from this [of 0] assms show ?thesis by simp
qed

section \<open>Best-fit allocation\<close>

definition free_lens :: "seg list \<Rightarrow> nat list" where
  "free_lens segs = map seg_len (filter is_free segs)"

definition rest_free :: "nat \<Rightarrow> seg list" where
  "rest_free k = (if k = 0 then [] else [Free k])"

definition abs_alloc :: "nat \<Rightarrow> seg list \<Rightarrow> (nat \<times> seg list) option" where
  "abs_alloc n segs =
     (let fits = filter (\<lambda>l. n \<le> l) (free_lens segs) in
      if fits = [] then None
      else (let l = Min (set fits);
                pre = takeWhile (\<lambda>s. s \<noteq> Free l) segs;
                post = tl (dropWhile (\<lambda>s. s \<noteq> Free l) segs)
            in Some (seg_total pre, pre @ Used n # rest_free (l - n) @ post)))"

lemma set_free_lens: "l \<in> set (free_lens segs) \<longleftrightarrow> Free l \<in> set segs"
proof
  assume "Free l \<in> set segs"
  then show "l \<in> set (free_lens segs)" by (force simp: free_lens_def)
qed (auto simp: free_lens_def elim: is_free.elims)

lemma abs_alloc_None_iff: "abs_alloc n segs = None \<longleftrightarrow> (\<forall>l. Free l \<in> set segs \<longrightarrow> l < n)"
  by (auto simp: abs_alloc_def Let_def filter_empty_conv set_free_lens not_le)

lemma abs_alloc_best:
  assumes "n \<le> l" "Free l \<notin> set pre"
    and "\<And>m. Free m \<in> set (pre @ post) \<Longrightarrow> n \<le> m \<Longrightarrow> l \<le> m"
  shows "abs_alloc n (pre @ Free l # post) = Some (seg_total pre, pre @ Used n # rest_free (l - n) @ post)"
proof -
  let ?segs = "pre @ Free l # post"
  have "Min (set (filter (\<lambda>l. n \<le> l) (free_lens ?segs))) = l"
  proof (rule Min_eqI)
    fix m assume "m \<in> set (filter (\<lambda>l. n \<le> l) (free_lens ?segs))"
    then show "l \<le> m" using assms(3) [of m] by (auto simp: set_free_lens)
  qed (use assms(1) in \<open>simp_all add: set_free_lens del: set_filter\<close>, simp_all add: set_free_lens)
  moreover have "filter (\<lambda>l. n \<le> l) (free_lens ?segs) \<noteq> []"
    using assms(1) by (auto simp: filter_empty_conv set_free_lens)
  moreover have "takeWhile (\<lambda>s. s \<noteq> Free l) ?segs = pre" "dropWhile (\<lambda>s. s \<noteq> Free l) ?segs = Free l # post"
    using assms(2) by (auto simp: takeWhile_append dropWhile_append)
  ultimately show ?thesis by (simp add: abs_alloc_def Let_def)
qed

lemma abs_alloc_cases:
  assumes "abs_alloc n segs = Some (i, segs')"
  obtains pre l post where "segs = pre @ Free l # post" "n \<le> l" "i = seg_total pre"
    "segs' = pre @ Used n # rest_free (l - n) @ post"
    "Free l \<notin> set pre" "\<And>m. Free m \<in> set segs \<Longrightarrow> n \<le> m \<Longrightarrow> l \<le> m"
proof -
  let ?fits = "filter (\<lambda>l. n \<le> l) (free_lens segs)"
  let ?l = "Min (set ?fits)"
  from assms have ne: "?fits \<noteq> []" by (auto simp: abs_alloc_def Let_def split: if_splits)
  then have "?l \<in> set ?fits" by (intro Min_in) (simp_all del: set_filter)
  then have l: "Free ?l \<in> set segs" "n \<le> ?l" by (auto simp: set_free_lens)
  then obtain pre post where split: "segs = pre @ Free ?l # post" "Free ?l \<notin> set pre"
    by (metis split_list_first)
  have least: "?l \<le> m" if "Free m \<in> set segs" "n \<le> m" for m
    using that by (intro Min_le) (simp_all add: set_free_lens del: set_filter, simp add: set_free_lens)
  have "abs_alloc n segs = Some (seg_total pre, pre @ Used n # rest_free (?l - n) @ post)"
    using abs_alloc_best [OF l(2) split(2)] least split(1) by (metis Un_iff list.set_intros(2) set_append)
  with assms show ?thesis using that [OF split(1) l(2) _ _ split(2) least] by simp
qed

lemma rest_free_simps [simp]:
  "seg_total (rest_free k) = k" "segs_pos (rest_free k)" "table_of (rest_free k) = replicate k 0"
  by (auto simp: rest_free_def)

lemma coalesced_append:
  "coalesced (xs @ ys) \<longleftrightarrow> coalesced xs \<and> coalesced ys \<and>
     \<not> (xs \<noteq> [] \<and> ys \<noteq> [] \<and> is_free (last xs) \<and> is_free (hd ys))"
proof (induction xs rule: coalesced.induct)
  case (2 s)
  then show ?case by (cases ys) auto
qed auto

lemma coalesced_ConsD: "coalesced (s # segs) \<Longrightarrow> coalesced segs"
  by (cases segs) auto

lemma coalesced_Used [simp]: "coalesced (Used n # segs) = coalesced segs"
  by (cases segs) auto

lemma coalesced_Free [simp]:
  "coalesced (Free n # segs) \<longleftrightarrow> coalesced segs \<and> (segs = [] \<or> \<not> is_free (hd segs))"
  by (cases segs; cases "hd segs") auto

lemma abs_alloc_total:
  assumes "abs_alloc n segs = Some (i, segs')"
  shows "seg_total segs' = seg_total segs"
  by (rule abs_alloc_cases [OF assms]) simp

lemma abs_alloc_ok:
  assumes "segs_ok segs" "abs_alloc n segs = Some (i, segs')" "0 < n"
  shows "segs_ok segs'"
proof (rule abs_alloc_cases [OF assms(2)])
  fix pre l post
  assume "segs = pre @ Free l # post" "n \<le> l" "segs' = pre @ Used n # rest_free (l - n) @ post"
  then show ?thesis
    using assms(1,3) by (auto simp: segs_ok_def coalesced_append rest_free_def)
qed

section \<open>Release\<close>

fun free_cons :: "seg \<Rightarrow> seg list \<Rightarrow> seg list" where
  "free_cons (Free m) (Free n # segs) = Free (m + n) # segs"
| "free_cons s segs = s # segs"

fun abs_free :: "nat \<Rightarrow> seg list \<Rightarrow> seg list option" where
  "abs_free i [] = None"
| "abs_free i (s # segs) =
     (if i = 0 then (case s of Used n \<Rightarrow> Some (free_cons (Free n) segs) | Free n \<Rightarrow> None)
      else if i < seg_len s then None
      else map_option (free_cons s) (abs_free (i - seg_len s) segs))"

lemma free_cons_total [simp]: "seg_total (free_cons s segs) = seg_len s + seg_total segs"
  by (induction s segs rule: free_cons.induct) auto

lemma free_cons_nonempty [simp]: "free_cons s segs \<noteq> []"
  by (induction s segs rule: free_cons.induct) auto

lemma free_cons_hd [simp]: "is_free (hd (free_cons s segs)) \<longleftrightarrow> is_free s"
  by (induction s segs rule: free_cons.induct) auto

lemma free_cons_pos: "0 < seg_len s \<Longrightarrow> segs_pos segs \<Longrightarrow> segs_pos (free_cons s segs)"
  by (induction s segs rule: free_cons.induct) auto

lemma free_cons_coalesced: "coalesced segs \<Longrightarrow> coalesced (free_cons s segs)"
  by (induction s segs rule: free_cons.induct) auto

lemma abs_free_at:
  "segs_pos pre \<Longrightarrow>
   abs_free (seg_total pre) (pre @ Used n # post) = Some (foldr free_cons pre (free_cons (Free n) post))"
  by (induction pre) auto

lemma free_cons_coalesced_id: "coalesced (s # segs) \<Longrightarrow> free_cons s segs = s # segs"
  by (induction s segs rule: free_cons.induct) auto

lemma foldr_free_cons_id: "coalesced (pre @ segs) \<Longrightarrow> foldr free_cons pre segs = pre @ segs"
proof (induction pre)
  case (Cons s pre)
  then have "coalesced (pre @ segs)" using coalesced_ConsD by simp
  with Cons show ?case by (simp add: free_cons_coalesced_id)
qed simp

text \<open>The four shapes of a release: the neighbours before and after are free or not.\<close>

lemma abs_free_join:
  assumes "segs_ok (pre @ Used n # post)"
  shows "abs_free (seg_total pre) (pre @ Used n # post) =
     Some (if pre = [] \<or> \<not> is_free (last pre) then pre @ free_cons (Free n) post
           else butlast pre @ free_cons (last pre) (free_cons (Free n) post))"
proof -
  have pos: "segs_pos pre" and co: "coalesced pre" "coalesced post"
    using assms by (auto simp: segs_ok_def coalesced_append)
  let ?segs = "free_cons (Free n) post"
  have free: "is_free (hd ?segs)" "?segs \<noteq> []" "coalesced ?segs"
    using free_cons_coalesced [OF co(2)] by simp_all
  show ?thesis
  proof (cases "pre = [] \<or> \<not> is_free (last pre)")
    case True
    then have "foldr free_cons pre ?segs = pre @ ?segs"
      using co free by (intro foldr_free_cons_id) (auto simp: coalesced_append)
    with True show ?thesis by (simp add: abs_free_at [OF pos])
  next
    case False
    then obtain p x where p: "pre = p @ [Free x]"
      by (metis append_butlast_last_id is_free.elims(2))
    obtain y q where q: "?segs = Free y # q"
      using free(1,2) by (metis is_free.elims(2) list.collapse)
    have "foldr free_cons pre ?segs = foldr free_cons p (Free (x + y) # q)"
      by (simp add: p q)
    also have "\<dots> = p @ Free (x + y) # q"
      using co free by (intro foldr_free_cons_id) (auto simp: coalesced_append p q)
    finally show ?thesis using False abs_free_at [OF pos, of n post] by (simp add: p q)
  qed
qed

lemma abs_free_Cons:
  "abs_free i (s # segs) = Some segs' \<Longrightarrow>
     (\<exists>n. i = 0 \<and> s = Used n \<and> segs' = free_cons (Free n) segs) \<or>
     (\<exists>rest. i \<noteq> 0 \<and> seg_len s \<le> i \<and> abs_free (i - seg_len s) segs = Some rest \<and> segs' = free_cons s rest)"
  by (cases s) (auto split: if_splits)

lemma abs_free_total: "abs_free i segs = Some segs' \<Longrightarrow> seg_total segs' = seg_total segs"
  by (induction segs arbitrary: i segs') (simp, drule abs_free_Cons, auto)

lemma abs_free_pos: "abs_free i segs = Some segs' \<Longrightarrow> segs_pos segs \<Longrightarrow> segs_pos segs'"
  by (induction segs arbitrary: i segs') (simp, drule abs_free_Cons, auto intro: free_cons_pos)

lemma abs_free_coalesced: "abs_free i segs = Some segs' \<Longrightarrow> coalesced segs \<Longrightarrow> coalesced segs'"
  by (induction segs arbitrary: i segs')
    (simp, drule abs_free_Cons, auto intro!: free_cons_coalesced dest: coalesced_ConsD)

lemma abs_free_ok: "abs_free i segs = Some segs' \<Longrightarrow> segs_ok segs \<Longrightarrow> segs_ok segs'"
  unfolding segs_ok_def using abs_free_pos abs_free_coalesced by blast

lemma used_at_free_cons [simp]: "used_at i (free_cons s segs) = used_at i (s # segs)"
  by (induction s segs rule: free_cons.induct) (auto simp: add.assoc)

lemma used_at_foldr_free_cons [simp]: "used_at i (foldr free_cons pre segs) = used_at i (pre @ segs)"
proof (induction pre arbitrary: i)
  case (Cons s pre)
  then show ?case by (cases s) simp_all
qed simp

text \<open>Allocation adds one used segment, release removes exactly the one at its offset.\<close>

lemma abs_alloc_used:
  assumes "abs_alloc n segs = Some (i, segs')"
  shows "set (used_at 0 segs') = insert (i, n) (set (used_at 0 segs))"
proof (rule abs_alloc_cases [OF assms])
  fix pre l post
  assume "segs = pre @ Free l # post" "n \<le> l" "i = seg_total pre"
    "segs' = pre @ Used n # rest_free (l - n) @ post"
  then show ?thesis by (auto simp: rest_free_def)
qed

lemma used_at_distinct: "segs_pos segs \<Longrightarrow> distinct (map fst (used_at i segs))"
proof (induction i segs rule: used_at.induct)
  case (3 i n segs)
  then show ?case using used_at_bounds [of i _ "i + n" segs] by auto
qed auto

lemma abs_free_used:
  assumes "segs_ok segs" "(i, n) \<in> set (used_at 0 segs)"
  obtains segs' where "abs_free i segs = Some segs'" "segs_ok segs'"
    "set (used_at 0 segs') = set (used_at 0 segs) - {(i, n)}"
proof -
  obtain pre post where split: "segs = pre @ Used n # post" "i = seg_total pre"
    using assms(2) used_at_iff_split by blast
  have pos: "segs_pos pre" using assms(1) split by (simp add: segs_ok_def)
  let ?segs' = "foldr free_cons pre (free_cons (Free n) post)"
  have res: "abs_free i segs = Some ?segs'" using abs_free_at [OF pos] split by simp
  have "distinct (map fst (used_at 0 segs))"
    using assms(1) used_at_distinct by (simp add: segs_ok_def)
  then have "(i, n) \<notin> set (used_at 0 pre)" "(i, n) \<notin> set (used_at (i + n) post)"
    using split by (force simp: image_iff)+
  then have "set (used_at 0 ?segs') = set (used_at 0 segs) - {(i, n)}"
    using split by auto
  with res abs_free_ok [OF res assms(1)] show ?thesis by (rule that)
qed

lemma abs_alloc_free_inverse:
  assumes "segs_ok segs" "0 < n" "abs_alloc n segs = Some (i, segs')"
  shows "abs_free i segs' = Some segs"
proof (rule abs_alloc_cases [OF assms(3)])
  fix pre l post
  assume *: "segs = pre @ Free l # post" "n \<le> l" "i = seg_total pre"
    "segs' = pre @ Used n # rest_free (l - n) @ post"
  have pos: "segs_pos pre" using assms(1) * by (simp add: segs_ok_def)
  have co: "coalesced (pre @ Free l # post)" using assms(1) * by (simp add: segs_ok_def)
  then have "coalesced (Free l # post)" by (simp add: coalesced_append)
  then have "free_cons (Free n) (rest_free (l - n) @ post) = Free l # post"
    using *(2) by (auto simp: rest_free_def free_cons_coalesced_id)
  then show ?thesis
    using abs_free_at [OF pos, of n "rest_free (l - n) @ post"] foldr_free_cons_id [OF co] *
    by simp
qed

end
