(* ===== verification/Mem_Allocator_Correct.thy ===== *)
theory Mem_Allocator_Correct
  imports Mem_Allocator Heap_Tiling
begin

text \<open>
  The pointer-level allocator of \<open>Mem_Allocator\<close> implements the tiling specification of
  \<open>Heap_Tiling\<close>: \<open>alloc_rep a segs\<close> says that the free list and the table of
  \<open>a\<close> represent the tiling \<open>segs\<close>; alloc, free and the constructor preserve it and
  compute the abstract operations.
\<close>

section \<open>Block addresses\<close>

definition baddr :: "addr \<Rightarrow> nat \<Rightarrow> addr" where
  "baddr hs i = hs + of_nat i * MEM_BLOCK_SIZE"

definition heap_ok :: "addr \<Rightarrow> nat \<Rightarrow> bool" where
  "heap_ok hs tot \<longleftrightarrow> hs \<noteq> NULL \<and> unat hs mod 64 = 0 \<and> tot < 2 ^ 32 \<and>
     unat hs + 64 * tot < 2 ^ 64"

lemma unat_baddr:
  assumes "heap_ok hs tot" "i \<le> tot"
  shows "unat (baddr hs i) = unat hs + 64 * i"
proof -
  have i: "i < 2 ^ 64" "i * 64 < 2 ^ 64" "unat hs + i * 64 < 2 ^ 64"
    using assms by (auto simp: heap_ok_def)
  then have "unat (of_nat i * MEM_BLOCK_SIZE) = i * 64"
    by (simp add: MEM_BLOCK_SIZE_def unat_mult_no_wrap)
  then show ?thesis
    unfolding baddr_def using i by (subst unat_add_no_wrap) auto
qed

lemma baddr_nonnull: "heap_ok hs tot \<Longrightarrow> i \<le> tot \<Longrightarrow> baddr hs i \<noteq> NULL"
  using unat_baddr [of hs tot i] by (auto simp: heap_ok_def unat_gt_0 [symmetric] simp del: unat_gt_0)

lemma baddr_eq_iff:
  assumes "heap_ok hs tot" "i \<le> tot" "j \<le> tot"
  shows "baddr hs i = baddr hs j \<longleftrightarrow> i = j"
  using unat_baddr [OF assms(1,2)] unat_baddr [OF assms(1,3)] by (auto simp: word_unat_eq_iff)

lemma baddr_le_iff:
  assumes "heap_ok hs tot" "i \<le> tot" "j \<le> tot"
  shows "baddr hs i \<le> baddr hs j \<longleftrightarrow> i \<le> j" "baddr hs i < baddr hs j \<longleftrightarrow> i < j"
  using unat_baddr [OF assms(1,2)] unat_baddr [OF assms(1,3)]
  by (auto simp: word_le_nat_alt word_less_nat_alt)

lemma baddr_add: "baddr hs i + of_nat n * MEM_BLOCK_SIZE = baddr hs (i + n)"
  by (simp add: baddr_def algebra_simps)

lemma baddr_aligned: "heap_ok hs tot \<Longrightarrow> i \<le> tot \<Longrightarrow> baddr hs i mod MEM_BLOCK_SIZE = 0"
  using unat_baddr [of hs tot i]
  by (simp add: word_unat_eq_iff unat_mod MEM_BLOCK_SIZE_def heap_ok_def mod_add_eq [symmetric])

lemma table_index_baddr:
  assumes "heap_ok (heap_start a) tot" "i \<le> tot"
  shows "table_index a (baddr (heap_start a) i) = i"
proof -
  have "unat (baddr (heap_start a) i - heap_start a) = 64 * i"
    using unat_baddr [OF assms] by (simp add: unat_sub_no_wrap)
  then show ?thesis by (simp add: table_index_def MEM_BLOCK_SIZE_def unat_div)
qed

section \<open>Representation\<close>

definition free_addrs :: "addr \<Rightarrow> nat \<Rightarrow> seg list \<Rightarrow> addr list" where
  "free_addrs hs i segs = map (\<lambda>(j, n). baddr hs j) (free_at i segs)"

definition free_list_rep :: "(addr \<Rightarrow> free_blocks) \<Rightarrow> addr \<Rightarrow> addr \<Rightarrow> seg list \<Rightarrow> bool" where
  "free_list_rep h hs hd0 segs \<longleftrightarrow>
     dll h NULL (free_addrs hs 0 segs) NULL \<and> hd0 = first_or NULL (free_addrs hs 0 segs) \<and>
     (\<forall>(j, n) \<in> set (free_at 0 segs). n_blocks (h (baddr hs j)) = of_nat n)"

text \<open>The representation, without and with the condition that free segments are joined.\<close>

definition alloc_rep0 :: "mem_allocator \<Rightarrow> seg list \<Rightarrow> bool" where
  "alloc_rep0 a segs \<longleftrightarrow> segs_pos segs \<and> heap_ok (heap_start a) (seg_total segs) \<and>
     alloc_table a = table_of segs \<and> free_list_rep (fbs a) (heap_start a) (fb_head a) segs"

definition alloc_rep :: "mem_allocator \<Rightarrow> seg list \<Rightarrow> bool" where
  "alloc_rep a segs \<longleftrightarrow> segs_ok segs \<and> alloc_rep0 a segs"

lemma free_addrs_simps [simp]:
  "free_addrs hs i [] = []"
  "free_addrs hs i (Free n # segs) = baddr hs i # free_addrs hs (i + n) segs"
  "free_addrs hs i (Used n # segs) = free_addrs hs (i + n) segs"
  "free_addrs hs i (xs @ ys) = free_addrs hs i xs @ free_addrs hs (i + seg_total xs) ys"
  by (simp_all add: free_addrs_def)

lemma in_free_addrs:
  "p \<in> set (free_addrs hs i segs) \<longleftrightarrow> (\<exists>j n. (j, n) \<in> set (free_at i segs) \<and> p = baddr hs j)"
  by (force simp: free_addrs_def)

lemma free_at_pos: "segs_pos segs \<Longrightarrow> (j, n) \<in> set (free_at i segs) \<Longrightarrow> 0 < n"
  by (induction i segs rule: free_at.induct) auto

lemma free_addrs_above:
  assumes "heap_ok hs tot" "segs_pos segs" "i + seg_total segs \<le> tot"
    and "p \<in> set (free_addrs hs i segs)"
  shows "\<exists>j. i \<le> j \<and> j < i + seg_total segs \<and> p = baddr hs j"
proof -
  from assms(4) obtain j n where "(j, n) \<in> set (free_at i segs)" "p = baddr hs j"
    by (auto simp: in_free_addrs)
  with free_at_bounds [OF this(1)] free_at_pos [OF assms(2) this(1)] show ?thesis by auto
qed

lemma baddr_notin_free_addrs:
  assumes "heap_ok hs tot" "segs_pos segs" "i + seg_total segs \<le> tot" "k \<le> tot"
    and "k < i \<or> i + seg_total segs \<le> k"
  shows "baddr hs k \<notin> set (free_addrs hs i segs)"
proof
  assume "baddr hs k \<in> set (free_addrs hs i segs)"
  from free_addrs_above [OF assms(1-3) this] obtain j where
    "i \<le> j" "j < i + seg_total segs" "baddr hs k = baddr hs j" by blast
  with baddr_eq_iff [OF assms(1), of k j] assms show False by auto
qed

lemma null_notin_free_addrs:
  assumes "heap_ok hs tot" "segs_pos segs" "i + seg_total segs \<le> tot"
  shows "NULL \<notin> set (free_addrs hs i segs)"
  using free_addrs_above [OF assms] baddr_nonnull [OF assms(1)] assms(3)
  by (metis less_imp_le order_less_le_trans)

lemma distinct_free_addrs:
  assumes "heap_ok hs tot"
  shows "segs_pos segs \<Longrightarrow> i + seg_total segs \<le> tot \<Longrightarrow> distinct (free_addrs hs i segs)"
proof (induction i segs rule: free_at.induct)
  case (2 i n segs)
  then show ?case using baddr_notin_free_addrs [OF assms, of segs "i + n" i] by (simp add: add.assoc)
qed (auto simp: add.assoc)

section \<open>The best-fit search\<close>

fun best_of :: "nat \<Rightarrow> (nat \<times> nat) list \<Rightarrow> (nat \<times> nat) option \<Rightarrow> bool" where
  "best_of n xs None \<longleftrightarrow> (\<forall>(j, l) \<in> set xs. l < n)"
| "best_of n xs (Some (i, k)) \<longleftrightarrow>
     (\<exists>ys zs. xs = ys @ (i, k) # zs \<and> n \<le> k \<and> (\<forall>(j, l) \<in> set ys. n \<le> l \<longrightarrow> k < l) \<and>
        (\<forall>(j, l) \<in> set zs. n \<le> l \<longrightarrow> k \<le> l))"

fun block_ptr :: "addr \<Rightarrow> (nat \<times> nat) option \<Rightarrow> addr" where
  "block_ptr hs None = NULL"
| "block_ptr hs (Some (i, k)) = baddr hs i"

lemma best_of_SomeI:
  assumes "xs = ys @ (i, k) # zs" "n \<le> k"
    and "\<And>j l. (j, l) \<in> set ys \<Longrightarrow> n \<le> l \<Longrightarrow> k < l"
    and "\<And>j l. (j, l) \<in> set zs \<Longrightarrow> n \<le> l \<Longrightarrow> k \<le> l"
  shows "best_of n xs (Some (i, k))"
  unfolding best_of.simps by (rule exI [of _ ys], rule exI [of _ zs]) (use assms in auto)

lemma best_of_SomeE:
  assumes "best_of n xs (Some (i, k))"
  obtains ys zs where "xs = ys @ (i, k) # zs" "n \<le> k"
    "\<And>j l. (j, l) \<in> set ys \<Longrightarrow> n \<le> l \<Longrightarrow> k < l"
    "\<And>j l. (j, l) \<in> set zs \<Longrightarrow> n \<le> l \<Longrightarrow> k \<le> l"
  using assms unfolding best_of.simps by blast

lemma best_of_exact:
  assumes "best_of n xs (Some (i, n))"
  shows "best_of n (xs @ ys) (Some (i, n))"
proof (rule best_of_SomeE [OF assms])
  fix us vs
  assume "xs = us @ (i, n) # vs" "\<And>j l. (j, l) \<in> set us \<Longrightarrow> n \<le> l \<Longrightarrow> n < l"
  then show ?thesis by (intro best_of_SomeI [of _ us _ _ "vs @ ys"]) auto
qed

lemma best_of_skip:
  assumes "best_of n xs b" "l < n \<or> (\<exists>i k. b = Some (i, k) \<and> k \<le> l)"
  shows "best_of n (xs @ [(j, l)]) b"
proof (cases b)
  case None
  with assms show ?thesis by auto
next
  case (Some ik)
  obtain i k where ik: "ik = (i, k)" by fastforce
  from assms(1) have "best_of n xs (Some (i, k))" using Some ik by simp
  then have "best_of n (xs @ [(j, l)]) (Some (i, k))"
  proof (rule best_of_SomeE)
    fix ys zs
    assume "xs = ys @ (i, k) # zs" "n \<le> k" "\<And>j l. (j, l) \<in> set ys \<Longrightarrow> n \<le> l \<Longrightarrow> k < l"
      "\<And>j l. (j, l) \<in> set zs \<Longrightarrow> n \<le> l \<Longrightarrow> k \<le> l"
    with Some ik assms(2) show ?thesis
      by (intro best_of_SomeI [of _ ys _ _ "zs @ [(j, l)]"]) auto
  qed
  then show ?thesis using Some ik by simp
qed

lemma best_of_take:
  assumes "best_of n xs b" "n \<le> l" "b = None \<or> (\<exists>i k. b = Some (i, k) \<and> l < k)"
  shows "best_of n (xs @ [(j, l)]) (Some (j, l))"
proof -
  have "\<forall>(j, m) \<in> set xs. n \<le> m \<longrightarrow> l < m"
  proof (cases b)
    case None
    with assms show ?thesis by force
  next
    case (Some ik)
    obtain i k where "ik = (i, k)" by fastforce
    with Some assms show ?thesis by fastforce
  qed
  with assms(2) show ?thesis by (intro best_of_SomeI [of _ xs _ _ "[]"]) auto
qed

lemma best_fit_finds:
  assumes "\<And>j l. (j, l) \<in> set (visited @ todo) \<Longrightarrow>
      baddr hs j \<noteq> NULL \<and> n_blocks (h (baddr hs j)) = of_nat l \<and> l < 2 ^ 32"
    and "dll h p (map (\<lambda>(j, l). baddr hs j) todo) NULL"
    and "best_of (unat n) visited b"
  shows "\<exists>b'. best_of (unat n) (visited @ todo) b' \<and>
      best_fit h n (first_or NULL (map (\<lambda>(j, l). baddr hs j) todo)) (block_ptr hs b) =
        Some (block_ptr hs b')"
  using assms
proof (induction todo arbitrary: visited b p)
  case Nil
  then show ?case by (auto simp: best_fit.simps)
next
  case (Cons jl todo)
  obtain j l where jl: "jl = (j, l)" by fastforce
  have node: "baddr hs j \<noteq> NULL" "n_blocks (h (baddr hs j)) = of_nat l" "l < 2 ^ 32"
    using Cons.prems(1) [of j l] jl by auto
  have link: "nxt (h (baddr hs j)) = first_or NULL (map (\<lambda>(j, l). baddr hs j) todo)"
    "dll h (baddr hs j) (map (\<lambda>(j, l). baddr hs j) todo) NULL"
    using Cons.prems(2) jl by auto
  have le: "n \<le> n_blocks (h (baddr hs j)) \<longleftrightarrow> unat n \<le> l"
    using node by (simp add: word_le_nat_alt)
  have cur: "baddr hs i \<noteq> NULL \<and> n_blocks (h (baddr hs i)) = of_nat k \<and> k < 2 ^ 32"
    if "b = Some (i, k)" for i k
    using Cons.prems(1) [of i k] Cons.prems(3) that by (auto elim!: best_of_SomeE simp del: best_of.simps)
  have eqn: "n_blocks (h (baddr hs i)) = n \<longleftrightarrow> k = unat n" if "b = Some (i, k)" for i k
    using cur [OF that] by (auto simp: word_unat_eq_iff)
  have less: "n_blocks (h (baddr hs j)) < n_blocks (h (baddr hs i)) \<longleftrightarrow> l < k"
    if "b = Some (i, k)" for i k
    using cur [OF that] node by (simp add: word_less_nat_alt)
  show ?case
  proof (cases "\<exists>i. b = Some (i, unat n)")
    case True
    then obtain i where b: "b = Some (i, unat n)" by blast
    with cur eqn have "best_fit h n (baddr hs j) (block_ptr hs b) = Some (block_ptr hs b)"
      by (simp add: best_fit.simps)
    moreover have "best_of (unat n) (visited @ jl # todo) b"
      using best_of_exact [of "unat n" visited i "jl # todo"] Cons.prems(3) b by (simp del: best_of.simps)
    ultimately show ?thesis using jl by (auto simp del: best_of.simps)
  next
    case False
    let ?b = "if unat n \<le> l \<and> (b = None \<or> (\<exists>i k. b = Some (i, k) \<and> l < k)) then Some (j, l) else b"
    have step: "best_fit h n (baddr hs j) (block_ptr hs b) =
        best_fit h n (first_or NULL (map (\<lambda>(j, l). baddr hs j) todo)) (block_ptr hs ?b)"
      using False cur eqn less le link node
      by (cases b) (auto simp: best_fit.simps [of h n "baddr hs j"])
    have "best_of (unat n) (visited @ [(j, l)]) ?b"
      using best_of_take [OF Cons.prems(3)] best_of_skip [OF Cons.prems(3)]
      by (cases b) (auto simp del: best_of.simps)
    from Cons.IH [OF _ link(2) this] Cons.prems(1) jl step show ?thesis
      by (simp del: best_of.simps block_ptr.simps)
  qed
qed

section \<open>alloc implements best fit on tilings\<close>

lemma Free_in_segs: "Free m \<in> set segs \<longleftrightarrow> (\<exists>j. (j, m) \<in> set (free_at i segs))"
  by (induction i segs rule: free_at.induct) auto

lemma best_of_None_segs: "best_of n (free_at 0 segs) None \<longleftrightarrow> abs_alloc n segs = None"
  by (auto simp: abs_alloc_None_iff Free_in_segs [of _ _ 0])

lemma best_of_Some_segs:
  assumes "best_of n (free_at 0 segs) (Some (i, l))"
  obtains pre post where "segs = pre @ Free l # post" "i = seg_total pre" "n \<le> l"
    "abs_alloc n segs = Some (i, pre @ Used n # rest_free (l - n) @ post)"
proof (rule best_of_SomeE [OF assms])
  fix ys zs
  assume fl: "free_at 0 segs = ys @ (i, l) # zs" and le: "n \<le> l"
    and before: "\<And>j k. (j, k) \<in> set ys \<Longrightarrow> n \<le> k \<Longrightarrow> l < k"
    and after: "\<And>j k. (j, k) \<in> set zs \<Longrightarrow> n \<le> k \<Longrightarrow> l \<le> k"
  from free_at_split [OF fl] obtain pre post where
    split: "segs = pre @ Free l # post" "free_at 0 pre = ys" "i = seg_total pre"
      "free_at (i + l) post = zs" by auto
  have "Free l \<notin> set pre" using before le split by (auto simp: Free_in_segs [of _ pre 0])
  moreover have "l \<le> m" if "Free m \<in> set (pre @ post)" "n \<le> m" for m
    using that before after split
    by (auto simp: Free_in_segs [of _ pre 0] Free_in_segs [of _ post "i + l"] dest: less_imp_le)
  ultimately have "abs_alloc n segs = Some (i, pre @ Used n # rest_free (l - n) @ post)"
    using abs_alloc_best le split by simp
  with split le show ?thesis using that by blast
qed

lemma split_block_fields:
  assumes "split_block best n hd0 h = (hd1, h1)" "new = best + ucast n * MEM_BLOCK_SIZE"
    and "new \<noteq> best" "prv (h best) \<noteq> new" "nxt (h best) \<noteq> new"
  shows "hd1 = (if hd0 = best then new else hd0)"
    and "nxt (h1 p) = (if p = new then nxt (h best)
           else if p \<noteq> NULL \<and> p = prv (h best) then new else nxt (h p))"
    and "prv (h1 p) = (if p = new then prv (h best)
           else if p \<noteq> NULL \<and> p = nxt (h best) then new else prv (h p))"
    and "n_blocks (h1 p) = (if p = new then n_blocks (h best) - n else n_blocks (h p))"
  using assms by (auto simp: split_block_def Let_def)

text \<open>What the representation says about one free segment and its neighbours in the list.\<close>

lemma free_node:
  assumes ok: "heap_ok hs tot" "seg_total (pre @ Free l # post) \<le> tot" "segs_pos (pre @ Free l # post)"
    and rep: "free_list_rep h hs hd0 (pre @ Free l # post)"
    and i: "i = seg_total pre"
  shows "dll h NULL (free_addrs hs 0 pre @ [baddr hs i] @ free_addrs hs (i + l) post) NULL"
    and "distinct (free_addrs hs 0 pre @ [baddr hs i] @ free_addrs hs (i + l) post)"
    and "NULL \<notin> set (free_addrs hs 0 pre)" "NULL \<notin> set (free_addrs hs (i + l) post)"
    and "baddr hs i \<noteq> NULL" "hd0 = first_or (baddr hs i) (free_addrs hs 0 pre)"
    and "prv (h (baddr hs i)) = last_or NULL (free_addrs hs 0 pre)"
    and "nxt (h (baddr hs i)) = first_or NULL (free_addrs hs (i + l) post)"
    and "n_blocks (h (baddr hs i)) = of_nat l" "l < 2 ^ 32" "0 < l"
proof -
  have le: "i + l + seg_total post \<le> tot" and pos: "segs_pos pre" "segs_pos post" "0 < l"
    using ok i by simp_all
  show "dll h NULL (free_addrs hs 0 pre @ [baddr hs i] @ free_addrs hs (i + l) post) NULL"
    and "hd0 = first_or (baddr hs i) (free_addrs hs 0 pre)"
    and "prv (h (baddr hs i)) = last_or NULL (free_addrs hs 0 pre)"
    and "nxt (h (baddr hs i)) = first_or NULL (free_addrs hs (i + l) post)"
    and "n_blocks (h (baddr hs i)) = of_nat l"
    using rep i by (simp_all add: free_list_rep_def)
  show "distinct (free_addrs hs 0 pre @ [baddr hs i] @ free_addrs hs (i + l) post)"
    using distinct_free_addrs [OF ok(1,3), of 0] ok(2) i by simp
  show "NULL \<notin> set (free_addrs hs 0 pre)" "NULL \<notin> set (free_addrs hs (i + l) post)"
    using null_notin_free_addrs [OF ok(1) pos(1), of 0] null_notin_free_addrs [OF ok(1) pos(2), of "i + l"]
      le i by simp_all
  show "baddr hs i \<noteq> NULL" using baddr_nonnull [OF ok(1), of i] le by simp
  show "l < 2 ^ 32" using le ok(1) by (simp add: heap_ok_def)
  show "0 < l" by fact
qed

lemma free_list_repI:
  assumes "dll h NULL (free_addrs hs 0 segs) NULL" "hd0 = first_or NULL (free_addrs hs 0 segs)"
    and "\<And>j n. (j, n) \<in> set (free_at 0 segs) \<Longrightarrow> n_blocks (h (baddr hs j)) = of_nat n"
  shows "free_list_rep h hs hd0 segs"
  using assms by (auto simp: free_list_rep_def)

lemma free_list_rep_blocks:
  "free_list_rep h hs hd0 segs \<Longrightarrow> (j, n) \<in> set (free_at 0 segs) \<Longrightarrow> n_blocks (h (baddr hs j)) = of_nat n"
  by (auto simp: free_list_rep_def)

lemma free_list_split_block:
  assumes ok: "heap_ok hs tot" "seg_total (pre @ Free l # post) \<le> tot" "segs_pos (pre @ Free l # post)"
    and rep: "free_list_rep h hs hd0 (pre @ Free l # post)" and i: "i = seg_total pre"
    and n: "0 < n" "n < l" "unat w = n"
    and res: "split_block (baddr hs i) w hd0 h = (hd1, h1)"
  shows "free_list_rep h1 hs hd1 (pre @ Used n # Free (l - n) # post)"
proof -
  note node = free_node [OF ok rep i]
  let ?as = "free_addrs hs 0 pre" let ?bs = "free_addrs hs (i + l) post"
  let ?x = "baddr hs i" let ?y = "baddr hs (i + n)"
  have le: "i + l + seg_total post \<le> tot" and pos: "segs_pos pre" "segs_pos post"
    using ok i by simp_all
  have w: "of_nat n = (ucast w :: addr)" "of_nat n = w" using n(3) by auto
  have y: "?y = ?x + ucast w * MEM_BLOCK_SIZE" "?y \<noteq> NULL" "?y \<noteq> ?x"
    using baddr_add [of hs i n] w n le baddr_nonnull [OF ok(1), of "i + n"]
      baddr_eq_iff [OF ok(1), of "i + n" i] by simp_all
  have notin: "?y \<notin> set ?as" "?y \<notin> set ?bs"
    using baddr_notin_free_addrs [OF ok(1) pos(1), of 0 "i + n"]
      baddr_notin_free_addrs [OF ok(1) pos(2), of "i + l" "i + n"] n le i by simp_all
  have ne: "last_or NULL ?as \<noteq> ?y" "first_or NULL ?bs \<noteq> ?y"
    using notin y(2) last_or_in [of ?as NULL] first_or_in [of ?bs NULL]
    by (cases "?as = []"; cases "?bs = []"; fastforce)+
  have f: "hd1 = (if hd0 = ?x then ?y else hd0)"
    "\<And>p. nxt (h1 p) = (if p = ?y then nxt (h ?x)
           else if p \<noteq> NULL \<and> p = prv (h ?x) then ?y else nxt (h p))"
    "\<And>p. prv (h1 p) = (if p = ?y then prv (h ?x)
           else if p \<noteq> NULL \<and> p = nxt (h ?x) then ?y else prv (h p))"
    "\<And>p. n_blocks (h1 p) = (if p = ?y then n_blocks (h ?x) - w else n_blocks (h p))"
    using split_block_fields [OF res y(1,3)] node(7,8) ne by auto
  have gap: "distinct (?as @ ?bs)" using node(2) by simp
  show ?thesis
  proof (rule free_list_repI)
    have "dll h1 NULL (?as @ [?y] @ ?bs) NULL"
    proof (rule dll_relink [OF node(1) gap node(3,4)])
      fix p assume p: "p \<in> set ?as \<union> set ?bs"
      then have "p \<noteq> ?y" "p \<noteq> NULL" using notin node(3,4) by auto
      then show "nxt (h1 p) = (if p = last_or NULL ?as then first_or NULL ([?y] @ ?bs) else nxt (h p))"
        and "prv (h1 p) = (if p = first_or NULL ?bs then last_or NULL (?as @ [?y]) else prv (h p))"
        using f(2,3) node(7,8) by simp_all
    next
      show "dll h1 (last_or NULL ?as) [?y] (first_or NULL ?bs)"
        using f(2,3) node(7,8) by simp
    qed
    then show "dll h1 NULL (free_addrs hs 0 (pre @ Used n # Free (l - n) # post)) NULL"
      using i n by simp
    show "hd1 = first_or NULL (free_addrs hs 0 (pre @ Used n # Free (l - n) # post))"
      using node(2,6) f(1) i n by (cases ?as) auto
    fix j m assume jm: "(j, m) \<in> set (free_at 0 (pre @ Used n # Free (l - n) # post))"
    show "n_blocks (h1 (baddr hs j)) = of_nat m"
    proof (cases "j = i + n")
      case True
      have "m = l - n"
        using jm True i n free_at_bounds [of j m 0 pre] free_at_bounds [of j m "i + l" post] by auto
      then show ?thesis using f(4) node(9) True n w by (simp add: of_nat_diff)
    next
      case False
      then have jm': "(j, m) \<in> set (free_at 0 (pre @ Free l # post))" using jm i n by auto
      with free_at_bounds [OF this] ok(2) have "baddr hs j \<noteq> ?y"
        using baddr_eq_iff [OF ok(1), of j "i + n"] False le n by simp
      then show ?thesis using f(4) free_list_rep_blocks [OF rep jm'] by simp
    qed
  qed
qed

lemma unchain_block_fields:
  assumes "unchain_block best hd0 h = (hd1, h1)"
    and "prv (h best) \<noteq> best" "nxt (h best) \<noteq> best"
  shows "hd1 = (if hd0 = best then nxt (h best) else hd0)"
    and "p \<noteq> NULL \<Longrightarrow> nxt (h1 p) = (if p = prv (h best) then nxt (h best) else nxt (h p))"
    and "p \<noteq> NULL \<Longrightarrow> prv (h1 p) = (if p = nxt (h best) then prv (h best) else prv (h p))"
    and "n_blocks (h1 p) = n_blocks (h p)"
  using assms by (auto simp: unchain_block_def Let_def)

lemma free_list_unchain_block:
  assumes ok: "heap_ok hs tot" "seg_total (pre @ Free l # post) \<le> tot" "segs_pos (pre @ Free l # post)"
    and rep: "free_list_rep h hs hd0 (pre @ Free l # post)" and i: "i = seg_total pre"
    and res: "unchain_block (baddr hs i) hd0 h = (hd1, h1)"
  shows "free_list_rep h1 hs hd1 (pre @ Used l # post)"
proof -
  note node = free_node [OF ok rep i]
  let ?as = "free_addrs hs 0 pre" let ?bs = "free_addrs hs (i + l) post" let ?x = "baddr hs i"
  have ne: "last_or NULL ?as \<noteq> ?x" "first_or NULL ?bs \<noteq> ?x"
    using node(2,5) last_or_in [of ?as NULL] first_or_in [of ?bs NULL]
    by (cases "?as = []"; cases "?bs = []"; fastforce)+
  have f: "hd1 = (if hd0 = ?x then nxt (h ?x) else hd0)"
    "\<And>p. p \<noteq> NULL \<Longrightarrow> nxt (h1 p) = (if p = prv (h ?x) then nxt (h ?x) else nxt (h p))"
    "\<And>p. p \<noteq> NULL \<Longrightarrow> prv (h1 p) = (if p = nxt (h ?x) then prv (h ?x) else prv (h p))"
    "\<And>p. n_blocks (h1 p) = n_blocks (h p)"
    using unchain_block_fields [OF res] node(7,8) ne by auto
  have gap: "distinct (?as @ ?bs)" using node(2) by simp
  show ?thesis
  proof (rule free_list_repI)
    have "dll h1 NULL (?as @ [] @ ?bs) NULL"
    proof (rule dll_relink [OF node(1) gap node(3,4)])
      fix p assume p: "p \<in> set ?as \<union> set ?bs"
      then have "p \<noteq> NULL" using node(3,4) by auto
      then show "nxt (h1 p) = (if p = last_or NULL ?as then first_or NULL ([] @ ?bs) else nxt (h p))"
        and "prv (h1 p) = (if p = first_or NULL ?bs then last_or NULL (?as @ []) else prv (h p))"
        using f(2,3) node(7,8) by simp_all
    qed simp
    then show "dll h1 NULL (free_addrs hs 0 (pre @ Used l # post)) NULL" using i by simp
    show "hd1 = first_or NULL (free_addrs hs 0 (pre @ Used l # post))"
      using node(2,6,8) f(1) i by (cases ?as) auto
    fix j m assume "(j, m) \<in> set (free_at 0 (pre @ Used l # post))"
    then have "(j, m) \<in> set (free_at 0 (pre @ Free l # post))" using i by auto
    then show "n_blocks (h1 (baddr hs j)) = of_nat m"
      using f(4) free_list_rep_blocks [OF rep] by simp
  qed
qed

lemma table_of_alloc:
  assumes "segs_pos pre" "0 < n" "n \<le> l"
  shows "(table_of (pre @ Free l # post))[seg_total pre := of_nat n] =
         table_of (pre @ Used n # rest_free (l - n) @ post)"
proof -
  obtain k where "n = Suc k" using assms(2) by (cases n) auto
  moreover have "replicate l (0 :: u32) = replicate n 0 @ replicate (l - n) 0"
    using assms(3) by (simp flip: replicate_add)
  ultimately show ?thesis using assms(1) by (simp add: list_update_append)
qed

lemma to_blocks_FreeBlocks: "to_blocks sizeof_FreeBlocks = 1"
  by (simp add: to_blocks_def sizeof_FreeBlocks_def MEM_BLOCK_SIZE_def)

theorem mem_alloc_refines:
  assumes rep: "alloc_rep a segs" and n: "0 < unat n"
  shows "\<exists>a'. heap_start a' = heap_start a \<and>
    (case abs_alloc (unat n) segs of
       None \<Rightarrow> mem_alloc_blocks n a = Some (NULL, a) \<and> a' = a
     | Some (i, segs') \<Rightarrow> mem_alloc_blocks n a = Some (baddr (heap_start a) i, a') \<and> alloc_rep a' segs')"
proof -
  let ?hs = "heap_start a" let ?N = "unat n"
  have r: "segs_ok segs" "segs_pos segs" "heap_ok ?hs (seg_total segs)" "alloc_table a = table_of segs"
    "free_list_rep (fbs a) ?hs (fb_head a) segs"
    using rep by (auto simp: alloc_rep_def alloc_rep0_def)
  have nodes: "baddr ?hs j \<noteq> NULL \<and> n_blocks (fbs a (baddr ?hs j)) = of_nat l \<and> l < 2 ^ 32"
    if "(j, l) \<in> set ([] @ free_at 0 segs)" for j l
    using that free_at_bounds [of j l 0 segs] baddr_nonnull [OF r(3)] free_list_rep_blocks [OF r(5)] r(3)
    by (auto simp: heap_ok_def)
  obtain b where b: "best_of ?N (free_at 0 segs) b"
    and fit: "best_fit (fbs a) n (fb_head a) NULL = Some (block_ptr ?hs b)"
    using best_fit_finds [of "[]" "free_at 0 segs" ?hs "fbs a" NULL n None] nodes r(5)
    by (auto simp: free_list_rep_def free_addrs_def simp del: best_of.simps(2))
  show ?thesis
  proof (cases b)
    case None
    then show ?thesis using b fit best_of_None_segs
      by (simp add: mem_alloc_blocks_def del: best_of.simps)
  next
    case (Some il)
    obtain i l where il: "il = (i, l)" by fastforce
    with b Some have "best_of ?N (free_at 0 segs) (Some (i, l))" by (simp del: best_of.simps)
    then obtain pre post where split: "segs = pre @ Free l # post" "i = seg_total pre" "?N \<le> l"
      and abs: "abs_alloc ?N segs = Some (i, pre @ Used ?N # rest_free (l - ?N) @ post)"
      by (rule best_of_Some_segs)
    let ?x = "baddr ?hs i" let ?segs' = "pre @ Used ?N # rest_free (l - ?N) @ post"
    note node = free_node [OF r(3) _ _ _ split(2), of l post, unfolded split(1) [symmetric], OF order_refl r(2,5)]
    obtain hd1 h1 where step: "(if 1 \<le> n_blocks (fbs a ?x) - n then split_block ?x n (fb_head a) (fbs a)
        else unchain_block ?x (fb_head a) (fbs a)) = (hd1, h1)" by fastforce
    have "unat (n_blocks (fbs a ?x) - n) = l - ?N"
      using node(9,10) split(3) by (simp add: unat_sub word_le_nat_alt)
    then have one: "1 \<le> n_blocks (fbs a ?x) - n \<longleftrightarrow> ?N < l"
      by (simp add: word_le_nat_alt) linarith
    have "free_list_rep h1 ?hs hd1 ?segs'"
    proof (cases "?N < l")
      case True
      with step one have "split_block ?x n (fb_head a) (fbs a) = (hd1, h1)" by simp
      from free_list_split_block [OF r(3) _ _ _ split(2) n True refl this] split(1) r True
      show ?thesis by (simp add: rest_free_def)
    next
      case False
      with step one have "unchain_block ?x (fb_head a) (fbs a) = (hd1, h1)" by simp
      from free_list_unchain_block [OF r(3) _ _ _ split(2) this] split(1,3) r False
      show ?thesis by (simp add: rest_free_def)
    qed
    moreover have i_lt: "table_index a ?x = i" "i < length (alloc_table a)"
      using table_index_baddr [OF r(3), of i] r split node(11) by simp_all
    moreover have "(alloc_table a)[i := n] = table_of ?segs'"
      using table_of_alloc [OF _ n split(3), of pre post] r split by simp
    moreover have "segs_ok ?segs'" using abs_alloc_ok [OF r(1) abs n] .
    moreover have "seg_total ?segs' = seg_total segs" using abs_alloc_total [OF abs] .
    ultimately have "alloc_rep (a\<lparr>fb_head := hd1, fbs := h1, alloc_table := (alloc_table a)[i := n]\<rparr>) ?segs'"
      using r(3) by (simp add: alloc_rep_def alloc_rep0_def segs_ok_def del: rest_free_simps)
    moreover have "mem_alloc_blocks n a =
        Some (?x, a\<lparr>fb_head := hd1, fbs := h1, alloc_table := (alloc_table a)[i := n]\<rparr>)"
      using fit Some il node(5) step i_lt
      by (simp add: mem_alloc_blocks_def to_blocks_FreeBlocks)
    ultimately show ?thesis using abs
      by (intro exI [of _ "a\<lparr>fb_head := hd1, fbs := h1, alloc_table := (alloc_table a)[i := n]\<rparr>"]) simp
  qed
qed

section \<open>free implements release on tilings\<close>

lemma ucast_of_nat_u32: "l < 2 ^ 32 \<Longrightarrow> (ucast (of_nat l :: u32) :: u64) = of_nat l"
  by (simp add: word_unat_eq_iff)

lemma block_end:
  assumes "n_blocks (h (baddr hs j)) = of_nat l" "l < 2 ^ 32"
  shows "baddr hs j + ucast (n_blocks (h (baddr hs j))) * MEM_BLOCK_SIZE = baddr hs (j + l)"
  using assms by (simp add: ucast_of_nat_u32 baddr_add)

lemma find_place_finds:
  assumes "\<And>j l. (j, l) \<in> set xs \<Longrightarrow> baddr hs j \<noteq> NULL \<and> n_blocks (h (baddr hs j)) = of_nat l \<and>
      l < 2 ^ 32 \<and> baddr hs j \<le> new \<and> baddr hs (j + l) \<le> new"
    and "dll h p (map (\<lambda>(j, l). baddr hs j) xs) q" "q = NULL \<or> new < q"
  shows "find_place h new (first_or q (map (\<lambda>(j, l). baddr hs j) xs)) prev =
         Some (Inr (last_or prev (map (\<lambda>(j, l). baddr hs j) xs)))"
  using assms
proof (induction xs arbitrary: p prev)
  case Nil
  then show ?case by (subst find_place.simps) auto
next
  case (Cons jl xs)
  obtain j l where jl: "jl = (j, l)" by fastforce
  have node: "baddr hs j \<noteq> NULL" "baddr hs j \<le> new"
    "baddr hs j + ucast (n_blocks (h (baddr hs j))) * MEM_BLOCK_SIZE \<le> new"
    using Cons.prems(1) [of j l] jl block_end [of h hs j l] by auto
  have "find_place h new (baddr hs j) prev = find_place h new (nxt (h (baddr hs j))) (baddr hs j)"
    using node leD [OF node(3)] by (subst find_place.simps) simp
  moreover have "nxt (h (baddr hs j)) = first_or q (map (\<lambda>(j, l). baddr hs j) xs)"
    "dll h (baddr hs j) (map (\<lambda>(j, l). baddr hs j) xs) q"
    using Cons.prems(2) jl by auto
  moreover from this(2) have "find_place h new (first_or q (map (\<lambda>(j, l). baddr hs j) xs)) (baddr hs j) =
      Some (Inr (last_or (baddr hs j) (map (\<lambda>(j, l). baddr hs j) xs)))"
    by (rule Cons.IH [rotated]) (use Cons.prems in auto)
  ultimately show ?case using jl by simp
qed

lemma chain_block_fields:
  assumes "chain_block new prev hd0 h = (hd1, h1)" "N = (if prev = NULL then hd0 else nxt (h prev))"
    and "new \<noteq> NULL" "prev \<noteq> new" "N \<noteq> new"
  shows "hd1 = (if prev = NULL then new else hd0)"
    and "p \<noteq> NULL \<Longrightarrow> nxt (h1 p) = (if p = new then N else if p = prev then new else nxt (h p))"
    and "p \<noteq> NULL \<Longrightarrow> prv (h1 p) = (if p = new then prev else if p = N then new else prv (h p))"
    and "n_blocks (h1 p) = n_blocks (h p)"
  using assms by (auto simp: chain_block_def Let_def split: if_splits)

lemma free_list_chain_block:
  assumes ok: "heap_ok hs tot" "seg_total (pre @ Used n # post) \<le> tot" "segs_pos (pre @ Used n # post)"
    and rep: "free_list_rep h hs hd0 (pre @ Used n # post)" and i: "i = seg_total pre"
    and prev: "prev = last_or NULL (free_addrs hs 0 pre)"
    and res: "chain_block (baddr hs i) prev hd0 (set_blocks (baddr hs i) (of_nat n) h) = (hd1, h1)"
  shows "free_list_rep h1 hs hd1 (pre @ Free n # post)"
proof -
  let ?as = "free_addrs hs 0 pre" let ?bs = "free_addrs hs (i + n) post" let ?x = "baddr hs i"
  have le: "i + n + seg_total post \<le> tot" and pos: "segs_pos pre" "segs_pos post" "0 < n"
    using ok i by simp_all
  have old: "dll h NULL (?as @ [] @ ?bs) NULL" "hd0 = first_or NULL (?as @ ?bs)"
    using rep i by (simp_all add: free_list_rep_def)
  have dist: "distinct (?as @ ?bs)"
    using distinct_free_addrs [OF ok(1,3), of 0] ok(2) i by simp
  have notin: "?x \<notin> set ?as" "?x \<notin> set ?bs" "?x \<noteq> NULL" "NULL \<notin> set ?as" "NULL \<notin> set ?bs"
    using baddr_notin_free_addrs [OF ok(1) pos(1), of 0 i] baddr_notin_free_addrs [OF ok(1) pos(2), of "i + n" i]
      null_notin_free_addrs [OF ok(1) pos(1), of 0] null_notin_free_addrs [OF ok(1) pos(2), of "i + n"]
      baddr_nonnull [OF ok(1), of i] le pos(3) i by simp_all
  have prev_null: "prev = NULL \<longleftrightarrow> ?as = []" using prev notin(4) by (simp add: last_or_null_iff)
  have next_ne: "first_or NULL ?bs \<noteq> ?x"
    using notin(2,3) first_or_in [of ?bs NULL] by (cases "?bs = []") auto
  have prev_ne: "prev \<noteq> ?x"
    using notin(1,3) prev last_or_in [of ?as NULL] by (cases "?as = []") auto
  have after: "(if prev = NULL then hd0 else nxt (set_blocks ?x (of_nat n) h prev)) = first_or NULL ?bs"
    using old prev prev_null dll_last [of h NULL ?as "first_or NULL ?bs"]
    by (auto simp: last_or_nonempty)
  have f: "hd1 = (if prev = NULL then ?x else hd0)"
    "\<And>p. p \<noteq> NULL \<Longrightarrow> nxt (h1 p) = (if p = ?x then first_or NULL ?bs else if p = prev then ?x else nxt (h p))"
    "\<And>p. p \<noteq> NULL \<Longrightarrow> prv (h1 p) = (if p = ?x then prev else if p = first_or NULL ?bs then ?x else prv (h p))"
    "\<And>p. n_blocks (h1 p) = (if p = ?x then of_nat n else n_blocks (h p))"
    using chain_block_fields [OF res after [symmetric] notin(3) prev_ne next_ne] by auto
  show ?thesis
  proof (rule free_list_repI)
    have "dll h1 NULL (?as @ [?x] @ ?bs) NULL"
    proof (rule dll_relink [OF old(1) dist notin(4,5)])
      fix p assume p: "p \<in> set ?as \<union> set ?bs"
      then have "p \<noteq> NULL" "p \<noteq> ?x" using notin by auto
      then show "nxt (h1 p) = (if p = last_or NULL ?as then first_or NULL ([?x] @ ?bs) else nxt (h p))"
        and "prv (h1 p) = (if p = first_or NULL ?bs then last_or NULL (?as @ [?x]) else prv (h p))"
        using f(2,3) prev by simp_all
    next
      show "dll h1 (last_or NULL ?as) [?x] (first_or NULL ?bs)" using f(2,3) notin(3) prev by simp
    qed
    then show "dll h1 NULL (free_addrs hs 0 (pre @ Free n # post)) NULL" using i by simp
    show "hd1 = first_or NULL (free_addrs hs 0 (pre @ Free n # post))"
      using f(1) prev_null old(2) i by (cases ?as) auto
    fix j m assume jm: "(j, m) \<in> set (free_at 0 (pre @ Free n # post))"
    show "n_blocks (h1 (baddr hs j)) = of_nat m"
    proof (cases "j = i")
      case True
      have "m = n"
        using jm True i pos free_at_bounds [of j m 0 pre] free_at_pos [OF pos(1), of j m 0]
          free_at_bounds [of j m "i + n" post] by auto
      then show ?thesis using f(4) True by simp
    next
      case False
      then have jm': "(j, m) \<in> set (free_at 0 (pre @ Used n # post))" using jm i by auto
      with free_at_bounds [OF this] ok(2) have "baddr hs j \<noteq> ?x"
        using baddr_eq_iff [OF ok(1), of j i] False le by simp
      then show ?thesis using f(4) free_list_rep_blocks [OF rep jm'] by simp
    qed
  qed
qed

lemma merge_blocks_fields:
  assumes "fb \<noteq> NULL" "nxt (h fb) \<noteq> NULL" "nxt (h fb) \<noteq> fb" "nxt (h (nxt (h fb))) \<noteq> fb"
    and "nxt (h fb) = fb + ucast (n_blocks (h fb)) * MEM_BLOCK_SIZE"
  shows "fst (merge_blocks fb h) = MEM_SUCCESS"
    and "nxt (snd (merge_blocks fb h) p) = (if p = fb then nxt (h (nxt (h fb))) else nxt (h p))"
    and "p \<noteq> NULL \<Longrightarrow> prv (snd (merge_blocks fb h) p) =
           (if p = nxt (h (nxt (h fb))) then fb else prv (h p))"
    and "n_blocks (snd (merge_blocks fb h) p) =
           (if p = fb then n_blocks (h fb) + n_blocks (h (nxt (h fb))) else n_blocks (h p))"
  using assms(1-4) by (auto simp: merge_blocks_def Let_def assms(5) [symmetric])

lemma free_list_merge_blocks:
  assumes ok: "heap_ok hs tot" "seg_total (pre @ Free l # post) \<le> tot" "segs_pos (pre @ Free l # post)"
    and rep: "free_list_rep h hs hd0 (pre @ Free l # post)" and i: "i = seg_total pre"
  shows "free_list_rep (snd (merge_blocks (baddr hs i) h)) hs hd0 (pre @ free_cons (Free l) post)"
proof -
  note node = free_node [OF ok rep i]
  let ?as = "free_addrs hs 0 pre" let ?bs = "free_addrs hs (i + l) post" let ?x = "baddr hs i"
  have le: "i + l + seg_total post \<le> tot" and pos: "segs_pos pre" "segs_pos post"
    using ok i by simp_all
  have end_x: "?x + ucast (n_blocks (h ?x)) * MEM_BLOCK_SIZE = baddr hs (i + l)"
    by (rule block_end [of h hs i l, OF node(9,10)])
  show ?thesis
  proof (cases "\<exists>m segs. post = Free m # segs")
    case False
    have "nxt (h ?x) = NULL \<or> nxt (h ?x) \<noteq> baddr hs (i + l)"
    proof (cases post)
      case Nil
      then show ?thesis using node(8) by simp
    next
      case (Cons s segs)
      with False obtain m where m: "post = Used m # segs" by (cases s) auto
      then have "baddr hs (i + l) \<notin> set ?bs"
        using baddr_notin_free_addrs [OF ok(1), of segs "i + l + m" "i + l"] pos le by simp
      then show ?thesis using node(8) first_or_in [of ?bs NULL] by (cases "?bs = []") auto
    qed
    then have "snd (merge_blocks ?x h) = h" using end_x by (auto simp: merge_blocks_def)
    moreover have "free_cons (Free l) post = Free l # post"
      using False by (cases post; cases "hd post") auto
    ultimately show ?thesis using rep by simp
  next
    case True
    then obtain m segs where post: "post = Free m # segs" by blast
    let ?y = "baddr hs (i + l)" let ?cs = "free_addrs hs (i + l + m) segs"
    have rep': "free_list_rep h hs hd0 ((pre @ [Free l]) @ Free m # segs)" using rep post by simp
    have ok': "seg_total ((pre @ [Free l]) @ Free m # segs) \<le> tot" "segs_pos ((pre @ [Free l]) @ Free m # segs)"
      using ok post by simp_all
    note node' = free_node [OF ok(1) ok' rep', of "i + l", simplified i, simplified, folded i]
    let ?h = "snd (merge_blocks ?x h)"
    have ll: "?bs = ?y # ?cs" using post by simp
    have ne: "?y \<noteq> NULL" "?y \<noteq> ?x" "nxt (h ?x) = ?y" "nxt (h ?y) = first_or NULL ?cs"
      "first_or NULL ?cs \<noteq> ?x" "NULL \<notin> set ?cs" "?x \<notin> set ?as" "?x \<notin> set ?cs"
      using node node' ll first_or_in [of ?cs NULL] by (cases "?cs = []"; auto simp: i)+
    note f = merge_blocks_fields [of ?x h, unfolded ne(3), OF node(5) ne(1,2) _ end_x [symmetric], unfolded ne(4), OF ne(5)]
    have dist: "distinct (?as @ ?cs)" using node(2) ll by simp
    have chain: "dll h NULL (?as @ [?x, ?y] @ ?cs) NULL" using node(1) ll by simp
    have "free_list_rep ?h hs hd0 (pre @ Free (l + m) # segs)"
    proof (rule free_list_repI)
      have "dll ?h NULL (?as @ [?x] @ ?cs) NULL"
      proof (rule dll_relink [OF chain dist node(3) ne(6)])
        fix p assume p: "p \<in> set ?as \<union> set ?cs"
        then have "p \<noteq> NULL" "p \<noteq> ?x" using ne(6-8) node(3) by auto
        moreover have "p = last_or NULL ?as \<Longrightarrow> nxt (h p) = ?x"
          using p dll_last [of h NULL ?as ?x] chain node(3) \<open>p \<noteq> NULL\<close>
          by (cases "?as = []") (auto simp: last_or_nonempty)
        ultimately show "nxt (?h p) = (if p = last_or NULL ?as then first_or NULL ([?x] @ ?cs) else nxt (h p))"
          and "prv (?h p) = (if p = first_or NULL ?cs then last_or NULL (?as @ [?x]) else prv (h p))"
          using f(2,3) by simp_all
      next
        show "dll ?h (last_or NULL ?as) [?x] (first_or NULL ?cs)"
          using f(2) f(3) [OF node(5)] ne(5) node(7) by simp
      qed
      then show "dll ?h NULL (free_addrs hs 0 (pre @ Free (l + m) # segs)) NULL"
        using i by (simp add: add.assoc)
      show "hd0 = first_or NULL (free_addrs hs 0 (pre @ Free (l + m) # segs))"
        using node(6) i by (cases ?as) auto
      fix j k assume jk: "(j, k) \<in> set (free_at 0 (pre @ Free (l + m) # segs))"
      show "n_blocks (?h (baddr hs j)) = of_nat k"
      proof (cases "j = i")
        case True
        have "k = l + m"
          using jk True i pos node(11) free_at_bounds [of j k 0 pre] free_at_pos [OF pos(1), of j k 0]
            free_at_bounds [of j k "i + (l + m)" segs] by auto
        then show ?thesis using f(4) True node(9) node'(9) ne(3) by simp
      next
        case False
        then have jk': "(j, k) \<in> set (free_at 0 (pre @ Free l # post))"
          using jk i post by (auto simp: add.assoc)
        with free_at_bounds [OF this] ok(2) have "baddr hs j \<noteq> ?x"
          using baddr_eq_iff [OF ok(1), of j i] False le by simp
        then show ?thesis using f(4) free_list_rep_blocks [OF rep jk'] by simp
      qed
    qed
    then show ?thesis using post by simp
  qed
qed

lemma table_of_free:
  assumes "segs_pos pre" "0 < n"
  shows "(table_of (pre @ Used n # post))[seg_total pre := 0] = table_of (pre @ Free n # post)"
proof -
  obtain k where "n = Suc k" using assms(2) by (cases n) auto
  then show ?thesis using assms(1) by (simp add: list_update_append)
qed

lemma table_of_free_cons [simp]: "table_of (free_cons s segs) = table_of (s # segs)"
  by (induction s segs rule: free_cons.induct) (auto simp: replicate_add)

text \<open>
  The last free segment before a point: either there is none, or only used segments follow it.
\<close>

lemma last_free_split:
  assumes "free_at 0 pre \<noteq> []"
  obtains p l q where "pre = p @ Free l # q" "free_at (seg_total p + l) q = []"
    "free_at 0 pre = free_at 0 p @ [(seg_total p, l)]"
proof -
  obtain xs j l where last: "free_at 0 pre = xs @ [(j, l)]"
    using assms by (metis append_butlast_last_id surj_pair)
  from free_at_split [of 0 pre xs j l "[]"] last obtain p q where
    "pre = p @ Free l # q" "free_at 0 p = xs" "j = seg_total p" "free_at (j + l) q = []" by auto
  with last show ?thesis using that by simp
qed

lemma free_at_Nil_used: "free_at i segs = [] \<Longrightarrow> segs \<noteq> [] \<Longrightarrow> \<not> is_free (hd segs) \<and> \<not> is_free (last segs)"
  by (induction i segs rule: free_at.induct) (auto split: if_splits)

lemma table_of_foldr_free_cons [simp]: "table_of (foldr free_cons pre segs) = table_of (pre @ segs)"
proof (induction pre)
  case (Cons s pre)
  then show ?case by (cases s) simp_all
qed simp

lemma find_place_of_used:
  assumes ok: "heap_ok hs (seg_total segs)" "segs_pos segs"
    and rep: "free_list_rep h hs hd0 segs" and split: "segs = pre @ Used n # post" "i = seg_total pre"
  shows "find_place h (baddr hs i) hd0 NULL = Some (Inr (last_or NULL (free_addrs hs 0 pre)))"
proof -
  let ?bs = "free_addrs hs (i + n) post" let ?q = "first_or NULL ?bs"
  have pos: "segs_pos post" "0 < n" and le: "i + n + seg_total post \<le> seg_total segs"
    using ok split by auto
  have "?q = NULL \<or> baddr hs i < ?q"
  proof (cases "?bs = []")
    case False
    then obtain j where "i + n \<le> j" "j < i + n + seg_total post" "?q = baddr hs j"
      using free_addrs_above [OF ok(1) pos(1) le first_or_in] by blast
    then show ?thesis using baddr_le_iff(2) [OF ok(1), of i j] pos(2) le by simp
  qed simp
  moreover have "dll h NULL (free_addrs hs 0 pre) ?q" "hd0 = first_or ?q (free_addrs hs 0 pre)"
    using rep split by (simp_all add: free_list_rep_def)
  moreover have "baddr hs j \<noteq> NULL \<and> n_blocks (h (baddr hs j)) = of_nat l \<and> l < 2 ^ 32 \<and>
      baddr hs j \<le> baddr hs i \<and> baddr hs (j + l) \<le> baddr hs i" if "(j, l) \<in> set (free_at 0 pre)" for j l
  proof -
    have "j + l \<le> i" using free_at_bounds [OF that] split by simp
    then show ?thesis
      using that le ok(1) baddr_nonnull [OF ok(1), of j] free_list_rep_blocks [OF rep, of j l] split(1)
        baddr_le_iff(1) [OF ok(1), of j i] baddr_le_iff(1) [OF ok(1), of "j + l" i]
      by (simp add: heap_ok_def)
  qed
  ultimately show ?thesis
    unfolding free_addrs_def [of hs 0 pre] by (simp add: find_place_finds)
qed

lemma free_list_merge_prev:
  assumes ok: "heap_ok hs tot" "segs_pos (pre @ Used n # post)" "coalesced (pre @ Used n # post)"
      "seg_total (pre @ Used n # post) \<le> tot"
    and rep: "free_list_rep h hs hd0 (pre @ free_cons (Free n) post)" and i: "i = seg_total pre"
  shows "free_list_rep (snd (merge_blocks (prv (h (baddr hs i))) h)) hs hd0
     (foldr free_cons pre (free_cons (Free n) post))"
proof -
  let ?segs = "free_cons (Free n) post"
  obtain y r where y: "?segs = Free y # r"
    using free_cons_hd [of "Free n" post] free_cons_nonempty [of "Free n" post]
    by (metis is_free.elims(2) is_free.simps(1) list.collapse)
  have pos: "segs_pos ?segs" "segs_pos pre" and tot: "seg_total (pre @ ?segs) \<le> tot"
    using ok free_cons_pos [of "Free n" post] by auto
  have co: "coalesced pre" "coalesced ?segs"
    using ok(3) free_cons_coalesced [of post "Free n"] by (auto simp: coalesced_append)
  have prev: "prv (h (baddr hs i)) = last_or NULL (free_addrs hs 0 pre)"
    using free_node(7) [of hs tot pre y r h hd0 i] ok(1) rep i tot pos y by simp
  show ?thesis
  proof (cases "free_at 0 pre = []")
    case True
    then have "foldr free_cons pre ?segs = pre @ ?segs"
      using co free_at_Nil_used [OF True] by (intro foldr_free_cons_id) (auto simp: coalesced_append)
    with True rep prev show ?thesis by (simp add: free_addrs_def merge_blocks_def)
  next
    case False
    then obtain p l q where pq: "pre = p @ Free l # q" "free_at (seg_total p + l) q = []"
      "free_at 0 pre = free_at 0 p @ [(seg_total p, l)]" by (rule last_free_split)
    have "coalesced (q @ ?segs)"
      using co free_at_Nil_used [OF pq(2)] pq(1) by (auto simp: coalesced_append dest: coalesced_ConsD)
    then have q: "foldr free_cons q ?segs = q @ ?segs" "coalesced (free_cons (Free l) (q @ ?segs))"
      by (rule foldr_free_cons_id, rule free_cons_coalesced)
    then have "foldr free_cons pre ?segs = p @ free_cons (Free l) (q @ ?segs)"
      using co(1) pq(1) by (simp add: foldr_free_cons_id coalesced_append)
    moreover have "prv (h (baddr hs i)) = baddr hs (seg_total p)"
      using prev pq(3) by (simp add: free_addrs_def)
    moreover have "free_list_rep (snd (merge_blocks (baddr hs (seg_total p)) h)) hs hd0
        (p @ free_cons (Free l) (q @ ?segs))"
      by (rule free_list_merge_blocks [OF ok(1)]) (use rep tot pos pq(1) in simp_all)
    ultimately show ?thesis by simp
  qed
qed

theorem mem_free_refines:
  assumes rep: "alloc_rep a segs" and used: "(i, n) \<in> set (used_at 0 segs)"
  shows "\<exists>a' segs'. abs_free i segs = Some segs' \<and> heap_start a' = heap_start a \<and>
    mem_free_blocks (baddr (heap_start a) i) a = Some (MEM_SUCCESS, a') \<and> alloc_rep a' segs'"
proof -
  let ?hs = "heap_start a"
  obtain pre post where split: "segs = pre @ Used n # post" "i = seg_total pre"
    using used used_at_iff_split by blast
  let ?as = "free_addrs ?hs 0 pre" let ?x = "baddr ?hs i"
  have r: "segs_ok segs" "segs_pos segs" "heap_ok ?hs (seg_total segs)" "alloc_table a = table_of segs"
    "free_list_rep (fbs a) ?hs (fb_head a) segs"
    using rep by (auto simp: alloc_rep_def alloc_rep0_def)
  have pos: "segs_pos pre" "segs_pos post" "0 < n" and n32: "n < 2 ^ 32"
    and le: "i + n + seg_total post \<le> seg_total segs"
    using r split by (auto simp: heap_ok_def)
  have idx: "table_index a ?x = i" "i < length (alloc_table a)" "alloc_table a ! i = of_nat n"
    using table_index_baddr [OF r(3), of i] r(2,4) split pos by (simp_all add: nth_append)
  have x: "?x \<noteq> NULL" "?x mod MEM_BLOCK_SIZE = 0"
    using baddr_nonnull [OF r(3), of i] baddr_aligned [OF r(3), of i] le by simp_all
  have nz: "(of_nat n :: u32) \<noteq> 0" using pos(3) n32 by (metis unat_u32_of_nat unat_0 less_not_refl)
  have place: "find_place (fbs a) ?x (fb_head a) NULL = Some (Inr (last_or NULL ?as))"
    by (rule find_place_of_used [OF r(3,2,5) split])
  obtain hd1 h2 where chain: "chain_block ?x (last_or NULL ?as) (fb_head a)
      (set_blocks ?x (of_nat n) (fbs a)) = (hd1, h2)" by fastforce
  have rep2: "free_list_rep h2 ?hs hd1 (pre @ Free n # post)"
    by (rule free_list_chain_block [OF r(3) _ _ _ split(2) refl chain]) (use r split in auto)
  let ?h3 = "snd (merge_blocks ?x h2)" let ?segs3 = "pre @ free_cons (Free n) post"
  have rep3: "free_list_rep ?h3 ?hs hd1 ?segs3"
    by (rule free_list_merge_blocks [OF r(3) _ _ rep2 split(2)]) (use r split pos in auto)
  let ?h4 = "snd (merge_blocks (prv (?h3 ?x)) ?h3)"
  let ?segs' = "foldr free_cons pre (free_cons (Free n) post)"
  have res: "abs_free i segs = Some ?segs'" using abs_free_at [OF pos(1)] split by simp
  have rep4: "free_list_rep ?h4 ?hs hd1 ?segs'"
    by (rule free_list_merge_prev [OF r(3) _ _ _ rep3 split(2)]) (use r split pos in \<open>auto simp: segs_ok_def\<close>)
  have "(alloc_table a)[i := 0] = table_of ?segs'"
    using table_of_free [OF pos(1,3), of post] r(4) split by simp
  moreover have "segs_ok ?segs'" "seg_total ?segs' = seg_total segs"
    using abs_free_ok [OF res r(1)] abs_free_total [OF res] by auto
  ultimately have "alloc_rep (a\<lparr>fb_head := hd1, fbs := ?h4, alloc_table := (alloc_table a)[i := 0]\<rparr>) ?segs'"
    using r(3) rep4 by (simp add: alloc_rep_def alloc_rep0_def segs_ok_def del: table_of_foldr_free_cons)
  moreover have "mem_free_blocks ?x a =
      Some (MEM_SUCCESS, a\<lparr>fb_head := hd1, fbs := ?h4, alloc_table := (alloc_table a)[i := 0]\<rparr>)"
    using x idx nz place chain by (simp add: mem_free_blocks_def Let_def)
  ultimately show ?thesis using res by auto
qed

section \<open>Allocations of zero blocks and rejected releases\<close>

text \<open>
  A request for zero blocks is answered with the address of a free block, which stays free: the
  allocator does not change.
\<close>

lemma split_block_zero:
  assumes "split_block best 0 hd0 h = (hd1, h1)" "best \<noteq> NULL"
    and "prv (h best) \<noteq> NULL \<Longrightarrow> nxt (h (prv (h best))) = best \<and> prv (h best) \<noteq> best"
    and "nxt (h best) \<noteq> NULL \<Longrightarrow> prv (h (nxt (h best))) = best \<and> nxt (h best) \<noteq> best"
  shows "hd1 = hd0 \<and> h1 = h"
proof -
  have "nxt (h1 p) = nxt (h p) \<and> prv (h1 p) = prv (h p) \<and> n_blocks (h1 p) = n_blocks (h p)" for p
    using assms by (auto simp: split_block_def Let_def)
  then have "h1 = h" by (intro ext free_blocks.equality) (simp_all add: split_block_def)
  then show ?thesis using assms(1) by (auto simp: split_block_def Let_def)
qed

theorem mem_alloc_zero:
  assumes rep: "alloc_rep a segs"
  shows "\<exists>p. mem_alloc_blocks 0 a = Some (p, a) \<and>
     (if free_at 0 segs = [] then p = NULL else p \<noteq> NULL \<and> p \<in> set (free_addrs (heap_start a) 0 segs))"
proof -
  let ?hs = "heap_start a"
  have r: "segs_ok segs" "segs_pos segs" "heap_ok ?hs (seg_total segs)" "alloc_table a = table_of segs"
    "free_list_rep (fbs a) ?hs (fb_head a) segs"
    using rep by (auto simp: alloc_rep_def alloc_rep0_def)
  have nodes: "baddr ?hs j \<noteq> NULL \<and> n_blocks (fbs a (baddr ?hs j)) = of_nat l \<and> l < 2 ^ 32"
    if "(j, l) \<in> set ([] @ free_at 0 segs)" for j l
    using that free_at_bounds [of j l 0 segs] baddr_nonnull [OF r(3)] free_list_rep_blocks [OF r(5)] r(3)
    by (auto simp: heap_ok_def)
  obtain b where b: "best_of 0 (free_at 0 segs) b"
    and fit: "best_fit (fbs a) 0 (fb_head a) NULL = Some (block_ptr ?hs b)"
    using best_fit_finds [of "[]" "free_at 0 segs" ?hs "fbs a" NULL 0 None] nodes r(5)
    by (auto simp: free_list_rep_def free_addrs_def simp del: best_of.simps(2))
  show ?thesis
  proof (cases b)
    case None
    with b have "free_at 0 segs = []" by (cases "free_at 0 segs") auto
    then show ?thesis using fit None by (simp add: mem_alloc_blocks_def)
  next
    case (Some il)
    obtain i l where il: "il = (i, l)" by fastforce
    with b Some have "best_of 0 (free_at 0 segs) (Some (i, l))" by (simp del: best_of.simps)
    then obtain pre post where split: "segs = pre @ Free l # post" "i = seg_total pre"
      by (rule best_of_Some_segs)
    let ?x = "baddr ?hs i" let ?as = "free_addrs ?hs 0 pre" let ?bs = "free_addrs ?hs (i + l) post"
    note node = free_node [OF r(3) _ _ _ split(2), of l post, unfolded split(1) [symmetric], OF order_refl r(2,5)]
    have "1 \<le> n_blocks (fbs a ?x)" using node(9-11) by (simp add: word_le_nat_alt)
    obtain hd1 h1 where step: "split_block ?x 0 (fb_head a) (fbs a) = (hd1, h1)" by fastforce
    have "hd1 = fb_head a \<and> h1 = fbs a"
    proof (rule split_block_zero [OF step node(5)])
      show "prv (fbs a ?x) \<noteq> NULL \<Longrightarrow> nxt (fbs a (prv (fbs a ?x))) = ?x \<and> prv (fbs a ?x) \<noteq> ?x"
        using node(1,2,7) dll_last [of "fbs a" NULL ?as ?x] last_or_in [of ?as NULL]
        by (cases "?as = []") (auto simp: last_or_nonempty)
      show "nxt (fbs a ?x) \<noteq> NULL \<Longrightarrow> prv (fbs a (nxt (fbs a ?x))) = ?x \<and> nxt (fbs a ?x) \<noteq> ?x"
        using node(1,2,8) by (cases ?bs) auto
    qed
    moreover have "table_index a ?x = i" "i < length (alloc_table a)" "(alloc_table a)[i := 0] = alloc_table a"
      using table_index_baddr [OF r(3), of i] r split node(11)
      by (simp_all add: nth_append list_update_same_conv)
    ultimately have "mem_alloc_blocks 0 a = Some (?x, a)"
      using fit Some il node(5) step \<open>1 \<le> n_blocks (fbs a ?x)\<close>
      by (simp add: mem_alloc_blocks_def to_blocks_FreeBlocks)
    moreover have "?x \<in> set (free_addrs ?hs 0 segs)" "free_at 0 segs \<noteq> []" using split by simp_all
    ultimately show ?thesis using node(5) by auto
  qed
qed

lemma mem_free_null: "mem_free_blocks NULL a = Some (ADDRESS_IS_NULL, a)"
  by (simp add: mem_free_blocks_def)

lemma mem_free_unaligned:
  "p \<noteq> NULL \<Longrightarrow> p mod MEM_BLOCK_SIZE \<noteq> 0 \<Longrightarrow> mem_free_blocks p a = Some (ADDRESS_IS_NOT_ALIGNED, a)"
  by (simp add: mem_free_blocks_def)

lemma mem_free_not_used:
  assumes rep: "alloc_rep a segs" and i: "i < seg_total segs" "\<And>n. (i, n) \<notin> set (used_at 0 segs)"
  shows "mem_free_blocks (baddr (heap_start a) i) a = Some (ADDRESS_IS_NOT_USED, a)"
proof -
  have r: "segs_pos segs" "heap_ok (heap_start a) (seg_total segs)" "alloc_table a = table_of segs"
    using rep by (auto simp: alloc_rep_def alloc_rep0_def)
  have "map_of (used_at 0 segs) i = None" using i(2) by (force simp: map_of_eq_None_iff)
  then have "unat (alloc_table a ! i) = 0"
    using table_of_nth [OF r(1) _ i(1)] r(2,3) by (simp add: heap_ok_def)
  then have "alloc_table a ! i = 0" by (simp add: unat_eq_zero)
  then show ?thesis
    using baddr_nonnull [OF r(2), of i] baddr_aligned [OF r(2), of i] table_index_baddr [OF r(2), of i] i(1) r
    by (simp add: mem_free_blocks_def)
qed

end
