(* ===== verification/Block_Store.thy ===== *)
theory Block_Store
  imports Mem_Allocator_Correct
begin

text \<open>
  What the rest of the kernel relies on when it calls the allocator of src/k_memory.cpp.  The
  constructor establishes the tiling invariant; the locale \<open>block_store\<close> states the
  contract of alloc and free over the live blocks, and its interpretation at the end discharges it
  for the modelled allocator.
\<close>

section \<open>The constructor\<close>

text \<open>
  The bytes between the two addresses, and the number of 64-byte blocks the constructor makes of
  them: every block costs 68 bytes, four of them in the table, and one block is given up when the
  table does not end on a block boundary.
\<close>

definition heap_bytes :: "addr \<Rightarrow> addr \<Rightarrow> nat" where
  "heap_bytes start_addr end_addr = unat end_addr - unat start_addr + 1"

definition new_blocks :: "addr \<Rightarrow> addr \<Rightarrow> nat" where
  "new_blocks start_addr end_addr =
     (let n = heap_bytes start_addr end_addr div 68
      in if (unat start_addr + 4 * n) mod 64 = 0 then n else n - 1)"

definition heap_range_ok :: "addr \<Rightarrow> addr \<Rightarrow> bool" where
  "heap_range_ok start_addr end_addr \<longleftrightarrow> start_addr \<noteq> NULL \<and> start_addr \<le> end_addr \<and>
     unat end_addr + 1 < 2 ^ 64 \<and> 136 \<le> heap_bytes start_addr end_addr \<and> heap_bytes start_addr end_addr < 2 ^ 32"

definition new_padding :: "addr \<Rightarrow> addr \<Rightarrow> nat" where
  "new_padding start_addr end_addr =
     (if new_blocks start_addr end_addr = heap_bytes start_addr end_addr div 68 then 0
      else 64 - (unat start_addr + 4 * new_blocks start_addr end_addr) mod 64)"

lemma heap_range_end: "heap_range_ok s e \<Longrightarrow> unat s + heap_bytes s e = unat e + 1 \<and> unat e + 1 < 2 ^ 64"
  by (auto simp: heap_range_ok_def heap_bytes_def word_le_nat_alt)

lemma new_blocks_fit:
  assumes "heap_range_ok s e"
  shows "0 < new_blocks s e"
    and "(unat s + 4 * new_blocks s e + new_padding s e) mod 64 = 0"
    and "unat s + 4 * new_blocks s e + new_padding s e + 64 * new_blocks s e \<le> unat e + 1"
    and "heap_bytes s e < 68 * (new_blocks s e + 2)"
proof -
  have b: "136 \<le> heap_bytes s e" using assms by (simp add: heap_range_ok_def)
  have two: "2 \<le> heap_bytes s e div 68" using b by linarith
  then show "0 < new_blocks s e" by (simp add: new_blocks_def Let_def)
  show "(unat s + 4 * new_blocks s e + new_padding s e) mod 64 = 0"
  proof (cases "new_padding s e = 0")
    case True
    then show ?thesis using two by (auto simp: new_padding_def new_blocks_def Let_def split: if_splits)
  next
    case False
    then have ne: "new_blocks s e \<noteq> heap_bytes s e div 68" by (auto simp: new_padding_def)
    have "(x + (64 - x mod 64)) mod 64 = 0" for x :: nat by presburger
    from this [of "unat s + 4 * new_blocks s e"] show ?thesis using ne by (simp add: new_padding_def)
  qed
  show "unat s + 4 * new_blocks s e + new_padding s e + 64 * new_blocks s e \<le> unat e + 1"
  proof -
    have "new_padding s e \<le> 64" by (simp add: new_padding_def)
    moreover have "new_padding s e = 0 \<or> new_blocks s e = heap_bytes s e div 68 - 1"
      by (auto simp: new_padding_def new_blocks_def Let_def)
    moreover have "new_blocks s e \<le> heap_bytes s e div 68" by (simp add: new_blocks_def Let_def)
    ultimately show ?thesis using heap_range_end [OF assms] two
      by (auto simp: new_padding_def) (linarith)+
  qed
  show "heap_bytes s e < 68 * (new_blocks s e + 2)"
    by (auto simp: new_blocks_def Let_def)
qed

lemma mem_allocator_new_fields:
  assumes ok: "heap_range_ok s e"
  shows "alloc_table (mem_allocator_new s e mem) = replicate (new_blocks s e) 0"
    and "unat (heap_start (mem_allocator_new s e mem)) = unat s + 4 * new_blocks s e + new_padding s e"
    and "fb_head (mem_allocator_new s e mem) = heap_start (mem_allocator_new s e mem)"
    and "nxt (fbs (mem_allocator_new s e mem) (heap_start (mem_allocator_new s e mem))) = NULL"
    and "prv (fbs (mem_allocator_new s e mem) (heap_start (mem_allocator_new s e mem))) = NULL"
    and "n_blocks (fbs (mem_allocator_new s e mem) (heap_start (mem_allocator_new s e mem))) =
           of_nat (new_blocks s e)"
proof -
  let ?n0 = "heap_bytes s e div 68"
  have b: "136 \<le> heap_bytes s e" "heap_bytes s e < 2 ^ 32" using ok by (simp_all add: heap_range_ok_def)
  have e: "unat s + heap_bytes s e = unat e + 1" "unat e + 1 < 2 ^ 64" using heap_range_end [OF ok] by simp_all
  have "unat (e - s + 1) = heap_bytes s e"
  proof -
    have "unat (e - s) = unat e - unat s"
      using ok by (simp add: heap_range_ok_def unat_sub)
    then show ?thesis using e by (subst unat_add_no_wrap) (auto simp: heap_bytes_def)
  qed
  then have n0: "(ucast ((e - s + 1) div (MEM_BLOCK_SIZE + sizeof_blocks_t)) :: u32) = of_nat ?n0"
    using b by (simp add: word_unat_eq_iff unat_div MEM_BLOCK_SIZE_def sizeof_blocks_t_def unat_ucast_u64_u32)
  have tab: "unat (s + ucast (of_nat n :: u32) * sizeof_blocks_t) = unat s + 4 * n" if "n \<le> ?n0" for n
  proof -
    have m: "n < 2 ^ 32" "n * 4 < 2 ^ 64" "unat s + n * 4 < 2 ^ 64" using that b e by auto
    then have "unat (ucast (of_nat n :: u32) * sizeof_blocks_t) = n * 4"
      by (simp add: sizeof_blocks_t_def unat_mult_no_wrap)
    then show ?thesis using m by (subst unat_add_no_wrap) auto
  qed
  define aligned where "aligned \<longleftrightarrow> (unat s + 4 * ?n0) mod 64 = 0"
  define n where "n = (if aligned then ?n0 else ?n0 - 1)"
  define pad where "pad = (if aligned then 0 else 64 - (unat s + 4 * n) mod 64)"
  have n: "n = new_blocks s e" by (simp add: n_def aligned_def new_blocks_def Let_def)
  have n2: "2 \<le> ?n0" using b by linarith
  have pad: "pad = new_padding s e" "pad \<le> 64"
    using n2 by (auto simp: pad_def new_padding_def n [symmetric]) (auto simp: n_def)
  have un: "((s + ucast (of_nat ?n0 :: u32) * sizeof_blocks_t) mod MEM_BLOCK_SIZE \<noteq> 0) \<longleftrightarrow> \<not> aligned"
    by (simp add: word_unat_eq_iff unat_mod tab MEM_BLOCK_SIZE_def aligned_def)
  have N: "(if aligned then of_nat ?n0 else of_nat ?n0 - 1 :: u32) = of_nat n"
    using n2 by (simp add: n_def of_nat_diff)
  have P: "(if aligned then 0 else ucast (MEM_BLOCK_SIZE - (s + ucast (of_nat n :: u32) * sizeof_blocks_t)
             mod MEM_BLOCK_SIZE) :: u32) = of_nat pad"
  proof (cases aligned)
    case False
    have "n \<le> ?n0" by (simp add: n_def)
    then have "unat ((s + ucast (of_nat n :: u32) * sizeof_blocks_t) mod MEM_BLOCK_SIZE) = (unat s + 4 * n) mod 64"
      by (simp add: unat_mod tab MEM_BLOCK_SIZE_def)
    then have "unat (MEM_BLOCK_SIZE - (s + ucast (of_nat n :: u32) * sizeof_blocks_t) mod MEM_BLOCK_SIZE) = pad"
      using False by (subst unat_sub_no_wrap) (auto simp: MEM_BLOCK_SIZE_def pad_def)
    then show ?thesis using False pad(2) by (simp add: word_unat_eq_iff unat_ucast_u64_u32)
  qed (simp add: pad_def)
  have new: "mem_allocator_new s e mem =
     (let hs = s + ucast (of_nat n :: u32) * sizeof_blocks_t + ucast (of_nat pad :: u32)
      in \<lparr>fb_head = hs, alloc_table = replicate (unat (of_nat n :: u32)) 0,
          fbs = set_prev hs NULL (set_next hs NULL (set_blocks hs (of_nat n) mem)), heap_start = hs\<rparr>)"
    unfolding mem_allocator_new_def n0 un Let_def using N P by (cases aligned) simp_all
  have le: "n \<le> ?n0" by (simp add: n_def)
  have "unat (s + ucast (of_nat n :: u32) * sizeof_blocks_t + ucast (of_nat pad :: u32)) = unat s + 4 * n + pad"
    using tab [OF le] le pad(2) b e new_blocks_fit(3) [OF ok]
    by (subst unat_add_no_wrap) (auto simp: n [symmetric] pad(1) [symmetric])
  then show "unat (heap_start (mem_allocator_new s e mem)) = unat s + 4 * new_blocks s e + new_padding s e"
    by (simp add: new Let_def n pad)
  show "alloc_table (mem_allocator_new s e mem) = replicate (new_blocks s e) 0"
    using le b by (simp add: new Let_def n [symmetric])
  show "n_blocks (fbs (mem_allocator_new s e mem) (heap_start (mem_allocator_new s e mem))) =
           of_nat (new_blocks s e)"
    by (simp add: new Let_def n)
qed (simp_all add: mem_allocator_new_def Let_def)

lemma mem_allocator_new_rep:
  assumes ok: "heap_range_ok s e"
  shows "alloc_rep (mem_allocator_new s e mem) [Free (new_blocks s e)]"
proof -
  note f = mem_allocator_new_fields [OF ok, of mem] and fit = new_blocks_fit [OF ok]
  have "unat (heap_start (mem_allocator_new s e mem)) > 0"
    using ok f(2) by (auto simp: heap_range_ok_def unat_gt_0)
  moreover have "new_blocks s e < 2 ^ 32"
    using ok by (auto simp: heap_range_ok_def new_blocks_def Let_def)
  ultimately have "heap_ok (heap_start (mem_allocator_new s e mem)) (new_blocks s e)"
    using f(2) fit(2,3) heap_range_end [OF ok] by (auto simp: heap_ok_def)
  then show ?thesis
    using f fit(1)
    by (simp add: alloc_rep_def alloc_rep0_def segs_ok_def free_list_rep_def baddr_def)
qed

section \<open>The contract of the allocator\<close>

text \<open>
  \<open>live s p = Some n\<close>: the address \<open>p\<close> was returned by alloc for
  \<open>n\<close> blocks and has not been freed.
\<close>

locale block_store =
  fixes alloc :: "u32 \<Rightarrow> 's \<Rightarrow> (addr \<times> 's) option"
    and release :: "addr \<Rightarrow> 's \<Rightarrow> (int \<times> 's) option"
    and live :: "'s \<Rightarrow> addr \<Rightarrow> nat option"
    and ok :: "'s \<Rightarrow> bool"
  assumes alloc_total: "ok s \<Longrightarrow> 0 < n \<Longrightarrow> \<exists>p s'. alloc n s = Some (p, s')"
    and alloc_fail: "ok s \<Longrightarrow> 0 < n \<Longrightarrow> alloc n s = Some (NULL, s') \<Longrightarrow> s' = s"
    and alloc_live: "ok s \<Longrightarrow> 0 < n \<Longrightarrow> alloc n s = Some (p, s') \<Longrightarrow> p \<noteq> NULL \<Longrightarrow>
           ok s' \<and> live s p = None \<and> live s' = (live s)(p \<mapsto> unat n)"
    and release_live: "ok s \<Longrightarrow> live s p = Some k \<Longrightarrow>
           \<exists>s'. release p s = Some (MEM_SUCCESS, s') \<and> ok s' \<and> live s' = (live s)(p := None)"
    and live_region: "ok s \<Longrightarrow> live s p = Some k \<Longrightarrow>
           p \<noteq> NULL \<and> 0 < k \<and> unat p + 64 * k < 2 ^ 64 \<and> unat p mod 64 = 0"
    and live_disjoint: "ok s \<Longrightarrow> live s p = Some k \<Longrightarrow> live s q = Some l \<Longrightarrow> p \<noteq> q \<Longrightarrow>
           unat p + 64 * k \<le> unat q \<or> unat q + 64 * l \<le> unat p"
begin

text \<open>A new region lies apart from every live one.\<close>

lemma alloc_apart:
  assumes "ok s" "0 < n" "alloc n s = Some (p, s')" "p \<noteq> NULL" "live s q = Some l"
  shows "unat p + 64 * unat n \<le> unat q \<or> unat q + 64 * l \<le> unat p"
proof -
  note a = alloc_live [OF assms(1-4)]
  then have "p \<noteq> q" using assms(5) by auto
  with live_disjoint [of s' p "unat n" q l] a assms(5) show ?thesis by auto
qed

text \<open>Allocating keeps what is live, and freeing the new region gives the old live regions back.\<close>

lemma alloc_keeps_live:
  assumes "ok s" "0 < n" "alloc n s = Some (p, s')" "live s q = Some l"
  shows "ok s' \<and> live s' q = Some l"
proof (cases "p = NULL")
  case True
  then have "s' = s" using alloc_fail [OF assms(1,2)] assms(3) by simp
  then show ?thesis using assms by simp
next
  case False
  from alloc_live [OF assms(1-3) False] assms(4) show ?thesis by auto
qed

lemma alloc_ok:
  assumes "ok s" "0 < n" "alloc n s = Some (p, s')"
  shows "ok s'"
  using alloc_live [OF assms] alloc_fail [OF assms(1,2)] assms by (cases "p = NULL") auto

lemma alloc_release:
  assumes "ok s" "0 < n" "alloc n s = Some (p, s')" "p \<noteq> NULL"
  shows "\<exists>s''. release p s' = Some (MEM_SUCCESS, s'') \<and> ok s'' \<and> live s'' = live s"
proof -
  note a = alloc_live [OF assms]
  with release_live [of s' p "unat n"] obtain s'' where
    "release p s' = Some (MEM_SUCCESS, s'')" "ok s''" "live s'' = (live s')(p := None)"
    by auto
  then show ?thesis using a by (auto simp: fun_upd_idem)
qed

text \<open>Any sequence of frees of distinct live regions succeeds.\<close>

fun release_all :: "addr list \<Rightarrow> 's \<Rightarrow> 's option" where
  "release_all [] s = Some s"
| "release_all (p # ps) s = (case release p s of Some (r, s') \<Rightarrow>
      if r = MEM_SUCCESS then release_all ps s' else None | None \<Rightarrow> None)"

lemma release_all_live:
  assumes "ok s" "distinct ps" "\<And>p. p \<in> set ps \<Longrightarrow> live s p \<noteq> None"
  shows "\<exists>s'. release_all ps s = Some s' \<and> ok s' \<and> live s' = (live s) |` (- set ps)"
  using assms
proof (induction ps arbitrary: s)
  case Nil
  then show ?case by simp
next
  case (Cons p ps)
  then obtain k where "live s p = Some k" by auto
  from release_live [OF Cons.prems(1) this] obtain s1 where
    s1: "release p s = Some (MEM_SUCCESS, s1)" "ok s1" "live s1 = (live s)(p := None)" by blast
  have "\<exists>s'. release_all ps s1 = Some s' \<and> ok s' \<and> live s' = (live s1) |` (- set ps)"
    by (rule Cons.IH [OF s1(2)]) (use Cons.prems s1(3) in \<open>auto split: if_splits\<close>)
  moreover have "(live s1) |` (- set ps) = (live s) |` (- set (p # ps))"
    using s1(3) by (auto simp: restrict_map_def)
  ultimately show ?case using s1(1) by auto
qed

end

section \<open>The allocator keeps the contract\<close>

definition live_blocks :: "mem_allocator \<Rightarrow> addr \<Rightarrow> nat option" where
  "live_blocks a p =
     (if heap_start a \<le> p \<and> p mod MEM_BLOCK_SIZE = 0 \<and> table_index a p < length (alloc_table a) \<and>
         alloc_table a ! table_index a p \<noteq> 0
      then Some (unat (alloc_table a ! table_index a p)) else None)"

definition store_ok :: "mem_allocator \<Rightarrow> bool" where
  "store_ok a \<longleftrightarrow> (\<exists>segs. alloc_rep a segs)"

lemma alloc_repD:
  assumes "alloc_rep a segs"
  shows "segs_ok segs" "segs_pos segs" "heap_ok (heap_start a) (seg_total segs)"
    "alloc_table a = table_of segs" "seg_total segs < 2 ^ 32"
  using assms by (auto simp: alloc_rep_def alloc_rep0_def heap_ok_def)

lemma aligned_baddr:
  assumes "heap_ok hs tot" "hs \<le> p" "p mod MEM_BLOCK_SIZE = 0"
  shows "p = baddr hs (unat ((p - hs) div MEM_BLOCK_SIZE))"
proof -
  have m: "unat p mod 64 = 0" using assms(3) by (simp add: MEM_BLOCK_SIZE_def word_unat_eq_iff unat_mod)
  have le: "unat hs \<le> unat p" "unat hs mod 64 = 0" using assms by (auto simp: word_le_nat_alt heap_ok_def)
  have "\<exists>k. unat p = unat hs + k * 64" using m le by presburger
  then obtain k where eq: "unat p = unat hs + k * 64" by blast
  have k: "unat ((p - hs) div MEM_BLOCK_SIZE) = k"
    using assms(2) eq by (simp add: MEM_BLOCK_SIZE_def unat_div unat_sub)
  have b: "k * 64 < 2 ^ 64" "k < 2 ^ 64" "unat hs + k * 64 < 2 ^ 64" using eq unat_lt64 [of p] by linarith+
  then have "unat (of_nat k * MEM_BLOCK_SIZE) = k * 64"
    by (simp add: MEM_BLOCK_SIZE_def unat_mult_no_wrap)
  then have "unat (baddr hs k) = unat p"
    unfolding baddr_def using b eq by (subst unat_add_no_wrap) auto
  then show ?thesis unfolding k by (simp add: word_unat_eq_iff)
qed

lemma live_blocks_iff:
  assumes rep: "alloc_rep a segs"
  shows "live_blocks a p = Some k \<longleftrightarrow> (\<exists>i. p = baddr (heap_start a) i \<and> (i, k) \<in> set (used_at 0 segs))"
proof -
  note r = alloc_repD [OF rep]
  note nth = table_of_nth [OF r(2,5)]
  have iff: "map_of (used_at 0 segs) i = Some k \<longleftrightarrow> (i, k) \<in> set (used_at 0 segs)" for i k
    using used_at_distinct [OF r(2), of 0] by (rule map_of_eq_Some_iff)
  have pos: "(i, n) \<in> set (used_at 0 segs) \<Longrightarrow> 0 < n" for i n
    using r(2) used_at_iff_split [of i n segs] by auto
  show ?thesis
  proof
    assume l: "live_blocks a p = Some k"
    let ?i = "table_index a p"
    have *: "heap_start a \<le> p" "p mod MEM_BLOCK_SIZE = 0" "?i < seg_total segs"
      "table_of segs ! ?i \<noteq> 0" "k = unat (table_of segs ! ?i)"
      using l r by (auto simp: live_blocks_def split: if_splits)
    have "p = baddr (heap_start a) ?i" using aligned_baddr [OF r(3) *(1,2)] by (simp add: table_index_def)
    moreover have "(?i, k) \<in> set (used_at 0 segs)"
      using nth [OF *(3)] *(4,5) iff [of ?i] by (auto split: option.splits simp: unat_eq_zero [symmetric] simp del: unat_eq_zero)
    ultimately show "\<exists>i. p = baddr (heap_start a) i \<and> (i, k) \<in> set (used_at 0 segs)" by blast
  next
    assume "\<exists>i. p = baddr (heap_start a) i \<and> (i, k) \<in> set (used_at 0 segs)"
    then obtain i where i: "p = baddr (heap_start a) i" "(i, k) \<in> set (used_at 0 segs)" by blast
    have lt: "i < seg_total segs" using used_at_bounds [OF i(2)] pos [OF i(2)] by simp
    have "unat (table_of segs ! i) = k" using nth [OF lt] i(2) iff [of i k] by simp
    moreover have "heap_start a \<le> p" "p mod MEM_BLOCK_SIZE = 0" "table_index a p = i"
      using baddr_le_iff(1) [OF r(3), of 0 i] baddr_aligned [OF r(3), of i] table_index_baddr [OF r(3), of i] i(1) lt
      by (simp_all add: baddr_def [of _ 0])
    ultimately show "live_blocks a p = Some k"
      using r lt pos [OF i(2)] by (auto simp: live_blocks_def unat_eq_zero [symmetric] simp del: unat_eq_zero)
  qed
qed

lemma baddr_disjoint:
  assumes rep: "alloc_rep a segs" and i: "(i, k) \<in> set (used_at 0 segs)" and j: "(j, l) \<in> set (used_at 0 segs)"
    and ne: "i \<noteq> j"
  shows "i + k \<le> j \<or> j + l \<le> i"
proof -
  obtain pre post where s: "segs = pre @ Used k # post" "i = seg_total pre"
    using used_at_iff_split i by blast
  have "(j, l) \<in> set (used_at 0 pre) \<or> (j, l) \<in> set (used_at (i + k) post)"
    using j ne s by auto
  then show ?thesis using used_at_bounds [of j l 0 pre] used_at_bounds [of j l "i + k" post] s by auto
qed

lemma used_at_region:
  "segs_pos segs \<Longrightarrow> (i, k) \<in> set (used_at 0 segs) \<Longrightarrow> 0 < k \<and> i + k \<le> seg_total segs"
  using used_at_bounds [of i k 0 segs] used_at_iff_split [of i k segs] by auto

lemma abs_alloc_fresh:
  assumes "segs_pos segs" "abs_alloc n segs = Some (i, segs')" "0 < n"
  shows "(i, k) \<notin> set (used_at 0 segs)" "i + n \<le> seg_total segs"
proof -
  obtain pre l post where s: "segs = pre @ Free l # post" "n \<le> l" "i = seg_total pre"
    using abs_alloc_cases [OF assms(2)] by metis
  show "(i, k) \<notin> set (used_at 0 segs)"
  proof
    assume u: "(i, k) \<in> set (used_at 0 segs)"
    with used_at_region [OF assms(1) u] used_at_bounds [of i k 0 pre] used_at_bounds [of i k "i + l" post] s assms(3)
    show False by auto
  qed
  show "i + n \<le> seg_total segs" using s by simp
qed

lemma mem_alloc_cases:
  assumes rep: "alloc_rep a segs" and n: "0 < n"
  obtains (no_room) "abs_alloc (unat n) segs = None" "mem_alloc_blocks n a = Some (NULL, a)"
  | (room) i segs' a' where "abs_alloc (unat n) segs = Some (i, segs')"
      "mem_alloc_blocks n a = Some (baddr (heap_start a) i, a')" "alloc_rep a' segs'"
      "heap_start a' = heap_start a" "baddr (heap_start a) i \<noteq> NULL"
      "i + unat n \<le> seg_total segs"
proof -
  have n': "0 < unat n" using n by (simp add: word_less_nat_alt)
  from mem_alloc_refines [OF rep n'] obtain a' where a': "heap_start a' = heap_start a"
    "case abs_alloc (unat n) segs of
       None \<Rightarrow> mem_alloc_blocks n a = Some (NULL, a) \<and> a' = a
     | Some (i, segs') \<Rightarrow> mem_alloc_blocks n a = Some (baddr (heap_start a) i, a') \<and> alloc_rep a' segs'"
    by blast
  show thesis
  proof (cases "abs_alloc (unat n) segs")
    case None
    with a' show ?thesis by (intro no_room) auto
  next
    case (Some r)
    obtain i segs' where r: "r = (i, segs')" by (cases r)
    have le: "i + unat n \<le> seg_total segs"
      using abs_alloc_fresh(2) [OF alloc_repD(2) [OF rep] _ n'] Some r by blast
    have "baddr (heap_start a) i \<noteq> NULL"
      using baddr_nonnull [OF alloc_repD(3) [OF rep], of i] le by simp
    then show ?thesis using a' Some r le by (intro room [of i segs' a']) auto
  qed
qed

text \<open>The live blocks of the representation after alloc and free.\<close>

lemma live_blocks_alloc:
  assumes rep: "alloc_rep a segs" and n: "0 < n" and res: "abs_alloc (unat n) segs = Some (i, segs')"
    and rep': "alloc_rep a' segs'" and hs: "heap_start a' = heap_start a"
  shows "live_blocks a (baddr (heap_start a) i) = None"
    and "live_blocks a' = (live_blocks a)(baddr (heap_start a) i \<mapsto> unat n)"
proof -
  have n': "0 < unat n" using n by (simp add: word_less_nat_alt)
  note r = alloc_repD [OF rep] and fresh = abs_alloc_fresh [OF alloc_repD(2) [OF rep] res n']
  have inj: "baddr (heap_start a) i = baddr (heap_start a) j \<longleftrightarrow> i = j" if "(j, k) \<in> set (used_at 0 segs)" for j k
    using baddr_eq_iff [OF r(3), of i j] fresh(2) used_at_region [OF r(2) that] by simp
  show "live_blocks a (baddr (heap_start a) i) = None"
    using live_blocks_iff [OF rep] fresh(1) inj by (metis not_Some_eq)
  have "live_blocks a' p = Some k \<longleftrightarrow> ((live_blocks a)(baddr (heap_start a) i \<mapsto> unat n)) p = Some k" for p k
    using live_blocks_iff [OF rep', of p k] live_blocks_iff [OF rep, of p k] abs_alloc_used [OF res] hs inj fresh(1)
    by auto
  then show "live_blocks a' = (live_blocks a)(baddr (heap_start a) i \<mapsto> unat n)"
    by (intro ext) (metis option.exhaust)
qed

lemma live_blocks_free:
  assumes rep: "alloc_rep a segs" and live: "live_blocks a p = Some k"
  obtains a' segs' where "mem_free_blocks p a = Some (MEM_SUCCESS, a')" "alloc_rep a' segs'"
    "live_blocks a' = (live_blocks a)(p := None)" "heap_start a' = heap_start a"
proof -
  note r = alloc_repD [OF rep]
  obtain i where i: "p = baddr (heap_start a) i" "(i, k) \<in> set (used_at 0 segs)"
    using live live_blocks_iff [OF rep] by blast
  from mem_free_refines [OF rep i(2)] obtain a' segs' where
    f: "abs_free i segs = Some segs'" "heap_start a' = heap_start a"
      "mem_free_blocks p a = Some (MEM_SUCCESS, a')" "alloc_rep a' segs'" using i(1) by blast
  have u: "set (used_at 0 segs') = set (used_at 0 segs) - {(i, k)}"
    using abs_free_used [OF r(1) i(2)] f(1) by (metis option.inject)
  have inj: "p = baddr (heap_start a) j \<longleftrightarrow> i = j" if "(j, l) \<in> set (used_at 0 segs)" for j l
    using baddr_eq_iff [OF r(3), of i j] used_at_region [OF r(2) that] used_at_region [OF r(2) i(2)] i(1) by simp
  have one: "(i, l) \<in> set (used_at 0 segs) \<Longrightarrow> l = k" for l
    using used_at_distinct [OF r(2), of 0] i(2) by (metis map_of_eq_Some_iff option.inject)
  have "live_blocks a' q = Some l \<longleftrightarrow> ((live_blocks a)(p := None)) q = Some l" for q l
  proof (cases "q = p")
    case True
    then show ?thesis using live_blocks_iff [OF f(4), of q l] u inj one f(2) by auto
  next
    case False
    then show ?thesis
      using live_blocks_iff [OF f(4), of q l] live_blocks_iff [OF rep, of q l] u i(1) f(2) by auto
  qed
  then have "live_blocks a' = (live_blocks a)(p := None)" by (intro ext) (metis option.exhaust)
  then show ?thesis by (rule that [OF f(3,4) _ f(2)])
qed

interpretation store: block_store mem_alloc_blocks mem_free_blocks live_blocks store_ok
proof unfold_locales
  fix a a' :: mem_allocator and n :: u32 and p q k l
  assume "store_ok a"
  then obtain segs where rep: "alloc_rep a segs" by (auto simp: store_ok_def)
  note r = alloc_repD [OF rep] and live = live_blocks_iff [OF rep]
  note region = used_at_region [OF r(2)]
  show "\<exists>p s'. mem_alloc_blocks n a = Some (p, s')" if "0 < n"
    by (rule mem_alloc_cases [OF rep that]) auto
  show "a' = a" if "0 < n" "mem_alloc_blocks n a = Some (NULL, a')"
    by (rule mem_alloc_cases [OF rep that(1)]) (use that(2) in auto)
  show "store_ok a' \<and> live_blocks a p = None \<and> live_blocks a' = (live_blocks a)(p \<mapsto> unat n)"
    if n: "0 < n" "mem_alloc_blocks n a = Some (p, a')" "p \<noteq> NULL"
  proof (rule mem_alloc_cases [OF rep n(1)])
    fix i segs' b
    assume *: "abs_alloc (unat n) segs = Some (i, segs')" "alloc_rep b segs'" "heap_start b = heap_start a"
      "mem_alloc_blocks n a = Some (baddr (heap_start a) i, b)"
    with n(2) have "p = baddr (heap_start a) i" "a' = b" by simp_all
    then show ?thesis using live_blocks_alloc [OF rep n(1) *(1-3)] *(2) by (auto simp: store_ok_def)
  qed (use n in auto)
  show "\<exists>s'. mem_free_blocks p a = Some (MEM_SUCCESS, s') \<and> store_ok s' \<and>
         live_blocks s' = (live_blocks a)(p := None)" if "live_blocks a p = Some k"
    by (rule live_blocks_free [OF rep that]) (auto simp: store_ok_def)
  show "p \<noteq> NULL \<and> 0 < k \<and> unat p + 64 * k < 2 ^ 64 \<and> unat p mod 64 = 0"
    if pk: "live_blocks a p = Some k"
  proof -
    obtain i where i: "p = baddr (heap_start a) i" "(i, k) \<in> set (used_at 0 segs)"
      using pk live [of p k] by auto
    have le: "i + k \<le> seg_total segs" "0 < k" "i \<le> seg_total segs" using region [OF i(2)] by simp_all
    have "unat p = unat (heap_start a) + 64 * i" using unat_baddr [OF r(3) le(3)] i(1) by simp
    moreover have "unat (heap_start a) mod 64 = 0" "unat (heap_start a) + 64 * seg_total segs < 2 ^ 64"
      using r(3) by (simp_all add: heap_ok_def)
    moreover have "p \<noteq> NULL" using baddr_nonnull [OF r(3) le(3)] i(1) by simp
    ultimately show ?thesis using le(1,2) by simp
  qed
  show "unat p + 64 * k \<le> unat q \<or> unat q + 64 * l \<le> unat p"
    if pq: "live_blocks a p = Some k" "live_blocks a q = Some l" "p \<noteq> q"
  proof -
    obtain i j where i: "p = baddr (heap_start a) i" "(i, k) \<in> set (used_at 0 segs)"
      and j: "q = baddr (heap_start a) j" "(j, l) \<in> set (used_at 0 segs)"
      using pq(1,2) live [of p k] live [of q l] by auto
    have le: "i \<le> seg_total segs" "j \<le> seg_total segs" using region [OF i(2)] region [OF j(2)] by simp_all
    have "i + k \<le> j \<or> j + l \<le> i" using baddr_disjoint [OF rep i(2) j(2)] pq(3) i(1) j(1) by blast
    then show ?thesis using unat_baddr [OF r(3) le(1)] unat_baddr [OF r(3) le(2)] i(1) j(1) by auto
  qed
qed

text \<open>Freeing what alloc has just returned gives the tiling from before.\<close>

lemma alloc_free_tiling:
  assumes "alloc_rep a segs" "0 < n" "mem_alloc_blocks n a = Some (p, a1)" "p \<noteq> NULL"
  shows "\<exists>a2. mem_free_blocks p a1 = Some (MEM_SUCCESS, a2) \<and> alloc_rep a2 segs \<and> heap_start a2 = heap_start a"
proof (rule mem_alloc_cases [OF assms(1,2)])
  fix i segs' b
  assume *: "abs_alloc (unat n) segs = Some (i, segs')" "mem_alloc_blocks n a = Some (baddr (heap_start a) i, b)"
    "alloc_rep b segs'" "heap_start b = heap_start a"
  have n: "0 < unat n" using assms(2) by (simp add: word_less_nat_alt)
  have eq: "p = baddr (heap_start a1) i" "a1 = b" using assms(3) *(2,4) by auto
  have used: "(i, unat n) \<in> set (used_at 0 segs')" using abs_alloc_used [OF *(1)] by simp
  from mem_free_refines [OF *(3) used] abs_alloc_free_inverse [OF alloc_repD(1) [OF assms(1)] n *(1)] eq *(4)
  show ?thesis by auto
qed (use assms in auto)

end
