(* ===== verification/Syscall_Correct.thy ===== *)
theory Syscall_Correct
  imports Trap_Correct Block_Store
begin

text \<open>
  Whole traps and system calls: a tick that does not end the time slice is invisible to the running
  thread, one that does puts it behind the ready threads, and the calls that put the caller to
  sleep, end it, or create a thread compute the abstract scheduler and the allocator's contract.
\<close>

section \<open>Interrupts are transparent\<close>

lemma entered_simps [simp]:
  "current_tcb (entered k) = current_tcb k" "timer_ticks (entered k) = timer_ticks k"
  "csr_sepc (cpu_of (entered k)) = csr_sepc (cpu_of k)" "csr_sstatus (cpu_of (entered k)) = csr_sstatus (cpu_of k)"
  "csr_scause (cpu_of (entered k)) = csr_scause (cpu_of k)"
  "time_slice (tcbs (entered k) p) = time_slice (tcbs k p)" "lay (entered k) = lay k" "mem (entered k) = mem k"
  "sems (entered k) = sems k" "putc_buffer (entered k) = putc_buffer k" "getc_buffer (entered k) = getc_buffer k"
  "user_cells (entered k) = user_cells k" "tx_out (entered k) = tx_out k"
  "regs (cpu_of (entered k)) X_sp = c_sys_sp (tcontext (tcbs k (current_tcb k))) - trap_frame_size"
  "r \<noteq> X_sp \<Longrightarrow> regs (cpu_of (entered k)) r = regs (cpu_of k) r"
  by (auto simp: entered_def Let_def)

lemma entered_frame:
  "trap_frame (tcbs (entered k) (current_tcb k)) = regs (cpu_of k)"
  "c_usr_sp (tcontext (tcbs (entered k) (current_tcb k))) = regs (cpu_of k) X_sp"
  "c_sys_sp (tcontext (tcbs (entered k) (current_tcb k))) = c_sys_sp (tcontext (tcbs k (current_tcb k)))"
  by (simp_all add: entered_def Let_def)

lemma k_timer_trap_stay:
  assumes rep: "krep k A" and early: "timer_ticks k + 1 < time_slice (tcbs k (a_cur A))"
  obtains k' where "k_timer_trap rw k = Some (Returns (), k')" "krep k' (a_tick A)"
    "timer_ticks k' = timer_ticks k + 1" "regs (cpu_of k') = regs (cpu_of k)"
    "csr_sepc (cpu_of k') = csr_sepc (cpu_of k)" "csr_sstatus (cpu_of k') = csr_sstatus (cpu_of k)"
    "c_sys_sp (tcontext (tcbs k' (a_cur A))) = c_sys_sp (tcontext (tcbs k (a_cur A)))"
proof -
  note e = trap_enter_rep [OF rep] and r = krepD [OF rep]
  obtain k1 where k1: "k_handle_timer (entered k) = Some (Returns (), k1)" "krep k1 (a_tick A)"
    "timer_ticks k1 = timer_ticks k + 1" "quiet (entered k) k1"
    by (rule k_handle_timer_stay [OF e(2)]) (use early in simp_all)
  obtain k' where k': "trap_exit False k1 = Some k'" "krep k' (a_tick A)"
    "regs (cpu_of k') = exit_regs False (tcbs k1 (a_cur A))"
    "csr_sepc (cpu_of k') = csr_sepc (cpu_of k1)" "csr_sstatus (cpu_of k') = csr_sstatus (cpu_of k1)" "env_eq k1 k'"
    "c_sys_sp (tcontext (tcbs k' (a_cur A))) = regs (cpu_of k1) X_sp + trap_frame_size"
    using trap_exit_rep [OF k1(2), of False] by (metis a_tick_cur(1))
  have c: "core (tcbs k1 (a_cur A)) = core (tcbs (entered k) (a_cur A))" using k1(4) by (simp add: quiet_def)
  have "exit_regs False (tcbs k1 (a_cur A)) = regs (cpu_of k)"
    using core_fields(1,10) [OF c] entered_frame [of k] r(2) by (simp add: exit_regs_def)
  then show ?thesis
    using e(1) k1(1,3,4) k' r(2)
    by (intro that [of k']) (simp_all add: k_timer_trap_def leave_trap_def quiet_def env_eq_def)
qed

lemma k_timer_trap_switch:
  assumes rep: "krep k A" and late: "time_slice (tcbs k (a_cur A)) \<le> timer_ticks k + 1"
  obtains k1 where "k_timer_trap rw k = map_option (Pair (Returns ())) (resume_current rw k1)"
    "krep k1 (a_dispatch (a_tick A))" "preempted KInterrupt (a_cur A) (entered k) k1"
proof -
  note e = trap_enter_rep [OF rep]
  obtain k1 where k1: "k_handle_timer (entered k) = Some (Switches, k1)" "krep k1 (a_dispatch (a_tick A))"
    "preempted KInterrupt (a_cur A) (entered k) k1"
    by (rule k_handle_timer_switch [OF e(2)]) (use late in simp_all)
  then show ?thesis using e(1) by (intro that [of k1]) (simp_all add: k_timer_trap_def leave_trap_def)
qed

section \<open>Sleeping\<close>

lemma a_sleep_fields [simp]:
  "a_cur (a_sleep t n A) = a_cur A" "places (a_sleep t n A) = places A"
  "q \<noteq> Sleeping \<Longrightarrow> a_queue (a_sleep t n A) q = a_queue A q"
  by (simp_all add: a_sleep_def Let_def places_def)

lemma a_sleep_positive:
  assumes "\<And>u. u \<in> set (a_queue A Sleeping) \<Longrightarrow> 0 < a_wake A u" "0 < n"
    and "u \<in> set (a_queue (a_sleep t n A) Sleeping)"
  shows "0 < a_wake (a_sleep t n A) u"
  using assms by (auto simp: a_sleep_def Let_def dest: set_takeWhileD set_dropWhileD)

lemma syscall_sleep_rep:
  assumes rep: "krep k A" and n: "0 < p0" and Q: "a_queue A Ready \<noteq> []"
  obtains k' where "syscall TIME_SLEEP_CODE p0 p1 p2 p3 k = Some (Switches, k')"
    "krep k' (a_next (a_sleep (a_cur A) (unat p0) A))"
    "resume (tcbs k' (a_cur A)) = KDispatch" "c_a0 (tcontext (tcbs k' (a_cur A))) = SUCCESS_SYSCALL"
proof -
  note r = krepD [OF rep]
  let ?t = "a_cur A" and ?A = "a_sleep (a_cur A) (unat p0) A"
  obtain k1 where k1: "put_to_sleep ?t p0 k = Some k1" "krep0 k1 ?A" "core_eq k k1"
    "\<And>q. status (tcbs k1 q) = (if q = ?t then SUSPENDED else status (tcbs k q))"
    "current_tcb k1 = current_tcb k" "current_context k1 = current_context k"
    by (rule put_to_sleep_rep [OF r(1,4,6) n]) auto
  let ?h = "(tcbs k1)(?t := (tcbs k1 ?t)\<lparr>tcontext := (tcontext (tcbs k1 ?t))\<lparr>c_a0 := SUCCESS_SYSCALL\<rparr>\<rparr>)"
  have a0: "set_a0 SUCCESS_SYSCALL k1 = Some (k1\<lparr>tcbs := ?h\<rparr>)"
    using r(3,4) k1(6) by (simp add: set_a0_def)
  have k2: "krep0 (k1\<lparr>tcbs := ?h\<rparr>) ?A" by (rule krep0_payload [OF k1(2)]) simp
  have pos: "u \<in> set (a_queue ?A Sleeping) \<Longrightarrow> 0 < a_wake ?A u" for u
    by (rule a_sleep_positive) (use r(7) n in \<open>auto simp: word_less_nat_alt\<close>)
  obtain u us where ru: "a_queue ?A Ready = u # us" using Q by (cases "a_queue A Ready") auto
  obtain k' where k': "dispatch KDispatch (k1\<lparr>tcbs := ?h\<rparr>) = Some (Switches, k')" "krep k' (a_next ?A)"
    "switch_frame KDispatch (current_tcb (k1\<lparr>tcbs := ?h\<rparr>)) (k1\<lparr>tcbs := ?h\<rparr>) k'"
    by (rule dispatch_suspended_rep [OF k2 _ _ ru pos, where cont = KDispatch]) (use k1(4,5) r(2,4) in auto)
  have "preempted KDispatch ?t (k1\<lparr>tcbs := ?h\<rparr>) k'"
    using switch_frame_preempted [OF k'(3)] k1(5) r(2,4) by simp
  then have c: "core (tcbs k' ?t) = core ((?h ?t)\<lparr>tcontext := fst (k_save_context (cpu_of k1) (tcontext (?h ?t))), resume := KDispatch\<rparr>)"
    by (simp add: preempted_def)
  have "syscall TIME_SLEEP_CODE p0 p1 p2 p3 k = Some (Switches, k')"
    using n r(2) k1(1) a0 k'(1) by (simp add: syscall_def syscall_code_defs)
  then show ?thesis using k'(2) core_fields(1,9) [OF c] by (intro that [of k']) (simp_all add: k_save_context_def)
qed

section \<open>Waiting and signalling\<close>

lemma syscall_wait_pass:
  assumes rep: "krep k A" and s: "s \<in> a_sems A" "0 < a_val A s"
  obtains k' where "syscall SEM_WAIT_CODE s p1 p2 p3 k = Some (Returns (), k')" "krep k' (a_wait s A)"
    "c_a0 (tcontext (tcbs k' (a_cur A))) = int_to_u64 WAIT_SUCCESS" "env_eq k k'" "cpu_of k' = cpu_of k"
proof -
  note w = sem_wait_pass(1) [OF rep s, of KSemWait] sem_wait_pass(2) [OF rep s]
  let ?k1 = "k\<lparr>sems := (sems k)(s := (sems k s)\<lparr>sem_value := sem_value (sems k s) - 1\<rparr>)\<rparr>"
  have cur: "a_cur (a_wait s A) = a_cur A" using s(2) by (simp add: a_wait_def)
  note a = set_a0_rep [OF w(2), of "int_to_u64 WAIT_SUCCESS", unfolded cur]
  have "s \<noteq> NULL" using sem_nonnull [OF krepD(1) [OF rep] s(1)] by simp
  then show ?thesis
    using w(1) a by (intro that [OF _ a(2)])
      (simp_all add: syscall_def syscall_code_defs wait_then_def after_wait_def env_eq_def)
qed

lemma syscall_wait_block:
  assumes rep: "krep k A" and s: "s \<in> a_sems A" "a_val A s \<le> 0" "- (2 ^ 31) < a_val A s"
    and Q: "a_queue A Ready \<noteq> []"
  obtains k' where "syscall SEM_WAIT_CODE s p1 p2 p3 k = Some (Switches, k')" "krep k' (a_wait s A)"
    "preempted KSemWait (a_cur A) k k'"
proof -
  obtain k' where w: "sem_wait KSemWait s k = Some (Switches, k')" "krep k' (a_wait s A)" "switch_frame KSemWait (a_cur A) k k'"
    by (rule sem_wait_block [OF rep s Q, where cont = KSemWait])
  have "s \<noteq> NULL" using sem_nonnull [OF krepD(1) [OF rep] s(1)] by simp
  then have "syscall SEM_WAIT_CODE s p1 p2 p3 k = Some (Switches, k')"
    using w(1) by (simp add: syscall_def syscall_code_defs wait_then_def)
  then show ?thesis using w(2) switch_frame_preempted [OF w(3) krepD(4) [OF rep]] by (rule that)
qed

lemma a_signal_cur [simp]: "a_cur (a_signal s A) = a_cur A" "a_cur (a_unblock s A) = a_cur A"
  by (auto simp: a_signal_def a_unblock_def a_enq_def Let_def split: list.splits)

lemma syscall_signal_rep:
  assumes rep: "krep k A" and s: "s \<in> a_sems A" "a_val A s < 2 ^ 31 - 1"
    and W: "a_val A s < 0 \<longleftrightarrow> a_queue A (Waiting s) \<noteq> []"
  obtains k' where "syscall SEM_SIGNAL_CODE s p1 p2 p3 k = Some (Returns (), k')" "krep k' (a_signal s A)"
    "c_a0 (tcontext (tcbs k' (a_cur A))) = int_to_u64 SIGNAL_SUCCESS"
    "\<And>t. t \<noteq> a_cur A \<Longrightarrow> core (tcbs k' t) = core (if a_queue A (Waiting s) \<noteq> [] \<and> t = hd (a_queue A (Waiting s))
            then (tcbs k t)\<lparr>interrupted := False\<rparr> else tcbs k t)"
proof -
  obtain k1 where k1: "sem_signal s k = Some (SIGNAL_SUCCESS, k1)" "krep k1 (a_signal s A)"
    "woken False (if a_queue A (Waiting s) = [] then {} else {hd (a_queue A (Waiting s))})
       (k\<lparr>sems := (sems k)(s := (sems k s)\<lparr>sem_value := sem_value (sems k s) + 1\<rparr>)\<rparr>) k1"
    by (rule sem_signal_rep [OF rep s W])
  note a = set_a0_rep [OF k1(2), of "int_to_u64 SIGNAL_SUCCESS", unfolded a_signal_cur]
  have "s \<noteq> NULL" using sem_nonnull [OF krepD(1) [OF rep] s(1)] by simp
  then show ?thesis
    using k1 a by (intro that [OF _ a(2)]) (auto simp: syscall_def syscall_code_defs woken_def split: if_splits)
qed

end
