(* ===== verification/Thread_Correct.thy ===== *)
theory Thread_Correct
  imports Syscall_Correct
begin

text \<open>
  The life of a thread: create_tcb takes three fresh regions and fills in the control block,
  thread_exit wakes the joiners, gives the thread's four regions back to the allocator and runs the
  next thread.  The proofs use the allocator only through the locale \<open>block_store\<close>.
\<close>

section \<open>Giving memory back\<close>

lemma free_mem_live:
  assumes "store_ok (mem k)" "live_blocks (mem k) p \<noteq> None"
  obtains m where "free_mem p k = Some (k\<lparr>mem := m\<rparr>)" "store_ok m"
    "live_blocks m = (live_blocks (mem k))(p := None)"
proof -
  obtain n where "live_blocks (mem k) p = Some n" using assms(2) by auto
  from store.release_live [OF assms(1) this] show ?thesis
    by (metis (no_types, lifting) free_mem_def bind.bind_lunit case_prod_conv that)
qed

text \<open>The four regions of a thread, in the order in which free_tcb releases them.\<close>

definition thread_regions :: "kstate \<Rightarrow> addr \<Rightarrow> addr list" where
  "thread_regions k t =
     [usr_stack (tcbs k t) - DEFAULT_STACK_SIZE, sys_stack (tcbs k t), join_sem (tcbs k t), t]"

definition owns_regions :: "kstate \<Rightarrow> addr \<Rightarrow> bool" where
  "owns_regions k t \<longleftrightarrow> store_ok (mem k) \<and> distinct (thread_regions k t) \<and>
     (\<forall>p \<in> set (thread_regions k t). live_blocks (mem k) p \<noteq> None)"

lemma mem_tcbs_order: "k\<lparr>mem := m, tcbs := h\<rparr> = k\<lparr>tcbs := h, mem := m\<rparr>"
  by simp

lemma free_tcb_rep:
  assumes t: "t \<noteq> NULL" "t \<noteq> main_tcb (lay k)" and own: "owns_regions k t"
  obtains m where
    "free_tcb t k = Some (k\<lparr>tcbs := (tcbs k)(t := (tcbs k t)\<lparr>usr_stack := NULL, sys_stack := NULL, join_sem := NULL\<rparr>), mem := m\<rparr>)"
    "store_ok m" "live_blocks m = (live_blocks (mem k)) |` (- set (thread_regions k t))"
proof -
  let ?x = "tcbs k t"
  let ?u = "usr_stack ?x - DEFAULT_STACK_SIZE" and ?s = "sys_stack ?x" and ?j = "join_sem ?x"
  have own': "store_ok (mem k)" "distinct [?u, ?s, ?j, t]" "live_blocks (mem k) ?u \<noteq> None"
    "live_blocks (mem k) ?s \<noteq> None" "live_blocks (mem k) ?j \<noteq> None" "live_blocks (mem k) t \<noteq> None"
    using own by (simp_all add: owns_regions_def thread_regions_def)
  obtain m1 where m1: "free_mem ?u k = Some (k\<lparr>mem := m1\<rparr>)" "store_ok m1" "live_blocks m1 = (live_blocks (mem k))(?u := None)"
    by (rule free_mem_live [OF own'(1,3)])
  let ?k2 = "k\<lparr>tcbs := (tcbs k)(t := ?x\<lparr>usr_stack := NULL\<rparr>), mem := m1\<rparr>"
  obtain m2 where m2: "free_mem ?s ?k2 = Some (?k2\<lparr>mem := m2\<rparr>)" "store_ok m2" "live_blocks m2 = (live_blocks m1)(?s := None)"
    by (rule free_mem_live [of ?k2 ?s]) (use m1 own' in auto)
  let ?k4 = "k\<lparr>tcbs := (tcbs k)(t := ?x\<lparr>usr_stack := NULL, sys_stack := NULL\<rparr>), mem := m2\<rparr>"
  obtain m3 where m3: "free_mem ?j ?k4 = Some (?k4\<lparr>mem := m3\<rparr>)" "store_ok m3" "live_blocks m3 = (live_blocks m2)(?j := None)"
    by (rule free_mem_live [of ?k4 ?j]) (use m1 m2 own' in auto)
  obtain r where r: "free_sem ?j ?k4 = Some (r, ?k4\<lparr>mem := m3\<rparr>)"
    using m3(1) by (auto simp: free_mem_def free_sem_def split: bind_splits)
  let ?k6 = "k\<lparr>tcbs := (tcbs k)(t := ?x\<lparr>usr_stack := NULL, sys_stack := NULL, join_sem := NULL\<rparr>), mem := m3\<rparr>"
  obtain m4 where m4: "free_mem t ?k6 = Some (?k6\<lparr>mem := m4\<rparr>)" "store_ok m4" "live_blocks m4 = (live_blocks m3)(t := None)"
    by (rule free_mem_live [of ?k6 t]) (use m1 m2 m3 own' in auto)
  have "free_tcb t k = Some (?k6\<lparr>mem := m4\<rparr>)"
    using t m1(1) m2(1) r m4(1) by (simp add: free_tcb_def mem_tcbs_order)
  moreover have "live_blocks m4 = (live_blocks (mem k)) |` (- set (thread_regions k t))"
    unfolding m4(3) m3(3) m2(3) m1(3) by (auto simp: thread_regions_def restrict_map_def fun_eq_iff)
  ultimately show ?thesis using m4(2) by (intro that [of m4]) simp_all
qed

section \<open>thread_exit\<close>

definition a_drop_sem :: "addr \<Rightarrow> sched \<Rightarrow> sched" where
  "a_drop_sem s A = A\<lparr>a_sems := a_sems A - {s}\<rparr>"

definition a_exit :: "addr \<Rightarrow> sched \<Rightarrow> sched" where
  "a_exit s A = a_next (a_drop_sem s (a_close s A))"

lemma a_close_fields [simp]:
  "a_cur (a_close s A) = a_cur A" "a_sems (a_close s A) = a_sems A" "places (a_close s A) = places A"
  "a_wake (a_close s A) = a_wake A" "a_queue (a_close s A) Sleeping = a_queue A Sleeping"
  "a_queue (a_close s A) Ready = a_queue A Ready @ a_queue A (Waiting s)"
  by (simp_all add: a_close_def)

lemma a_close_subset: "t \<in> set (a_queue (a_close s A) q) \<Longrightarrow> \<exists>r. (r = q \<or> r = Waiting s) \<and> t \<in> set (a_queue A r)"
  by (auto simp: a_close_def split: if_splits)

lemma krep0_drop_sem:
  assumes "krep0 k A"
  shows "krep0 k (a_drop_sem s A)"
proof -
  have "places (a_drop_sem s A) \<subseteq> places A" by (auto simp: a_drop_sem_def places_def)
  then show ?thesis
    using krep0D [OF assms] unfolding krep0_def a_drop_sem_def
    by (auto simp: queues_rep_def status_ok_def sems_ok_def sleepers_ok_def subset_iff)
qed

lemma owns_regions_cong:
  assumes "owns_regions k t" "core (tcbs k' t) = core (tcbs k t)" "mem k' = mem k"
  shows "owns_regions k' t" "thread_regions k' t = thread_regions k t"
proof -
  show "thread_regions k' t = thread_regions k t"
    using core_fields [OF assms(2)] by (simp add: thread_regions_def)
  then show "owns_regions k' t" using assms by (simp add: owns_regions_def)
qed

lemma dispatch_terminating:
  assumes "current_tcb k = t" "t \<noteq> NULL" "status (tcbs k t) = TERMINATING" "join_sem (tcbs k t) = s" "s \<noteq> NULL"
    and "sem_close s k = Some (r, k3)" "free_tcb t k3 = Some k4"
  shows "dispatch cont k = (let (v, k5) = next_tcb k4 in yield cont NULL v (k5\<lparr>current_tcb := v\<rparr>))"
  using assms by (simp add: dispatch_def)

lemma thread_exit_rep:
  assumes rep: "krep k A" and t: "a_cur A \<noteq> main_tcb (lay k)" and own: "owns_regions k (a_cur A)"
    and js: "join_sem (tcbs k (a_cur A)) = s" "s \<in> a_sems A"
    and Q: "a_queue A Ready @ a_queue A (Waiting s) \<noteq> []"
  obtains k' where "syscall THREAD_EXIT_CODE p0 p1 p2 p3 k = Some (Switches, k')" "krep k' (a_exit s A)"
    "store_ok (mem k')" "live_blocks (mem k') = (live_blocks (mem k)) |` (- set (thread_regions k (a_cur A)))"
    "\<And>p. p \<in> set (a_queue A (Waiting s)) \<Longrightarrow> interrupted (tcbs k' p)"
proof -
  note r = krepD [OF rep]
  let ?t = "a_cur A"
  have s0: "s \<noteq> NULL" using sem_nonnull [OF r(1) js(2)] by simp
  let ?x = "(tcbs k ?t)\<lparr>status := TERMINATING, tcontext := (tcontext (tcbs k ?t))\<lparr>c_a0 := SUCCESS_SYSCALL\<rparr>\<rparr>"
  let ?k2 = "k\<lparr>tcbs := (tcbs k)(?t := ?x)\<rparr>"
  have pre: "syscall THREAD_EXIT_CODE p0 p1 p2 p3 k = dispatch KDispatch ?k2"
    using r(2-4) t by (simp add: syscall_def syscall_code_defs set_a0_def)
  have k2: "krep0 ?k2 A" by (rule krep0_upd_tcb [OF r(1,6)])
  obtain k3 where k3: "sem_close s ?k2 = Some (CLOSE_SUCCESS, k3)" "krep0 k3 (a_close s A)"
    "woken True (set (a_queue A (Waiting s))) ?k2 k3"
    using sem_close_rep0 [OF k2 js(2) refl] by metis
  have notin: "?t \<notin> set (a_queue (a_close s A) q)" if "q \<in> places A" for q
    using a_close_subset [of ?t s A q] r(6) [OF that] r(6) [of "Waiting s"] js(2) by auto
  have tw: "?t \<notin> set (a_queue A (Waiting s))" using r(6) [of "Waiting s"] js(2) by simp
  have c3: "core (tcbs k3 ?t) = core ?x" using k3(3) tw by (simp add: woken_def)
  have e3: "lay k3 = lay k" "mem k3 = mem k" "current_tcb k3 = ?t" using k3(3) r(2) by (auto simp: woken_def env_eq_def)
  have reg: "thread_regions k3 ?t = thread_regions k ?t" using core_fields [OF c3] by (simp add: thread_regions_def)
  have own3: "owns_regions k3 ?t" using own reg e3 by (simp add: owns_regions_def)
  let ?y = "(tcbs k3 ?t)\<lparr>usr_stack := NULL, sys_stack := NULL, join_sem := NULL\<rparr>"
  obtain m where m: "free_tcb ?t k3 = Some (k3\<lparr>tcbs := (tcbs k3)(?t := ?y), mem := m\<rparr>)" "store_ok m"
    "live_blocks m = (live_blocks (mem k)) |` (- set (thread_regions k ?t))"
    by (rule free_tcb_rep [OF r(4) _ own3]) (use t e3 reg in auto)
  let ?k4 = "k3\<lparr>tcbs := (tcbs k3)(?t := ?y), mem := m\<rparr>"
  have "krep0 (k3\<lparr>tcbs := (tcbs k3)(?t := ?y)\<rparr>) (a_close s A)"
    by (rule krep0_upd_tcb [OF k3(2)]) (use notin in simp)
  then have "krep0 ?k4 (a_close s A)" by (rule krep0_cong) simp_all
  then have k4: "krep0 ?k4 (a_drop_sem s (a_close s A))" by (rule krep0_drop_sem)
  obtain u us where ru: "a_queue (a_drop_sem s (a_close s A)) Ready = u # us"
    using Q by (cases "a_queue A Ready @ a_queue A (Waiting s)") (auto simp: a_drop_sem_def)
  obtain k' where k': "(let (v, k5) = next_tcb ?k4 in yield KDispatch NULL v (k5\<lparr>current_tcb := v\<rparr>)) = Some (Switches, k')"
    "krep k' (a_next (a_drop_sem s (a_close s A)))" "switched KDispatch NULL u ?k4 k'"
    by (rule switch_rep [OF k4 ru, where cont = KDispatch and prev = NULL])
      (use r(7) in \<open>auto simp: a_drop_sem_def\<close>)
  have "dispatch KDispatch ?k2 = Some (Switches, k')"
    unfolding k'(1) [symmetric] by (rule dispatch_terminating [OF _ r(4) _ _ s0 k3(1) m(1)]) (use r(2) js in simp_all)
  moreover have "mem k' = m" using k'(3) by (simp add: switched_def env_eq_def)
  moreover have "interrupted (tcbs k' p)" if "p \<in> set (a_queue A (Waiting s))" for p
  proof -
    have "p \<noteq> ?t" using that tw by auto
    then have "core (tcbs k3 p) = core ((tcbs k p)\<lparr>interrupted := True\<rparr>)" using k3(3) that by (simp add: woken_def)
    from core_fields(4) [OF this] have i: "interrupted (tcbs k3 p)" by simp
    have "payload_eq (tcbs k') ((saved_tcbs KDispatch NULL ?k4)(u := (saved_tcbs KDispatch NULL ?k4 u)\<lparr>status := RUNNING\<rparr>))"
      using k'(3) by (simp add: switched_def)
    from payload_eqD(4) [OF this, of p] show ?thesis
      using i \<open>p \<noteq> ?t\<close> by (cases "p = u") (auto simp: saved_tcbs_def)
  qed
  ultimately show ?thesis using pre k'(2) m(2,3) by (intro that [of k']) (simp_all add: a_exit_def)
qed

section \<open>create_tcb\<close>

lemma block_counts [simp]:
  "to_blocks sizeof_TCB = 6" "to_blocks DEFAULT_STACK_SIZE = 64" "to_blocks sizeof_Sem = 1"
  by (simp_all add: to_blocks_def sizeof_TCB_def DEFAULT_STACK_SIZE_def sizeof_Sem_def MEM_BLOCK_SIZE_def)

text \<open>No room for the control block: nothing happens.\<close>

lemma create_tcb_no_room:
  assumes "store_ok (mem k)" "mem_alloc_blocks 6 (mem k) = Some (NULL, m)"
  shows "create_tcb bdy ags st k = Some (NULL, k)"
proof -
  have "m = mem k" using store.alloc_fail [OF assms(1) _ assms(2)] by simp
  then show ?thesis using assms(2) by (simp add: create_tcb_def)
qed

text \<open>
  No room for a semaphore: create_sem writes through the null pointer, so neither create_tcb nor
  SEM_OPEN can report the failure.
\<close>

lemma create_sem_no_room:
  assumes "mem_alloc_blocks 1 (mem k) = Some (NULL, m)"
  shows "create_sem v k = None"
  using assms by (simp add: create_sem_def sem_initialize_def)

text \<open>The control block that create_tcb leaves behind.\<close>

definition fresh_tcb :: "u64 \<Rightarrow> u64 \<Rightarrow> addr \<Rightarrow> addr \<Rightarrow> addr \<Rightarrow> kstate \<Rightarrow> tcb \<Rightarrow> tcb" where
  "fresh_tcb bdy ags stack_space st js k x =
     x\<lparr>sleep_for := 0, time_slice := DEFAULT_TIME_SLICE, status := INITIALIZING, interrupted := False,
       body := bdy, args := ags, nxt := NULL, prv := NULL, usr_stack := stack_space, sys_stack := st,
       join_sem := js, resume := KStart,
       tcontext := (tcontext x)\<lparr>c_usr_sp := stack_space, c_sys_sp := st + DEFAULT_STACK_SIZE, c_tp := 0,
         c_sstatus := csr_sstatus (cpu_of k) OR push_bit 5 1, c_ra := addr_k_tcb_start (lay k)\<rparr>\<rparr>"

definition new_sem :: "u32 \<Rightarrow> sem" where
  "new_sem v = \<lparr>sem_value = v, suspended = \<lparr>lh_head = NULL, lh_tail = NULL\<rparr>\<rparr>"

lemma create_sem_some:
  assumes "mem_alloc_blocks 1 (mem k) = Some (s, m)" "s \<noteq> NULL"
  shows "create_sem v k = Some (s, k\<lparr>mem := m, sems := (sems k)(s := new_sem v)\<rparr>)"
proof -
  have "(sems k s)\<lparr>sem_value := v, suspended := list_initialize (suspended (sems k s))\<rparr> = new_sem v"
    by (cases "sems k s") (simp add: list_initialize_def new_sem_def)
  then show ?thesis using assms by (simp add: create_sem_def sem_initialize_def)
qed

lemma create_tcb_some:
  assumes args: "bdy \<noteq> 0" "stack_space \<noteq> NULL"
    and t: "mem_alloc_blocks 6 (mem k) = Some (t, m1)" "t \<noteq> NULL"
    and st: "mem_alloc_blocks 64 m1 = Some (st, m2)" "st \<noteq> NULL"
    and js: "mem_alloc_blocks 1 m2 = Some (js, m3)" "js \<noteq> NULL"
  shows "create_tcb bdy ags stack_space k =
    Some (t, k\<lparr>mem := m3, sems := (sems k)(js := new_sem 0),
               tcbs := (tcbs k)(t := fresh_tcb bdy ags stack_space st js k (tcbs k t))\<rparr>)"
proof -
  have sem: "create_sem 0 k0 = Some (js, k0\<lparr>mem := m3, sems := (sems k0)(js := new_sem 0)\<rparr>)"
    if "mem k0 = m2" for k0 using create_sem_some [of k0 js m3 0] js that by simp
  show ?thesis
    using args t st js(2)
    by (simp add: create_tcb_def sem fresh_tcb_def Let_def) (intro kstate.equality ext; simp)
qed

end
