(* ===== verification/Kernel_Steps.thy ===== *)
theory Kernel_Steps
  imports Thread_Correct
begin

text \<open>
  Repeated steps: rounds of dispatching visit the ready threads in order, ticks of the clock wake a
  sleeper at its time (the locale \<open>alarm_clock\<close>), and the counter of a semaphore always tells
  how many threads wait for it.
\<close>

section \<open>Any resumption keeps the scheduler's state\<close>

lemma resume_current_rep:
  assumes rep: "krep k A"
  obtains k' where "resume_current rw k = Some k'" "krep k' A"
proof -
  let ?k0 = "k\<lparr>timer_ticks := 0\<rparr>"
  have rep0: "krep ?k0 A" using rep by simp
  have w: "sem_wait_return ?k0 = Some (if interrupted (tcbs k (a_cur A)) then WAIT_FAIL else WAIT_SUCCESS)"
    using krepD(2,4) [OF rep] by (simp add: sem_wait_return_def)
  note cur = krep_cur_nonnull [OF rep]
  have ex: "\<exists>k'. trap_exit True k1 = Some k' \<and> krep k' A" if "krep k1 A" for k1
    using trap_exit_rep [OF that, of True] by metis
  have a0: "\<exists>k'. (set_a0 v k1 \<bind> trap_exit True) = Some k' \<and> krep k' A" if "krep k1 A" for v k1
    using ex [OF set_a0_rep(2) [OF that, of v]] set_a0_rep(1) [OF that, of v] by simp
  have "\<exists>k'. resume_current rw k = Some k' \<and> krep k' A"
  proof (cases "resume (tcbs k (a_cur A))")
    case KStart
    then show ?thesis using resume_start [OF rep KStart, of rw] by metis
  next
    case KDispatch
    then show ?thesis using resume_dispatch [OF rep KDispatch, of rw] by metis
  next
    case KInterrupt
    then show ?thesis using resume_interrupt [OF rep KInterrupt, of rw] by metis
  next
    case KJoin
    then show ?thesis using ex [OF rep0] cur w by (simp add: resume_current_def after_wait_def)
  next
    case KSemWait
    then show ?thesis using resume_sem_wait [OF rep KSemWait, of rw] by metis
  next
    case KGetC
    obtain c q where q: "q_get IO_BUFFER_SIZE (getc_buffer k) = (c, q)" by (cases "q_get IO_BUFFER_SIZE (getc_buffer k)")
    have "krep (?k0\<lparr>getc_buffer := q\<rparr>) A" using rep by simp
    from a0 [OF this, of "ucast c"] show ?thesis
      using KGetC cur w q by (simp add: resume_current_def after_wait_def)
  next
    case (KPutC c)
    have "krep (?k0\<lparr>putc_buffer := q_put IO_BUFFER_SIZE c (putc_buffer k)\<rparr>) A" using rep by simp
    from ex [OF this] show ?thesis using KPutC cur w by (simp add: resume_current_def after_wait_def)
  qed
  then show ?thesis using that by blast
qed

section \<open>Rounds of dispatching\<close>

text \<open>One thread_dispatch as the scheduler sees it: the switch and the new thread's resumption.\<close>

definition dispatch_step :: "u64 \<Rightarrow> kstate \<Rightarrow> kstate option" where
  "dispatch_step rw k = do {
     (f, k1) \<leftarrow> dispatch KDispatch k;
     resume_current rw k1
   }"

primrec dispatch_steps :: "u64 \<Rightarrow> nat \<Rightarrow> kstate \<Rightarrow> kstate option" where
  "dispatch_steps rw 0 k = Some k"
| "dispatch_steps rw (Suc n) k = do { k1 \<leftarrow> dispatch_step rw k; dispatch_steps rw n k1 }"

text \<open>
  The ring of the running thread and the ready threads behind it: a dispatch rotates it by one.
\<close>

definition run_ring :: "sched \<Rightarrow> addr list" where
  "run_ring A = a_cur A # a_queue A Ready"

lemma a_dispatch_ring:
  "run_ring (a_dispatch A) = rotate1 (run_ring A)"
  "q \<noteq> Ready \<Longrightarrow> a_queue (a_dispatch A) q = a_queue A q"
  "a_val (a_dispatch A) = a_val A" "a_sems (a_dispatch A) = a_sems A" "a_wake (a_dispatch A) = a_wake A"
  by (simp_all add: run_ring_def a_dispatch_def a_enq_def a_next_def split: list.splits)

lemma dispatches_ring:
  "run_ring ((a_dispatch ^^ n) A) = rotate n (run_ring A)"
  "q \<noteq> Ready \<Longrightarrow> a_queue ((a_dispatch ^^ n) A) q = a_queue A q"
  by (induction n) (simp_all add: a_dispatch_ring)

lemma dispatch_step_rep:
  assumes rep: "krep k A"
  obtains k' where "dispatch_step rw k = Some k'" "krep k' (a_dispatch A)"
proof -
  obtain k1 where k1: "dispatch KDispatch k = Some (Switches, k1)" "krep k1 (a_dispatch A)"
    by (rule dispatch_rep [OF rep, where cont = KDispatch])
  obtain k' where "resume_current rw k1 = Some k'" "krep k' (a_dispatch A)"
    by (rule resume_current_rep [OF k1(2), where rw = rw])
  then show ?thesis using k1 by (intro that) (auto simp: dispatch_step_def)
qed

lemma dispatch_steps_rep:
  assumes "krep k A"
  shows "\<exists>k'. dispatch_steps rw n k = Some k' \<and> krep k' ((a_dispatch ^^ n) A)"
  using assms
proof (induction n arbitrary: k A)
  case (Suc n)
  obtain k1 where k1: "dispatch_step rw k = Some k1" "krep k1 (a_dispatch A)"
    by (rule dispatch_step_rep [OF Suc.prems])
  show ?case using Suc.IH [OF k1(2)] k1(1) by (simp add: funpow_swap1)
qed simp

section \<open>The clock\<close>

text \<open>
  The contract of a queue of timers: \<open>left A t\<close> is the number of ticks after which
  \<open>t\<close> is due, \<open>due A\<close> the set of those whose time has come.
\<close>

locale alarm_clock =
  fixes tick :: "'s \<Rightarrow> 's option"
    and rep :: "'s \<Rightarrow> 'a \<Rightarrow> bool"
    and left :: "'a \<Rightarrow> 't \<Rightarrow> nat option"
    and due :: "'a \<Rightarrow> 't set"
  assumes left_pos: "rep s A \<Longrightarrow> left A t = Some n \<Longrightarrow> 0 < n"
    and tick_law: "rep s A \<Longrightarrow> \<exists>s' A'. tick s = Some s' \<and> rep s' A' \<and>
      (\<forall>t. left A' t = (case left A t of None \<Rightarrow> None | Some n \<Rightarrow> if n = 1 then None else Some (n - 1))) \<and>
      due A' = due A \<union> {t. left A t = Some 1}"
begin

primrec ticks :: "nat \<Rightarrow> 's \<Rightarrow> 's option" where
  "ticks 0 s = Some s"
| "ticks (Suc n) s = Option.bind (tick s) (ticks n)"

lemma ticks_law:
  "rep s A \<Longrightarrow> \<exists>s' A'. ticks n s = Some s' \<and> rep s' A' \<and>
     (\<forall>t. left A' t = (case left A t of None \<Rightarrow> None | Some m \<Rightarrow> if m \<le> n then None else Some (m - n))) \<and>
     due A' = due A \<union> {t. \<exists>m. left A t = Some m \<and> m \<le> n}"
proof (induction n arbitrary: s A)
  case 0
  then show ?case using left_pos [OF 0] by (fastforce split: option.splits)
next
  case (Suc n)
  obtain s1 A1 where 1: "tick s = Some s1" "rep s1 A1"
    "\<And>t. left A1 t = (case left A t of None \<Rightarrow> None | Some n \<Rightarrow> if n = 1 then None else Some (n - 1))"
    "due A1 = due A \<union> {t. left A t = Some 1}"
    using tick_law [OF Suc.prems] by blast
  obtain s' A' where 2: "ticks n s1 = Some s'" "rep s' A'"
    "\<And>t. left A' t = (case left A1 t of None \<Rightarrow> None | Some m \<Rightarrow> if m \<le> n then None else Some (m - n))"
    "due A' = due A1 \<union> {t. \<exists>m. left A1 t = Some m \<and> m \<le> n}"
    using Suc.IH [OF 1(2)] by blast
  have pos: "0 < m" if "left A t = Some m" for t m using left_pos [OF Suc.prems that] .
  have "left A' t = (case left A t of None \<Rightarrow> None | Some m \<Rightarrow> if m \<le> Suc n then None else Some (m - Suc n))" for t
    using pos [of t] by (cases "left A t") (auto simp: 1(3) 2(3) split: option.splits)
  moreover have "due A' = due A \<union> {t. \<exists>m. left A t = Some m \<and> m \<le> Suc n}"
    using pos unfolding 2(4) 1(4) by (auto simp: 1(3) split: option.splits if_splits)
  ultimately show ?case using 1(1) 2(1,2) by auto
qed

end

definition ticks_left :: "sched \<Rightarrow> addr \<Rightarrow> nat option" where
  "ticks_left A t = (if t \<in> set (a_queue A Sleeping) then Some (a_wake A t) else None)"

definition ready_set :: "sched \<Rightarrow> addr set" where
  "ready_set A = set (a_queue A Ready)"

lemma sleepers_sorted: "krep k A \<Longrightarrow> sorted (map (a_wake A) (a_queue A Sleeping))"
  by (rule deltas_sorted_wrt [where h = "tcbs k" and b = 0])
    (use krep0D(4) [OF krepD(1)] in \<open>auto simp: sleepers_ok_def\<close>)

lemma sorted_split_filter:
  fixes w :: "'b \<Rightarrow> nat"
  assumes "sorted (map w ts)"
  shows "takeWhile (\<lambda>t. w t \<le> n) ts = filter (\<lambda>t. w t \<le> n) ts"
    and "dropWhile (\<lambda>t. w t \<le> n) ts = filter (\<lambda>t. n < w t) ts"
proof -
  have none: "filter (\<lambda>t. w t \<le> n) us = []" "filter (\<lambda>t. n < w t) us = us"
    if "n < w u" "\<forall>x \<in> set us. w u \<le> w x" for u us
    using that by (force simp: filter_empty_conv filter_id_conv)+
  show "takeWhile (\<lambda>t. w t \<le> n) ts = filter (\<lambda>t. w t \<le> n) ts"
    using assms
  proof (induction ts)
    case (Cons t ts)
    then show ?case using none(1) [of t ts] by (cases "w t \<le> n") auto
  qed simp
  show "dropWhile (\<lambda>t. w t \<le> n) ts = filter (\<lambda>t. n < w t) ts"
    using assms
  proof (induction ts)
    case (Cons t ts)
    then show ?case using none(2) [of t ts] by (cases "w t \<le> n") auto
  qed simp
qed

lemma a_tick_sets:
  assumes "krep k A"
  shows "set (a_queue (a_tick A) Ready) = set (a_queue A Ready) \<union> {t \<in> set (a_queue A Sleeping). a_wake A t \<le> 1}"
    and "set (a_queue (a_tick A) Sleeping) = {t \<in> set (a_queue A Sleeping). 1 < a_wake A t}"
  using sorted_split_filter [OF sleepers_sorted [OF assms], of 1] by (auto simp: a_tick_def Let_def)

interpretation clock: alarm_clock timer_tick krep ticks_left ready_set
proof unfold_locales
  fix k A t n
  show "krep k A \<Longrightarrow> ticks_left A t = Some n \<Longrightarrow> 0 < n"
    using krepD(7) by (auto simp: ticks_left_def split: if_splits)
next
  fix k A
  assume rep: "krep k A"
  obtain k' where k': "timer_tick k = Some k'" "krep k' (a_tick A)" by (rule timer_tick_rep [OF rep])
  note sets = a_tick_sets [OF rep]
  have wake: "a_wake (a_tick A) t = a_wake A t - 1" for t by (simp add: a_tick_def Let_def)
  have "ticks_left (a_tick A) t =
      (case ticks_left A t of None \<Rightarrow> None | Some n \<Rightarrow> if n = 1 then None else Some (n - 1))" for t
    using krepD(7) [OF rep, of t] by (auto simp: ticks_left_def sets wake)
  moreover have "ready_set (a_tick A) = ready_set A \<union> {t. ticks_left A t = Some 1}"
    using krepD(7) [OF rep] by (force simp: ready_set_def ticks_left_def sets le_Suc_eq)
  ultimately show "\<exists>s' A'. timer_tick k = Some s' \<and> krep s' A' \<and>
      (\<forall>t. ticks_left A' t = (case ticks_left A t of None \<Rightarrow> None | Some n \<Rightarrow> if n = 1 then None else Some (n - 1))) \<and>
      ready_set A' = ready_set A \<union> {t. ticks_left A t = Some 1}"
    using k' by blast
qed

section \<open>Counters\<close>

text \<open>
  The counter of a semaphore tells how many threads wait for it: every operation keeps this, and
  it is what makes signal find a waiter whenever the counter was negative.
\<close>

definition counters_ok :: "sched \<Rightarrow> bool" where
  "counters_ok A \<longleftrightarrow> (\<forall>s \<in> a_sems A. length (a_queue A (Waiting s)) = nat (- a_val A s))"

lemma counters_okD: "counters_ok A \<Longrightarrow> s \<in> a_sems A \<Longrightarrow> a_val A s < 0 \<longleftrightarrow> a_queue A (Waiting s) \<noteq> []"
  by (cases "a_queue A (Waiting s)") (auto simp: counters_ok_def dest!: bspec [where x = s])

lemma counters_ok_next [simp]: "counters_ok (a_next A) = counters_ok A"
  by (auto simp: counters_ok_def a_next_def split: list.splits)

lemma counters_ok_set [simp]: "(\<And>s. q \<noteq> Waiting s) \<Longrightarrow> counters_ok (a_set q ts A) = counters_ok A"
  unfolding counters_ok_def by (metis a_set_simps(1,3,4) fun_upd_other)

lemma counters_ok_fields: "counters_ok (A\<lparr>a_wake := w\<rparr>) = counters_ok A" "counters_ok (A\<lparr>a_cur := t\<rparr>) = counters_ok A"
  by (simp_all add: counters_ok_def)

lemma counters_ok_dispatch: "counters_ok A \<Longrightarrow> counters_ok (a_dispatch A)"
  by (simp add: a_dispatch_def a_enq_def)

lemma counters_ok_tick: "counters_ok A \<Longrightarrow> counters_ok (a_tick A)"
  by (simp add: a_tick_def Let_def counters_ok_fields)

lemma counters_ok_sleep: "counters_ok A \<Longrightarrow> counters_ok (a_sleep t n A)"
  by (simp add: a_sleep_def Let_def counters_ok_fields)

lemma counters_ok_wait: "counters_ok A \<Longrightarrow> counters_ok (a_wait s A)"
  by (simp add: a_wait_def Let_def a_enq_def) (auto simp: counters_ok_def nat_diff_distrib)

lemma counters_ok_signal:
  assumes "counters_ok A"
  shows "counters_ok (a_signal s A)"
proof -
  have "length ts = nat (- (a_val A s + 1))" if "a_queue A (Waiting s) = t # ts" "s \<in> a_sems A" for t ts
    using assms that by (fastforce simp: counters_ok_def)
  then show ?thesis
    using assms by (auto simp: a_signal_def a_unblock_def Let_def counters_ok_def a_enq_def split: list.splits)
qed

end
