(* ===== verification/Kernel_Owner.thy ===== *)
theory Kernel_Owner
  imports Kernel_Frame Kernel_Steps
begin

text \<open>
  The threads of the system and what they own.  \<open>threads A\<close> are the running thread and
  those in a queue; \<open>owned k A\<close> says that their control blocks, stacks and join
  semaphores, and all other semaphores on the heap, are live allocations that do not coincide, while
  the static objects lie below the heap.
\<close>

section \<open>Threads\<close>

definition threads :: "sched \<Rightarrow> addr set" where
  "threads A = insert (a_cur A) (\<Union>q \<in> places A. set (a_queue A q))"

lemma threads_split:
  "threads A = set (run_ring A) \<union> set (a_queue A Sleeping) \<union> (\<Union>s \<in> a_sems A. set (a_queue A (Waiting s)))"
  by (auto simp: threads_def places_def run_ring_def)

lemma a_next_run_ring: "a_queue A Ready \<noteq> [] \<Longrightarrow> run_ring (a_next A) = a_queue A Ready"
  by (cases "a_queue A Ready") (simp_all add: a_next_def run_ring_def)

lemma a_next_fields [simp]:
  "q \<noteq> Ready \<Longrightarrow> a_queue (a_next A) q = a_queue A q" "a_sems (a_next A) = a_sems A"
  "a_val (a_next A) = a_val A" "a_wake (a_next A) = a_wake A"
  by (simp_all add: a_next_def split: list.splits)

lemma threads_dispatch [simp]: "threads (a_dispatch A) = threads A"
  by (simp add: threads_split a_dispatch_ring)

lemma threads_tick [simp]: "threads (a_tick A) = threads A"
proof -
  have "set (takeWhile P ts) \<union> set (dropWhile P ts) = set ts" for P and ts :: "addr list"
    by (metis set_append takeWhile_dropWhile_id)
  then show ?thesis by (auto simp: threads_split run_ring_def a_tick_def Let_def)
qed

lemma threads_split_at:
  assumes "s \<in> a_sems A"
  shows "threads A = set (run_ring A) \<union> set (a_queue A Sleeping) \<union> set (a_queue A (Waiting s)) \<union>
    (\<Union>u \<in> a_sems A - {s}. set (a_queue A (Waiting u)))"
  using assms by (auto simp: threads_split)

lemma threads_signal [simp]: "s \<in> a_sems A \<Longrightarrow> threads (a_signal s A) = threads A"
  by (simp add: threads_split_at [of s] a_signal_def a_unblock_def a_enq_def Let_def run_ring_def split: list.splits)

lemma threads_wait [simp]:
  assumes "s \<in> a_sems A" "a_val A s \<le> 0 \<Longrightarrow> a_queue A Ready \<noteq> []"
  shows "threads (a_wait s A) = threads A"
proof (cases "a_val A s \<le> 0")
  case True
  let ?B = "a_enq (Waiting s) (a_cur A) (A\<lparr>a_val := (a_val A)(s := a_val A s - 1)\<rparr>)"
  have w: "a_wait s A = a_next ?B" using True by (simp add: a_wait_def)
  have "run_ring (a_next ?B) = a_queue A Ready"
    using a_next_run_ring [of ?B] assms(2) True by (simp add: a_enq_def)
  then show ?thesis
    using assms(1) unfolding w
    by (simp add: threads_split_at [of s] a_enq_def) (auto simp: run_ring_def)
qed (auto simp: threads_split a_wait_def run_ring_def)

lemma threads_sleep [simp]:
  assumes "a_queue A Ready \<noteq> []"
  shows "threads (a_next (a_sleep (a_cur A) n A)) = threads A"
proof -
  have "set (takeWhile P ts) \<union> set (dropWhile P ts) = set ts" for P and ts :: "addr list"
    by (metis set_append takeWhile_dropWhile_id)
  moreover have "run_ring (a_next (a_sleep (a_cur A) n A)) = a_queue A Ready"
    using a_next_run_ring [of "a_sleep (a_cur A) n A"] assms by (simp add: a_sleep_def Let_def)
  ultimately show ?thesis unfolding threads_split by (auto simp: a_sleep_def Let_def run_ring_def)
qed

section \<open>The heap\<close>

lemma mem_alloc_start: "mem_alloc_blocks n a = Some (p, a') \<Longrightarrow> heap_start a' = heap_start a"
  by (auto simp: mem_alloc_blocks_def Let_def split: bind_splits if_splits prod.splits)

lemma mem_free_start: "mem_free_blocks p a = Some (r, a') \<Longrightarrow> heap_start a' = heap_start a"
  by (auto simp: mem_free_blocks_def Let_def split: bind_splits if_splits prod.splits sum.splits)

lemma live_above_start:
  assumes "store_ok a" "live_blocks a p \<noteq> None"
  shows "heap_start a \<le> p"
proof -
  obtain segs k where s: "alloc_rep a segs" "live_blocks a p = Some k" using assms by (auto simp: store_ok_def)
  note r = alloc_repD [OF s(1)]
  obtain i where i: "p = baddr (heap_start a) i" "(i, k) \<in> set (used_at 0 segs)"
    using s(2) live_blocks_iff [OF s(1)] by blast
  have "i \<le> seg_total segs" using used_at_region [OF r(2) i(2)] by simp
  from unat_baddr [OF r(3) this] show ?thesis using i(1) by (simp add: word_le_nat_alt)
qed

text \<open>An address that free can look up: null, off the grid, or in the table.\<close>

definition free_looks_up :: "mem_allocator \<Rightarrow> addr \<Rightarrow> bool" where
  "free_looks_up a p \<longleftrightarrow> p = NULL \<or> p mod MEM_BLOCK_SIZE \<noteq> 0 \<or>
     heap_start a \<le> p \<and> table_index a p < length (alloc_table a)"

lemma mem_free_total:
  assumes "store_ok a" "free_looks_up a p"
  obtains r a' where "mem_free_blocks p a = Some (r, a')" "store_ok a'"
    "live_blocks a' = (if r = MEM_SUCCESS then (live_blocks a)(p := None) else live_blocks a)"
proof (cases "live_blocks a p")
  case (Some n)
  from store.release_live [OF assms(1) Some] show ?thesis using that by auto
next
  case None
  obtain segs where rep: "alloc_rep a segs" using assms(1) by (auto simp: store_ok_def)
  show ?thesis
  proof (cases "p = NULL \<or> p mod MEM_BLOCK_SIZE \<noteq> 0")
    case True
    then show ?thesis
      using that [of _ a] mem_free_null mem_free_unaligned assms(1) by (cases "p = NULL") auto
  next
    case False
    note r = alloc_repD [OF rep]
    have p: "heap_start a \<le> p" "table_index a p < seg_total segs" "p mod MEM_BLOCK_SIZE = 0"
      using False assms(2) r(4) length_table_of [OF r(2)] by (auto simp: free_looks_up_def)
    have "p = baddr (heap_start a) (table_index a p)"
      using aligned_baddr [OF r(3) p(1,3)] by (simp add: table_index_def)
    moreover have "(table_index a p, n) \<notin> set (used_at 0 segs)" for n
      using None live_blocks_iff [OF rep, of p n] calculation by auto
    ultimately have "mem_free_blocks p a = Some (ADDRESS_IS_NOT_USED, a)"
      using mem_free_not_used [OF rep p(2)] by metis
    then show ?thesis using assms(1) by (intro that [of _ a]) auto
  qed
qed

section \<open>Ownership\<close>

definition user_threads :: "kstate \<Rightarrow> sched \<Rightarrow> addr set" where
  "user_threads k A = threads A - {main_tcb (lay k)}"

definition static_addr :: "kstate \<Rightarrow> addr \<Rightarrow> bool" where
  "static_addr k p \<longleftrightarrow> p < heap_start (mem k)"

definition owned :: "kstate \<Rightarrow> sched \<Rightarrow> bool" where
  "owned k A \<longleftrightarrow> store_ok (mem k) \<and>
     (\<forall>t \<in> user_threads k A. owns_regions k t \<and> join_sem (tcbs k t) \<in> a_sems A) \<and>
     (\<forall>t \<in> user_threads k A. \<forall>u \<in> user_threads k A. t \<noteq> u \<longrightarrow>
        set (thread_regions k t) \<inter> set (thread_regions k u) = {}) \<and>
     (\<forall>s \<in> a_sems A. static_addr k s \<or> live_blocks (mem k) s \<noteq> None) \<and>
     (\<forall>s \<in> a_sems A. \<forall>t \<in> user_threads k A. s \<in> set (thread_regions k t) \<longrightarrow> s = join_sem (tcbs k t)) \<and>
     main_tcb (lay k) \<in> threads A \<and> join_sem (tcbs k (main_tcb (lay k))) = NULL \<and> main_tcb (lay k) \<noteq> NULL \<and>
     static_addr k (main_tcb (lay k)) \<and>
     putc_sem (lay k) \<in> a_sems A \<and> getc_sem (lay k) \<in> a_sems A \<and>
     static_addr k (putc_sem (lay k)) \<and> static_addr k (getc_sem (lay k))"

lemma ownedD:
  assumes "owned k A"
  shows "store_ok (mem k)"
    and "t \<in> user_threads k A \<Longrightarrow> owns_regions k t"
    and "t \<in> user_threads k A \<Longrightarrow> join_sem (tcbs k t) \<in> a_sems A"
    and "t \<in> user_threads k A \<Longrightarrow> u \<in> user_threads k A \<Longrightarrow> t \<noteq> u \<Longrightarrow>
        set (thread_regions k t) \<inter> set (thread_regions k u) = {}"
    and "s \<in> a_sems A \<Longrightarrow> static_addr k s \<or> live_blocks (mem k) s \<noteq> None"
    and "s \<in> a_sems A \<Longrightarrow> t \<in> user_threads k A \<Longrightarrow> s \<in> set (thread_regions k t) \<Longrightarrow> s = join_sem (tcbs k t)"
    and "main_tcb (lay k) \<in> threads A" "join_sem (tcbs k (main_tcb (lay k))) = NULL" "main_tcb (lay k) \<noteq> NULL"
    and "static_addr k (main_tcb (lay k))"
    and "putc_sem (lay k) \<in> a_sems A" "getc_sem (lay k) \<in> a_sems A"
    and "static_addr k (putc_sem (lay k))" "static_addr k (getc_sem (lay k))"
  using assms by (simp_all add: owned_def)

lemma frameD:
  assumes "frame X k k'"
  shows "mem k' = mem k" "lay k' = lay k" "thread_regions k' t = thread_regions k t"
    "join_sem (tcbs k' t) = join_sem (tcbs k t)" "owns_regions k' t = owns_regions k t"
    "t \<notin> X \<Longrightarrow> saved (tcbs k' t) = saved (tcbs k t)"
  using assms by (simp_all add: frame_def heap_frame_def regions_of_def thread_regions_def owns_regions_def)

lemma owned_frame:
  assumes "owned k A" "frame X k k'" "threads A' = threads A" "a_sems A' = a_sems A"
  shows "owned k' A'"
  using assms(1,3,4) unfolding owned_def user_threads_def static_addr_def
  by (simp add: frameD [OF assms(2)])

lemma live_not_static: "owned k A \<Longrightarrow> live_blocks (mem k) p \<noteq> None \<Longrightarrow> \<not> static_addr k p"
  using live_above_start ownedD(1) by (force simp: static_addr_def)

lemma region_live: "owned k A \<Longrightarrow> t \<in> user_threads k A \<Longrightarrow> p \<in> set (thread_regions k t) \<Longrightarrow> live_blocks (mem k) p \<noteq> None"
  using ownedD(2) by (auto simp: owns_regions_def)

text \<open>The addresses that a program must not free: control blocks, stacks and semaphores.\<close>

definition kernel_owned :: "kstate \<Rightarrow> sched \<Rightarrow> addr \<Rightarrow> bool" where
  "kernel_owned k A p \<longleftrightarrow> p \<in> a_sems A \<or> (\<exists>t \<in> user_threads k A. p \<in> set (thread_regions k t))"

text \<open>Changing the heap while everything that is owned stays live.\<close>

lemma owned_mem:
  assumes own: "owned k A" and m: "store_ok m" "heap_start m = heap_start (mem k)"
    and live: "\<And>p. kernel_owned k A p \<Longrightarrow> live_blocks (mem k) p \<noteq> None \<Longrightarrow> live_blocks m p \<noteq> None"
  shows "owned (k\<lparr>mem := m\<rparr>) A"
proof -
  have reg: "thread_regions (k\<lparr>mem := m\<rparr>) t = thread_regions k t" for t by (simp add: thread_regions_def)
  have ut: "user_threads (k\<lparr>mem := m\<rparr>) A = user_threads k A" by (simp add: user_threads_def)
  have st: "static_addr (k\<lparr>mem := m\<rparr>) p = static_addr k p" for p using m by (simp add: static_addr_def)
  have "owns_regions (k\<lparr>mem := m\<rparr>) t" if t: "t \<in> user_threads k A" for t
  proof -
    have "live_blocks m p \<noteq> None" if "p \<in> set (thread_regions k t)" for p
      by (rule live) (use that t region_live [OF own t] in \<open>auto simp: kernel_owned_def\<close>)
    then show ?thesis using ownedD(2) [OF own t] m by (simp add: owns_regions_def reg)
  qed
  moreover have "static_addr k s \<or> live_blocks m s \<noteq> None" if "s \<in> a_sems A" for s
    using ownedD(5) [OF own that] live [of s] that by (auto simp: kernel_owned_def)
  ultimately show ?thesis
    using own m(1) unfolding owned_def reg ut st by simp
qed

end
