(* ===== verification/Kernel_Life.thy ===== *)
theory Kernel_Life
  imports Kernel_Owner
begin

text \<open>
  The system calls that create and destroy kernel objects keep the representation and the ownership:
  opening and closing semaphores, creating a thread, and thread_exit.
\<close>

section \<open>New semaphores\<close>

definition a_new_sem :: "addr \<Rightarrow> int \<Rightarrow> sched \<Rightarrow> sched" where
  "a_new_sem s v A = A\<lparr>a_queue := (a_queue A)(Waiting s := []), a_sems := insert s (a_sems A), a_val := (a_val A)(s := v)\<rparr>"

lemma a_new_sem_fields [simp]:
  "a_cur (a_new_sem s v A) = a_cur A" "a_queue (a_new_sem s v A) = (a_queue A)(Waiting s := [])"
  "a_sems (a_new_sem s v A) = insert s (a_sems A)" "a_val (a_new_sem s v A) = (a_val A)(s := v)"
  "a_wake (a_new_sem s v A) = a_wake A" "places (a_new_sem s v A) = insert (Waiting s) (places A)"
  by (auto simp: a_new_sem_def places_def)

lemma threads_new_sem [simp]: "s \<notin> a_sems A \<Longrightarrow> threads (a_new_sem s v A) = threads A"
  by (auto simp: threads_def places_def split: if_splits)

lemma krep0_new_sem:
  assumes rep: "krep0 k A" and s: "s \<notin> a_sems A" "s \<noteq> NULL"
  shows "krep0 (k\<lparr>sems := (sems k)(s := new_sem v)\<rparr>) (a_new_sem s (sint v) A)"
proof -
  note r = krep0D [OF rep]
  let ?k = "k\<lparr>sems := (sems k)(s := new_sem v)\<rparr>" and ?A = "a_new_sem s (sint v) A"
  have hd: "queue_hd ?k q = queue_hd k q" if "q \<in> places A" for q
    using that s(1) by (cases q) (auto simp: places_def)
  have old: "Waiting s \<notin> places A" using s(1) by simp
  have "list_rep (tcbs ?k) (queue_hd ?k q) (a_queue ?A q)" if "q \<in> places ?A" for q
    using that queues_repD(1) [OF r(1), of q] hd [of q] old
    by (cases "q = Waiting s") (auto simp: new_sem_def list_rep_def)
  moreover have "set (a_queue ?A q) \<inter> set (a_queue ?A q') = {}" if "q \<in> places ?A" "q' \<in> places ?A" "q \<noteq> q'" for q q'
    using that queues_repD(2) [OF r(1), of q q'] by auto
  ultimately have "queues_rep ?k (places ?A) (a_queue ?A)" unfolding queues_rep_def by blast
  then show ?thesis
    using r(2-4) s by (auto simp: krep0_def status_ok_def sems_ok_def sleepers_ok_def new_sem_def)
qed

lemma krep_new_sem:
  assumes rep: "krep k A" and s: "s \<notin> a_sems A" "s \<noteq> NULL"
  shows "krep (k\<lparr>sems := (sems k)(s := new_sem v)\<rparr>) (a_new_sem s (sint v) A)"
  using krep0_new_sem [OF krepD(1) [OF rep] s, of v] krepD [OF rep] unfolding krep_def by auto

lemma counters_ok_new_sem: "counters_ok A \<Longrightarrow> s \<notin> a_sems A \<Longrightarrow> 0 \<le> v \<Longrightarrow> counters_ok (a_new_sem s v A)"
  by (auto simp: counters_ok_def)

text \<open>A fresh allocation is neither static nor owned.\<close>

lemma fresh_not_owned:
  assumes own: "owned k A" and p: "mem_alloc_blocks n (mem k) = Some (p, m)" "0 < n" "p \<noteq> NULL"
  shows "\<not> kernel_owned k A p" "live_blocks (mem k) p = None" "p \<notin> threads A" "\<not> static_addr k p"
    and "owned (k\<lparr>mem := m\<rparr>) A" "live_blocks m p \<noteq> None" "store_ok m" "live_blocks m = (live_blocks (mem k))(p \<mapsto> unat n)"
proof -
  note a = store.alloc_live [OF ownedD(1) [OF own] p(2,1,3)]
  then have m: "store_ok m" "live_blocks (mem k) p = None" "live_blocks m = (live_blocks (mem k))(p \<mapsto> unat n)" by simp_all
  then show "live_blocks (mem k) p = None" "live_blocks m p \<noteq> None" "store_ok m"
    "live_blocks m = (live_blocks (mem k))(p \<mapsto> unat n)" by simp_all
  have hs: "heap_start m = heap_start (mem k)" using mem_alloc_start [OF p(1)] .
  have "heap_start m \<le> p" by (rule live_above_start [OF m(1)]) (simp add: m(3))
  then show st: "\<not> static_addr k p" by (simp add: static_addr_def hs not_less)
  show no: "\<not> kernel_owned k A p"
    using ownedD(5) [OF own, of p] region_live [OF own, of _ p] st m(2) by (auto simp: kernel_owned_def)
  show "p \<notin> threads A"
  proof
    assume "p \<in> threads A"
    then have "p \<in> user_threads k A" using st ownedD(10) [OF own] by (auto simp: user_threads_def)
    then have "p \<in> set (thread_regions k p)" "p \<in> user_threads k A" by (auto simp: thread_regions_def)
    then show False using no by (auto simp: kernel_owned_def)
  qed
  show "owned (k\<lparr>mem := m\<rparr>) A" by (rule owned_mem [OF own m(1) hs]) (use m(3) in auto)
qed

lemma owned_irrelevant [simp]:
  "owned (k\<lparr>sems := s\<rparr>) A = owned k A" "owned (k\<lparr>user_cells := u\<rparr>) A = owned k A" "owned (k\<lparr>cpu_of := c\<rparr>) A = owned k A"
  by (simp_all add: owned_def user_threads_def static_addr_def owns_regions_def thread_regions_def)

lemma owned_new_sem:
  assumes own: "owned k A" and s: "\<not> (\<exists>t \<in> user_threads k A. s \<in> set (thread_regions k t))"
    "live_blocks (mem k) s \<noteq> None" "s \<notin> a_sems A"
  shows "owned k (a_new_sem s v A)"
proof -
  have "user_threads k (a_new_sem s v A) = user_threads k A" using s(3) by (simp add: user_threads_def)
  then show ?thesis using own s unfolding owned_def by auto
qed

section \<open>sem_open\<close>

lemma handle_sem_open_rep:
  assumes rep: "krep k A" and own: "owned k A" and p0: "p0 \<noteq> NULL"
    and room: "mem_alloc_blocks 1 (mem k) = Some (s, m)" "s \<noteq> NULL"
  obtains k' where "handle_sem_open p0 p1 k = Some k'" "krep k' (a_new_sem s (sint (ucast p1 :: u32)) A)"
    "owned k' (a_new_sem s (sint (ucast p1 :: u32)) A)" "user_cells k' p0 = s" "s \<notin> a_sems A"
    "\<And>t. t \<noteq> a_cur A \<Longrightarrow> saved (tcbs k' t) = saved (tcbs k t)" "lay k' = lay k"
    "c_a0 (tcontext (tcbs k' (a_cur A))) = SUCCESS_SYSCALL" "mem k' = m" "\<And>t. join_sem (tcbs k' t) = join_sem (tcbs k t)"
proof -
  let ?v = "ucast p1 :: u32"
  note f = fresh_not_owned [OF own room(1) _ room(2), simplified]
  have s: "s \<notin> a_sems A" using f(1) by (auto simp: kernel_owned_def)
  let ?k1 = "k\<lparr>mem := m, sems := (sems k)(s := new_sem ?v)\<rparr>"
  have c: "create_sem ?v k = Some (s, ?k1)" by (rule create_sem_some [OF room])
  have "krep (k\<lparr>mem := m\<rparr>) A" using rep by simp
  from krep_new_sem [OF this s room(2), of ?v] have k1: "krep ?k1 (a_new_sem s (sint ?v) A)" by simp
  have "\<not> (\<exists>t \<in> user_threads (k\<lparr>mem := m\<rparr>) A. s \<in> set (thread_regions (k\<lparr>mem := m\<rparr>) t))"
    using f(1) by (auto simp: kernel_owned_def user_threads_def thread_regions_def)
  from owned_new_sem [OF f(5) this _ s] f(6) have o1: "owned ?k1 (a_new_sem s (sint ?v) A)" by simp
  let ?k2 = "?k1\<lparr>user_cells := (user_cells k)(p0 := s)\<rparr>"
  have k2: "krep ?k2 (a_new_sem s (sint ?v) A)" using k1 by simp
  note a = set_a0_rep [OF k2, of SUCCESS_SYSCALL, simplified]
  let ?k3 = "?k2\<lparr>tcbs := (tcbs k)(a_cur A := (tcbs k (a_cur A))\<lparr>tcontext := (tcontext (tcbs k (a_cur A)))\<lparr>c_a0 := SUCCESS_SYSCALL\<rparr>\<rparr>)\<rparr>"
  have "frame {a_cur A} ?k2 ?k3" by (intro frame_tcbs heap_frame_upd) simp_all
  from owned_frame [OF _ this] o1 have "owned ?k3 (a_new_sem s (sint ?v) A)" by simp
  then show ?thesis
    using c a p0 room(2) s by (intro that [of ?k3]) (simp_all add: handle_sem_open_def)
qed

section \<open>sem_close\<close>

lemma krep_drop_sem:
  assumes "krep k A"
  shows "krep k (a_drop_sem s A)"
proof -
  have "places (a_drop_sem s A) \<subseteq> places A" by (auto simp: a_drop_sem_def places_def)
  then show ?thesis
    using krep0_drop_sem [OF krepD(1) [OF assms], of s] krepD [OF assms]
    unfolding krep_def by (auto simp: a_drop_sem_def subset_iff)
qed

definition a_close_sem :: "addr \<Rightarrow> sched \<Rightarrow> sched" where
  "a_close_sem s A = a_drop_sem s (a_close s A)"

lemma a_close_sem_fields [simp]:
  "a_cur (a_close_sem s A) = a_cur A" "a_sems (a_close_sem s A) = a_sems A - {s}"
  "a_val (a_close_sem s A) = a_val A" "a_wake (a_close_sem s A) = a_wake A"
  "a_queue (a_close_sem s A) = (a_queue A)(Ready := a_queue A Ready @ a_queue A (Waiting s), Waiting s := [])"
  by (auto simp: a_close_sem_def a_drop_sem_def a_close_def)

lemma threads_close_sem [simp]: "s \<in> a_sems A \<Longrightarrow> threads (a_close_sem s A) = threads A"
  unfolding threads_split [of "a_close_sem s A"] threads_split_at [of s A]
  by (auto simp: run_ring_def split: if_splits)

lemma counters_ok_close_sem: "counters_ok A \<Longrightarrow> counters_ok (a_close_sem s A)"
  by (auto simp: counters_ok_def)

text \<open>Dropping a semaphore that is no thread's join semaphore, once its block has been released.\<close>

lemma owned_drop_sem:
  assumes own: "owned k A" and A': "threads A' = threads A" "a_sems A' = a_sems A - {s}"
    and s: "s \<noteq> putc_sem (lay k)" "s \<noteq> getc_sem (lay k)" "\<not> (\<exists>t \<in> user_threads k A. s \<in> set (thread_regions k t))"
    and m: "store_ok m" "heap_start m = heap_start (mem k)" "live_blocks m = (live_blocks (mem k))(s := None)"
  shows "owned (k\<lparr>mem := m\<rparr>) A'"
proof -
  have reg: "thread_regions (k\<lparr>mem := m\<rparr>) t = thread_regions k t" for t by (simp add: thread_regions_def)
  have ut: "user_threads (k\<lparr>mem := m\<rparr>) A' = user_threads k A" using A' by (simp add: user_threads_def)
  have st: "static_addr (k\<lparr>mem := m\<rparr>) p = static_addr k p" for p using m by (simp add: static_addr_def)
  have "owns_regions (k\<lparr>mem := m\<rparr>) t" "join_sem (tcbs k t) \<noteq> s" if "t \<in> user_threads k A" for t
    using ownedD(2) [OF own that] that m s(3)
    by (auto simp: owns_regions_def reg) (auto simp: thread_regions_def)
  then show ?thesis
    using own m(1) s(1,2) unfolding owned_def reg ut st A' by (auto simp: m(3))
qed

lemma handle_sem_close_rep:
  assumes rep: "krep k A" and own: "owned k A"
    and s: "s \<in> a_sems A" "live_blocks (mem k) s \<noteq> None" "\<not> (\<exists>t \<in> user_threads k A. s \<in> set (thread_regions k t))"
  obtains k' where "handle_sem_close s k = Some k'" "krep k' (a_close_sem s A)" "owned k' (a_close_sem s A)"
    "\<And>t. t \<in> set (a_queue A (Waiting s)) \<Longrightarrow> interrupted (tcbs k' t)"
    "\<And>t. t \<noteq> a_cur A \<Longrightarrow> saved (tcbs k' t) = saved (tcbs k t)" "lay k' = lay k"
    "mem_free_blocks s (mem k) = Some (MEM_SUCCESS, mem k')"
proof -
  have s0: "s \<noteq> NULL" using sem_nonnull [OF krepD(1) [OF rep] s(1)] by simp
  obtain k1 where k1: "sem_close s k = Some (CLOSE_SUCCESS, k1)" "krep k1 (a_close s A)"
    "woken True (set (a_queue A (Waiting s))) k k1"
    by (rule sem_close_rep [OF rep s(1)])
  have fr: "frame {} k k1" by (rule sem_close_frame [OF k1(1)])
  note e = frameD [OF fr]
  obtain n where "live_blocks (mem k1) s = Some n" using s(2) e(1) by auto
  from store.release_live [OF _ this] ownedD(1) [OF own] obtain m where
    m: "mem_free_blocks s (mem k1) = Some (MEM_SUCCESS, m)" "store_ok m" "live_blocks m = (live_blocks (mem k))(s := None)"
    using e(1) by auto
  have hs: "heap_start m = heap_start (mem k1)" using mem_free_start [OF m(1)] .
  have fs: "free_sem s k1 = Some (MEM_SUCCESS, k1\<lparr>mem := m\<rparr>)" using m(1) by (simp add: free_sem_def)
  have thr: "threads (a_close s A) = threads A"
    using s(1) by (auto simp: threads_split_at [of s] a_close_def run_ring_def)
  have "owned k1 (a_close s A)" by (rule owned_frame [OF own fr thr]) simp
  moreover have "s \<noteq> putc_sem (lay k1)" "s \<noteq> getc_sem (lay k1)"
    using live_not_static [OF own s(2)] ownedD(13,14) [OF own] e(2) by auto
  moreover have "\<not> (\<exists>t \<in> user_threads k1 (a_close s A). s \<in> set (thread_regions k1 t))"
    using s(3) thr e(2,3) by (auto simp: user_threads_def)
  ultimately have o2: "owned (k1\<lparr>mem := m\<rparr>) (a_close_sem s A)"
    by (intro owned_drop_sem [where s = s and A = "a_close s A"]) (use s(1) thr m hs e(1) in simp_all)
  have "krep (k1\<lparr>mem := m\<rparr>) (a_close s A)" using k1(2) by simp
  then have k2: "krep (k1\<lparr>mem := m\<rparr>) (a_close_sem s A)" unfolding a_close_sem_def by (rule krep_drop_sem)
  note a = set_a0_rep [OF k2, of "int_to_u64 CLOSE_SUCCESS"]
  let ?x = "tcbs k1 (a_cur A)"
  let ?k3 = "k1\<lparr>mem := m, tcbs := (tcbs k1)(a_cur A := ?x\<lparr>tcontext := (tcontext ?x)\<lparr>c_a0 := int_to_u64 CLOSE_SUCCESS\<rparr>\<rparr>)\<rparr>"
  have "frame {a_cur A} (k1\<lparr>mem := m\<rparr>) ?k3" by (simp add: frame_def heap_frame_def)
  from owned_frame [OF o2 this] have o3: "owned ?k3 (a_close_sem s A)" by simp
  have i: "interrupted (tcbs k1 t)" if "t \<in> set (a_queue A (Waiting s))" for t
  proof -
    have "core (tcbs k1 t) = core ((tcbs k t)\<lparr>interrupted := True\<rparr>)" using k1(3) that by (simp add: woken_def)
    from core_fields(4) [OF this] show ?thesis by simp
  qed
  have "handle_sem_close s k = Some ?k3"
    using k1(1) fs a(1) s0 by (simp add: handle_sem_close_def)
  then show ?thesis
    using a(2) o3 i e m(1) by (intro that [of ?k3]) (simp_all, auto)
qed

section \<open>thread_exit\<close>

text \<open>What a terminating thread leaves alone: every other thread.\<close>

definition others_kept :: "addr \<Rightarrow> kstate \<Rightarrow> kstate \<Rightarrow> bool" where
  "others_kept t k k' \<longleftrightarrow> lay k' = lay k \<and> heap_start (mem k') = heap_start (mem k) \<and>
     (\<forall>u. u \<noteq> t \<longrightarrow> regions_of (tcbs k' u) = regions_of (tcbs k u) \<and> saved (tcbs k' u) = saved (tcbs k u))"

lemma others_kept_trans: "others_kept t k k1 \<Longrightarrow> others_kept t k1 k2 \<Longrightarrow> others_kept t k k2"
  by (simp add: others_kept_def)

lemma frame_others: "frame X k k' \<Longrightarrow> X \<subseteq> {t} \<Longrightarrow> others_kept t k k'"
  by (auto simp: others_kept_def frame_def heap_frame_def)

lemma free_mem_others: "free_mem p k = Some k' \<Longrightarrow> others_kept t k k'"
  using mem_free_start by (auto simp: free_mem_def others_kept_def split: bind_splits)

lemma free_sem_others: "free_sem p k = Some (r, k') \<Longrightarrow> others_kept t k k'"
  using mem_free_start by (auto simp: free_sem_def others_kept_def split: bind_splits)

lemma upd_tcb_others: "upd_tcb t f k = Some k' \<Longrightarrow> others_kept t k k'"
  by (cases "t = NULL") (auto simp: others_kept_def)

lemma free_tcb_others:
  assumes "free_tcb t k = Some k'"
  shows "others_kept t k k'"
proof (cases "t \<noteq> NULL \<and> t \<noteq> main_tcb (lay k)")
  case True
  then obtain k1 k2 k3 k4 r k5 k6 where s:
    "free_mem (usr_stack (tcbs k t) - DEFAULT_STACK_SIZE) k = Some k1"
    "upd_tcb t (usr_stack_update (\<lambda>_. NULL)) k1 = Some k2" "free_mem (sys_stack (tcbs k2 t)) k2 = Some k3"
    "upd_tcb t (sys_stack_update (\<lambda>_. NULL)) k3 = Some k4" "free_sem (join_sem (tcbs k4 t)) k4 = Some (r, k5)"
    "upd_tcb t (join_sem_update (\<lambda>_. NULL)) k5 = Some k6" "free_mem t k6 = Some k'"
    using assms by (auto simp: free_tcb_def simp del: upd_tcb_nonnull split: bind_splits)
  show ?thesis
    using free_mem_others [OF s(1)] upd_tcb_others [OF s(2)] free_mem_others [OF s(3)] upd_tcb_others [OF s(4)]
      free_sem_others [OF s(5)] upd_tcb_others [OF s(6)] free_mem_others [OF s(7)] others_kept_trans by meson
qed (use assms in \<open>auto simp: free_tcb_def others_kept_def split: if_splits\<close>)

lemma thread_exit_others:
  assumes "syscall THREAD_EXIT_CODE p0 p1 p2 p3 k = Some (f, k')" "current_tcb k \<noteq> main_tcb (lay k)"
    and "current_context k = current_tcb k" "current_tcb k \<noteq> NULL" "join_sem (tcbs k (current_tcb k)) \<noteq> NULL"
  shows "others_kept (current_tcb k) k k'"
proof -
  let ?t = "current_tcb k"
  let ?k2 = "k\<lparr>tcbs := (tcbs k)(?t := (tcbs k ?t)\<lparr>status := TERMINATING, tcontext := (tcontext (tcbs k ?t))\<lparr>c_a0 := SUCCESS_SYSCALL\<rparr>\<rparr>)\<rparr>"
  have d: "dispatch KDispatch ?k2 = Some (f, k')"
    using assms by (simp add: syscall_def syscall_code_defs set_a0_def)
  then obtain r k3 k4 where s: "sem_close (join_sem (tcbs k ?t)) ?k2 = Some (r, k3)" "free_tcb ?t k3 = Some k4"
    "(let (v, k5) = next_tcb k4 in yield KDispatch NULL v (k5\<lparr>current_tcb := v\<rparr>)) = Some (f, k')"
    using assms(4,5) by (auto simp: dispatch_def Let_def split: bind_splits)
  obtain v k5 where v: "next_tcb k4 = (v, k5)" "yield KDispatch NULL v (k5\<lparr>current_tcb := v\<rparr>) = Some (f, k')"
    using s(3) by (cases "next_tcb k4") auto
  have y: "frame {} (k5\<lparr>current_tcb := v\<rparr>) k'"
    using v(2) by (auto simp: yield_def Let_def frame_def heap_frame_def split: if_splits bind_splits)
  have "others_kept ?t k ?k2" by (simp add: others_kept_def)
  from others_kept_trans [OF this frame_others [OF sem_close_frame [OF s(1), of "{}"]]]
  have "others_kept ?t k k3" by simp
  from others_kept_trans [OF this free_tcb_others [OF s(2)]] have "others_kept ?t k k4" .
  from others_kept_trans [OF this frame_others [OF next_tcb_frame [OF v(1), of "{}"]]] have "others_kept ?t k k5" by simp
  from others_kept_trans [OF this frame_others [of "{}" k5 k' ?t]] y show ?thesis by simp
qed

lemma threads_exit:
  assumes "s \<in> a_sems A" "a_queue A Ready @ a_queue A (Waiting s) \<noteq> []"
    and "\<And>q. q \<in> places A \<Longrightarrow> a_cur A \<notin> set (a_queue A q)"
  shows "threads (a_exit s A) = threads A - {a_cur A}"
    and "run_ring (a_exit s A) = a_queue A Ready @ a_queue A (Waiting s)"
proof -
  have e: "a_exit s A = a_next (a_close_sem s A)" by (simp add: a_exit_def a_close_sem_def)
  show r: "run_ring (a_exit s A) = a_queue A Ready @ a_queue A (Waiting s)"
    unfolding e using assms(2) by (subst a_next_run_ring) auto
  have "a_cur A \<notin> set (a_queue A Ready)" "a_cur A \<notin> set (a_queue A Sleeping)"
    "u \<in> a_sems A \<Longrightarrow> a_cur A \<notin> set (a_queue A (Waiting u))" for u
    using assms(3) by simp_all
  then show "threads (a_exit s A) = threads A - {a_cur A}"
    unfolding threads_split [of "a_exit s A"] threads_split_at [OF assms(1)] r
    by (auto simp: e run_ring_def assms(1) split: if_splits)
qed

lemma thread_exit_owned:
  assumes own: "owned k A" and rep: "krep k A" and t: "a_cur A \<noteq> main_tcb (lay k)"
    and Q: "a_queue A Ready \<noteq> []"
  obtains k' where "syscall THREAD_EXIT_CODE p0 p1 p2 p3 k = Some (Switches, k')"
    "krep k' (a_exit (join_sem (tcbs k (a_cur A))) A)" "owned k' (a_exit (join_sem (tcbs k (a_cur A))) A)"
    "others_kept (a_cur A) k k'"
    "live_blocks (mem k') = (live_blocks (mem k)) |` (- set (thread_regions k (a_cur A)))"
    "\<And>p. p \<in> set (a_queue A (Waiting (join_sem (tcbs k (a_cur A))))) \<Longrightarrow> interrupted (tcbs k' p)"
proof -
  let ?t = "a_cur A"
  let ?s = "join_sem (tcbs k ?t)"
  let ?A = "a_exit ?s A"
  note r = krepD [OF rep]
  have ut: "?t \<in> user_threads k A" using t by (simp add: user_threads_def threads_def)
  have s: "?s \<in> a_sems A" by (rule ownedD(3) [OF own ut])
  have s0: "?s \<noteq> NULL" using sem_nonnull [OF r(1) s] by simp
  have Q': "a_queue A Ready @ a_queue A (Waiting ?s) \<noteq> []" using Q by simp
  obtain k' where k': "syscall THREAD_EXIT_CODE p0 p1 p2 p3 k = Some (Switches, k')" "krep k' ?A"
    "store_ok (mem k')" "live_blocks (mem k') = (live_blocks (mem k)) |` (- set (thread_regions k ?t))"
    "\<And>p. p \<in> set (a_queue A (Waiting ?s)) \<Longrightarrow> interrupted (tcbs k' p)"
    using thread_exit_rep [OF rep t ownedD(2) [OF own ut] refl s Q'] by metis
  have ot: "others_kept ?t k k'"
    using thread_exit_others [OF k'(1)] t r(2-4) s0 by simp
  then have lay: "lay k' = lay k" and reg: "u \<noteq> ?t \<Longrightarrow> regions_of (tcbs k' u) = regions_of (tcbs k u)" for u
    by (simp_all add: others_kept_def)
  then have tr: "u \<noteq> ?t \<Longrightarrow> thread_regions k' u = thread_regions k u" "u \<noteq> ?t \<Longrightarrow> join_sem (tcbs k' u) = join_sem (tcbs k u)" for u
    by (simp_all add: thread_regions_def regions_of_def)
  note th = threads_exit [OF s Q' r(6)]
  have ut': "user_threads k' ?A = user_threads k A - {?t}" using th lay by (auto simp: user_threads_def)
  have sems: "a_sems ?A = a_sems A - {?s}" by (simp add: a_exit_def a_drop_sem_def)
  have tu: "?s \<in> set (thread_regions k ?t)" by (simp add: thread_regions_def)
  have other: "set (thread_regions k u) \<inter> set (thread_regions k ?t) = {}" if "u \<in> user_threads k A - {?t}" for u
    using ownedD(4) [OF own _ ut, of u] that by auto
  have hs: "heap_start (mem k') = heap_start (mem k)" using ot by (simp add: others_kept_def)
  have st: "static_addr k' p = static_addr k p" for p by (simp add: static_addr_def hs)
  have keep: "live_blocks (mem k') p = live_blocks (mem k) p" if "p \<notin> set (thread_regions k ?t)" for p
    using that by (simp add: k'(4) restrict_map_def)
  have stat: "static_addr k p \<Longrightarrow> p \<notin> set (thread_regions k ?t)" for p
    using region_live [OF own ut, of p] live_not_static [OF own, of p] by auto
  have "owns_regions k' u \<and> join_sem (tcbs k' u) \<in> a_sems ?A" if u: "u \<in> user_threads k A - {?t}" for u
  proof -
    have "live_blocks (mem k') p \<noteq> None" if "p \<in> set (thread_regions k u)" for p
    proof -
      have "p \<notin> set (thread_regions k ?t)" using other [OF u] that by blast
      then show ?thesis using keep [of p] region_live [OF own _ that] u by simp
    qed
    moreover have "join_sem (tcbs k u) \<noteq> ?s" using other [OF u] tu by (auto simp: thread_regions_def)
    ultimately show ?thesis
      using ownedD(2,3) [OF own, of u] u k'(3) tr [of u] by (auto simp: owns_regions_def sems)
  qed
  moreover have "static_addr k' v \<or> live_blocks (mem k') v \<noteq> None" if "v \<in> a_sems ?A" for v
  proof -
    have "v \<notin> set (thread_regions k ?t)" if "v \<in> a_sems A" "v \<noteq> ?s"
      using ownedD(6) [OF own that(1) ut] that(2) by auto
    then show ?thesis using ownedD(5) [OF own, of v] keep [of v] that by (auto simp: sems st)
  qed
  ultimately have "owned k' ?A"
    using own k'(3) t stat [of "putc_sem (lay k)"] stat [of "getc_sem (lay k)"] tu
    unfolding owned_def ut' sems st lay by (auto simp: tr th)
  then show ?thesis using k' ot by (intro that [of k'])
qed

section \<open>create_thread\<close>

definition a_create :: "addr \<Rightarrow> addr \<Rightarrow> sched \<Rightarrow> sched" where
  "a_create t js A = a_enq Ready t (a_new_sem js 0 A)"

lemma a_create_fields [simp]:
  "a_cur (a_create t js A) = a_cur A" "a_sems (a_create t js A) = insert js (a_sems A)"
  "run_ring (a_create t js A) = run_ring A @ [t]" "a_wake (a_create t js A) = a_wake A"
  "a_val (a_create t js A) = (a_val A)(js := 0)"
  by (simp_all add: a_create_def a_enq_def run_ring_def)

lemma threads_create: "js \<notin> a_sems A \<Longrightarrow> threads (a_create t js A) = insert t (threads A)"
  by (auto simp: a_create_def a_enq_def threads_def places_def split: if_splits)

lemma counters_ok_create: "counters_ok A \<Longrightarrow> js \<notin> a_sems A \<Longrightarrow> counters_ok (a_create t js A)"
  using counters_ok_new_sem [of A js 0] by (simp add: a_create_def a_enq_def)

text \<open>The three allocations of a thread, and the user's stack block that is handed over.\<close>

definition thread_room :: "kstate \<Rightarrow> addr \<Rightarrow> addr \<Rightarrow> addr \<Rightarrow> mem_allocator \<Rightarrow> bool" where
  "thread_room k t st js m \<longleftrightarrow> t \<noteq> NULL \<and> st \<noteq> NULL \<and> js \<noteq> NULL \<and>
     (\<exists>m1 m2. mem_alloc_blocks 6 (mem k) = Some (t, m1) \<and> mem_alloc_blocks 64 m1 = Some (st, m2) \<and>
        mem_alloc_blocks 1 m2 = Some (js, m))"

lemma owned_create:
  assumes own: "owned k A"
    and u: "live_blocks (mem k) u \<noteq> None" "\<not> kernel_owned k A u"
    and fresh: "t \<notin> threads A" "js \<notin> a_sems A" "distinct [u, st, js, t]"
      "\<forall>p \<in> {t, st, js}. live_blocks (mem k) p = None \<and> \<not> static_addr k p"
    and m: "store_ok m" "heap_start m = heap_start (mem k)"
      "live_blocks m = (live_blocks (mem k))(t \<mapsto> n1, st \<mapsto> n2, js \<mapsto> n3)"
    and x: "usr_stack x - DEFAULT_STACK_SIZE = u" "sys_stack x = st" "join_sem x = js"
    and k': "mem k' = m" "lay k' = lay k" "tcbs k' = (tcbs k)(t := x)"
    and A': "threads A' = insert t (threads A)" "a_sems A' = insert js (a_sems A)"
  shows "owned k' A'"
proof -
  have ut: "user_threads k' A' = insert t (user_threads k A)"
    using A' k' ownedD(7) [OF own] fresh(1) by (auto simp: user_threads_def)
  have tn: "t \<notin> user_threads k A" using fresh(1) by (simp add: user_threads_def)
  have reg: "thread_regions k' v = (if v = t then [u, st, js, t] else thread_regions k v)" for v
    using k' x by (simp add: thread_regions_def)
  have st: "static_addr k' p = static_addr k p" for p using m k' by (simp add: static_addr_def)
  have old: "p \<notin> {u, t, st, js}" if "p \<in> set (thread_regions k v)" "v \<in> user_threads k A" for p v
    using region_live [OF own that(2,1)] fresh(4) u(2) that by (auto simp: kernel_owned_def)
  have sem: "p \<notin> {u, t, st}" if "p \<in> a_sems A" for p
    using ownedD(5) [OF own that] fresh(4) u(2) that by (auto simp: kernel_owned_def)
  have live: "live_blocks m p \<noteq> None" if "live_blocks (mem k) p \<noteq> None \<or> p \<in> {t, st, js}" for p
    using that by (auto simp: m(3))
  have 1: "owns_regions k' v \<and> join_sem (tcbs k' v) \<in> a_sems A'" if v: "v \<in> user_threads k' A'" for v
  proof (cases "v = t")
    case True
    then show ?thesis using fresh(3) live u(1) m(1) k' x A' by (auto simp: owns_regions_def reg)
  next
    case False
    then have "v \<in> user_threads k A" using v ut by simp
    then show ?thesis
      using False ownedD(2,3) [OF own, of v] m(1) k' A' live region_live [OF own, of v]
      by (auto simp: owns_regions_def reg)
  qed
  have 2: "set (thread_regions k' v) \<inter> set (thread_regions k' w) = {}"
    if "v \<in> user_threads k' A'" "w \<in> user_threads k' A'" "v \<noteq> w" for v w
    using that old [of _ v] old [of _ w] ownedD(4) [OF own, of v w] unfolding ut by (auto simp: reg)
  have 3: "static_addr k' s \<or> live_blocks (mem k') s \<noteq> None" if "s \<in> a_sems A'" for s
    using that ownedD(5) [OF own, of s] live [of s] k' by (auto simp: st A')
  have 4: "s = join_sem (tcbs k' v)" if "s \<in> a_sems A'" "v \<in> user_threads k' A'" "s \<in> set (thread_regions k' v)" for s v
  proof (cases "v = t")
    case True
    then show ?thesis using that sem [of s] k' x by (auto simp: reg A')
  next
    case False
    then have "v \<in> user_threads k A" using that(2) ut by simp
    then show ?thesis using False that old [of s v] ownedD(6) [OF own, of s v] k' by (auto simp: reg A')
  qed
  have 5: "main_tcb (lay k) \<noteq> t" using ownedD(7) [OF own] fresh(1) by auto
  show ?thesis
    using own m(1) k' 1 2 3 4 5 unfolding owned_def st by (simp add: A')
qed

lemma handle_create_thread_rep:
  assumes rep: "krep k A" and own: "owned k A" and p: "p0 \<noteq> NULL" "p1 \<noteq> 0" "p3 \<noteq> NULL"
    and u: "live_blocks (mem k) (p3 - DEFAULT_STACK_SIZE) \<noteq> None" "\<not> kernel_owned k A (p3 - DEFAULT_STACK_SIZE)"
    and room: "thread_room k t st js m"
  obtains k' where "handle_create_thread p0 p1 p2 p3 k = Some k'" "krep k' (a_create t js A)" "owned k' (a_create t js A)"
    "user_cells k' p0 = t" "t \<notin> threads A" "js \<notin> a_sems A" "lay k' = lay k"
    "\<And>v. v \<noteq> a_cur A \<Longrightarrow> v \<noteq> t \<Longrightarrow> saved (tcbs k' v) = saved (tcbs k v)"
    "c_a0 (tcontext (tcbs k' (a_cur A))) = SUCCESS_SYSCALL"
    "resume (tcbs k' t) = KStart" "body (tcbs k' t) = p1" "args (tcbs k' t) = p2"
    "c_usr_sp (tcontext (tcbs k' t)) = p3" "c_sys_sp (tcontext (tcbs k' t)) = st + DEFAULT_STACK_SIZE"
    "time_slice (tcbs k' t) = DEFAULT_TIME_SLICE" "mem k' = m"
proof -
  obtain m1 m2 where al: "mem_alloc_blocks 6 (mem k) = Some (t, m1)" "mem_alloc_blocks 64 m1 = Some (st, m2)"
    "mem_alloc_blocks 1 m2 = Some (js, m)" "t \<noteq> NULL" "st \<noteq> NULL" "js \<noteq> NULL"
    using room by (auto simp: thread_room_def)
  note f1 = fresh_not_owned [OF own al(1) _ al(4), simplified]
  note f2 = fresh_not_owned [OF f1(5), simplified, OF al(2) _ al(5), simplified]
  note f3 = fresh_not_owned [OF f2(5), simplified, OF al(3) _ al(6), simplified]
  note s1 = mem_alloc_start [OF al(1)] and s2 = mem_alloc_start [OF al(2)] and s3 = mem_alloc_start [OF al(3)]
  have js: "js \<notin> a_sems A" using f3(1) by (auto simp: kernel_owned_def)
  let ?u = "p3 - DEFAULT_STACK_SIZE" and ?x = "fresh_tcb p1 p2 p3 st js k (tcbs k t)"
  let ?k1 = "k\<lparr>mem := m, sems := (sems k)(js := new_sem 0), tcbs := (tcbs k)(t := ?x)\<rparr>" and ?A1 = "a_new_sem js 0 A"
  have c: "create_tcb p1 p2 p3 k = Some (t, ?k1)" by (rule create_tcb_some [OF p(2,3) al(1,4,2,5,3,6)])
  have live: "live_blocks m = (live_blocks (mem k))(t \<mapsto> 6, st \<mapsto> 64, js \<mapsto> 1)"
    using f1(8) f2(8) f3(8) by simp
  have dist: "distinct [?u, st, js, t]" using u(1) f1(2,8) f2(2,8) f3(2) by (auto split: if_splits)
  have none: "\<forall>p \<in> {t, st, js}. live_blocks (mem k) p = None \<and> \<not> static_addr k p"
    using f1(2,4,8) f2(2,4,8) f3(2,4) s1 s2 by (auto simp: static_addr_def split: if_splits)
  have o1: "owned ?k1 (a_create t js A)"
    by (rule owned_create [OF own u f1(3) js dist none f3(7) _ live, where x = ?x])
      (use s1 s2 s3 threads_create [OF js] in \<open>simp_all add: fresh_tcb_def\<close>)
  have tq: "t \<notin> set (a_queue ?A1 q)" if "q \<in> places ?A1" for q
    using that f1(3) by (auto simp: threads_def)
  note r = krepD [OF rep]
  have "krep0 (k\<lparr>sems := (sems k)(js := new_sem 0)\<rparr>) ?A1" using krep0_new_sem [OF r(1) js al(6), of 0] by simp
  from krep0_upd_tcb [OF this tq, of ?x]
  have "krep0 (k\<lparr>sems := (sems k)(js := new_sem 0), tcbs := (tcbs k)(t := ?x)\<rparr>) ?A1" by simp
  then have k1: "krep0 (?k1\<lparr>user_cells := (user_cells k)(p0 := t)\<rparr>) ?A1" by (rule krep0_cong) simp_all
  let ?k2 = "?k1\<lparr>user_cells := (user_cells k)(p0 := t)\<rparr>"
  obtain l h where h: "put_tcb t ?k2 = Some (?k2\<lparr>tcbs := h, sched_queue := l\<rparr>)"
    "krep0 (?k2\<lparr>tcbs := h, sched_queue := l\<rparr>) (a_create t js A)"
    "payload_eq h ((tcbs ?k2)(t := (tcbs ?k2 t)\<lparr>status := READY\<rparr>))"
    unfolding a_create_def by (rule put_tcb_rep [OF k1 al(4) tq])
  let ?k3 = "?k2\<lparr>tcbs := h, sched_queue := l\<rparr>"
  have ct: "a_cur A \<noteq> t" using f1(3) by (auto simp: threads_def)
  have k3: "krep ?k3 (a_create t js A)"
    by (rule krep_from_krep0 [OF rep h(2)])
      (use payload_eqD(8) [OF h(3), of "a_cur A"] ct r(6) in \<open>auto simp: a_create_def a_enq_def split: if_splits\<close>)
  have o3: "owned ?k3 (a_create t js A)"
    using owned_frame [OF _ put_tcb_frame [OF h(1)], of "a_create t js A"] o1 by simp
  note a = set_a0_rep [OF k3, of SUCCESS_SYSCALL, unfolded a_create_fields(1)]
  let ?y = "h (a_cur A)"
  let ?k4 = "?k3\<lparr>tcbs := h(a_cur A := ?y\<lparr>tcontext := (tcontext ?y)\<lparr>c_a0 := SUCCESS_SYSCALL\<rparr>\<rparr>)\<rparr>"
  have "frame {a_cur A} ?k3 ?k4" by (simp add: frame_def heap_frame_def)
  from owned_frame [OF o3 this] have o4: "owned ?k4 (a_create t js A)" by simp
  have ok: "handle_create_thread p0 p1 p2 p3 k = Some ?k4"
    using c h(1) a(1) p(1) al(4) by (simp add: handle_create_thread_def)
  have sv: "saved (tcbs ?k4 v) = saved (tcbs k v)" if "v \<noteq> a_cur A" "v \<noteq> t" for v
    using payload_eqD [OF h(3), of v] that by (simp add: saved_def)
  show ?thesis
    using ok a(2) o4 f1(3) js sv payload_eqD [OF h(3), of t] ct
    by (intro that [of ?k4]) (simp_all add: fresh_tcb_def)
qed

end
