(* ===== verification/Console_Flush.thy ===== *)
theory Console_Flush
  imports Kernel_Owner
begin

text \<open>
  The console's output: flush_putc_buffer sends the characters of the output buffer, oldest first,
  as long as the console's transmitter is ready, and signals the buffer's semaphore once per
  character.
\<close>

unbundle bit_operations_syntax

section \<open>How far one flush goes\<close>

text \<open>The number of characters sent when \<open>n\<close> are in the buffer: the transmitter is asked once per character.\<close>

fun tx_ready :: "(nat \<Rightarrow> u8) \<Rightarrow> nat \<Rightarrow> nat" where
  "tx_ready stat 0 = 0"
| "tx_ready stat (Suc n) = (if stat 0 AND CONSOLE_TX_STATUS_BIT \<noteq> 0 then Suc (tx_ready (\<lambda>i. stat (Suc i)) n) else 0)"

lemma tx_ready_le: "tx_ready stat n \<le> n"
  by (induction stat n rule: tx_ready.induct) auto

lemma tx_ready_all: "(\<And>i. i < n \<Longrightarrow> stat i AND CONSOLE_TX_STATUS_BIT \<noteq> 0) \<Longrightarrow> tx_ready stat n = n"
  by (induction stat n rule: tx_ready.induct) auto

definition a_signals :: "addr \<Rightarrow> nat \<Rightarrow> sched \<Rightarrow> sched" where
  "a_signals s n A = (a_signal s ^^ n) A"

lemma a_signals_simps [simp]: "a_signals s 0 A = A" "a_signals s (Suc n) A = a_signals s n (a_signal s A)"
  by (simp_all add: a_signals_def funpow_swap1)

lemma a_signal_fields [simp]:
  "a_sems (a_signal s A) = a_sems A" "a_cur (a_signal s A) = a_cur A" "a_val (a_signal s A) = (a_val A)(s := a_val A s + 1)"
  "a_wake (a_signal s A) = a_wake A"
  by (auto simp: a_signal_def a_unblock_def a_enq_def Let_def split: list.splits)

lemma a_signals_fields [simp]:
  "a_sems (a_signals s n A) = a_sems A" "a_cur (a_signals s n A) = a_cur A"
  "a_val (a_signals s n A) = (a_val A)(s := a_val A s + int n)"
  by (induction n arbitrary: A) auto

lemma threads_signals [simp]: "s \<in> a_sems A \<Longrightarrow> threads (a_signals s n A) = threads A"
  by (induction n arbitrary: A) simp_all

lemma run_ring_signals: "set (run_ring A) \<subseteq> set (run_ring (a_signals s n A))"
proof (induction n arbitrary: A)
  case (Suc n)
  have "set (run_ring A) \<subseteq> set (run_ring (a_signal s A))"
    by (auto simp: run_ring_def a_signal_def a_unblock_def a_enq_def Let_def split: list.splits)
  with Suc [of "a_signal s A"] show ?case by simp
qed simp

section \<open>The loop\<close>

lemma flush_loop_rep:
  assumes "krep k A" "counters_ok A" "putc_sem (lay k) \<in> a_sems A"
    "n = tx_ready stat (q_get_length (putc_buffer k))" "a_val A (putc_sem (lay k)) + int n < 2 ^ 31"
  obtains k' where "flush_loop stat k = Some k'" "krep k' (a_signals (putc_sem (lay k)) n A)"
    "counters_ok (a_signals (putc_sem (lay k)) n A)" "frame {} k k'" "cpu_of k' = cpu_of k" "getc_buffer k' = getc_buffer k"
    "q_get_length (putc_buffer k') = q_get_length (putc_buffer k) - n"
    "q_inv IO_BUFFER_SIZE (putc_buffer k) \<Longrightarrow> q_inv IO_BUFFER_SIZE (putc_buffer k') \<and>
       tx_out k' = tx_out k @ take n (q_contents IO_BUFFER_SIZE (putc_buffer k)) \<and>
       q_contents IO_BUFFER_SIZE (putc_buffer k') = drop n (q_contents IO_BUFFER_SIZE (putc_buffer k))"
  using assms
proof (induction n arbitrary: stat k A thesis)
  case 0
  then have "\<not> (0 < q_get_length (putc_buffer k) \<and> stat 0 AND CONSOLE_TX_STATUS_BIT \<noteq> 0)"
    using "0.prems"(5) by (cases "q_get_length (putc_buffer k)") (auto split: if_splits)
  then have "flush_loop stat k = Some k" by (subst flush_loop.simps) auto
  then show ?case using 0 by (intro "0.prems"(1)) simp_all
next
  case (Suc n)
  let ?s = "putc_sem (lay k)"
  obtain m where m: "q_get_length (putc_buffer k) = Suc m" "stat 0 AND CONSOLE_TX_STATUS_BIT \<noteq> 0"
    "n = tx_ready (\<lambda>i. stat (Suc i)) m"
    using Suc.prems(5) by (cases "q_get_length (putc_buffer k)") (auto split: if_splits)
  obtain c q where q: "q_get IO_BUFFER_SIZE (putc_buffer k) = (c, q)" by (cases "q_get IO_BUFFER_SIZE (putc_buffer k)")
  have len: "q_get_length q = m" using q m(1) by (auto simp: q_get_def q_get_length_def)
  let ?k1 = "k\<lparr>tx_out := tx_out k @ [c], putc_buffer := q\<rparr>"
  have k1: "krep ?k1 A" using Suc.prems(2) by simp
  obtain k2 where k2: "sem_signal ?s ?k1 = Some (SIGNAL_SUCCESS, k2)" "krep k2 (a_signal ?s A)"
    "woken False (if a_queue A (Waiting ?s) = [] then {} else {hd (a_queue A (Waiting ?s))})
       (set_value ?s (sem_value (sems ?k1 ?s) + 1) ?k1) k2"
    by (rule sem_signal_rep [OF k1 Suc.prems(4)]) (use Suc.prems(6) counters_okD [OF Suc.prems(3,4)] in auto)
  have e: "lay k2 = lay k" "putc_buffer k2 = q" "getc_buffer k2 = getc_buffer k" "tx_out k2 = tx_out k @ [c]" "cpu_of k2 = cpu_of k"
    using k2(3) by (simp_all add: woken_def env_eq_def)
  have co: "counters_ok (a_signal ?s A)" by (rule counters_ok_signal [OF Suc.prems(3)])
  obtain k' where k': "flush_loop (\<lambda>i. stat (Suc i)) k2 = Some k'" "krep k' (a_signals ?s n (a_signal ?s A))"
    "counters_ok (a_signals ?s n (a_signal ?s A))" "frame {} k2 k'" "cpu_of k' = cpu_of k2" "getc_buffer k' = getc_buffer k2"
    "q_get_length (putc_buffer k') = q_get_length (putc_buffer k2) - n"
    "q_inv IO_BUFFER_SIZE (putc_buffer k2) \<Longrightarrow> q_inv IO_BUFFER_SIZE (putc_buffer k') \<and>
       tx_out k' = tx_out k2 @ take n (q_contents IO_BUFFER_SIZE (putc_buffer k2)) \<and>
       q_contents IO_BUFFER_SIZE (putc_buffer k') = drop n (q_contents IO_BUFFER_SIZE (putc_buffer k2))"
    using Suc.IH [OF _ k2(2) co, of "\<lambda>i. stat (Suc i)"] Suc.prems(4,6) m(3) len e by (simp add: algebra_simps) metis
  have go: "flush_loop stat k = Some k'" using m q k2(1) k'(1) by (subst flush_loop.simps) (simp add: q_get_length_def)
  have fr: "frame {} k k'" using frame_trans_same [OF _ k'(4), of k] sem_signal_frame [OF k2(1), of "{}"] by (simp add: frame_def)
  have fifo: "q_inv IO_BUFFER_SIZE (putc_buffer k') \<and>
       tx_out k' = tx_out k @ take (Suc n) (q_contents IO_BUFFER_SIZE (putc_buffer k)) \<and>
       q_contents IO_BUFFER_SIZE (putc_buffer k') = drop (Suc n) (q_contents IO_BUFFER_SIZE (putc_buffer k))"
    if "q_inv IO_BUFFER_SIZE (putc_buffer k)"
    using q_get_some [OF that] q m(1) k'(8) e by (auto simp: q_get_length_def simp flip: q_get_some(2) [OF that])
  show ?case using go k' fr fifo e m(1) len by (intro Suc.prems(1) [of k']) simp_all
qed

lemma flush_putc_buffer_rep:
  assumes "krep k A" "counters_ok A" "putc_sem (lay k) \<in> a_sems A"
    "n = tx_ready stat (q_get_length (putc_buffer k))" "a_val A (putc_sem (lay k)) + int n < 2 ^ 31"
  obtains k' where "flush_putc_buffer stat k = Some k'" "krep k' (a_signals (putc_sem (lay k)) n A)"
    "counters_ok (a_signals (putc_sem (lay k)) n A)" "frame {} k k'" "cpu_of k' = cpu_of k" "getc_buffer k' = getc_buffer k"
    "q_get_length (putc_buffer k') = q_get_length (putc_buffer k) - n"
    "q_inv IO_BUFFER_SIZE (putc_buffer k) \<Longrightarrow> q_inv IO_BUFFER_SIZE (putc_buffer k') \<and>
       tx_out k' = tx_out k @ take n (q_contents IO_BUFFER_SIZE (putc_buffer k)) \<and>
       q_contents IO_BUFFER_SIZE (putc_buffer k') = drop n (q_contents IO_BUFFER_SIZE (putc_buffer k))"
proof -
  let ?k0 = "k\<lparr>cpu_of := (cpu_of k)\<lparr>csr_sstatus := csr_sstatus (cpu_of k) AND NOT 0x02\<rparr>\<rparr>"
  obtain k1 where k1: "flush_loop stat ?k0 = Some k1" "krep k1 (a_signals (putc_sem (lay k)) n A)"
    "counters_ok (a_signals (putc_sem (lay k)) n A)" "frame {} ?k0 k1" "cpu_of k1 = cpu_of ?k0" "getc_buffer k1 = getc_buffer k"
    "q_get_length (putc_buffer k1) = q_get_length (putc_buffer k) - n"
    "q_inv IO_BUFFER_SIZE (putc_buffer k) \<Longrightarrow> q_inv IO_BUFFER_SIZE (putc_buffer k1) \<and>
       tx_out k1 = tx_out k @ take n (q_contents IO_BUFFER_SIZE (putc_buffer k)) \<and>
       q_contents IO_BUFFER_SIZE (putc_buffer k1) = drop n (q_contents IO_BUFFER_SIZE (putc_buffer k))"
    by (rule flush_loop_rep [of ?k0 A n stat]) (use assms in simp_all)
  show ?thesis
    using k1 by (intro that [of "k1\<lparr>cpu_of := cpu_of k\<rparr>"]) (simp_all add: flush_putc_buffer_def Let_def)
qed

end
