(* ===== verification/User_API.thy ===== *)
theory User_API
  imports Trap_Handlers
begin

text \<open>
  The library that user programs call: src/syscall_c.cpp, the C++ classes of src/thread.cpp,
  src/semaphore.cpp, src/periodic_thread.cpp and src/cpp_allocators.cpp, and the console of
  src/console.cpp.  The machine below it is the record \<open>platform\<close>: the ecall instruction as
  the calling thread sees it, and the words of memory in which C++ objects and static variables live.
  \<open>None\<close> means that nothing runs on after the call: it blocks, panics or faults.  Boot tells the
  three apart for the kernel's own ecall (\<open>kernel_call\<close>).
\<close>

type_synonym 's ecall = "u64 \<Rightarrow> u64 \<Rightarrow> u64 \<Rightarrow> u64 \<Rightarrow> u64 \<Rightarrow> 's \<Rightarrow> (u64 \<times> 's) option"

record 's platform =
  pf_ecall :: "'s ecall"
  pf_load :: "addr \<Rightarrow> 's \<Rightarrow> u64"
  pf_store :: "addr \<Rightarrow> u64 \<Rightarrow> 's \<Rightarrow> 's"
  pf_sem_initialize :: "addr \<Rightarrow> u32 \<Rightarrow> 's \<Rightarrow> 's option"
  pf_console_sem :: addr
  pf_console_initialized :: addr

definition to_c_int :: "u64 \<Rightarrow> int" where
  "to_c_int r = sint (ucast r :: 32 word)"

section \<open>src/syscall_c.cpp\<close>

definition k_system_call ::
  "'s platform \<Rightarrow> u64 \<Rightarrow> u64 \<Rightarrow> u64 \<Rightarrow> u64 \<Rightarrow> u64 \<Rightarrow> 's \<Rightarrow> (u64 \<times> 's) option" where
  "k_system_call pf a0 a1 a2 a3 a4 s = pf_ecall pf a0 a1 a2 a3 a4 s"

definition mem_alloc :: "'s platform \<Rightarrow> u64 \<Rightarrow> 's \<Rightarrow> (addr \<times> 's) option" where
  "mem_alloc pf n_bytes s = k_system_call pf MEM_ALLOC_CODE (ucast (to_blocks n_bytes)) 0 0 0 s"

abbreviation (input) int_result :: "(u64 \<times> 's) option \<Rightarrow> (int \<times> 's) option" where
  "int_result r \<equiv> map_option (map_prod to_c_int id) r"

definition mem_free :: "'s platform \<Rightarrow> addr \<Rightarrow> 's \<Rightarrow> (int \<times> 's) option" where
  "mem_free pf address s = int_result (k_system_call pf MEM_FREE_CODE address 0 0 0 s)"

definition thread_create :: "'s platform \<Rightarrow> addr \<Rightarrow> u64 \<Rightarrow> u64 \<Rightarrow> 's \<Rightarrow> (int \<times> 's) option" where
  "thread_create pf handle start_routine arg s =
     (if handle \<noteq> NULL \<and> start_routine \<noteq> 0 then do {
        (stack_space, s1) \<leftarrow> mem_alloc pf DEFAULT_STACK_SIZE s;
        (if stack_space \<noteq> NULL
         then int_result (k_system_call pf CREATE_THREAD_CODE handle start_routine arg
                            (stack_space + DEFAULT_STACK_SIZE) s1)
         else Some (-1, s1))
      }
      else Some (-1, s))"

definition thread_exit :: "'s platform \<Rightarrow> 's \<Rightarrow> (int \<times> 's) option" where
  "thread_exit pf s = int_result (k_system_call pf THREAD_EXIT_CODE 0 0 0 0 s)"

definition thread_dispatch :: "'s platform \<Rightarrow> 's \<Rightarrow> 's option" where
  "thread_dispatch pf s = map_option snd (k_system_call pf THREAD_DISPATCH_CODE 0 0 0 0 s)"

definition thread_join :: "'s platform \<Rightarrow> addr \<Rightarrow> 's \<Rightarrow> 's option" where
  "thread_join pf handle s =
     (if handle \<noteq> NULL then map_option snd (k_system_call pf THREAD_JOIN_CODE handle 0 0 0 s) else Some s)"

definition sem_open :: "'s platform \<Rightarrow> addr \<Rightarrow> u32 \<Rightarrow> 's \<Rightarrow> (int \<times> 's) option" where
  "sem_open pf handle init s =
     (if handle \<noteq> NULL then int_result (k_system_call pf SEM_OPEN_CODE handle (ucast init) 0 0 s)
      else Some (-1, s))"

definition sem_close_call :: "'s platform \<Rightarrow> addr \<Rightarrow> 's \<Rightarrow> (int \<times> 's) option" where
  "sem_close_call pf handle s =
     (if handle \<noteq> NULL then int_result (k_system_call pf SEM_CLOSE_CODE handle 0 0 0 s) else Some (-1, s))"

definition sem_wait_call :: "'s platform \<Rightarrow> addr \<Rightarrow> 's \<Rightarrow> (int \<times> 's) option" where
  "sem_wait_call pf handle s =
     (if handle \<noteq> NULL then int_result (k_system_call pf SEM_WAIT_CODE handle 0 0 0 s) else Some (-1, s))"

definition sem_signal_call :: "'s platform \<Rightarrow> addr \<Rightarrow> 's \<Rightarrow> (int \<times> 's) option" where
  "sem_signal_call pf handle s =
     (if handle \<noteq> NULL then int_result (k_system_call pf SEM_SIGNAL_CODE handle 0 0 0 s) else Some (-1, s))"

definition time_sleep :: "'s platform \<Rightarrow> u64 \<Rightarrow> 's \<Rightarrow> (int \<times> 's) option" where
  "time_sleep pf ticks s =
     (if ticks > 0 then int_result (k_system_call pf TIME_SLEEP_CODE ticks 0 0 0 s) else Some (-1, s))"

definition putc :: "'s platform \<Rightarrow> u8 \<Rightarrow> 's \<Rightarrow> 's option" where
  "putc pf c s = map_option snd (k_system_call pf PUT_C_CODE (ucast c) 0 0 0 s)"

definition getc :: "'s platform \<Rightarrow> 's \<Rightarrow> (u8 \<times> 's) option" where
  "getc pf s = map_option (map_prod ucast id) (k_system_call pf GET_C_CODE 0 0 0 0 s)"

definition set_user_mode :: "'s platform \<Rightarrow> 's \<Rightarrow> (int \<times> 's) option" where
  "set_user_mode pf s = int_result (k_system_call pf USER_MODE_CODE 0 0 0 0 s)"

text \<open>k_tcb_run_wrapper of src/k_tcb.cpp: \<open>run f x\<close> is a call of the function at \<open>f\<close>.\<close>

definition k_tcb_run_wrapper ::
  "kstate platform \<Rightarrow> (u64 \<Rightarrow> u64 \<Rightarrow> kstate \<Rightarrow> kstate option) \<Rightarrow> kstate \<Rightarrow> (int \<times> kstate) option" where
  "k_tcb_run_wrapper pf run k = do {
     t \<leftarrow> deref (tcbs k) (current_tcb k);
     k1 \<leftarrow> run (body t) (args t) k;
     thread_exit pf k1
   }"

section \<open>The C++ classes\<close>

definition operator_new :: "'s platform \<Rightarrow> u64 \<Rightarrow> 's \<Rightarrow> (addr \<times> 's) option" where
  "operator_new pf bytes s = mem_alloc pf bytes s"

definition operator_new_array :: "'s platform \<Rightarrow> u64 \<Rightarrow> 's \<Rightarrow> (addr \<times> 's) option" where
  "operator_new_array pf bytes s = mem_alloc pf bytes s"

definition operator_delete :: "'s platform \<Rightarrow> addr \<Rightarrow> 's \<Rightarrow> 's option" where
  "operator_delete pf address s = map_option snd (mem_free pf address s)"

definition operator_delete_array :: "'s platform \<Rightarrow> addr \<Rightarrow> 's \<Rightarrow> 's option" where
  "operator_delete_array pf address s = map_option snd (mem_free pf address s)"

text \<open>Offsets of the members, behind the pointer to the virtual table.\<close>

definition off_myHandle :: u64 where "off_myHandle = 8"
definition off_body :: u64 where "off_body = 16"
definition off_arg :: u64 where "off_arg = 24"
definition off_period :: u64 where "off_period = 32"

definition THREAD_ALREADY_STARTED :: int where "THREAD_ALREADY_STARTED = -1"

definition Thread_ctor :: "'s platform \<Rightarrow> addr \<Rightarrow> u64 \<Rightarrow> u64 \<Rightarrow> 's \<Rightarrow> 's" where
  "Thread_ctor pf this bdy ags s =
     pf_store pf (this + off_arg) ags (pf_store pf (this + off_body) bdy (pf_store pf (this + off_myHandle) 0 s))"

text \<open>The constructor for derived classes: \<open>run_fn\<close> is the lambda that calls the virtual run().\<close>

definition Thread_ctor_run :: "'s platform \<Rightarrow> u64 \<Rightarrow> addr \<Rightarrow> 's \<Rightarrow> 's" where
  "Thread_ctor_run pf run_fn this s = Thread_ctor pf this run_fn this s"

definition Thread_start :: "'s platform \<Rightarrow> addr \<Rightarrow> 's \<Rightarrow> (int \<times> 's) option" where
  "Thread_start pf this s =
     (if pf_load pf (this + off_myHandle) s = 0
      then thread_create pf (this + off_myHandle) (pf_load pf (this + off_body) s) (pf_load pf (this + off_arg) s) s
      else Some (THREAD_ALREADY_STARTED, s))"

definition Thread_join :: "'s platform \<Rightarrow> addr \<Rightarrow> 's \<Rightarrow> 's option" where
  "Thread_join pf this s = thread_join pf (pf_load pf (this + off_myHandle) s) s"

definition Thread_dispatch :: "'s platform \<Rightarrow> 's \<Rightarrow> 's option" where
  "Thread_dispatch pf s = thread_dispatch pf s"

definition Thread_sleep :: "'s platform \<Rightarrow> u64 \<Rightarrow> 's \<Rightarrow> (int \<times> 's) option" where
  "Thread_sleep pf n_ticks s = time_sleep pf n_ticks s"

definition Thread_dtor :: "'s platform \<Rightarrow> addr \<Rightarrow> 's \<Rightarrow> 's option" where
  "Thread_dtor pf this s = Thread_join pf this s"

definition Semaphore_ctor :: "'s platform \<Rightarrow> addr \<Rightarrow> u32 \<Rightarrow> 's \<Rightarrow> 's option" where
  "Semaphore_ctor pf this init s = map_option snd (sem_open pf (this + off_myHandle) init s)"

definition Semaphore_dtor :: "'s platform \<Rightarrow> addr \<Rightarrow> 's \<Rightarrow> 's option" where
  "Semaphore_dtor pf this s = map_option snd (sem_close_call pf (pf_load pf (this + off_myHandle) s) s)"

definition Semaphore_wait :: "'s platform \<Rightarrow> addr \<Rightarrow> 's \<Rightarrow> (int \<times> 's) option" where
  "Semaphore_wait pf this s = sem_wait_call pf (pf_load pf (this + off_myHandle) s) s"

definition Semaphore_signal :: "'s platform \<Rightarrow> addr \<Rightarrow> 's \<Rightarrow> (int \<times> 's) option" where
  "Semaphore_signal pf this s = sem_signal_call pf (pf_load pf (this + off_myHandle) s) s"

text \<open>
  The body of a periodic thread: \<open>activation\<close> is the virtual periodicActivation().
\<close>

partial_function (option) periodic_body ::
  "'s platform \<Rightarrow> ('s \<Rightarrow> 's option) \<Rightarrow> addr \<Rightarrow> 's \<Rightarrow> 's option" where
  "periodic_body pf activation p_thr s =
     (if p_thr \<noteq> NULL \<and> pf_load pf (p_thr + off_period) s > 0 then do {
        s1 \<leftarrow> activation s;
        (r, s2) \<leftarrow> time_sleep pf (pf_load pf (p_thr + off_period) s1) s1;
        periodic_body pf activation p_thr s2
      }
      else Some s)"

definition PeriodicThread_ctor :: "'s platform \<Rightarrow> u64 \<Rightarrow> addr \<Rightarrow> u64 \<Rightarrow> 's \<Rightarrow> 's" where
  "PeriodicThread_ctor pf loop_fn this period s =
     pf_store pf (this + off_period) period (Thread_ctor pf this loop_fn this s)"

definition PeriodicThread_terminate :: "'s platform \<Rightarrow> addr \<Rightarrow> 's \<Rightarrow> 's option" where
  "PeriodicThread_terminate pf this s = Thread_join pf this (pf_store pf (this + off_period) 0 s)"

section \<open>src/console.cpp\<close>

definition console_lock :: "'s platform \<Rightarrow> 's \<Rightarrow> 's option" where
  "console_lock pf s = do {
     s1 \<leftarrow> (if pf_load pf (pf_console_initialized pf) s = 0 then do {
              s1 \<leftarrow> pf_sem_initialize pf (pf_console_sem pf) 1 s;
              Some (pf_store pf (pf_console_initialized pf) 1 s1)
            }
            else Some s);
     (r, s2) \<leftarrow> sem_wait_call pf (pf_console_sem pf) s1;
     Some s2
   }"

definition console_unlock :: "'s platform \<Rightarrow> 's \<Rightarrow> 's option" where
  "console_unlock pf s = map_option snd (sem_signal_call pf (pf_console_sem pf) s)"

definition Console_getc :: "'s platform \<Rightarrow> 's \<Rightarrow> (u8 \<times> 's) option" where
  "Console_getc pf s = getc pf s"

definition Console_putc :: "'s platform \<Rightarrow> u8 \<Rightarrow> 's \<Rightarrow> 's option" where
  "Console_putc pf c s = putc pf c s"

text \<open>The characters before the terminating null character.\<close>

fun put_all :: "'s platform \<Rightarrow> u8 list \<Rightarrow> 's \<Rightarrow> 's option" where
  "put_all pf [] s = Some s"
| "put_all pf (c # cs) s = do { s1 \<leftarrow> Console_putc pf c s; put_all pf cs s1 }"

definition Console_print_string :: "'s platform \<Rightarrow> u8 list \<Rightarrow> u8 \<Rightarrow> 's \<Rightarrow> 's option" where
  "Console_print_string pf message end_char s = do {
     s1 \<leftarrow> console_lock pf s;
     s2 \<leftarrow> put_all pf (takeWhile (\<lambda>c. c \<noteq> 0) message) s1;
     s3 \<leftarrow> Console_putc pf end_char s2;
     console_unlock pf s3
   }"

function print_digits :: "'s platform \<Rightarrow> u64 \<Rightarrow> u64 \<Rightarrow> 's \<Rightarrow> 's option" where
  "print_digits pf number weight s =
     (if weight \<noteq> 0 then
        (case Console_putc pf (48 + ucast ((number div weight) mod 10)) s of
           None \<Rightarrow> None
         | Some s1 \<Rightarrow> print_digits pf number (weight div 10) s1)
      else Some s)"
  by pat_completeness auto
termination
  by (relation "measure (\<lambda>(pf, number, weight, s). unat weight)")
    (auto simp: unat_div unat_gt_0 intro: div_less_dividend)

declare print_digits.simps [simp del]

definition Console_print_uint64 :: "'s platform \<Rightarrow> u64 \<Rightarrow> u8 \<Rightarrow> 's \<Rightarrow> 's option" where
  "Console_print_uint64 pf number end_char s = do {
     let weight = get_decimal_weight number;
     s1 \<leftarrow> console_lock pf s;
     s2 \<leftarrow> print_digits pf number weight s1;
     s3 \<leftarrow> Console_putc pf end_char s2;
     console_unlock pf s3
   }"

definition DELETE_KEY :: u8 where "DELETE_KEY = 127"
definition ENTER_KEY :: u8 where "ENTER_KEY = 13"

text \<open>
  get_string writes into the array at \<open>str\<close> through the memory of the platform, one cell for each
  character: \<open>str[i]\<close> is the cell at \<open>str + i\<close>, whatever \<open>i\<close> is, and the tests read the character back from it.
\<close>

definition char_at :: "'s platform \<Rightarrow> addr \<Rightarrow> int \<Rightarrow> 's \<Rightarrow> u8" where
  "char_at pf str i s = ucast (pf_load pf (str + word_of_int i) s)"

definition set_char :: "'s platform \<Rightarrow> addr \<Rightarrow> int \<Rightarrow> u8 \<Rightarrow> 's \<Rightarrow> 's" where
  "set_char pf str i c s = pf_store pf (str + word_of_int i) (ucast c) s"

partial_function (option) read_line ::
  "'s platform \<Rightarrow> addr \<Rightarrow> int \<Rightarrow> int \<Rightarrow> 's \<Rightarrow> 's option" where
  "read_line pf str max_length i s =
     (if i < max_length \<and> str \<noteq> NULL then do {
        (c, s1) \<leftarrow> Console_getc pf s;
        let s2 = set_char pf str i c s1;
        (if char_at pf str i s2 = DELETE_KEY then do {
           s3 \<leftarrow> (if i > 0 then put_all pf [8, 32, 8] s2 else Some s2);
           read_line pf str max_length ((if i \<ge> 2 then i - 2 else -1) + 1) s3
         }
         else if char_at pf str i s2 = ENTER_KEY then Console_putc pf 10 (set_char pf str i 0 s2)
         else do {
           s3 \<leftarrow> Console_putc pf (char_at pf str i s2) s2;
           read_line pf str max_length (i + 1) s3
         })
      }
      else Some s)"

text \<open>The terminator is written before the address is tested: without memory that is a fault.\<close>

definition Console_get_string :: "'s platform \<Rightarrow> int \<Rightarrow> 's \<Rightarrow> (addr \<times> 's) option" where
  "Console_get_string pf max_length s = do {
     (str, s1) \<leftarrow> operator_new_array pf (word_of_int (max_length + 1)) s;
     (if str = NULL then None
      else do {
        s2 \<leftarrow> console_lock pf (set_char pf str max_length 0 s1);
        s3 \<leftarrow> read_line pf str max_length 0 s2;
        s4 \<leftarrow> console_unlock pf s3;
        Some (str, s4)
      })
   }"

end
