(* ===== verification/Boot.thy ===== *)
theory Boot
  imports User_API

begin

text \<open>
  src/main.cpp and the initialisation of the scheduler: the kernel's own use of its system calls
  before interrupts are enabled, and the kernel as the platform of the library.
\<close>

section \<open>The kernel as a platform\<close>

text \<open>
  What the board supplies around an ecall: the addresses of the flush loop and of
  k_tcb_run_wrapper, the cause that the hardware records, the address of the instruction, and the
  console's status register during a panic.
\<close>

record board =
  bd_run_wrapper :: u64
  bd_flush_loop :: u64
  bd_cause :: u64
  bd_epc :: u64
  bd_stat :: "nat \<Rightarrow> u8"

definition enter_ecall :: "board \<Rightarrow> u64 \<Rightarrow> u64 \<Rightarrow> u64 \<Rightarrow> u64 \<Rightarrow> u64 \<Rightarrow> cpu \<Rightarrow> cpu" where
  "enter_ecall bd a0 a1 a2 a3 a4 c =
     c\<lparr>regs := (regs c)(X_a0 := a0, X_a1 := a1, X_a2 := a2, X_a3 := a3, X_a4 := a4, X_a5 := 0, X_a6 := 0, X_a7 := 0),
       csr_scause := bd_cause bd, csr_sepc := bd_epc bd\<rparr>"

text \<open>
  How a system call ends for the thread that makes it: it comes back with the value of a0, another thread
  runs, or the kernel halts.  \<open>None\<close> is a fault of the kernel (and an endless loop).
\<close>

datatype call_end = Comes_back u64 | Gives_up | Panics

definition kernel_call ::
  "board \<Rightarrow> u64 \<Rightarrow> u64 \<Rightarrow> u64 \<Rightarrow> u64 \<Rightarrow> u64 \<Rightarrow> kstate \<Rightarrow> (call_end \<times> kstate) option" where
  "kernel_call bd a0 a1 a2 a3 a4 k = do {
     (f, k1) \<leftarrow> k_ecall_trap (bd_run_wrapper bd) (bd_stat bd) (bd_stat bd)
                  (k\<lparr>cpu_of := enter_ecall bd a0 a1 a2 a3 a4 (cpu_of k)\<rparr>);
     Some (case f of
        Halts \<Rightarrow> Panics
      | _ \<Rightarrow> if current_tcb k1 = current_tcb k then Comes_back (regs (cpu_of k1) X_a0) else Gives_up, k1)
   }"

text \<open>What the caller can go on with: the calls that come back.\<close>

definition kernel_ecall :: "board \<Rightarrow> kstate ecall" where
  "kernel_ecall bd a0 a1 a2 a3 a4 k =
     (case kernel_call bd a0 a1 a2 a3 a4 k of Some (Comes_back r, k1) \<Rightarrow> Some (r, k1) | _ \<Rightarrow> None)"

definition kernel_platform :: "board \<Rightarrow> addr \<Rightarrow> addr \<Rightarrow> kstate platform" where
  "kernel_platform bd console_sem console_initialized =
    \<lparr>pf_ecall = kernel_ecall bd,
     pf_load = (\<lambda>p k. user_cells k p),
     pf_store = (\<lambda>p v k. k\<lparr>user_cells := (user_cells k)(p := v)\<rparr>),
     pf_sem_initialize = (\<lambda>p v k. sem_initialize p v k),
     pf_console_sem = console_sem,
     pf_console_initialized = console_initialized\<rparr>"

section \<open>Initialisation\<close>

definition scheduler_initialize :: "board \<Rightarrow> kstate platform \<Rightarrow> kstate \<Rightarrow> kstate option" where
  "scheduler_initialize bd pf k =
     (if user_cells k (flush_tcb_cell (lay k)) = 0
      then map_option snd (thread_create pf (flush_tcb_cell (lay k)) (bd_flush_loop bd) 0 k)
      else Some k)"

text \<open>The body of the internal thread: one round of flush_putc_loop.\<close>

definition flush_putc_round :: "(nat \<Rightarrow> u8) \<Rightarrow> kstate platform \<Rightarrow> kstate \<Rightarrow> kstate option" where
  "flush_putc_round stat pf k = do { k1 \<leftarrow> flush_putc_buffer stat k; thread_dispatch pf k1 }"

text \<open>main() up to the point where interrupts are enabled; then tests and userMain run.\<close>

definition main_boot :: "board \<Rightarrow> kstate platform \<Rightarrow> kstate \<Rightarrow> kstate option" where
  "main_boot bd pf k = do {
     let k0 = k\<lparr>cpu_of := (cpu_of k)\<lparr>csr_stvec := addr_k_intr_table (lay k) OR 1\<rparr>\<rparr>;
     (st, m) \<leftarrow> mem_alloc_blocks (to_blocks DEFAULT_STACK_SIZE) (mem k0);
     k1 \<leftarrow> upd_tcb (main_tcb (lay k)) (\<lambda>x. x\<lparr>sys_stack := st,
              tcontext := (tcontext x)\<lparr>c_sys_sp := st + DEFAULT_STACK_SIZE\<rparr>\<rparr>) (k0\<lparr>mem := m\<rparr>);
     k2 \<leftarrow> sem_initialize (putc_sem (lay k)) (of_nat IO_BUFFER_SIZE) k1;
     k3 \<leftarrow> sem_initialize (getc_sem (lay k)) 0 k2;
     k4 \<leftarrow> scheduler_initialize bd pf k3;
     Some (k4\<lparr>cpu_of := (cpu_of k4)\<lparr>csr_sie := 0x202, csr_sstatus := csr_sstatus (cpu_of k4) OR 0x02\<rparr>\<rparr>)
   }"

text \<open>
  start_userMain: the Thread object at \<open>this\<close> (on the stack of main) runs the lambda at
  \<open>user_fn\<close> and is joined.
\<close>

definition start_userMain :: "kstate platform \<Rightarrow> u64 \<Rightarrow> addr \<Rightarrow> kstate \<Rightarrow> kstate option" where
  "start_userMain pf user_fn this k = do {
     let k1 = Thread_ctor pf this user_fn 0 k;
     (r, k2) \<leftarrow> Thread_start pf this k1;
     k3 \<leftarrow> Thread_join pf this k2;
     Thread_dtor pf this k3
   }"

text \<open>
  The lambda of start_userMain, whose address is \<open>user_fn\<close>, and main from its first line to its
  last.  userMain comes from the program that is linked with the kernel, and the kernel tests that
  main may run first are a program as well; both are arguments.
\<close>

definition user_main_thread :: "'s platform \<Rightarrow> ('s \<Rightarrow> 's option) \<Rightarrow> 's \<Rightarrow> 's option" where
  "user_main_thread pf userMain s = do { (r, s1) \<leftarrow> set_user_mode pf s; userMain s1 }"

definition main_program ::
  "board \<Rightarrow> kstate platform \<Rightarrow> (kstate \<Rightarrow> kstate option) \<Rightarrow> u64 \<Rightarrow> addr \<Rightarrow> kstate \<Rightarrow> kstate option" where
  "main_program bd pf run_tests user_fn this k = do {
     k1 \<leftarrow> main_boot bd pf k;
     k2 \<leftarrow> run_tests k1;
     start_userMain pf user_fn this k2
   }"

end
