(* ===== verification/Kernel_Run.thy ===== *)
theory Kernel_Run
  imports Kernel_Life Console_Flush Boot
begin

text \<open>
  Runs of the whole kernel: user code computes, the timer and the console interrupt, the running
  thread makes system calls, and the kernel's own thread flushes the output (its loop body masks the
  interrupts, so a flush is one event, and its dispatch is a system call).  \<open>kinv f k A\<close> is the invariant of the system, where
  \<open>f\<close> is a thread that never blocks (the kernel's own flushing thread);
  \<open>permitted f k A e\<close> is what the kernel relies on for an event: valid handles, counters
  that do not overflow, memory for the objects that are created, and an address for a new handle that
  is the null pointer or a word outside the kernel's own memory, which the kernel writes unchecked.
\<close>

section \<open>Events\<close>

datatype event =
    Compute cpu "addr \<Rightarrow> u64"
  | Timer_interrupt
  | Console_interrupt u8 u8
  | Ecall u64 u64 u64 u64 u64
  | Flush "nat \<Rightarrow> u8"

definition run_event :: "board \<Rightarrow> event \<Rightarrow> kstate \<Rightarrow> kstate option" where
  "run_event bd e k =
     (case e of
        Compute c u \<Rightarrow> Some (k\<lparr>cpu_of := c, user_cells := u\<rparr>)
      | Timer_interrupt \<Rightarrow> map_option snd (k_timer_trap (bd_run_wrapper bd) k)
      | Console_interrupt stat data \<Rightarrow> map_option snd (k_console_trap (bd_run_wrapper bd) stat data k)
      | Ecall code p0 p1 p2 p3 \<Rightarrow>
          map_option snd (k_ecall_trap (bd_run_wrapper bd) (bd_stat bd) (bd_stat bd)
            (k\<lparr>cpu_of := enter_ecall bd code p0 p1 p2 p3 (cpu_of k)\<rparr>))
      | Flush stat \<Rightarrow> flush_putc_buffer stat k)"

definition board_ok :: "board \<Rightarrow> bool" where
  "board_ok bd \<longleftrightarrow> bd_cause bd = SCAUSE_ECALL_USER \<or> bd_cause bd = SCAUSE_ECALL_SUPERVISOR"

definition may_block :: "addr \<Rightarrow> sched \<Rightarrow> addr \<Rightarrow> bool" where
  "may_block f A s \<longleftrightarrow> a_cur A \<noteq> f \<and> s \<in> a_sems A \<and> - (2 ^ 31) < a_val A s"

definition may_signal :: "sched \<Rightarrow> addr \<Rightarrow> bool" where
  "may_signal A s \<longleftrightarrow> s \<in> a_sems A \<and> a_val A s < 2 ^ 31 - 1"

text \<open>
  create_thread and sem_open write the handle to the address that the program gives, and the kernel does not
  check it: the word must not lie in an object of the kernel or in a free block.  (The other static variables
  of the kernel have no address in this model; they must be spared as well.)
\<close>

definition object_bytes :: "addr \<Rightarrow> nat \<Rightarrow> nat set" where
  "object_bytes p n = {unat p ..< unat p + n}"

definition heap_memory :: "mem_allocator \<Rightarrow> nat set" where
  "heap_memory a = object_bytes (heap_start a) (64 * length (alloc_table a))"

definition live_memory :: "mem_allocator \<Rightarrow> nat set" where
  "live_memory a = (\<Union>p n. if live_blocks a p = Some n then object_bytes p (64 * n) else {})"

definition kernel_memory :: "kstate \<Rightarrow> sched \<Rightarrow> nat set" where
  "kernel_memory k A =
     (\<Union>t \<in> threads A. object_bytes t (unat sizeof_TCB) \<union> object_bytes (sys_stack (tcbs k t)) (unat DEFAULT_STACK_SIZE)) \<union>
     (\<Union>s \<in> a_sems A. object_bytes s (unat sizeof_Sem)) \<union> (heap_memory (mem k) - live_memory (mem k))"

definition handle_word :: "kstate \<Rightarrow> sched \<Rightarrow> addr \<Rightarrow> bool" where
  "handle_word k A p \<longleftrightarrow> object_bytes p 8 \<inter> kernel_memory k A = {}"

definition may_call :: "addr \<Rightarrow> kstate \<Rightarrow> sched \<Rightarrow> u64 \<Rightarrow> u64 \<Rightarrow> u64 \<Rightarrow> u64 \<Rightarrow> bool" where
  "may_call f k A code p0 p1 p3 \<longleftrightarrow>
     (code = MEM_FREE_CODE \<longrightarrow> free_looks_up (mem k) p0 \<and> \<not> kernel_owned k A p0) \<and>
     (code = CREATE_THREAD_CODE \<longrightarrow> p0 = NULL \<or> p1 = 0 \<or> p3 = NULL \<or>
        live_blocks (mem k) (p3 - DEFAULT_STACK_SIZE) \<noteq> None \<and> \<not> kernel_owned k A (p3 - DEFAULT_STACK_SIZE) \<and>
        (mem_alloc_blocks 6 (mem k) = Some (NULL, mem k) \<or> (\<exists>t st js m. thread_room k t st js m))) \<and>
     (code = THREAD_EXIT_CODE \<longrightarrow> a_cur A \<noteq> f) \<and>
     (code = THREAD_JOIN_CODE \<longrightarrow> p0 = NULL \<or> p0 = main_tcb (lay k) \<or>
        p0 \<in> threads A \<and> may_block f A (join_sem (tcbs k p0))) \<and>
     (code = SEM_OPEN_CODE \<longrightarrow> p0 = NULL \<or>
        0 \<le> sint (ucast p1 :: u32) \<and> (\<exists>s m. mem_alloc_blocks 1 (mem k) = Some (s, m) \<and> s \<noteq> NULL)) \<and>
     (code = SEM_CLOSE_CODE \<longrightarrow> p0 = NULL \<or>
        p0 \<in> a_sems A \<and> live_blocks (mem k) p0 \<noteq> None \<and> \<not> (\<exists>t \<in> user_threads k A. p0 \<in> set (thread_regions k t))) \<and>
     (code = SEM_WAIT_CODE \<longrightarrow> p0 = NULL \<or> may_block f A p0) \<and>
     (code = SEM_SIGNAL_CODE \<longrightarrow> p0 = NULL \<or> may_signal A p0) \<and>
     (code = TIME_SLEEP_CODE \<longrightarrow> p0 = 0 \<or> a_cur A \<noteq> f) \<and>
     (code = GET_C_CODE \<longrightarrow> may_block f A (getc_sem (lay k))) \<and>
     (code = PUT_C_CODE \<longrightarrow> may_block f A (putc_sem (lay k))) \<and>
     (code = CREATE_THREAD_CODE \<or> code = SEM_OPEN_CODE \<longrightarrow> p0 = NULL \<or> handle_word k A p0)"

definition permitted :: "addr \<Rightarrow> kstate \<Rightarrow> sched \<Rightarrow> event \<Rightarrow> bool" where
  "permitted f k A e \<longleftrightarrow>
     (case e of
        Compute c u \<Rightarrow> True
      | Timer_interrupt \<Rightarrow> True
      | Console_interrupt stat data \<Rightarrow> may_signal A (getc_sem (lay k))
      | Ecall code p0 p1 p2 p3 \<Rightarrow> may_call f k A code p0 p1 p3
      | Flush stat \<Rightarrow> a_val A (putc_sem (lay k)) + int (tx_ready stat (q_get_length (putc_buffer k))) < 2 ^ 31)"

definition kinv :: "addr \<Rightarrow> kstate \<Rightarrow> sched \<Rightarrow> bool" where
  "kinv f k A \<longleftrightarrow> krep k A \<and> counters_ok A \<and> owned k A \<and> f \<in> set (run_ring A)"

lemma kinvD:
  assumes "kinv f k A"
  shows "krep k A" "counters_ok A" "owned k A" "f \<in> set (run_ring A)"
    "a_cur A \<noteq> f \<Longrightarrow> a_queue A Ready \<noteq> []"
  using assms by (auto simp: kinv_def run_ring_def)

section \<open>What a handler leaves behind\<close>

text \<open>The program counter and the status of the current thread's context are in the registers.\<close>

definition restored :: "kstate \<Rightarrow> bool" where
  "restored k \<longleftrightarrow> csr_sepc (cpu_of k) = c_sepc (tcontext (tcbs k (current_tcb k))) \<and>
     csr_sstatus (cpu_of k) = c_sstatus (tcontext (tcbs k (current_tcb k)))"

definition kept :: "sched \<Rightarrow> kstate \<Rightarrow> kstate \<Rightarrow> bool" where
  "kept A k k' \<longleftrightarrow> lay k' = lay k \<and> (\<forall>t \<in> threads A. t \<noteq> a_cur A \<longrightarrow> saved (tcbs k' t) = saved (tcbs k t))"

definition handled :: "sched set \<Rightarrow> addr \<Rightarrow> kstate \<Rightarrow> sched \<Rightarrow> (unit flow \<times> kstate) option \<Rightarrow> bool" where
  "handled S f k A r \<longleftrightarrow> (\<exists>fl k1 A1. r = Some (fl, k1) \<and> A1 \<in> S \<and> kinv f k1 A1 \<and> kept A k k1 \<and>
     (case fl of
        Returns _ \<Rightarrow> a_cur A1 = a_cur A
      | Switches \<Rightarrow> restored k1 \<and> (a_queue A Ready \<noteq> [] \<longrightarrow> a_cur A1 = hd (a_queue A Ready))
      | Halts \<Rightarrow> False))"

text \<open>Every switch goes to the thread at the head of the ready queue.\<close>

lemma a_next_head: "a_queue A Ready = t # ts \<Longrightarrow> a_cur (a_next A) = t"
  by (simp add: a_next_def)

lemma switch_heads:
  assumes "a_queue A Ready \<noteq> []"
  shows "a_cur (a_dispatch A) = hd (a_queue A Ready)"
    and "\<not> 0 < a_val A s \<Longrightarrow> a_cur (a_wait s A) = hd (a_queue A Ready)"
    and "a_cur (a_next (a_sleep t n A)) = hd (a_queue A Ready)"
    and "a_cur (a_exit s A) = hd (a_queue A Ready)"
proof -
  obtain t ts where ts: "a_queue A Ready = t # ts" using assms by (cases "a_queue A Ready") auto
  show "a_cur (a_dispatch A) = hd (a_queue A Ready)"
    using ts a_next_head [of "a_enq Ready (a_cur A) A" t "ts @ [a_cur A]"] by (simp add: a_dispatch_def a_enq_def)
  show "a_cur (a_wait s A) = hd (a_queue A Ready)" if "\<not> 0 < a_val A s"
    using that ts by (simp add: a_wait_def Let_def a_next_def a_enq_def)
  show "a_cur (a_next (a_sleep t n A)) = hd (a_queue A Ready)" for t
    using ts by (simp add: a_sleep_def Let_def a_next_def)
  show "a_cur (a_exit s A) = hd (a_queue A Ready)"
    using ts by (simp add: a_exit_def a_next_def a_drop_sem_def a_close_def)
qed

lemma handled_returns:
  "r = Some (Returns (), k1) \<Longrightarrow> kinv f k1 A1 \<Longrightarrow> kept A k k1 \<Longrightarrow> a_cur A1 = a_cur A \<Longrightarrow> A1 \<in> S \<Longrightarrow> handled S f k A r"
  by (auto simp: handled_def)

lemma handled_switches:
  "r = Some (Switches, k1) \<Longrightarrow> kinv f k1 A1 \<Longrightarrow> kept A k k1 \<Longrightarrow> restored k1 \<Longrightarrow> A1 \<in> S \<Longrightarrow>
   (a_queue A Ready \<noteq> [] \<Longrightarrow> a_cur A1 = hd (a_queue A Ready)) \<Longrightarrow> handled S f k A r"
  by (auto simp: handled_def)

lemma frame_kept: "frame {a_cur A} k k' \<Longrightarrow> kept A k k'"
  by (auto simp: kept_def frame_def heap_frame_def)

lemma kept_trans: "kept A k k1 \<Longrightarrow> frame {a_cur A} k1 k2 \<Longrightarrow> kept A k k2"
  by (auto simp: kept_def frame_def heap_frame_def)

lemma others_kept_kept: "others_kept (a_cur A) k k' \<Longrightarrow> kept A k k'"
  by (simp add: kept_def others_kept_def)

lemma yield_restored: "yield cont old new k = Some (Switches, k') \<Longrightarrow> current_tcb k = new \<Longrightarrow> restored k'"
  by (auto simp: yield_def Let_def restored_def save_context_def k_restore_context_def upd_tcb_def store_at_def
      split: if_splits bind_splits)

lemma switch_away_restored:
  "(let (t, k1) = next_tcb k in yield cont old t (k1\<lparr>current_tcb := t\<rparr>)) = Some (Switches, k') \<Longrightarrow> restored k'"
  using yield_restored by (auto split: prod.splits)

lemma dispatch_restored: "dispatch cont k = Some (Switches, k') \<Longrightarrow> restored k'"
  using switch_away_restored [of _ cont] unfolding dispatch_def Let_def
  by (auto split: bind_splits)

lemma sem_wait_restored:
  assumes "sem_wait cont s k = Some (Switches, k')"
  shows "restored k'"
proof -
  obtain k1 where "sem_block cont s k1 = Some (Switches, k')"
    using assms by (auto simp: sem_wait_def split: if_splits bind_splits flow.splits)
  then show ?thesis
    using switch_away_restored [of _ cont] by (auto simp: sem_block_def Option.bind_eq_Some_conv Let_def)
qed

section \<open>Scheduling steps keep the invariant\<close>

lemma kinv_step:
  assumes "kinv f k A" "frame X k k1" "krep k1 A1" "threads A1 = threads A" "a_sems A1 = a_sems A"
    "counters_ok A1" "f \<in> set (run_ring A1)"
  shows "kinv f k1 A1"
  using assms(3,6,7) owned_frame [OF kinvD(3) [OF assms(1)] assms(2,4,5)] by (simp add: kinv_def)

lemma run_ring_tick: "f \<in> set (run_ring A) \<Longrightarrow> f \<in> set (run_ring (a_tick A))"
  by (auto simp: run_ring_def a_tick_def Let_def)

lemma run_ring_signal: "f \<in> set (run_ring A) \<Longrightarrow> f \<in> set (run_ring (a_signal s A))"
  by (auto simp: run_ring_def a_signal_def a_unblock_def a_enq_def Let_def split: list.splits)

lemma run_ring_dispatch: "f \<in> set (run_ring A) \<Longrightarrow> f \<in> set (run_ring (a_dispatch A))"
  by (simp add: a_dispatch_ring)

lemma run_ring_wait:
  assumes "f \<in> set (run_ring A)" "a_cur A \<noteq> f"
  shows "f \<in> set (run_ring (a_wait s A))"
proof -
  have f: "f \<in> set (a_queue A Ready)" using assms by (simp add: run_ring_def)
  then have "a_queue A Ready \<noteq> []" by auto
  then show ?thesis
    using f a_next_run_ring [of "a_enq (Waiting s) (a_cur A) (A\<lparr>a_val := (a_val A)(s := a_val A s - 1)\<rparr>)"]
    by (auto simp: a_wait_def Let_def a_enq_def) (simp add: run_ring_def)
qed

lemma run_ring_sleep:
  assumes "f \<in> set (run_ring A)" "a_cur A \<noteq> f"
  shows "f \<in> set (run_ring (a_next (a_sleep (a_cur A) n A)))"
proof -
  have f: "f \<in> set (a_queue A Ready)" using assms by (simp add: run_ring_def)
  then have "a_queue (a_sleep (a_cur A) n A) Ready \<noteq> []" by auto
  from a_next_run_ring [OF this] show ?thesis using f by simp
qed

lemma kinv_irrelevant [simp]:
  "kinv f (k\<lparr>cpu_of := c\<rparr>) A = kinv f k A" "kinv f (k\<lparr>user_cells := u\<rparr>) A = kinv f k A"
  "kinv f (k\<lparr>timer_ticks := n\<rparr>) A = kinv f k A" "kinv f (k\<lparr>putc_buffer := q\<rparr>) A = kinv f k A"
  "kinv f (k\<lparr>getc_buffer := q\<rparr>) A = kinv f k A"
  by (simp_all add: kinv_def owned_def user_threads_def static_addr_def owns_regions_def thread_regions_def)

lemma kinv_set_a0:
  assumes "kinv f k A"
  obtains k' where "set_a0 v k = Some k'" "kinv f k' A" "frame {a_cur A} k k'"
proof -
  note a = set_a0_rep [OF kinvD(1) [OF assms], of v]
  have fr: "frame {a_cur A} k (the (set_a0 v k))"
    using set_a0_frame [OF a(1)] a(1) krepD(3) [OF kinvD(1) [OF assms]] by simp
  have "kinv f (the (set_a0 v k)) A"
    by (rule kinv_step [OF assms fr]) (use a kinvD [OF assms] in simp_all)
  then show ?thesis using that [OF _ _ fr] a(1) by simp
qed

lemma handled_set_a0:
  assumes "kinv f k1 A1" "kept A k k1" "a_cur A1 = a_cur A" "A1 \<in> S"
  shows "handled S f k A (map_option (Pair (Returns ())) (set_a0 v k1))"
proof -
  obtain k' where k': "set_a0 v k1 = Some k'" "kinv f k' A1" "frame {a_cur A} k1 k'"
    using kinv_set_a0 [OF assms(1)] assms(3) by metis
  then show ?thesis
    using kept_trans [OF assms(2) k'(3)] assms(3,4) by (intro handled_returns [where ?k1.0 = k' and ?A1.0 = A1]) simp_all
qed

lemma kept_refl [simp]: "kept A k k"
  by (simp add: kept_def)

lemma handled_dispatch:
  assumes inv: "kinv f k A"
  shows "handled {a_dispatch A} f k A (dispatch cont k)"
proof -
  note rep = kinvD(1) [OF inv]
  obtain k' where k': "dispatch cont k = Some (Switches, k')" "krep k' (a_dispatch A)"
    by (rule dispatch_rep [OF rep, where cont = cont])
  have fr: "frame {a_cur A} k k'"
    using dispatch_frame [OF k'(1)] krepD(2,5) [OF rep] by simp
  have "kinv f k' (a_dispatch A)"
    by (rule kinv_step [OF inv fr k'(2)])
      (use kinvD [OF inv] in \<open>simp_all add: a_dispatch_ring counters_ok_dispatch\<close>)
  then show ?thesis using k'(1) frame_kept [OF fr] dispatch_restored switch_heads(1) [of A] by (intro handled_switches) auto
qed

lemma kinv_signal:
  assumes inv: "kinv f k A" and s: "may_signal A s"
  obtains k' where "sem_signal s k = Some (SIGNAL_SUCCESS, k')" "kinv f k' (a_signal s A)" "frame {} k k'"
proof -
  obtain k' where k': "sem_signal s k = Some (SIGNAL_SUCCESS, k')" "krep k' (a_signal s A)"
    by (rule sem_signal_rep [OF kinvD(1) [OF inv], of s])
      (use s counters_okD [OF kinvD(2) [OF inv], of s] in \<open>auto simp: may_signal_def\<close>)
  have sems: "a_sems (a_signal s A) = a_sems A"
    by (auto simp: a_signal_def a_unblock_def a_enq_def Let_def split: list.splits)
  have "kinv f k' (a_signal s A)"
    by (rule kinv_step [OF inv sem_signal_frame [OF k'(1)] k'(2)])
      (use s sems kinvD [OF inv] counters_ok_signal run_ring_signal in \<open>auto simp: may_signal_def\<close>)
  then show ?thesis using that k'(1) sem_signal_frame [OF k'(1)] by blast
qed

lemma after_wait_some:
  assumes inv: "kinv f k A"
  obtains k' where "after_wait cont r k = Some k'" "kinv f k' A" "frame {a_cur A} k k'"
proof -
  have cc: "current_context k = a_cur A" using krepD(3) [OF kinvD(1) [OF inv]] .
  obtain c q where q: "q_get IO_BUFFER_SIZE (getc_buffer k) = (c, q)" by (cases "q_get IO_BUFFER_SIZE (getc_buffer k)")
  have "kinv f (k\<lparr>getc_buffer := q\<rparr>) A" using inv by simp
  then have "\<exists>k'. set_a0 (ucast c) (k\<lparr>getc_buffer := q\<rparr>) = Some k' \<and> kinv f k' A"
    "\<exists>k'. set_a0 (int_to_u64 r) k = Some k' \<and> kinv f k' A"
    using inv by (metis kinv_set_a0)+
  then have "\<exists>k'. after_wait cont r k = Some k' \<and> kinv f k' A"
    by (cases cont) (simp_all add: after_wait_def q inv)
  then show ?thesis using that after_wait_frame cc by metis
qed

lemma handled_wait:
  assumes inv: "kinv f k A" and s: "may_block f A s"
  shows "handled {a_wait s A} f k A (wait_then cont s k)"
proof -
  note rep = kinvD(1) [OF inv]
  have s': "s \<in> a_sems A" "- (2 ^ 31) < a_val A s" "a_cur A \<noteq> f" using s by (simp_all add: may_block_def)
  have Q: "a_queue A Ready \<noteq> []" by (rule kinvD(5) [OF inv s'(3)])
  have cur: "current_tcb k = a_cur A" using krepD(2) [OF rep] .
  have sems: "a_sems (a_wait s A) = a_sems A" by (simp add: a_wait_def Let_def a_enq_def)
  have thr: "threads (a_wait s A) = threads A" using Q s' by simp
  have step: "kinv f k1 (a_wait s A)" if "sem_wait cont s k = Some (g, k1)" "krep k1 (a_wait s A)" for g k1
    by (rule kinv_step [OF inv sem_wait_frame [OF that(1)] that(2) thr sems])
      (use kinvD [OF inv] counters_ok_wait run_ring_wait s' in auto)
  show ?thesis
  proof (cases "0 < a_val A s")
    case True
    let ?k1 = "k\<lparr>sems := (sems k)(s := (sems k s)\<lparr>sem_value := sem_value (sems k s) - 1\<rparr>)\<rparr>"
    have w: "sem_wait cont s k = Some (Returns WAIT_SUCCESS, ?k1)" "krep ?k1 (a_wait s A)"
      using sem_wait_pass [OF rep s'(1) True] by auto
    have ac: "a_cur (a_wait s A) = a_cur A" using True by (simp add: a_wait_def)
    obtain k2 where k2: "after_wait cont WAIT_SUCCESS ?k1 = Some k2" "kinv f k2 (a_wait s A)" "frame {a_cur A} ?k1 k2"
      using after_wait_some [OF step [OF w]] ac by metis
    show ?thesis
      by (rule handled_returns [OF _ k2(2) _ ac])
        (use w(1) k2 frame_kept in \<open>auto simp: wait_then_def\<close>)
  next
    case False
    obtain k1 where w: "sem_wait cont s k = Some (Switches, k1)" "krep k1 (a_wait s A)"
      using sem_wait_block [OF rep s'(1) _ s'(2) Q, where cont = cont] False by (metis not_less)
    have "frame {a_cur A} k k1" using sem_wait_frame [OF w(1)] cur by simp
    then show ?thesis
      using w(1) step [OF w] frame_kept sem_wait_restored [OF w(1)] switch_heads(2) [OF Q False]
      by (intro handled_switches [where ?k1.0 = k1]) (auto simp: wait_then_def)
  qed
qed

lemma handled_sleep:
  assumes inv: "kinv f k A" and n: "0 < p0" "a_cur A \<noteq> f"
  shows "handled {a_next (a_sleep (a_cur A) (unat p0) A)} f k A (syscall TIME_SLEEP_CODE p0 p1 p2 p3 k)"
proof -
  note rep = kinvD(1) [OF inv] and Q = kinvD(5) [OF inv n(2)]
  let ?A = "a_next (a_sleep (a_cur A) (unat p0) A)"
  obtain k' where k': "syscall TIME_SLEEP_CODE p0 p1 p2 p3 k = Some (Switches, k')" "krep k' ?A"
    using syscall_sleep_rep [OF rep n(1) Q] by metis
  obtain k1 k2 where s: "put_to_sleep (current_tcb k) p0 k = Some k1" "set_a0 SUCCESS_SYSCALL k1 = Some k2"
    "dispatch KDispatch k2 = Some (Switches, k')"
    using k'(1) n(1) by (auto simp: syscall_def syscall_code_defs split: bind_splits)
  obtain k1' where p: "put_to_sleep (a_cur A) p0 k = Some k1'"
    "\<And>q. status (tcbs k1' q) = (if q = a_cur A then SUSPENDED else status (tcbs k q))"
    "current_tcb k1' = current_tcb k" "current_context k1' = current_context k"
    by (rule put_to_sleep_rep [OF krepD(1,4,6) [OF rep] n(1)]) auto
  note cur = krepD(2,3,4) [OF rep]
  have k1: "current_tcb k1 = a_cur A" "current_context k1 = a_cur A" "status (tcbs k1 (a_cur A)) = SUSPENDED"
    using p s(1) cur by auto
  then have k2: "current_tcb k2 = a_cur A" "status (tcbs k2 (a_cur A)) = SUSPENDED"
    using s(2) cur by (auto simp: set_a0_def)
  have "frame {a_cur A} k k1" by (rule put_to_sleep_frame [OF s(1)])
  moreover have "frame {a_cur A} k1 k2" using set_a0_frame [OF s(2)] k1 by simp
  moreover have "frame {a_cur A} k2 k'" using dispatch_frame [OF s(3)] k2 by simp
  ultimately have fr: "frame {a_cur A} k k'" using frame_trans_same by blast
  have "counters_ok ?A" using counters_ok_sleep [OF kinvD(2) [OF inv]] by simp
  then have "kinv f k' ?A"
    using run_ring_sleep [OF kinvD(4) [OF inv] n(2)] Q
    by (intro kinv_step [OF inv fr k'(2)]) (simp_all, simp add: a_sleep_def Let_def)
  then show ?thesis using k'(1) frame_kept [OF fr] dispatch_restored [OF s(3)] switch_heads(3) [OF Q]
    by (intro handled_switches) auto
qed

section \<open>Memory and life cycle\<close>

lemma kinv_mem:
  assumes inv: "kinv f k A" and m: "store_ok m" "heap_start m = heap_start (mem k)"
    and live: "\<And>p. kernel_owned k A p \<Longrightarrow> live_blocks (mem k) p \<noteq> None \<Longrightarrow> live_blocks m p \<noteq> None"
  shows "kinv f (k\<lparr>mem := m\<rparr>) A"
  using kinvD [OF inv] owned_mem [OF kinvD(3) [OF inv] m live] by (simp add: kinv_def)

lemma kept_irrelevant [simp]:
  "kept A k (k1\<lparr>mem := m\<rparr>) = kept A k k1" "kept A k (k1\<lparr>cpu_of := c\<rparr>) = kept A k k1"
  "kept A (k\<lparr>cpu_of := c\<rparr>) k1 = kept A k k1" "kept A (k\<lparr>timer_ticks := n\<rparr>) k1 = kept A k k1"
  by (simp_all add: kept_def)

lemma handled_alloc:
  assumes inv: "kinv f k A"
  shows "handled {A} f k A (syscall MEM_ALLOC_CODE p0 p1 p2 p3 k)"
proof -
  note own = kinvD(3) [OF inv]
  let ?n = "ucast p0 :: u32"
  have "\<exists>p m. mem_alloc_blocks ?n (mem k) = Some (p, m) \<and> kinv f (k\<lparr>mem := m\<rparr>) A"
  proof (cases "?n = 0")
    case True
    obtain segs where "alloc_rep (mem k) segs" using ownedD(1) [OF own] by (auto simp: store_ok_def)
    from mem_alloc_zero [OF this] obtain p where "mem_alloc_blocks ?n (mem k) = Some (p, mem k)"
      using True by auto
    then show ?thesis using inv by auto
  next
    case False
    then have n: "0 < ?n" by (simp add: word_gt_0)
    obtain p m where a: "mem_alloc_blocks ?n (mem k) = Some (p, m)"
      using store.alloc_total [OF ownedD(1) [OF own] n] by blast
    have "store_ok m \<and> (\<forall>q. live_blocks (mem k) q \<noteq> None \<longrightarrow> live_blocks m q \<noteq> None)"
      using store.alloc_live [OF ownedD(1) [OF own] n a] store.alloc_fail [OF ownedD(1) [OF own] n] a ownedD(1) [OF own]
      by (cases "p = NULL") auto
    then have "kinv f (k\<lparr>mem := m\<rparr>) A" using kinv_mem [OF inv _ mem_alloc_start [OF a]] by blast
    then show ?thesis using a by blast
  qed
  then obtain p m where a: "mem_alloc_blocks ?n (mem k) = Some (p, m)" "kinv f (k\<lparr>mem := m\<rparr>) A" by blast
  have "handled {A} f k A (map_option (Pair (Returns ())) (set_a0 p (k\<lparr>mem := m\<rparr>)))"
    by (rule handled_set_a0 [OF a(2)]) simp_all
  then show ?thesis using a(1) by (simp add: syscall_def syscall_code_defs)
qed

lemma handled_free:
  assumes inv: "kinv f k A" and p: "free_looks_up (mem k) p0" "\<not> kernel_owned k A p0"
  shows "handled {A} f k A (syscall MEM_FREE_CODE p0 p1 p2 p3 k)"
proof -
  obtain r m where m: "mem_free_blocks p0 (mem k) = Some (r, m)" "store_ok m"
    "live_blocks m = (if r = MEM_SUCCESS then (live_blocks (mem k))(p0 := None) else live_blocks (mem k))"
    by (rule mem_free_total [OF ownedD(1) [OF kinvD(3) [OF inv]] p(1)])
  have "kinv f (k\<lparr>mem := m\<rparr>) A"
    by (rule kinv_mem [OF inv m(2) mem_free_start [OF m(1)]]) (use p(2) m(3) in \<open>auto split: if_splits\<close>)
  from handled_set_a0 [OF this, of A k "{A}" "int_to_u64 r"] show ?thesis
    using m(1) by (simp add: syscall_def syscall_code_defs)
qed

lemma room_sem:
  "mem_alloc_blocks 1 (mem k) = Some (s, m) \<Longrightarrow> s \<noteq> NULL \<Longrightarrow> owned k A \<Longrightarrow> s \<notin> a_sems A"
  using fresh_not_owned(1) [of k A 1 s m] by (auto simp: kernel_owned_def)

lemma handled_sem_open:
  assumes inv: "kinv f k A" and p: "0 \<le> sint (ucast p1 :: u32)" "mem_alloc_blocks 1 (mem k) = Some (s, m)" "s \<noteq> NULL" "p0 \<noteq> NULL"
  shows "handled {a_new_sem s (sint (ucast p1 :: u32)) A} f k A (syscall SEM_OPEN_CODE p0 p1 p2 p3 k)"
proof -
  let ?A = "a_new_sem s (sint (ucast p1 :: u32)) A"
  obtain k' where k': "handle_sem_open p0 p1 k = Some k'" "krep k' ?A" "owned k' ?A" "s \<notin> a_sems A"
    "\<And>t. t \<noteq> a_cur A \<Longrightarrow> saved (tcbs k' t) = saved (tcbs k t)" "lay k' = lay k"
    using handle_sem_open_rep [OF kinvD(1,3) [OF inv] p(4,2,3), of p1] by metis
  have "kinv f k' ?A"
    using k'(2-4) kinvD(2,4) [OF inv] counters_ok_new_sem [OF _ k'(4) p(1)] by (simp add: kinv_def run_ring_def)
  then show ?thesis
    using k' by (intro handled_returns [where ?k1.0 = k' and ?A1.0 = ?A])
      (simp_all add: syscall_def syscall_code_defs kept_def)
qed

lemma handled_sem_close:
  assumes inv: "kinv f k A"
    and s: "s \<in> a_sems A" "live_blocks (mem k) s \<noteq> None" "\<not> (\<exists>t \<in> user_threads k A. s \<in> set (thread_regions k t))"
  shows "handled {a_close_sem s A} f k A (syscall SEM_CLOSE_CODE s p1 p2 p3 k)"
proof -
  let ?A = "a_close_sem s A"
  obtain k' where k': "handle_sem_close s k = Some k'" "krep k' ?A" "owned k' ?A"
    "\<And>t. t \<noteq> a_cur A \<Longrightarrow> saved (tcbs k' t) = saved (tcbs k t)" "lay k' = lay k"
    using handle_sem_close_rep [OF kinvD(1,3) [OF inv] s] by metis
  have "kinv f k' ?A"
    using k'(2,3) kinvD(2,4) [OF inv] counters_ok_close_sem by (auto simp: kinv_def run_ring_def)
  then show ?thesis
    using k' by (intro handled_returns [where ?k1.0 = k' and ?A1.0 = ?A])
      (simp_all add: syscall_def syscall_code_defs kept_def)
qed

lemma handled_create:
  assumes inv: "kinv f k A" and p: "p0 \<noteq> NULL" "p1 \<noteq> 0" "p3 \<noteq> NULL"
    and u: "live_blocks (mem k) (p3 - DEFAULT_STACK_SIZE) \<noteq> None" "\<not> kernel_owned k A (p3 - DEFAULT_STACK_SIZE)"
    and room: "thread_room k t st js m"
  shows "handled {a_create t js A} f k A (syscall CREATE_THREAD_CODE p0 p1 p2 p3 k)"
proof -
  let ?A = "a_create t js A"
  obtain k' where k': "handle_create_thread p0 p1 p2 p3 k = Some k'" "krep k' ?A" "owned k' ?A"
    "t \<notin> threads A" "js \<notin> a_sems A" "lay k' = lay k"
    "\<And>v. v \<noteq> a_cur A \<Longrightarrow> v \<noteq> t \<Longrightarrow> saved (tcbs k' v) = saved (tcbs k v)"
    using handle_create_thread_rep [OF kinvD(1,3) [OF inv] p u room, of p2] by metis
  have "kinv f k' ?A"
    using k'(2-5) kinvD(2,4) [OF inv] counters_ok_create by (simp add: kinv_def)
  moreover have "kept A k k'" using k'(4,6,7) by (auto simp: kept_def)
  ultimately show ?thesis
    using k'(1) by (intro handled_returns [where ?k1.0 = k' and ?A1.0 = ?A]) (simp_all add: syscall_def syscall_code_defs)
qed

text \<open>The calls that create nothing: a missing argument, or no memory for the control block.\<close>

lemma handled_create_nothing:
  assumes inv: "kinv f k A"
    and none: "p0 = NULL \<or> p1 = 0 \<or> p3 = NULL \<or> mem_alloc_blocks 6 (mem k) = Some (NULL, mem k)"
  shows "handled {A} f k A (syscall CREATE_THREAD_CODE p0 p1 p2 p3 k)"
proof (cases "p0 = NULL")
  case True
  then show ?thesis
    using inv by (intro handled_returns [where ?k1.0 = k and ?A1.0 = A])
      (simp_all add: syscall_def syscall_code_defs handle_create_thread_def)
next
  case False
  have "create_tcb p1 p2 p3 k = Some (NULL, k)"
    using none False create_tcb_no_room [OF ownedD(1) [OF kinvD(3) [OF inv]]] by (auto simp: create_tcb_def)
  then show ?thesis
    using inv False by (intro handled_returns [where ?k1.0 = "k\<lparr>user_cells := (user_cells k)(p0 := 0)\<rparr>" and ?A1.0 = A])
      (simp_all add: syscall_def syscall_code_defs handle_create_thread_def kept_def)
qed

lemma handled_exit:
  assumes inv: "kinv f k A" and t: "a_cur A \<noteq> f" and False: "a_cur A \<noteq> main_tcb (lay k)"
  shows "handled {a_exit (join_sem (tcbs k (a_cur A))) A} f k A (syscall THREAD_EXIT_CODE p0 p1 p2 p3 k)"
proof -
  note rep = kinvD(1) [OF inv] and own = kinvD(3) [OF inv] and Q = kinvD(5) [OF inv t]
  let ?s = "join_sem (tcbs k (a_cur A))"
  let ?A = "a_exit ?s A"
  obtain k' where k': "syscall THREAD_EXIT_CODE p0 p1 p2 p3 k = Some (Switches, k')" "krep k' ?A" "owned k' ?A"
    "others_kept (a_cur A) k k'"
    by (rule thread_exit_owned [OF own rep False Q])
  have s: "?s \<in> a_sems A" using ownedD(3) [OF own] False by (simp add: user_threads_def threads_def)
  have Q': "a_queue A Ready @ a_queue A (Waiting ?s) \<noteq> []" using Q by simp
  have "f \<in> set (run_ring ?A)"
    using threads_exit(2) [OF s Q' krepD(6) [OF rep]] kinvD(4) [OF inv] t by (simp add: run_ring_def)
  moreover have "counters_ok ?A"
    using counters_ok_close_sem [OF kinvD(2) [OF inv], of ?s] by (simp add: a_exit_def a_close_sem_def)
  ultimately have "kinv f k' ?A" using k'(2,3) by (simp add: kinv_def)
  moreover have "restored k'"
  proof -
    obtain k2 where "dispatch KDispatch k2 = Some (Switches, k')"
      using k'(1) False krepD(2) [OF rep] by (auto simp: syscall_def syscall_code_defs split: bind_splits)
    then show ?thesis by (rule dispatch_restored)
  qed
  ultimately show ?thesis
    using k'(1) others_kept_kept [OF k'(4)] switch_heads(4) [OF Q] by (intro handled_switches) simp_all
qed

end
