(* ===== verification/Kernel_IO.thy ===== *)
theory Kernel_IO
  imports Trap_Handlers
begin

text \<open>
  Which operations of the kernel touch the console and the clock.  The locale \<open>kernel_view\<close>
  collects what follows for every view of the kernel state that does not depend on the threads, the
  semaphores, the queues, the memory and the registers: scheduling, semaphores and the life of threads
  leave it alone.  It is interpreted for the console (\<open>io k\<close>: the two buffers and what has
  been transmitted) and for the tick counter; only the places that put and take characters, count a
  tick or start a new slice do not appear here.  Its part \<open>kernel_core_view\<close> is interpreted for the
  words of user memory, which only the calls that return a handle write, and the part \<open>heap_view\<close> of
  that for the processor and the current thread, which only a switch changes.
\<close>

locale heap_view =
  fixes view :: "kstate \<Rightarrow> 'v"
  assumes same_heap [simp]:
    "view (k\<lparr>tcbs := h\<rparr>) = view k" "view (k\<lparr>sems := s\<rparr>) = view k" "view (k\<lparr>mem := m\<rparr>) = view k"
    "view (k\<lparr>sched_queue := q\<rparr>) = view k" "view (k\<lparr>sleep_queue := q\<rparr>) = view k"
begin

lemma upd_tcb_same: "upd_tcb p f k = Some k' \<Longrightarrow> view k' = view k"
  by (cases "p = NULL") (auto simp: same_heap)

lemma upd_sem_same: "upd_sem p f k = Some k' \<Longrightarrow> view k' = view k"
  by (cases "p = NULL") (auto simp: same_heap)

lemma next_tcb_same: "next_tcb k = (t, k') \<Longrightarrow> view k' = view k"
  by (auto simp: next_tcb_def split: prod.splits)

lemma put_tcb_same: "put_tcb t k = Some k' \<Longrightarrow> view k' = view k"
  by (auto simp: put_tcb_def dest: upd_tcb_same split: if_splits bind_splits)

lemma sem_unblock_same: "sem_unblock err s k = Some (r, k') \<Longrightarrow> view k' = view k"
  by (auto simp: sem_unblock_def Let_def dest!: upd_sem_same upd_tcb_same put_tcb_same split: if_splits bind_splits prod.splits)

lemma sem_signal_same: "sem_signal s k = Some (r, k') \<Longrightarrow> view k' = view k"
  by (auto simp: sem_signal_def dest!: upd_sem_same sem_unblock_same split: if_splits bind_splits)

lemma sem_close_same:
  assumes "sem_close s k = Some (r, k')"
  shows "view k' = view k"
proof -
  have "view (snd (r, k')) = view k"
  proof (rule sem_close.raw_induct [OF _ assms, where P = "\<lambda>s k y. view (snd y) = view k"])
    fix f s k y
    assume IH: "\<And>s k y. f s k = Some y \<Longrightarrow> view (snd y) = view k"
      and y: "sem_unblock True s k \<bind> (\<lambda>(r, k1). if r = 0 then f s k1 else Some (0, k1)) = Some y"
    then obtain r k1 where u: "sem_unblock True s k = Some (r, k1)" "(if r = 0 then f s k1 else Some (0, k1)) = Some y"
      by (auto split: bind_splits)
    show "view (snd y) = view k"
      using sem_unblock_same [OF u(1)] IH [of s k1 y] u(2) by (auto split: if_splits)
  qed
  then show ?thesis by simp
qed

lemma free_mem_same: "free_mem p k = Some k' \<Longrightarrow> view k' = view k"
  by (auto simp: free_mem_def split: bind_splits)

lemma free_sem_same: "free_sem s k = Some (r, k') \<Longrightarrow> view k' = view k"
  by (auto simp: free_sem_def split: bind_splits)

lemma create_sem_same: "create_sem v k = Some (s, k') \<Longrightarrow> view k' = view k"
  by (auto simp: create_sem_def sem_initialize_def dest!: upd_sem_same split: bind_splits)

lemma free_tcb_same: "free_tcb t k = Some k' \<Longrightarrow> view k' = view k"
  by (auto simp: free_tcb_def dest!: free_mem_same free_sem_same upd_tcb_same split: if_splits bind_splits)

lemma create_tcb_same: "create_tcb bdy ags sp k = Some (t, k') \<Longrightarrow> view k' = view k"
  by (auto simp: create_tcb_def Let_def dest!: free_tcb_same create_sem_same upd_tcb_same split: if_splits bind_splits)

lemma put_to_sleep_same: "put_to_sleep t n k = Some k' \<Longrightarrow> view k' = view k"
  by (auto simp: put_to_sleep_def Let_def dest!: upd_tcb_same split: if_splits bind_splits prod.splits)

lemma wake_expired_same:
  assumes "wake_expired k = Some k'"
  shows "view k' = view k"
proof (rule wake_expired.raw_induct [OF _ assms, where P = "\<lambda>k k'. view k' = view k"])
  fix f k k'
  assume IH: "\<And>k k'. f k = Some k' \<Longrightarrow> view k' = view k"
    and step: "(if \<not> list_is_empty (sleep_queue k) \<and> sleep_for (tcbs k (list_peek_first (sleep_queue k))) \<le> 0
      then let (t, l, h) = list_take_first (sleep_queue k) (tcbs k)
           in put_tcb t (k\<lparr>tcbs := h, sleep_queue := l\<rparr>) \<bind> f
      else Some k) = Some k'"
  obtain t l h where t: "list_take_first (sleep_queue k) (tcbs k) = (t, l, h)"
    by (cases "list_take_first (sleep_queue k) (tcbs k)")
  show "view k' = view k"
    using step t by (auto simp: Let_def dest!: IH put_tcb_same split: if_splits bind_splits)
qed

lemma timer_tick_same: "timer_tick k = Some k' \<Longrightarrow> view k' = view k"
  by (auto simp: timer_tick_def dest!: upd_tcb_same wake_expired_same split: if_splits bind_splits)

lemma set_a0_same: "set_a0 v k = Some k' \<Longrightarrow> view k' = view k"
  by (auto simp: set_a0_def dest: upd_tcb_same)

lemma handle_sem_close_same: "handle_sem_close p0 k = Some k' \<Longrightarrow> view k' = view k"
  by (auto simp: handle_sem_close_def Let_def dest!: sem_close_same free_sem_same set_a0_same split: if_splits bind_splits)

end

text \<open>Views that survive a switch to another thread as well.\<close>

locale kernel_core_view = heap_view +
  assumes same_switch [simp]:
    "view (k\<lparr>current_tcb := t\<rparr>) = view k" "view (k\<lparr>current_context := t\<rparr>) = view k"
    "view (k\<lparr>cpu_of := c\<rparr>) = view k"
begin

lemma save_context_same: "save_context cont t k = Some k' \<Longrightarrow> view k' = view k"
  by (cases "t = NULL") (auto simp: save_context_def)

lemma yield_same: "yield cont old new k = Some (f, k') \<Longrightarrow> view k' = view k"
  by (auto simp: yield_def Let_def dest!: save_context_same split: if_splits bind_splits)

lemma switch_away_same: "(let (t, k1) = next_tcb k in yield cont old t (k1\<lparr>current_tcb := t\<rparr>)) = Some (f, k') \<Longrightarrow> view k' = view k"
  by (cases "next_tcb k") (auto dest!: yield_same next_tcb_same)

lemma sem_block_same:
  assumes "sem_block cont s k = Some (f, k')"
  shows "view k' = view k"
proof -
  let ?t = "current_tcb k"
  obtain k1 l h k2 where s: "upd_tcb ?t (status_update (\<lambda>_. SUSPENDED)) k = Some k1"
    "upd_sem s (suspended_update (\<lambda>_. l)) (k1\<lparr>tcbs := h\<rparr>) = Some k2"
    "(let (t, k3) = next_tcb k2 in yield cont ?t t (k3\<lparr>current_tcb := t\<rparr>)) = Some (f, k')"
    using assms by (clarsimp simp: sem_block_def Option.bind_eq_Some_conv Let_def)
  show ?thesis using upd_tcb_same [OF s(1)] upd_sem_same [OF s(2)] switch_away_same [OF s(3)] by simp
qed

lemma sem_wait_same: "sem_wait cont s k = Some (f, k') \<Longrightarrow> view k' = view k"
  by (auto simp: sem_wait_def dest!: upd_sem_same sem_block_same split: if_splits bind_splits flow.splits)

lemma dispatch_same:
  assumes "dispatch cont k = Some (f, k')"
  shows "view k' = view k"
proof -
  obtain prev k1 where "view k1 = view k" "(let (t, k2) = next_tcb k1 in yield cont prev t (k2\<lparr>current_tcb := t\<rparr>)) = Some (f, k')"
    using assms unfolding dispatch_def Let_def
    by (fastforce dest: put_tcb_same sem_close_same free_tcb_same split: bind_splits if_splits)
  then show ?thesis using switch_away_same by simp
qed

lemma trap_enter_same: "trap_enter k = Some k' \<Longrightarrow> view k' = view k"
  by (auto simp: trap_enter_def Let_def dest!: upd_tcb_same split: bind_splits)

lemma trap_exit_same: "trap_exit e k = Some k' \<Longrightarrow> view k' = view k"
  by (auto simp: trap_exit_def Let_def dest!: upd_tcb_same split: bind_splits)

lemma k_tcb_start_same: "k_tcb_start rw k = Some k' \<Longrightarrow> view k' = view k"
  by (auto simp: k_tcb_start_def Let_def dest!: upd_tcb_same split: bind_splits)

end

text \<open>Two system calls store a handle in the memory of their caller.\<close>

locale kernel_view = kernel_core_view +
  assumes same_cells [simp]: "view (k\<lparr>user_cells := u\<rparr>) = view k"
begin

lemma handle_create_thread_same: "handle_create_thread p0 p1 p2 p3 k = Some k' \<Longrightarrow> view k' = view k"
  by (auto simp: handle_create_thread_def Let_def dest!: create_tcb_same put_tcb_same set_a0_same split: if_splits bind_splits)

lemma handle_sem_open_same: "handle_sem_open p0 p1 k = Some k' \<Longrightarrow> view k' = view k"
  by (auto simp: handle_sem_open_def Let_def dest!: create_sem_same set_a0_same split: if_splits bind_splits)

end

section \<open>The console and the tick counter\<close>

definition io :: "kstate \<Rightarrow> u8 queue \<times> u8 queue \<times> u8 list" where
  "io k = (putc_buffer k, getc_buffer k, tx_out k)"

lemma io_upd [simp]:
  "io (k\<lparr>tcbs := h\<rparr>) = io k" "io (k\<lparr>sems := s\<rparr>) = io k" "io (k\<lparr>mem := m\<rparr>) = io k" "io (k\<lparr>sched_queue := q\<rparr>) = io k"
  "io (k\<lparr>sleep_queue := q\<rparr>) = io k" "io (k\<lparr>current_tcb := t\<rparr>) = io k" "io (k\<lparr>current_context := t\<rparr>) = io k"
  "io (k\<lparr>timer_ticks := n\<rparr>) = io k" "io (k\<lparr>cpu_of := c\<rparr>) = io k" "io (k\<lparr>user_cells := u\<rparr>) = io k"
  by (simp_all add: io_def)

interpretation console: kernel_view io
  by unfold_locales simp_all

interpretation ticks: kernel_view timer_ticks
  by unfold_locales simp_all

interpretation cells: kernel_core_view user_cells
  by unfold_locales simp_all

definition on_cpu :: "kstate \<Rightarrow> cpu \<times> addr \<times> addr \<times> layout" where
  "on_cpu k = (cpu_of k, current_tcb k, current_context k, lay k)"

interpretation oncpu: heap_view on_cpu
  by unfold_locales (simp_all add: on_cpu_def)

lemmas upd_tcb_io = console.upd_tcb_same
lemmas upd_sem_io = console.upd_sem_same
lemmas next_tcb_io = console.next_tcb_same
lemmas put_tcb_io = console.put_tcb_same
lemmas save_context_io = console.save_context_same
lemmas yield_io = console.yield_same
lemmas switch_away_io = console.switch_away_same
lemmas sem_block_io = console.sem_block_same
lemmas sem_wait_io = console.sem_wait_same
lemmas sem_unblock_io = console.sem_unblock_same
lemmas sem_signal_io = console.sem_signal_same
lemmas sem_close_io = console.sem_close_same
lemmas free_mem_io = console.free_mem_same
lemmas free_sem_io = console.free_sem_same
lemmas create_sem_io = console.create_sem_same
lemmas free_tcb_io = console.free_tcb_same
lemmas create_tcb_io = console.create_tcb_same
lemmas put_to_sleep_io = console.put_to_sleep_same
lemmas wake_expired_io = console.wake_expired_same
lemmas timer_tick_io = console.timer_tick_same
lemmas dispatch_io = console.dispatch_same
lemmas set_a0_io = console.set_a0_same
lemmas trap_enter_io = console.trap_enter_same
lemmas trap_exit_io = console.trap_exit_same
lemmas k_tcb_start_io = console.k_tcb_start_same
lemmas handle_create_thread_io = console.handle_create_thread_same
lemmas handle_sem_open_io = console.handle_sem_open_same
lemmas handle_sem_close_io = console.handle_sem_close_same

end
