(* ===== verification/Kernel_Safe.thy ===== *)
theory Kernel_Safe
  imports Kernel_Run Kernel_IO
begin

text \<open>
  Every permitted event leads from a state in the invariant to one in the invariant, and no event
  disturbs a thread that does not run: its registers are waiting for it, whatever the other threads,
  the interrupts and the allocator do in between.
\<close>

section \<open>The specification of an event\<close>

text \<open>
  What each event means for the abstract scheduler.  The concrete state supplies what the
  scheduler does not know: which join semaphore a thread has, and which addresses the allocator
  returns.
\<close>

definition call_step :: "kstate \<Rightarrow> u64 \<Rightarrow> u64 \<Rightarrow> u64 \<Rightarrow> u64 \<Rightarrow> sched \<Rightarrow> sched set" where
  "call_step k code p0 p1 p3 A =
     (if code = CREATE_THREAD_CODE then
        (if p0 = NULL \<or> p1 = 0 \<or> p3 = NULL \<or> mem_alloc_blocks 6 (mem k) = Some (NULL, mem k) then {A}
         else {a_create t js A | t st js m. thread_room k t st js m})
      else if code = THREAD_EXIT_CODE then
        (if a_cur A = main_tcb (lay k) then {A} else {a_exit (join_sem (tcbs k (a_cur A))) A})
      else if code = THREAD_DISPATCH_CODE then {a_dispatch A}
      else if code = THREAD_JOIN_CODE then
        (if p0 = NULL \<or> join_sem (tcbs k p0) = NULL then {A} else {a_wait (join_sem (tcbs k p0)) A})
      else if code = SEM_OPEN_CODE then
        (if p0 = NULL then {A}
         else {a_new_sem s (sint (ucast p1 :: u32)) A | s m. mem_alloc_blocks 1 (mem k) = Some (s, m)})
      else if code = SEM_CLOSE_CODE then (if p0 = NULL then {A} else {a_close_sem p0 A})
      else if code = SEM_WAIT_CODE then (if p0 = NULL then {A} else {a_wait p0 A})
      else if code = SEM_SIGNAL_CODE then (if p0 = NULL then {A} else {a_signal p0 A})
      else if code = TIME_SLEEP_CODE then
        (if p0 = 0 then {A} else {a_next (a_sleep (a_cur A) (unat p0) A)})
      else if code = GET_C_CODE then {a_wait (getc_sem (lay k)) A}
      else if code = PUT_C_CODE then {a_wait (putc_sem (lay k)) A}
      else {A})"

definition event_step :: "kstate \<Rightarrow> event \<Rightarrow> sched \<Rightarrow> sched set" where
  "event_step k e A =
     (case e of
        Compute c u \<Rightarrow> {A}
      | Timer_interrupt \<Rightarrow>
          (if timer_ticks k + 1 < time_slice (tcbs k (a_cur A)) then {a_tick A} else {a_dispatch (a_tick A)})
      | Console_interrupt stat data \<Rightarrow>
          (if stat AND CONSOLE_RX_STATUS_BIT \<noteq> 0 \<and> q_get_length (getc_buffer k) < IO_BUFFER_SIZE
           then {a_dispatch (a_signal (getc_sem (lay k)) A)} else {A})
      | Ecall code p0 p1 p2 p3 \<Rightarrow> call_step k code p0 p1 p3 A
      | Flush stat \<Rightarrow> {a_signals (putc_sem (lay k)) (tx_ready stat (q_get_length (putc_buffer k))) A})"

section \<open>System calls\<close>

lemma handled_mono: "handled S f k A r \<Longrightarrow> S \<subseteq> T \<Longrightarrow> handled T f k A r"
  unfolding handled_def by blast

lemma handled_nothing: "kinv f k A \<Longrightarrow> handled {A} f k A (Some (Returns (), k))"
  by (intro handled_returns [where ?k1.0 = k and ?A1.0 = A]) simp_all

lemma handled_signal:
  assumes inv: "kinv f k A" and s: "may_signal A s"
  shows "handled {a_signal s A} f k A (syscall SEM_SIGNAL_CODE s p1 p2 p3 k)"
proof -
  obtain k1 where k1: "sem_signal s k = Some (SIGNAL_SUCCESS, k1)" "kinv f k1 (a_signal s A)" "frame {} k k1"
    by (rule kinv_signal [OF inv s])
  have "s \<noteq> NULL" using sem_nonnull [OF krepD(1) [OF kinvD(1) [OF inv]]] s by (auto simp: may_signal_def)
  moreover have "kept A k k1" using frame_kept [OF frame_mono [OF k1(3)]] by simp
  ultimately show ?thesis
    using handled_set_a0 [OF k1(2), of A k "{a_signal s A}" "int_to_u64 SIGNAL_SUCCESS"] k1(1) by (simp add: syscall_def syscall_code_defs)
qed

lemma handled_join:
  assumes inv: "kinv f k A" and p: "p0 = NULL \<or> p0 = main_tcb (lay k) \<or> p0 \<in> threads A \<and> may_block f A (join_sem (tcbs k p0))"
  shows "handled (call_step k THREAD_JOIN_CODE p0 p1 p3 A) f k A (syscall THREAD_JOIN_CODE p0 p1 p2 p3 k)"
proof (cases "p0 \<noteq> NULL \<and> join_sem (tcbs k p0) \<noteq> NULL")
  case True
  then have "may_block f A (join_sem (tcbs k p0))" using p ownedD(8) [OF kinvD(3) [OF inv]] by auto
  from handled_wait [OF inv this, of KJoin] True show ?thesis
    by (simp add: syscall_def call_step_def syscall_code_defs)
qed (use handled_nothing [OF inv] in \<open>auto simp: syscall_def call_step_def syscall_code_defs\<close>)

lemma handled_user_mode:
  assumes inv: "kinv f k A"
  shows "handled {A} f k A (syscall USER_MODE_CODE p0 p1 p2 p3 k)"
  using handled_set_a0 [of f "prepare_user_mode k" A A k "{A}" SUCCESS_SYSCALL] inv
  by (simp add: syscall_def syscall_code_defs prepare_user_mode_def)

lemma handled_syscall:
  assumes inv: "kinv f k A" and may: "may_call f k A code p0 p1 p3"
  shows "handled (call_step k code p0 p1 p3 A) f k A (syscall code p0 p1 p2 p3 k)"
proof -
  note m = may [unfolded may_call_def]
  note defs = syscall_def call_step_def syscall_code_defs
  consider "code = MEM_ALLOC_CODE" | "code = MEM_FREE_CODE" | "code = CREATE_THREAD_CODE" | "code = THREAD_EXIT_CODE"
    | "code = THREAD_DISPATCH_CODE" | "code = THREAD_JOIN_CODE" | "code = SEM_OPEN_CODE" | "code = SEM_CLOSE_CODE"
    | "code = SEM_WAIT_CODE" | "code = SEM_SIGNAL_CODE" | "code = TIME_SLEEP_CODE" | "code = GET_C_CODE"
    | "code = PUT_C_CODE" | "code = USER_MODE_CODE"
    | (other) "code \<notin> {MEM_ALLOC_CODE, MEM_FREE_CODE, CREATE_THREAD_CODE, THREAD_EXIT_CODE, THREAD_DISPATCH_CODE,
        THREAD_JOIN_CODE, SEM_OPEN_CODE, SEM_CLOSE_CODE, SEM_WAIT_CODE, SEM_SIGNAL_CODE, TIME_SLEEP_CODE, GET_C_CODE,
        PUT_C_CODE, USER_MODE_CODE}"
    by blast
  then show ?thesis
  proof cases
    case 1
    then show ?thesis using handled_alloc [OF inv, of p0 p1 p2 p3] by (simp add: call_step_def syscall_code_defs)
  next
    case 2
    then show ?thesis using handled_free [OF inv, of p0 p1 p2 p3] m by (simp add: call_step_def syscall_code_defs)
  next
    case 3
    show ?thesis
    proof (cases "p0 = NULL \<or> p1 = 0 \<or> p3 = NULL \<or> mem_alloc_blocks 6 (mem k) = Some (NULL, mem k)")
      case True
      then show ?thesis
        using handled_create_nothing [OF inv True, of p2] 3 by (auto simp: call_step_def)
    next
      case False
      obtain t st js ma where u: "live_blocks (mem k) (p3 - DEFAULT_STACK_SIZE) \<noteq> None"
        "\<not> kernel_owned k A (p3 - DEFAULT_STACK_SIZE)" "thread_room k t st js ma"
        using m [THEN conjunct2, THEN conjunct1, rule_format, OF 3] False by blast
      have "call_step k CREATE_THREAD_CODE p0 p1 p3 A = {a_create t js A | t st js m. thread_room k t st js m}"
        unfolding call_step_def using False by simp
      then have "{a_create t js A} \<subseteq> call_step k CREATE_THREAD_CODE p0 p1 p3 A" using u(3) by auto
      with handled_create [OF inv _ _ _ u, of p0 p1 p2] False show ?thesis
        unfolding 3 by (auto intro: handled_mono)
    qed
  next
    case 4
    show ?thesis
    proof (cases "a_cur A = main_tcb (lay k)")
      case True
      then show ?thesis
        using handled_nothing [OF inv] krepD(2) [OF kinvD(1) [OF inv]] 4 by (simp add: defs)
    next
      case False
      then show ?thesis using handled_exit [OF inv _ False] m 4 by (simp add: call_step_def syscall_code_defs)
    qed
  next
    case 5
    then show ?thesis using handled_dispatch [OF inv] by (simp add: defs)
  next
    case 6
    then show ?thesis using handled_join [OF inv, of p0] m by simp
  next
    case 7
    show ?thesis
    proof (cases "p0 = NULL")
      case True
      then show ?thesis using 7 handled_nothing [OF inv] by (simp add: defs handle_sem_open_def)
    next
      case False
      then obtain s ma where o: "0 \<le> sint (ucast p1 :: u32)" "mem_alloc_blocks 1 (mem k) = Some (s, ma)" "s \<noteq> NULL"
        using 7 m by blast
      have "call_step k SEM_OPEN_CODE p0 p1 p3 A = {a_new_sem s (sint (ucast p1 :: u32)) A}"
        using False o(2) by (simp add: call_step_def syscall_code_defs)
      then show ?thesis unfolding 7 using handled_sem_open [OF inv o False] by simp
    qed
  next
    case 8
    show ?thesis
    proof (cases "p0 = NULL")
      case True
      then show ?thesis using 8 handled_nothing [OF inv] by (simp add: defs handle_sem_close_def)
    next
      case False
      then have "call_step k SEM_CLOSE_CODE p0 p1 p3 A = {a_close_sem p0 A}" by (simp add: call_step_def syscall_code_defs)
      then show ?thesis unfolding 8 using 8 m False handled_sem_close [OF inv, of p0] by auto
    qed
  next
    case 9
    then show ?thesis
      using m handled_wait [OF inv, of p0 KSemWait] handled_nothing [OF inv] by (cases "p0 = NULL") (simp_all add: defs)
  next
    case 10
    show ?thesis
    proof (cases "p0 = NULL")
      case True
      then show ?thesis using 10 handled_nothing [OF inv] by (simp add: defs)
    next
      case False
      then have "call_step k SEM_SIGNAL_CODE p0 p1 p3 A = {a_signal p0 A}" by (simp add: call_step_def syscall_code_defs)
      then show ?thesis unfolding 10 using 10 m False handled_signal [OF inv, of p0] by auto
    qed
  next
    case 11
    show ?thesis
    proof (cases "p0 = 0")
      case True
      then show ?thesis using 11 handled_nothing [OF inv] by (simp add: defs)
    next
      case False
      then have "call_step k TIME_SLEEP_CODE p0 p1 p3 A = {a_next (a_sleep (a_cur A) (unat p0) A)}"
        by (simp add: call_step_def syscall_code_defs)
      then show ?thesis unfolding 11 using 11 m False handled_sleep [OF inv, of p0] by (auto simp: word_gt_0)
    qed
  next
    case 12
    then show ?thesis using handled_wait [OF inv] m by (simp add: defs)
  next
    case 13
    then show ?thesis using handled_wait [OF inv] m by (simp add: defs)
  next
    case 14
    then show ?thesis using handled_user_mode [OF inv] by (simp add: call_step_def syscall_code_defs)
  next
    case other
    then show ?thesis using handled_nothing [OF inv] by (simp add: syscall_def call_step_def)
  qed
qed

section \<open>Interrupts\<close>

lemma handled_from:
  assumes "handled S f k0 B r" "frame {a_cur A} k k0" "threads B = threads A" "a_cur B = a_cur A"
    and "a_queue B Ready = a_queue A Ready @ xs"
  shows "handled S f k A r"
proof -
  have "kept B k0 k1 \<Longrightarrow> kept A k k1" for k1
    using assms(2-4) by (auto simp: kept_def frame_def heap_frame_def)
  moreover obtain fl k1 A1 where "r = Some (fl, k1)" "A1 \<in> S" "kinv f k1 A1" "kept B k0 k1"
    "case fl of Returns _ \<Rightarrow> a_cur A1 = a_cur B
      | Switches \<Rightarrow> restored k1 \<and> (a_queue B Ready \<noteq> [] \<longrightarrow> a_cur A1 = hd (a_queue B Ready)) | Halts \<Rightarrow> False"
    using assms(1) by (auto simp: handled_def)
  ultimately show ?thesis using assms(4,5) by (cases fl) (auto simp: handled_def)
qed

lemma a_tick_sems [simp]: "a_sems (a_tick A) = a_sems A"
  by (simp add: a_tick_def Let_def)

lemma a_tick_ready: "a_queue (a_tick A) Ready = a_queue A Ready @ takeWhile (\<lambda>t. a_wake A t - 1 = 0) (a_queue A Sleeping)"
  by (simp add: a_tick_def Let_def)

lemma a_signal_ready: "\<exists>xs. a_queue (a_signal s A) Ready = a_queue A Ready @ xs"
  by (auto simp: a_signal_def a_unblock_def a_enq_def Let_def split: list.splits)

lemma handled_timer:
  assumes inv: "kinv f k A"
  shows "handled (event_step k Timer_interrupt A) f k A (k_handle_timer k)"
proof -
  let ?k0 = "k\<lparr>cpu_of := (cpu_of k)\<lparr>csr_sip := csr_sip (cpu_of k) AND NOT 0x02\<rparr>\<rparr>"
  have k0: "krep ?k0 A" using kinvD(1) [OF inv] by simp
  obtain k1 where k1: "timer_tick ?k0 = Some k1" "krep k1 (a_tick A)" "core_eq ?k0 k1" by (rule timer_tick_rep [OF k0])
  have fr: "frame {a_cur A} ?k0 k1" by (rule timer_tick_frame [OF k1(1)])
  let ?k2 = "k1\<lparr>timer_ticks := timer_ticks k1 + 1\<rparr>"
  have "kinv f ?k0 A" using inv by simp
  from kinv_step [OF this fr k1(2)] have "kinv f k1 (a_tick A)"
    using kinvD [OF inv] counters_ok_tick run_ring_tick by simp
  then have k2: "kinv f ?k2 (a_tick A)" by simp
  have fr2: "frame {a_cur A} k ?k2" using fr by (simp add: frame_def)
  have d: "deref (tcbs ?k2) (current_tcb ?k2) = Some (tcbs ?k2 (a_cur A))"
    using krep_cur_nonnull [OF kinvD(1) [OF k2]] by simp
  have "time_slice (tcbs k1 (a_cur A)) = time_slice (tcbs k (a_cur A))" "timer_ticks k1 = timer_ticks k"
    using core_eq_fields(1) [OF k1(3), of "a_cur A", THEN core_fields(6)] k1(3) by (simp_all add: core_eq_def env_eq_def)
  then have ev: "event_step k Timer_interrupt A =
      (if timer_ticks ?k2 \<ge> time_slice (tcbs ?k2 (a_cur A)) then {a_dispatch (a_tick A)} else {a_tick A})"
    by (simp add: event_step_def)
  have "handled {a_dispatch (a_tick A)} f ?k2 (a_tick A) (dispatch KInterrupt ?k2)" by (rule handled_dispatch [OF k2])
  from handled_from [OF this fr2 _ _ a_tick_ready] have sw: "handled {a_dispatch (a_tick A)} f k A (dispatch KInterrupt ?k2)"
    by simp
  show ?thesis
  proof (cases "timer_ticks ?k2 \<ge> time_slice (tcbs ?k2 (a_cur A))")
    case True
    then show ?thesis using sw k1(1) d by (simp add: ev k_handle_timer_def Let_def)
  next
    case False
    have "k_handle_timer k = Some (Returns (), ?k2)"
      using False k1(1) d by (simp add: k_handle_timer_def Let_def)
    then show ?thesis using k2 frame_kept [OF fr2] False
      by (intro handled_returns [where ?k1.0 = ?k2 and ?A1.0 = "a_tick A"]) (simp_all add: ev)
  qed
qed

lemma handled_console:
  assumes inv: "kinv f k A" and s: "may_signal A (getc_sem (lay k))"
  shows "handled (event_step k (Console_interrupt stat data) A) f k A (k_handle_console stat data k)"
proof -
  let ?k0 = "k\<lparr>cpu_of := (cpu_of k)\<lparr>csr_sip := csr_sip (cpu_of k) AND NOT 0x200\<rparr>\<rparr>"
  let ?kb = "?k0\<lparr>getc_buffer := q_put IO_BUFFER_SIZE data (getc_buffer ?k0)\<rparr>"
  have kb: "kinv f ?kb A" "frame {a_cur A} k ?kb" using inv by simp_all
  have s': "may_signal A (getc_sem (lay ?kb))" using s by simp
  obtain k1 where k1: "sem_signal (getc_sem (lay ?kb)) ?kb = Some (SIGNAL_SUCCESS, k1)"
    "kinv f k1 (a_signal (getc_sem (lay ?kb)) A)" "frame {} ?kb k1"
    by (rule kinv_signal [OF kb(1) s'])
  let ?A = "a_signal (getc_sem (lay ?kb)) A"
  have fr: "frame {a_cur A} k k1" using frame_trans_same [OF kb(2) frame_mono [OF k1(3)]] by simp
  have "handled {a_dispatch ?A} f k1 ?A (dispatch KInterrupt k1)" by (rule handled_dispatch [OF k1(2)])
  moreover have "threads ?A = threads A" using s by (simp add: may_signal_def)
  moreover obtain xs where "a_queue ?A Ready = a_queue A Ready @ xs" using a_signal_ready by blast
  ultimately have sw: "handled {a_dispatch (a_signal (getc_sem (lay k)) A)} f k A (dispatch KInterrupt k1)"
    using handled_from [OF _ fr, of "{a_dispatch ?A}" f ?A "dispatch KInterrupt k1" xs] by simp
  have stay: "handled {A} f k A (Some (Returns (), ?k0))"
    by (rule handled_returns [where ?k1.0 = ?k0 and ?A1.0 = A]) (use inv in simp_all)
  show ?thesis using sw stay k1(1) by (simp add: k_handle_console_def fill_getc_buffer_def event_step_def q_get_capacity_def Let_def)
qed

section \<open>Leaving a trap\<close>

lemma leave_trap_inv:
  assumes h: "handled S f k A (Some r)"
  obtains k' A' where "leave_trap rw e r = Some (Returns (), k')" "A' \<in> S" "kinv f k' A'"
    "\<And>t. t \<in> threads A \<Longrightarrow> t \<noteq> a_cur A \<Longrightarrow> t \<noteq> a_cur A' \<Longrightarrow> saved (tcbs k' t) = saved (tcbs k t)"
    "lay k' = lay k"
    "\<And>t. t \<in> threads A \<Longrightarrow> t \<noteq> a_cur A \<Longrightarrow> t = a_cur A' \<Longrightarrow> resume (tcbs k t) = KInterrupt \<Longrightarrow>
       regs (cpu_of k') = exit_regs False (tcbs k t) \<and> csr_sepc (cpu_of k') = c_sepc (tcontext (tcbs k t)) \<and>
       csr_sstatus (cpu_of k') = c_sstatus (tcontext (tcbs k t))"
proof -
  obtain fl k1 A1 where S: "A1 \<in> S" and r: "r = (fl, k1)" "kinv f k1 A1" "kept A k k1"
    "case fl of Returns _ \<Rightarrow> a_cur A1 = a_cur A | Switches \<Rightarrow> restored k1 | Halts \<Rightarrow> False"
    using h by (cases r; cases "fst r") (auto simp: handled_def)
  note rep = kinvD(1) [OF r(2)]
  have cc: "current_context k1 = a_cur A1" "current_tcb k1 = a_cur A1" using krepD(2,3) [OF rep] by simp_all
  have fin: "kinv f k' A1" if "frame {a_cur A1} k1 k'" "krep k' A1" for k'
    by (rule kinv_step [OF r(2) that]) (use kinvD [OF r(2)] in simp_all)
  have ex: "\<exists>k'. leave_trap rw e r = Some (Returns (), k') \<and> krep k' A1 \<and> frame {a_cur A1} k1 k'"
  proof (cases fl)
    case (Returns u)
    obtain k' where "trap_exit e k1 = Some k'" "krep k' A1" by (rule trap_exit_rep [OF rep, where e = e])
    then show ?thesis using trap_exit_frame [of e k1 k'] cc r(1) Returns by (simp add: leave_trap_def)
  next
    case Switches
    obtain k' where "resume_current rw k1 = Some k'" "krep k' A1" by (rule resume_current_rep [OF rep, where rw = rw])
    then show ?thesis using resume_current_frame [of rw k1 k'] cc r(1) Switches by (simp add: leave_trap_def)
  qed (use r in simp)
  then obtain k' where k': "leave_trap rw e r = Some (Returns (), k')" "krep k' A1" "frame {a_cur A1} k1 k'" by blast
  have same: "saved (tcbs k' t) = saved (tcbs k t)" if "t \<in> threads A" "t \<noteq> a_cur A" "t \<noteq> a_cur A1" for t
    using that r(3) frameD(6) [OF k'(3), of t] by (auto simp: kept_def)
  have again: "regs (cpu_of k') = exit_regs False (tcbs k t) \<and> csr_sepc (cpu_of k') = c_sepc (tcontext (tcbs k t)) \<and>
      csr_sstatus (cpu_of k') = c_sstatus (tcontext (tcbs k t))"
    if t: "t \<in> threads A" "t \<noteq> a_cur A" "t = a_cur A1" "resume (tcbs k t) = KInterrupt" for t
  proof -
    have sv: "saved (tcbs k1 t) = saved (tcbs k t)" using t r(3) by (auto simp: kept_def)
    have sw: "fl = Switches" "restored k1" using r(4) t by (auto split: flow.splits)
    have "resume (tcbs k1 (a_cur A1)) = KInterrupt" using sv t by (simp add: saved_def)
    from resume_interrupt [OF rep this, where rw = rw] obtain k2 where k2: "resume_current rw k1 = Some k2"
      "regs (cpu_of k2) = exit_regs False (tcbs k1 (a_cur A1))" "csr_sepc (cpu_of k2) = csr_sepc (cpu_of k1)"
      "csr_sstatus (cpu_of k2) = csr_sstatus (cpu_of k1)" by metis
    have "k' = k2" using k'(1) k2(1) r(1) sw(1) by (simp add: leave_trap_def)
    then show ?thesis using k2 sw(2) sv t(3) cc by (simp add: restored_def saved_def exit_regs_def)
  qed
  have "lay k' = lay k" using frameD(2) [OF k'(3)] r(3) by (simp add: kept_def)
  then show ?thesis using that [OF k'(1) S fin [OF k'(3,2)] same] again by blast
qed

section \<open>Events\<close>

lemma may_call_frame:
  assumes "frame X k k'"
  shows "may_call f k' A code p0 p1 p3 = may_call f k A code p0 p1 p3"
    and "call_step k' code p0 p1 p3 A = call_step k code p0 p1 p3 A"
proof -
  have "sys_stack (tcbs k' t) = sys_stack (tcbs k t)" for t
    using assms by (simp add: frame_def heap_frame_def regions_of_def)
  then show "may_call f k' A code p0 p1 p3 = may_call f k A code p0 p1 p3"
    "call_step k' code p0 p1 p3 A = call_step k code p0 p1 p3 A"
    unfolding may_call_def call_step_def kernel_owned_def user_threads_def thread_room_def handle_word_def kernel_memory_def
    by (simp_all add: frameD [OF assms])
qed

text \<open>What one event does to the machine, with the fate of the threads that do not run.\<close>

definition undisturbed :: "sched \<Rightarrow> sched \<Rightarrow> kstate \<Rightarrow> kstate \<Rightarrow> bool" where
  "undisturbed A A' k k' \<longleftrightarrow> lay k' = lay k \<and>
     (\<forall>t \<in> threads A. t \<noteq> a_cur A \<longrightarrow> t \<noteq> a_cur A' \<longrightarrow> saved (tcbs k' t) = saved (tcbs k t)) \<and>
     (a_cur A' \<in> threads A \<longrightarrow> a_cur A' \<noteq> a_cur A \<longrightarrow> resume (tcbs k (a_cur A')) = KInterrupt \<longrightarrow>
        regs (cpu_of k') = exit_regs False (tcbs k (a_cur A')) \<and>
        csr_sepc (cpu_of k') = c_sepc (tcontext (tcbs k (a_cur A'))) \<and>
        csr_sstatus (cpu_of k') = c_sstatus (tcontext (tcbs k (a_cur A'))))"

lemma entered_inv:
  assumes inv: "kinv f k A"
  shows "trap_enter k = Some (entered k)" "kinv f (entered k) A" "frame {a_cur A} k (entered k)"
proof -
  note te = trap_enter_rep [OF kinvD(1) [OF inv]]
  show "trap_enter k = Some (entered k)" by (rule te(1))
  show fr: "frame {a_cur A} k (entered k)"
    using trap_enter_frame [OF te(1)] krepD(3) [OF kinvD(1) [OF inv]] by simp
  show "kinv f (entered k) A" by (rule kinv_step [OF inv fr te(2)]) (use kinvD [OF inv] in simp_all)
qed

lemma trap_event:
  assumes inv: "kinv f k A" and hd: "handled S f k A (handler (entered k))"
  obtains k' A' where "(trap_enter k \<bind> (\<lambda>k0. handler k0 \<bind> leave_trap rw e)) = Some (Returns (), k')"
    "A' \<in> S" "kinv f k' A'" "undisturbed A A' k k'"
proof -
  obtain r where r: "handler (entered k) = Some r" using hd by (auto simp: handled_def)
  obtain k' A' where l: "leave_trap rw e r = Some (Returns (), k')" "A' \<in> S" "kinv f k' A'"
    "\<And>t. t \<in> threads A \<Longrightarrow> t \<noteq> a_cur A \<Longrightarrow> t \<noteq> a_cur A' \<Longrightarrow> saved (tcbs k' t) = saved (tcbs k t)"
    "lay k' = lay k"
    "\<And>t. t \<in> threads A \<Longrightarrow> t \<noteq> a_cur A \<Longrightarrow> t = a_cur A' \<Longrightarrow> resume (tcbs k t) = KInterrupt \<Longrightarrow>
       regs (cpu_of k') = exit_regs False (tcbs k t) \<and> csr_sepc (cpu_of k') = c_sepc (tcontext (tcbs k t)) \<and>
       csr_sstatus (cpu_of k') = c_sstatus (tcontext (tcbs k t))"
    by (rule leave_trap_inv [OF hd [unfolded r], where rw = rw and e = e]) blast
  have "undisturbed A A' k k'" using l(4-6) by (simp add: undisturbed_def)
  then show ?thesis using l(1-3) entered_inv(1) [OF inv] r by (intro that [of k' A']) simp_all
qed

text \<open>The trap that an event takes: the state in which it starts, whether it is a system call, and the handler.\<close>

fun trap_of :: "board \<Rightarrow> event \<Rightarrow> kstate \<Rightarrow> (kstate \<times> bool \<times> (kstate \<Rightarrow> (unit flow \<times> kstate) option)) option" where
  "trap_of bd Timer_interrupt k = Some (k, False, k_handle_timer)"
| "trap_of bd (Console_interrupt stat data) k = Some (k, False, k_handle_console stat data)"
| "trap_of bd (Ecall code p0 p1 p2 p3) k =
     Some (k\<lparr>cpu_of := enter_ecall bd code p0 p1 p2 p3 (cpu_of k)\<rparr>, True,
       \<lambda>k0. let r = regs (cpu_of k0) in k_handle_ecall (bd_stat bd) (bd_stat bd) (r X_a0) (r X_a1) (r X_a2) (r X_a3) (r X_a4) k0)"
| "trap_of bd _ k = None"

lemma run_event_trap:
  assumes "trap_of bd e k = Some (k0, c, handler)"
  shows "run_event bd e k = map_option snd (trap_enter k0 \<bind> (\<lambda>k1. handler k1 \<bind> leave_trap (bd_run_wrapper bd) c))"
  using assms by (cases e) (auto simp: run_event_def k_timer_trap_def k_console_trap_def k_ecall_trap_def Let_def)

lemma ecall_handled:
  assumes inv: "kinv f k A" and bd: "board_ok bd" and may: "may_call f k A code p0 p1 p3"
    and tr: "trap_of bd (Ecall code p0 p1 p2 p3) k = Some (k0, c, handler)"
  shows "handled (call_step k code p0 p1 p3 A) f k0 A (handler (entered k0))"
    "\<exists>k1. frame {a_cur A} k k1 \<and> handler (entered k0) = syscall code p0 p1 p2 p3 k1 \<and>
      timer_ticks k1 = timer_ticks k \<and> kinv f k1 A"
proof -
  have k0: "k0 = k\<lparr>cpu_of := enter_ecall bd code p0 p1 p2 p3 (cpu_of k)\<rparr>" "kinv f k0 A" using tr inv by auto
  let ?k = "entered k0"
  have r: "regs (cpu_of ?k) X_a0 = code" "regs (cpu_of ?k) X_a1 = p0" "regs (cpu_of ?k) X_a2 = p1"
    "regs (cpu_of ?k) X_a3 = p2" "regs (cpu_of ?k) X_a4 = p3"
    using k0(1) by (simp_all add: entered_def enter_ecall_def Let_def)
  have cause: "csr_scause (cpu_of ?k) = SCAUSE_ECALL_USER \<or> csr_scause (cpu_of ?k) = SCAUSE_ECALL_SUPERVISOR"
    using bd k0(1) by (simp add: board_ok_def enter_ecall_def)
  let ?c = "(cpu_of ?k)\<lparr>csr_sepc := csr_sepc (cpu_of ?k) + INSTRUCTION_SIZE,
      csr_sip := csr_sip (cpu_of ?k) AND NOT 0x02\<rparr>"
  have "kinv f (?k\<lparr>cpu_of := ?c\<rparr>) A" using entered_inv(2) [OF k0(2)] by simp
  from kinv_set_a0 [OF this, of FAILED_SYSCALL] obtain k1 where
    k1: "set_a0 FAILED_SYSCALL (?k\<lparr>cpu_of := ?c\<rparr>) = Some k1" "kinv f k1 A" "frame {a_cur A} (?k\<lparr>cpu_of := ?c\<rparr>) k1"
    by metis
  have fr: "frame {a_cur A} k0 k1" using frame_trans_same [OF entered_inv(3) [OF k0(2)]] k1(3) by simp
  then have fr': "frame {a_cur A} k k1" using k0(1) by simp
  have "handled (call_step k1 code p0 p1 p3 A) f k1 A (syscall code p0 p1 p2 p3 k1)"
    by (rule handled_syscall [OF k1(2)]) (use may may_call_frame(1) [OF fr'] in simp)
  then have "handled (call_step k1 code p0 p1 p3 A) f k0 A (syscall code p0 p1 p2 p3 k1)"
    by (rule handled_from [OF _ fr, where xs = "[]"]) simp_all
  moreover have e: "handler ?k = syscall code p0 p1 p2 p3 k1"
  proof -
    have "handler ?k = k_handle_ecall (bd_stat bd) (bd_stat bd) (regs (cpu_of ?k) X_a0) (regs (cpu_of ?k) X_a1)
        (regs (cpu_of ?k) X_a2) (regs (cpu_of ?k) X_a3) (regs (cpu_of ?k) X_a4) ?k"
      using tr by (auto simp: Let_def)
    then show ?thesis using cause k1(1) by (simp add: r k_handle_ecall_def Let_def)
  qed
  ultimately show "handled (call_step k code p0 p1 p3 A) f k0 A (handler ?k)"
    using may_call_frame(2) [OF fr'] by simp
  have "timer_ticks k1 = timer_ticks k" using ticks.set_a0_same [OF k1(1)] k0(1) by simp
  then show "\<exists>k1. frame {a_cur A} k k1 \<and> handler ?k = syscall code p0 p1 p2 p3 k1 \<and>
      timer_ticks k1 = timer_ticks k \<and> kinv f k1 A"
    using fr' e k1(2) by blast
qed

lemma event_handled:
  assumes inv: "kinv f k A" and bd: "board_ok bd" and ok: "permitted f k A e"
    and tr: "trap_of bd e k = Some (k0, c, handler)"
  shows "handled (event_step k e A) f k0 A (handler (entered k0))"
  using tr
proof (cases e)
  case Timer_interrupt
  note en = entered_inv [OF inv]
  have "event_step (entered k) Timer_interrupt A = event_step k Timer_interrupt A" by (simp add: event_step_def)
  with handled_from [OF handled_timer [OF en(2)] en(3), where xs = "[]"] show ?thesis using Timer_interrupt tr by auto
next
  case (Console_interrupt stat data)
  note en = entered_inv [OF inv]
  have "may_signal A (getc_sem (lay (entered k)))" using ok Console_interrupt by (simp add: permitted_def)
  moreover have "event_step (entered k) (Console_interrupt stat data) A = event_step k (Console_interrupt stat data) A"
    by (simp add: event_step_def)
  ultimately show ?thesis
    using handled_from [OF handled_console [OF en(2), of stat data] en(3), where xs = "[]"] Console_interrupt tr by auto
next
  case (Ecall code p0 p1 p2 p3)
  have may: "may_call f k A code p0 p1 p3" using ok Ecall by (simp add: permitted_def)
  have "event_step k e A = call_step k code p0 p1 p3 A" using Ecall by (simp add: event_step_def)
  then show ?thesis using ecall_handled(1) [OF inv bd may tr [unfolded Ecall]] by (rule ssubst)
qed simp_all

lemma kinv_flush:
  assumes inv: "kinv f k A" and n: "n = tx_ready stat (q_get_length (putc_buffer k))" "a_val A (putc_sem (lay k)) + int n < 2 ^ 31"
  obtains k' where "flush_putc_buffer stat k = Some k'" "kinv f k' (a_signals (putc_sem (lay k)) n A)" "frame {} k k'"
    "cpu_of k' = cpu_of k"
proof -
  let ?s = "putc_sem (lay k)"
  have s: "?s \<in> a_sems A" by (rule ownedD(11) [OF kinvD(3) [OF inv]])
  obtain k' where k': "flush_putc_buffer stat k = Some k'" "krep k' (a_signals ?s n A)" "counters_ok (a_signals ?s n A)"
    "frame {} k k'" "cpu_of k' = cpu_of k"
    by (rule flush_putc_buffer_rep [OF kinvD(1,2) [OF inv] s n])
  have "kinv f k' (a_signals ?s n A)"
    by (rule kinv_step [OF inv k'(4,2)]) (use s k'(3) kinvD(4) [OF inv] run_ring_signals in auto)
  then show ?thesis using k' by (intro that)
qed

lemma run_event_refines:
  assumes inv: "kinv f k A" and bd: "board_ok bd" and ok: "permitted f k A e"
  obtains k' A' where "run_event bd e k = Some k'" "A' \<in> event_step k e A" "kinv f k' A'" "undisturbed A A' k k'"
proof (cases "trap_of bd e k")
  case (Some tr)
  obtain k0 c handler where tr: "trap_of bd e k = Some (k0, c, handler)" using Some by (cases tr) auto
  then have k0: "kinv f k0 A" "undisturbed A A' k0 k' = undisturbed A A' k k'" for A' k'
    using inv by (cases e; auto simp: undisturbed_def)+
  obtain k' A' where "(trap_enter k0 \<bind> (\<lambda>k1. handler k1 \<bind> leave_trap (bd_run_wrapper bd) c)) = Some (Returns (), k')"
    "A' \<in> event_step k e A" "kinv f k' A'" "undisturbed A A' k0 k'"
    by (rule trap_event [where handler = handler and rw = "bd_run_wrapper bd" and e = c,
          OF k0(1) event_handled [OF inv bd ok tr]])
  then show ?thesis using run_event_trap [OF tr] k0(2) by (intro that [of k' A']) simp_all
next
  case None
  then consider (c) r u where "e = Compute r u" | (f) stat where "e = Flush stat" by (cases e) auto
  then show ?thesis
  proof cases
    case c
    then show ?thesis using inv that [of "k\<lparr>cpu_of := r, user_cells := u\<rparr>" A]
      by (simp add: run_event_def event_step_def undisturbed_def)
  next
    case f
    let ?n = "tx_ready stat (q_get_length (putc_buffer k))"
    obtain k' where k': "flush_putc_buffer stat k = Some k'" "kinv f k' (a_signals (putc_sem (lay k)) ?n A)" "frame {} k k'"
      by (rule kinv_flush [OF inv, of ?n stat]) (use ok f in \<open>simp_all add: permitted_def\<close>)
    have "undisturbed A (a_signals (putc_sem (lay k)) ?n A) k k'"
      using k'(3) by (simp add: undisturbed_def frame_def heap_frame_def)
    then show ?thesis using f k' by (intro that) (simp_all add: run_event_def event_step_def)
  qed
qed

end
