(* ===== verification/Kernel_Traces.thy ===== *)
theory Kernel_Traces
  imports Kernel_Safe
begin

text \<open>
  Runs of the kernel, as sequences of permitted events: the invariant holds at every point, and a
  thread that an interrupt takes off the processor gets back, after any run, the registers, program counter
  and status that it had when the interrupt came.
\<close>

section \<open>The abstract step is a function\<close>

lemma thread_room_unique:
  "thread_room k t st js m \<Longrightarrow> thread_room k t' st' js' m' \<Longrightarrow> t = t' \<and> st = st' \<and> js = js' \<and> m = m'"
  by (auto simp: thread_room_def)

lemma call_step_unique: "A1 \<in> call_step k code p0 p1 p3 A \<Longrightarrow> A2 \<in> call_step k code p0 p1 p3 A \<Longrightarrow> A1 = A2"
  by (auto simp: call_step_def dest: thread_room_unique split: if_splits)

lemma event_step_unique: "A1 \<in> event_step k e A \<Longrightarrow> A2 \<in> event_step k e A \<Longrightarrow> A1 = A2"
  using call_step_unique by (auto simp: event_step_def split: event.splits if_splits)

lemma run_event_inv:
  assumes "kinv f k A" "board_ok bd" "permitted f k A e" "run_event bd e k = Some k1" "A1 \<in> event_step k e A"
  shows "kinv f k1 A1" "undisturbed A A1 k k1"
proof -
  obtain k' A' where "run_event bd e k = Some k'" "A' \<in> event_step k e A" "kinv f k' A'" "undisturbed A A' k k'"
    by (rule run_event_refines [OF assms(1-3)])
  with assms(4) event_step_unique [OF assms(5)] show "kinv f k1 A1" "undisturbed A A1 k k1" by auto
qed

section \<open>Only the running thread can leave\<close>

lemma threads_wait_may: "kinv f k A \<Longrightarrow> may_block f A s \<Longrightarrow> threads (a_wait s A) = threads A"
  using kinvD(5) by (intro threads_wait) (auto simp: may_block_def)

lemma thread_room_fresh:
  assumes own: "owned k A" and room: "thread_room k t st js m"
  shows "js \<notin> a_sems A"
proof -
  obtain m1 m2 where al: "mem_alloc_blocks 6 (mem k) = Some (t, m1)" "mem_alloc_blocks 64 m1 = Some (st, m2)"
    "mem_alloc_blocks 1 m2 = Some (js, m)" "t \<noteq> NULL" "st \<noteq> NULL" "js \<noteq> NULL"
    using room by (auto simp: thread_room_def)
  note f1 = fresh_not_owned [OF own al(1) _ al(4), simplified]
  note f2 = fresh_not_owned [OF f1(5), simplified, OF al(2) _ al(5), simplified]
  note f3 = fresh_not_owned [OF f2(5), simplified, OF al(3) _ al(6), simplified]
  show ?thesis using f3(1) by (auto simp: kernel_owned_def)
qed

text \<open>The abstract steps of a permitted call, with what the permission says about each.\<close>

lemma call_step_cases:
  assumes inv: "kinv f k A" and may: "may_call f k A code p0 p1 p3" and A': "A' \<in> call_step k code p0 p1 p3 A"
  obtains (same) "A' = A"
    | (create) t st js m where "A' = a_create t js A" "code = CREATE_THREAD_CODE" "thread_room k t st js m" "js \<notin> a_sems A"
        "p0 \<noteq> NULL" "p1 \<noteq> 0" "p3 \<noteq> NULL" "live_blocks (mem k) (p3 - DEFAULT_STACK_SIZE) \<noteq> None"
        "\<not> kernel_owned k A (p3 - DEFAULT_STACK_SIZE)"
    | (exit) s where "A' = a_exit s A" "code = THREAD_EXIT_CODE" "s \<in> a_sems A" "live_blocks (mem k) s \<noteq> None" "a_queue A Ready \<noteq> []"
    | (dispatch) "A' = a_dispatch A" "code = THREAD_DISPATCH_CODE"
    | (join) s where "A' = a_wait s A" "code = THREAD_JOIN_CODE" "may_block f A s" "live_blocks (mem k) s \<noteq> None"
    | (new) s v where "A' = a_new_sem s v A" "code = SEM_OPEN_CODE" "s \<notin> a_sems A"
    | (close) "A' = a_close_sem p0 A" "code = SEM_CLOSE_CODE" "p0 \<in> a_sems A" "live_blocks (mem k) p0 \<noteq> None"
    | (wait) "A' = a_wait p0 A" "code = SEM_WAIT_CODE" "may_block f A p0"
    | (signal) "A' = a_signal p0 A" "code = SEM_SIGNAL_CODE" "may_signal A p0"
    | (sleep) n where "A' = a_next (a_sleep (a_cur A) n A)" "code = TIME_SLEEP_CODE" "a_queue A Ready \<noteq> []"
    | (getc) "A' = a_wait (getc_sem (lay k)) A" "code = GET_C_CODE" "may_block f A (getc_sem (lay k))"
    | (putc) "A' = a_wait (putc_sem (lay k)) A" "code = PUT_C_CODE" "may_block f A (putc_sem (lay k))"
proof -
  note m = may [unfolded may_call_def] and own = kinvD(3) [OF inv] and Q = kinvD(5) [OF inv]
  note m_create = m [THEN conjunct2, THEN conjunct1]
  note m_exit = m [THEN conjunct2, THEN conjunct2, THEN conjunct1]
  note m_join = m [THEN conjunct2, THEN conjunct2, THEN conjunct2, THEN conjunct1]
  note m_open = m [THEN conjunct2, THEN conjunct2, THEN conjunct2, THEN conjunct2, THEN conjunct1]
  note m_rest = m [THEN conjunct2, THEN conjunct2, THEN conjunct2, THEN conjunct2, THEN conjunct2]
  have live: "live_blocks (mem k) (join_sem (tcbs k t)) \<noteq> None" "join_sem (tcbs k t) \<in> a_sems A"
    if "t \<in> threads A" "t \<noteq> main_tcb (lay k)" for t
    using that region_live [OF own, of t "join_sem (tcbs k t)"] ownedD(3) [OF own, of t]
    by (auto simp: user_threads_def thread_regions_def)
  have fresh: "s \<notin> a_sems A" if "code = SEM_OPEN_CODE" "p0 \<noteq> NULL" "mem_alloc_blocks 1 (mem k) = Some (s, m')" for s m'
  proof -
    have "s \<noteq> NULL" using m_open that by auto
    with fresh_not_owned(1) [OF own that(3)] show ?thesis by (auto simp: kernel_owned_def)
  qed
  consider "A' = A"
    | (1) t js st m' where "code = CREATE_THREAD_CODE" "A' = a_create t js A" "thread_room k t st js m'"
        "p0 \<noteq> NULL" "p1 \<noteq> 0" "p3 \<noteq> NULL" "mem_alloc_blocks 6 (mem k) \<noteq> Some (NULL, mem k)"
    | (2) "code = THREAD_EXIT_CODE" "a_cur A \<noteq> main_tcb (lay k)" "A' = a_exit (join_sem (tcbs k (a_cur A))) A"
    | (3) "code = THREAD_DISPATCH_CODE" "A' = a_dispatch A"
    | (4) "code = THREAD_JOIN_CODE" "p0 \<noteq> NULL" "join_sem (tcbs k p0) \<noteq> NULL" "A' = a_wait (join_sem (tcbs k p0)) A"
    | (5) s m' where "code = SEM_OPEN_CODE" "p0 \<noteq> NULL" "mem_alloc_blocks 1 (mem k) = Some (s, m')"
        "A' = a_new_sem s (sint (ucast p1 :: u32)) A"
    | (6) "code = SEM_CLOSE_CODE" "p0 \<noteq> NULL" "A' = a_close_sem p0 A"
    | (7) "code = SEM_WAIT_CODE" "p0 \<noteq> NULL" "A' = a_wait p0 A"
    | (8) "code = SEM_SIGNAL_CODE" "p0 \<noteq> NULL" "A' = a_signal p0 A"
    | (9) "code = TIME_SLEEP_CODE" "p0 \<noteq> 0" "A' = a_next (a_sleep (a_cur A) (unat p0) A)"
    | (10) "code = GET_C_CODE" "A' = a_wait (getc_sem (lay k)) A"
    | (11) "code = PUT_C_CODE" "A' = a_wait (putc_sem (lay k)) A"
    using A' unfolding call_step_def by (auto split: if_splits)
  then show ?thesis
  proof cases
    case 1
    then show ?thesis using create thread_room_fresh [OF own 1(3)] m_create by blast
  next
    case 2
    then show ?thesis using exit live [of "a_cur A"] Q m_exit by (auto simp: threads_def)
  next
    case 4
    then have "p0 \<noteq> main_tcb (lay k)" using ownedD(8) [OF own] by auto
    then show ?thesis using 4 join live [of p0] m_join by auto
  next
    case 9
    then show ?thesis using sleep Q m_rest by auto
  qed (use that fresh m_rest in \<open>auto 0 3\<close>)
qed

lemma call_step_threads:
  assumes inv: "kinv f k A" and may: "may_call f k A code p0 p1 p3" and A': "A' \<in> call_step k code p0 p1 p3 A"
  shows "threads A - {a_cur A} \<subseteq> threads A'"
  using inv may A'
proof (cases rule: call_step_cases)
  case (exit s)
  then show ?thesis using threads_exit(1) [of s A] krepD(6) [OF kinvD(1) [OF inv]] by simp
qed (auto simp: threads_create threads_wait_may [OF inv] may_signal_def)

lemma event_step_threads:
  assumes inv: "kinv f k A" and ok: "permitted f k A e" and A': "A' \<in> event_step k e A"
  shows "threads A - {a_cur A} \<subseteq> threads A'"
proof (cases e)
  case (Console_interrupt stat data)
  then show ?thesis using ok A' by (auto simp: event_step_def permitted_def may_signal_def split: if_splits)
next
  case (Ecall code p0 p1 p2 p3)
  then show ?thesis using call_step_threads [OF inv, of code p0 p1 p3 A'] ok A' by (simp add: permitted_def event_step_def)
next
  case (Flush stat)
  then show ?thesis using A' ownedD(11) [OF kinvD(3) [OF inv]] by (auto simp: event_step_def)
qed (use A' in \<open>auto simp: event_step_def split: if_splits\<close>)

section \<open>Runs\<close>

text \<open>The list records the events, each with the thread that runs after it.\<close>

inductive kernel_run :: "board \<Rightarrow> addr \<Rightarrow> kstate \<Rightarrow> sched \<Rightarrow> (event \<times> addr) list \<Rightarrow> kstate \<Rightarrow> sched \<Rightarrow> bool"
  for bd f where
  run_nil: "kernel_run bd f k A [] k A"
| run_cons: "\<lbrakk>permitted f k A e; run_event bd e k = Some k1; A1 \<in> event_step k e A;
     kernel_run bd f k1 A1 es k2 A2\<rbrakk> \<Longrightarrow> kernel_run bd f k A ((e, a_cur A1) # es) k2 A2"

inductive_simps kernel_run_nil [simp]: "kernel_run bd f k A [] k' A'"
inductive_cases kernel_run_consE: "kernel_run bd f k A (x # es) k' A'"

lemma kernel_run_invariant:
  "kernel_run bd f k A es k' A' \<Longrightarrow> board_ok bd \<Longrightarrow> kinv f k A \<Longrightarrow> kinv f k' A'"
proof (induction rule: kernel_run.induct)
  case (run_cons k A e k1 A1 es k2 A2)
  then show ?case using run_event_inv(1) by metis
qed

lemma kernel_run_append:
  "kernel_run bd f k A es k1 A1 \<Longrightarrow> kernel_run bd f k1 A1 es' k2 A2 \<Longrightarrow> kernel_run bd f k A (es @ es') k2 A2"
  by (induction rule: kernel_run.induct) (auto intro: run_cons)

lemma kernel_run_split:
  assumes "kernel_run bd f k A (es @ es') k2 A2"
  obtains k1 A1 where "kernel_run bd f k A es k1 A1" "kernel_run bd f k1 A1 es' k2 A2"
  using assms
proof (induction es arbitrary: k A thesis)
  case (Cons x es)
  from Cons.prems(2) obtain e k0 A0 where s: "x = (e, a_cur A0)" "permitted f k A e" "run_event bd e k = Some k0"
    "A0 \<in> event_step k e A" "kernel_run bd f k0 A0 (es @ es') k2 A2"
    by (auto elim: kernel_run_consE)
  obtain k1 A1 where "kernel_run bd f k0 A0 es k1 A1" "kernel_run bd f k1 A1 es' k2 A2" using Cons.IH [OF _ s(5)] by blast
  then show ?case using run_cons [OF s(2-4)] s(1) by (intro Cons.prems(1)) simp_all
qed simp

text \<open>A thread that runs at no point keeps what it has saved.\<close>

lemma kernel_run_undisturbed:
  assumes "kernel_run bd f k A es k' A'" "board_ok bd" "kinv f k A" "t \<in> threads A" "t \<noteq> a_cur A" "t \<notin> snd ` set es"
  shows "saved (tcbs k' t) = saved (tcbs k t) \<and> t \<in> threads A' \<and> t \<noteq> a_cur A'"
  using assms
proof (induction rule: kernel_run.induct)
  case (run_cons k A e k1 A1 es k2 A2)
  note i = run_event_inv [OF run_cons.prems(2) run_cons.prems(1) run_cons.hyps(1-3)]
  have t: "t \<noteq> a_cur A1" "t \<in> threads A1" "saved (tcbs k1 t) = saved (tcbs k t)"
    using run_cons.prems(3-5) event_step_threads [OF run_cons.prems(2) run_cons.hyps(1,3)] i(2)
    by (auto simp: undisturbed_def)
  show ?case using run_cons.IH [OF run_cons.prems(1) i(1) t(2,1)] run_cons.prems(5) t(3) by simp
qed simp

section \<open>What an interrupt saves\<close>

text \<open>The control block \<open>x\<close> holds the registers, the program counter and the status of the processor in \<open>k\<close>.\<close>

definition holds_cpu :: "kstate \<Rightarrow> tcb \<Rightarrow> bool" where
  "holds_cpu k x \<longleftrightarrow> resume x = KInterrupt \<and> exit_regs False x = regs (cpu_of k) \<and>
     c_sepc (tcontext x) = csr_sepc (cpu_of k) \<and> c_sstatus (tcontext x) = csr_sstatus (cpu_of k)"

lemma preempted_holds:
  assumes p: "preempted KInterrupt t k2 k1" and t: "current_tcb k = t"
    and sv: "saved (tcbs k2 t) = saved (tcbs (entered k) t)"
    and c: "csr_sepc (cpu_of k2) = csr_sepc (cpu_of k)" "csr_sstatus (cpu_of k2) = csr_sstatus (cpu_of k)"
  shows "holds_cpu k (tcbs k1 t)"
proof -
  have "core (tcbs k1 t) = core ((tcbs k2 t)\<lparr>tcontext := fst (k_save_context (cpu_of k2) (tcontext (tcbs k2 t))), resume := KInterrupt\<rparr>)"
    using p by (simp add: preempted_def)
  note f = core_fields [OF this]
  have "trap_frame (tcbs k2 t) = regs (cpu_of k)" "c_usr_sp (tcontext (tcbs k2 t)) = regs (cpu_of k) X_sp"
    using sv entered_frame [of k] t by (simp_all add: saved_def)
  then show ?thesis using f(1,9,10) c by (simp add: holds_cpu_def exit_regs_def k_save_context_def)
qed

lemma timer_trap_holds:
  assumes inv: "kinv f k A" and late: "time_slice (tcbs k (a_cur A)) \<le> timer_ticks k + 1"
  obtains k1 where "k_timer_trap rw k = map_option (Pair (Returns ())) (resume_current rw k1)"
    "krep k1 (a_dispatch (a_tick A))" "holds_cpu k (tcbs k1 (a_cur A))"
proof -
  obtain k1 where k1: "k_timer_trap rw k = map_option (Pair (Returns ())) (resume_current rw k1)"
    "krep k1 (a_dispatch (a_tick A))" "preempted KInterrupt (a_cur A) (entered k) k1"
    by (rule k_timer_trap_switch [OF kinvD(1) [OF inv] late, where rw = rw])
  have "holds_cpu k (tcbs k1 (a_cur A))"
    by (rule preempted_holds [OF k1(3)]) (use krepD(2) [OF kinvD(1) [OF inv]] in \<open>simp_all add: entered_def Let_def\<close>)
  then show ?thesis by (rule that [OF k1(1,2)])
qed

lemma console_trap_holds:
  assumes inv: "kinv f k A" and s: "may_signal A (getc_sem (lay k))"
    and rx: "stat AND CONSOLE_RX_STATUS_BIT \<noteq> 0" "q_get_length (getc_buffer k) < IO_BUFFER_SIZE"
  obtains k1 where "k_console_trap rw stat data k = map_option (Pair (Returns ())) (resume_current rw k1)"
    "krep k1 (a_dispatch (a_signal (getc_sem (lay k)) A))" "holds_cpu k (tcbs k1 (a_cur A))"
proof -
  note en = entered_inv [OF inv]
  let ?E = "entered k"
  let ?k0 = "?E\<lparr>cpu_of := (cpu_of ?E)\<lparr>csr_sip := csr_sip (cpu_of ?E) AND NOT 0x200\<rparr>\<rparr>"
  let ?kb = "?k0\<lparr>getc_buffer := q_put IO_BUFFER_SIZE data (getc_buffer ?k0)\<rparr>"
  have lay: "lay ?E = lay k" "getc_buffer ?E = getc_buffer k" by (simp_all add: entered_def Let_def)
  have kb: "kinv f ?kb A" using en(2) by simp
  have s': "may_signal A (getc_sem (lay ?kb))" using s lay by simp
  obtain k2 where k2: "sem_signal (getc_sem (lay ?kb)) ?kb = Some (SIGNAL_SUCCESS, k2)"
    "kinv f k2 (a_signal (getc_sem (lay ?kb)) A)" "frame {} ?kb k2"
    by (rule kinv_signal [OF kb s'])
  obtain k1 where k1: "dispatch KInterrupt k2 = Some (Switches, k1)" "krep k1 (a_dispatch (a_signal (getc_sem (lay ?kb)) A))"
    "switch_frame KInterrupt (a_cur (a_signal (getc_sem (lay ?kb)) A)) k2 k1"
    by (rule dispatch_rep [OF kinvD(1) [OF k2(2)], where cont = KInterrupt])
  have "k_handle_console stat data ?E = Some (Switches, k1)"
    using rx k2(1) k1(1) lay by (simp add: k_handle_console_def fill_getc_buffer_def q_get_capacity_def Let_def)
  then have 1: "k_console_trap rw stat data k = map_option (Pair (Returns ())) (resume_current rw k1)"
    using en(1) by (simp add: k_console_trap_def leave_trap_def)
  have p: "preempted KInterrupt (a_cur A) k2 k1"
    using switch_frame_preempted [OF k1(3)] krepD(4) [OF kinvD(1) [OF inv]] by simp
  have "on_cpu k2 = on_cpu ?kb" by (rule oncpu.sem_signal_same [OF k2(1)])
  then have c: "csr_sepc (cpu_of k2) = csr_sepc (cpu_of k)" "csr_sstatus (cpu_of k2) = csr_sstatus (cpu_of k)"
    by (simp_all add: on_cpu_def entered_def Let_def)
  have "saved (tcbs k2 (a_cur A)) = saved (tcbs ?E (a_cur A))" using k2(3) by (simp add: frame_def heap_frame_def)
  then have "holds_cpu k (tcbs k1 (a_cur A))"
    by (intro preempted_holds [OF p krepD(2) [OF kinvD(1) [OF inv]] _ c])
  then show ?thesis using that [OF 1] k1(2) lay by simp
qed

definition interrupts :: "event \<Rightarrow> bool" where
  "interrupts e \<longleftrightarrow> (case e of Timer_interrupt \<Rightarrow> True | Console_interrupt stat data \<Rightarrow> True | _ \<Rightarrow> False)"

lemma interrupt_holds:
  assumes inv: "kinv f k A" and ok: "permitted f k A e" and e: "interrupts e"
    and run: "run_event bd e k = Some k'" and st: "A' \<in> event_step k e A" and sw: "a_cur A' \<noteq> a_cur A"
  shows "holds_cpu k (tcbs k' (a_cur A))"
proof -
  let ?rw = "bd_run_wrapper bd"
  obtain k1 where k1: "run_event bd e k = resume_current ?rw k1" "krep k1 A'" "holds_cpu k (tcbs k1 (a_cur A))"
  proof (cases e)
    case Timer_interrupt
    then have late: "time_slice (tcbs k (a_cur A)) \<le> timer_ticks k + 1" and A': "A' = a_dispatch (a_tick A)"
      using st sw by (auto simp: event_step_def split: if_splits)
    obtain k1 where "k_timer_trap ?rw k = map_option (Pair (Returns ())) (resume_current ?rw k1)"
      "krep k1 (a_dispatch (a_tick A))" "holds_cpu k (tcbs k1 (a_cur A))" by (rule timer_trap_holds [OF inv late, where rw = ?rw])
    then show ?thesis using that Timer_interrupt A' by (simp add: run_event_def option.map_comp comp_def option.map_ident)
  next
    case (Console_interrupt stat data)
    then have rx: "stat AND CONSOLE_RX_STATUS_BIT \<noteq> 0" "q_get_length (getc_buffer k) < IO_BUFFER_SIZE"
      and A': "A' = a_dispatch (a_signal (getc_sem (lay k)) A)"
      using st sw by (auto simp: event_step_def split: if_splits)
    have s: "may_signal A (getc_sem (lay k))" using ok Console_interrupt by (simp add: permitted_def)
    obtain k1 where "k_console_trap ?rw stat data k = map_option (Pair (Returns ())) (resume_current ?rw k1)"
      "krep k1 (a_dispatch (a_signal (getc_sem (lay k)) A))" "holds_cpu k (tcbs k1 (a_cur A))"
      by (rule console_trap_holds [OF inv s rx, where rw = ?rw and data = data])
    then show ?thesis using that Console_interrupt A' by (simp add: run_event_def option.map_comp comp_def option.map_ident)
  qed (use e in \<open>simp_all add: interrupts_def\<close>)
  have "frame {a_cur A'} k1 k'" using resume_current_frame [of ?rw k1 k'] run k1(1) krepD(3) [OF k1(2)] by simp
  then have "saved (tcbs k' (a_cur A)) = saved (tcbs k1 (a_cur A))" using sw by (simp add: frame_def heap_frame_def)
  then show ?thesis using k1(3) by (simp add: holds_cpu_def saved_def exit_regs_def)
qed

lemma interrupt_threads: "interrupts e \<Longrightarrow> permitted f k A e \<Longrightarrow> A' \<in> event_step k e A \<Longrightarrow> threads A' = threads A"
  by (cases e) (auto simp: interrupts_def permitted_def may_signal_def event_step_def split: if_splits)

end
