(* ===== verification/Kernel_Ticks.thy ===== *)
theory Kernel_Ticks
  imports Kernel_Traces
begin

text \<open>
  The tick counter and the time slices over whole events: every thread of the system has the default
  slice, a tick counts exactly one, and the counter starts again only when the thread at the head of
  the ready queue takes over.
\<close>

unbundle bit_operations_syntax

section \<open>Time slices\<close>

definition slices :: "kstate \<Rightarrow> addr \<Rightarrow> u64" where
  "slices k = (\<lambda>p. time_slice (tcbs k p))"

lemma slices_upd [simp]:
  "slices (k\<lparr>sems := s\<rparr>) = slices k" "slices (k\<lparr>mem := m\<rparr>) = slices k" "slices (k\<lparr>sched_queue := q\<rparr>) = slices k"
  "slices (k\<lparr>sleep_queue := q\<rparr>) = slices k" "slices (k\<lparr>current_tcb := t\<rparr>) = slices k"
  "slices (k\<lparr>current_context := t\<rparr>) = slices k" "slices (k\<lparr>timer_ticks := n\<rparr>) = slices k"
  "slices (k\<lparr>cpu_of := c\<rparr>) = slices k" "slices (k\<lparr>user_cells := u\<rparr>) = slices k"
  "slices (k\<lparr>putc_buffer := b\<rparr>) = slices k" "slices (k\<lparr>getc_buffer := b\<rparr>) = slices k" "slices (k\<lparr>tx_out := out\<rparr>) = slices k"
  by (simp_all add: slices_def)

lemma slices_tcb [simp]:
  "slices (k\<lparr>tcbs := h(t := x)\<rparr>) = (slices (k\<lparr>tcbs := h\<rparr>))(t := time_slice x)"
  "slices (k\<lparr>tcbs := tcbs k'\<rparr>) = slices k'"
  by (auto simp: slices_def)

lemma slice_of [simp]: "time_slice (tcbs k t) = slices k t"
  by (simp add: slices_def)

lemma frame_slices: "frame X k k' \<Longrightarrow> slices k' = slices k"
  by (simp add: frame_def heap_frame_def regions_of_def slices_def del: slice_of)

lemma upd_tcb_slices: "upd_tcb p f k = Some k' \<Longrightarrow> (\<And>x. time_slice (f x) = time_slice x) \<Longrightarrow> slices k' = slices k"
  by (cases "p = NULL") auto

lemma upd_sem_slices: "upd_sem p f k = Some k' \<Longrightarrow> slices k' = slices k"
  by (rule frame_slices [OF upd_sem_frame])

lemma free_mem_slices: "free_mem p k = Some k' \<Longrightarrow> slices k' = slices k"
  by (auto simp: free_mem_def split: bind_splits)

lemma free_sem_slices: "free_sem s k = Some (r, k') \<Longrightarrow> slices k' = slices k"
  by (auto simp: free_sem_def split: bind_splits)

lemma create_sem_slices: "create_sem v k = Some (s, k') \<Longrightarrow> slices k' = slices k"
  by (auto simp: create_sem_def sem_initialize_def dest!: upd_sem_slices split: bind_splits)

lemma free_tcb_slices:
  assumes "free_tcb t k = Some k'"
  shows "slices k' = slices k"
  using assms
  by (auto simp: free_tcb_def dest!: free_mem_slices free_sem_slices upd_tcb_slices split: if_splits bind_splits)

lemma dispatch_slices:
  assumes "dispatch cont k = Some (f, k')"
  shows "slices k' = slices k"
proof -
  obtain prev k1 where "slices k1 = slices k"
    "(let (t, k2) = next_tcb k1 in yield cont prev t (k2\<lparr>current_tcb := t\<rparr>)) = Some (f, k')"
    using assms unfolding dispatch_def Let_def
    by (fastforce dest: frame_slices [OF put_tcb_frame [where X = "{}"]] frame_slices [OF sem_close_frame [where X = "{}"]]
        free_tcb_slices split: bind_splits if_splits)
  then show ?thesis using frame_slices [OF switch_away_frame] by simp
qed

lemma set_a0_slices: "set_a0 v k = Some k' \<Longrightarrow> slices k' = slices k"
  by (rule frame_slices [OF set_a0_frame])

lemma put_tcb_slices: "put_tcb t k = Some k' \<Longrightarrow> slices k' = slices k"
  by (rule frame_slices [OF put_tcb_frame [where X = "{}"]])

text \<open>Only the creation of a thread sets a slice.\<close>

lemma create_tcb_slices:
  assumes "create_tcb bdy ags sp k = Some (t, k')"
  shows "\<forall>p. slices k' p = slices k p \<or> slices k' p = DEFAULT_TIME_SLICE"
proof -
  have up: "\<forall>p. slices k1 p = slices k0 p \<or> slices k1 p = DEFAULT_TIME_SLICE"
    if "upd_tcb u f k0 = Some k1" "\<And>x. time_slice (f x) = DEFAULT_TIME_SLICE" for u f k0 k1
    using that by (cases "u = NULL") auto
  show ?thesis
    using assms
    by (auto simp: create_tcb_def Let_def dest!: up free_tcb_slices create_sem_slices upd_tcb_slices
        split: if_splits bind_splits)
qed


text \<open>The counts after one system call.\<close>

definition slices_kept :: "kstate \<Rightarrow> kstate \<Rightarrow> bool" where
  "slices_kept k k' \<longleftrightarrow> (\<forall>p. slices k' p = slices k p \<or> slices k' p = DEFAULT_TIME_SLICE)"

lemma slices_kept_same: "slices k' = slices k \<Longrightarrow> slices_kept k k'"
  by (simp add: slices_kept_def)

lemma slices_kept_trans: "slices_kept k k1 \<Longrightarrow> slices_kept k1 k' \<Longrightarrow> slices_kept k k'"
  unfolding slices_kept_def by metis

lemma handle_create_slices: "handle_create_thread p0 p1 p2 p3 k = Some k' \<Longrightarrow> slices_kept k k'"
  by (auto simp: handle_create_thread_def slices_kept_def Let_def
      dest!: create_tcb_slices put_tcb_slices set_a0_slices split: if_splits bind_splits; blast)

lemma wait_then_clock:
  assumes "wait_then cont s k = Some (fl, k')" "current_context k = current_tcb k"
  shows "slices k' = slices k" "timer_ticks k' = timer_ticks k"
proof -
  show "slices k' = slices k" using wait_then_frame [OF assms] by (auto simp: frame_slices)
  have "timer_ticks k2 = timer_ticks k1" if "after_wait cont r k1 = Some k2" for r k1 k2
    using that by (auto simp: after_wait_def dest!: ticks.set_a0_same split: kcont.splits prod.splits)
  then show "timer_ticks k' = timer_ticks k"
    using assms(1) by (auto simp: wait_then_def dest!: ticks.sem_wait_same split: bind_splits flow.splits)
qed

lemma syscall_clock:
  assumes "syscall code p0 p1 p2 p3 k = Some (fl, k')" "current_context k = current_tcb k"
  shows "slices_kept k k'" "timer_ticks k' = timer_ticks k"
proof -
  have s: "code = CREATE_THREAD_CODE \<or> slices k' = slices k"
    using assms
    by (auto simp: syscall_def prepare_user_mode_def handle_sem_open_def handle_sem_close_def Let_def
        dest!: wait_then_clock(1) dispatch_slices set_a0_slices upd_tcb_slices frame_slices [OF put_to_sleep_frame [where X = "{}"]]
          create_sem_slices frame_slices [OF sem_close_frame [where X = "{}"]] free_sem_slices
          frame_slices [OF sem_signal_frame [where X = "{}"]]
        split: if_splits bind_splits)
  show "slices_kept k k'"
  proof (cases "code = CREATE_THREAD_CODE")
    case True
    then show ?thesis using assms(1) handle_create_slices by (auto simp: syscall_def syscall_code_defs)
  next
    case False
    then show ?thesis using s by (simp add: slices_kept_same)
  qed
  show "timer_ticks k' = timer_ticks k"
    using assms
    by (auto simp: syscall_def prepare_user_mode_def
        dest!: wait_then_clock(2) ticks.dispatch_same ticks.set_a0_same ticks.upd_tcb_same ticks.put_to_sleep_same
          ticks.handle_create_thread_same ticks.handle_sem_open_same ticks.handle_sem_close_same ticks.sem_signal_same
        split: if_splits bind_splits)
qed


section \<open>Whole traps\<close>

lemma resume_current_ticks:
  assumes "resume_current rw k = Some k'"
  shows "timer_ticks k' = timer_ticks k \<or> timer_ticks k' = 0"
proof -
  have aw: "timer_ticks k2 = timer_ticks k1" if "after_wait cont r k1 = Some k2" for cont r k1 k2
    using that by (auto simp: after_wait_def dest!: ticks.set_a0_same split: kcont.splits prod.splits)
  show ?thesis
    using assms by (auto simp: resume_current_def Let_def dest!: aw ticks.trap_exit_same ticks.k_tcb_start_same
        split: kcont.splits bind_splits)
qed

lemma a_next_choice: "a_queue A Ready \<noteq> [] \<Longrightarrow> a_cur (a_next A) = hd (a_queue A Ready)"
  by (cases "a_queue A Ready") (auto simp: a_next_head)

text \<open>
  Leaving a trap: the counter is what the handler left, unless the thread at the head of the ready
  queue takes over.
\<close>

lemma leave_trap_clock:
  assumes hd: "handled {A'} f k A (Some (fl, k1))" and l: "leave_trap rw e (fl, k1) = Some (u, k')"
  shows "slices k' = slices k1"
    and "timer_ticks k' = timer_ticks k1 \<or>
      timer_ticks k' = 0 \<and> (a_queue A Ready \<noteq> [] \<longrightarrow> a_cur A' = hd (a_queue A Ready))"
proof -
  have sw: "fl = Switches \<Longrightarrow> a_queue A Ready \<noteq> [] \<longrightarrow> a_cur A' = hd (a_queue A Ready)" "fl \<noteq> Halts"
    using hd by (auto simp: handled_def)
  show "slices k' = slices k1"
    using l frame_slices [OF trap_exit_frame] frame_slices [OF resume_current_frame] sw(2)
    by (auto simp: leave_trap_def split: flow.splits)
  show "timer_ticks k' = timer_ticks k1 \<or>
      timer_ticks k' = 0 \<and> (a_queue A Ready \<noteq> [] \<longrightarrow> a_cur A' = hd (a_queue A Ready))"
    using l sw resume_current_ticks [of rw k1 k'] ticks.trap_exit_same [of e k1 k']
    by (auto simp: leave_trap_def split: flow.splits)
qed

definition counted :: "event \<Rightarrow> u64" where
  "counted e = (if e = Timer_interrupt then 1 else 0)"

lemma timer_clock:
  assumes "k_handle_timer k = Some (fl, k')"
  shows "slices k' = slices k" "timer_ticks k' = timer_ticks k + 1"
proof -
  show "slices k' = slices k"
    using assms by (auto simp: k_handle_timer_def Let_def dest!: frame_slices [OF timer_tick_frame [where X = "{}"]]
        dispatch_slices split: bind_splits if_splits)
  show "timer_ticks k' = timer_ticks k + 1"
    using assms by (auto simp: k_handle_timer_def Let_def dest!: ticks.timer_tick_same ticks.dispatch_same
        split: bind_splits if_splits)
qed

lemma console_clock:
  assumes "k_handle_console stat data k = Some (fl, k')"
  shows "slices k' = slices k" "timer_ticks k' = timer_ticks k"
proof -
  show "slices k' = slices k"
    using assms by (auto simp: k_handle_console_def fill_getc_buffer_def Let_def dispatch_slices
        dest!: frame_slices [OF sem_signal_frame [where X = "{}"]] dispatch_slices split: bind_splits if_splits)
  show "timer_ticks k' = timer_ticks k"
    using assms by (auto simp: k_handle_console_def fill_getc_buffer_def Let_def
        dest!: ticks.sem_signal_same ticks.dispatch_same split: bind_splits if_splits)
qed

lemma flush_ticks:
  assumes "flush_putc_buffer stat k = Some k'"
  shows "timer_ticks k' = timer_ticks k"
proof -
  have "timer_ticks k' = timer_ticks k" if "flush_loop stat k = Some k'" for stat k k'
  proof (rule flush_loop.raw_induct [OF _ that, where P = "\<lambda>s k k'. timer_ticks k' = timer_ticks k"])
    fix f stat k k'
    assume IH: "\<And>s k k'. f s k = Some k' \<Longrightarrow> timer_ticks k' = timer_ticks k"
      and step: "(if 0 < q_get_length (putc_buffer k) \<and> stat 0 AND CONSOLE_TX_STATUS_BIT \<noteq> 0
        then let (c, q) = q_get IO_BUFFER_SIZE (putc_buffer k)
             in sem_signal (putc_sem (lay k)) (k\<lparr>tx_out := tx_out k @ [c], putc_buffer := q\<rparr>) \<bind>
                (\<lambda>(r, k1). f (\<lambda>i. stat (Suc i)) k1)
        else Some k) = Some k'"
    show "timer_ticks k' = timer_ticks k"
      using step by (auto simp: Let_def dest!: IH ticks.sem_signal_same split: if_splits bind_splits prod.splits)
  qed
  then show ?thesis using assms by (fastforce simp: flush_putc_buffer_def Let_def split: bind_splits)
qed


section \<open>Whole events\<close>

theorem run_event_clock:
  assumes inv: "kinv f k A" and bd: "board_ok bd" and ok: "permitted f k A e"
    and run: "run_event bd e k = Some k'" and A': "A' \<in> event_step k e A"
  shows "slices_kept k k'"
    and "timer_ticks k' = timer_ticks k + counted e \<or>
      timer_ticks k' = 0 \<and> (a_queue A Ready \<noteq> [] \<longrightarrow> a_cur A' = hd (a_queue A Ready))"
proof -
  have "slices_kept k k' \<and> (timer_ticks k' = timer_ticks k + counted e \<or>
      timer_ticks k' = 0 \<and> (a_queue A Ready \<noteq> [] \<longrightarrow> a_cur A' = hd (a_queue A Ready)))"
  proof (cases "trap_of bd e k")
    case None
    then consider (c) r u where "e = Compute r u" | (f) stat where "e = Flush stat" by (cases e) auto
    then show ?thesis
    proof cases
      case c
      then show ?thesis using run by (auto simp: run_event_def counted_def slices_kept_same)
    next
      case f
      let ?n = "tx_ready stat (q_get_length (putc_buffer k))"
      have fl: "flush_putc_buffer stat k = Some k'" using run f by (simp add: run_event_def)
      obtain k1 where k1: "flush_putc_buffer stat k = Some k1" "frame {} k k1"
        by (rule kinv_flush [OF inv, of ?n stat]) (use ok f in \<open>simp_all add: permitted_def\<close>)
      have "slices k' = slices k" using frame_slices [OF k1(2)] k1(1) fl by simp
      then show ?thesis using flush_ticks [OF fl] f by (simp add: counted_def slices_kept_same)
    qed
  next
    case (Some tr)
    obtain k0 c handler where tr: "trap_of bd e k = Some (k0, c, handler)" using Some by (cases tr) auto
    have k0: "kinv f k0 A" "slices k0 = slices k" "timer_ticks k0 = timer_ticks k" using tr inv by (cases e; auto)+
    have ev: "event_step k e A = {A'}" using A' event_step_unique [OF A'] by blast
    have hd: "handled {A'} f k0 A (handler (entered k0))" using event_handled [OF inv bd ok tr] unfolding ev .
    then obtain fl k1 where h: "handler (entered k0) = Some (fl, k1)" by (auto simp: handled_def)
    obtain u where l: "leave_trap (bd_run_wrapper bd) c (fl, k1) = Some (u, k')"
      using run run_event_trap [OF tr] entered_inv(1) [OF k0(1)] h by auto
    have en: "slices (entered k0) = slices k" "timer_ticks (entered k0) = timer_ticks k"
      using frame_slices [OF entered_inv(3) [OF k0(1)]] k0 by simp_all
    have k1: "slices_kept k k1 \<and> timer_ticks k1 = timer_ticks k + counted e"
    proof (cases e)
      case Timer_interrupt
      then show ?thesis using h tr timer_clock [of "entered k0" fl k1] en by (auto simp: counted_def slices_kept_same)
    next
      case (Console_interrupt stat data)
      then show ?thesis
        using h tr console_clock [of stat data "entered k0" fl k1] en by (auto simp: counted_def slices_kept_same)
    next
      case (Ecall code p0 p1 p2 p3)
      have may: "may_call f k A code p0 p1 p3" using ok Ecall by (simp add: permitted_def)
      obtain k2 where k2: "frame {a_cur A} k k2" "syscall code p0 p1 p2 p3 k2 = Some (fl, k1)" "timer_ticks k2 = timer_ticks k"
        "kinv f k2 A"
        using ecall_handled(2) [OF inv bd may tr [unfolded Ecall]] h by metis
      have "current_context k2 = current_tcb k2" using krepD(2,3) [OF kinvD(1) [OF k2(4)]] by simp
      then show ?thesis
        using k2(3) syscall_clock [OF k2(2)] slices_kept_trans [OF slices_kept_same [OF frame_slices [OF k2(1)]]] Ecall
        by (simp add: counted_def)
    qed (use tr in auto)
    note lt = leave_trap_clock [OF hd [unfolded h] l]
    have "slices_kept k k'" using k1 slices_kept_trans slices_kept_same [OF lt(1)] by blast
    then show ?thesis using k1 lt(2) by simp
  qed
  then show "slices_kept k k'" "timer_ticks k' = timer_ticks k + counted e \<or>
      timer_ticks k' = 0 \<and> (a_queue A Ready \<noteq> [] \<longrightarrow> a_cur A' = hd (a_queue A Ready))" by simp_all
qed


section \<open>New threads\<close>

lemma call_step_new:
  assumes inv: "kinv f k A" and may: "may_call f k A code p0 p1 p3" and A': "A' \<in> call_step k code p0 p1 p3 A"
    and t: "t \<in> threads A'" "t \<notin> threads A" and sys: "syscall code p0 p1 p2 p3 k = Some (fl, k')"
  shows "slices k' t = DEFAULT_TIME_SLICE"
  using inv may A'
proof (cases rule: call_step_cases)
  case (create u st js m)
  have "handle_create_thread p0 p1 p2 p3 k = Some k'"
    using sys create(2) by (auto simp: syscall_def syscall_code_defs)
  moreover have "t = u" using t threads_create [OF create(4), of u] create(1) by simp
  ultimately show ?thesis
    using handle_create_thread_rep [OF kinvD(1,3) [OF inv] create(5-9,3), of p2] by (metis option.inject slice_of)
next
  case (exit s)
  then show ?thesis using t threads_exit(1) [of s A] krepD(6) [OF kinvD(1) [OF inv]] by simp
qed (use t in \<open>auto simp: threads_wait_may [OF inv] may_signal_def\<close>)

lemma event_step_new:
  assumes inv: "kinv f k A" and ok: "permitted f k A e" and A': "A' \<in> event_step k e A"
    and t: "t \<in> threads A'" "t \<notin> threads A"
  obtains code p0 p1 p2 p3 where "e = Ecall code p0 p1 p2 p3"
proof (cases e)
  case (Console_interrupt stat data)
  then show ?thesis using ok A' t by (auto simp: event_step_def permitted_def may_signal_def split: if_splits)
next
  case (Flush stat)
  then show ?thesis using A' t ownedD(11) [OF kinvD(3) [OF inv]] by (auto simp: event_step_def)
qed (use A' t that in \<open>auto simp: event_step_def split: if_splits\<close>)

lemma run_event_new_slice:
  assumes inv: "kinv f k A" and bd: "board_ok bd" and ok: "permitted f k A e"
    and run: "run_event bd e k = Some k'" and A': "A' \<in> event_step k e A" and t: "t \<in> threads A'" "t \<notin> threads A"
  shows "slices k' t = DEFAULT_TIME_SLICE"
proof -
  obtain code p0 p1 p2 p3 where e: "e = Ecall code p0 p1 p2 p3" by (rule event_step_new [OF inv ok A' t])
  obtain k0 c handler where tr: "trap_of bd e k = Some (k0, c, handler)" using e by auto
  have may: "may_call f k A code p0 p1 p3" using ok e by (simp add: permitted_def)
  have k0: "kinv f k0 A" using tr inv e by auto
  have ev: "event_step k e A = {A'}" using A' event_step_unique [OF A'] by blast
  have hd: "handled {A'} f k0 A (handler (entered k0))" using event_handled [OF inv bd ok tr] unfolding ev .
  then obtain fl k1 where h: "handler (entered k0) = Some (fl, k1)" by (auto simp: handled_def)
  obtain u where l: "leave_trap (bd_run_wrapper bd) c (fl, k1) = Some (u, k')"
    using run run_event_trap [OF tr] entered_inv(1) [OF k0] h by auto
  obtain k2 where k2: "frame {a_cur A} k k2" "syscall code p0 p1 p2 p3 k2 = Some (fl, k1)" "kinv f k2 A"
    using ecall_handled(2) [OF inv bd may tr [unfolded e]] h by metis
  have "slices k1 t = DEFAULT_TIME_SLICE"
    by (rule call_step_new [OF k2(3) _ _ t k2(2)])
      (use may A' e may_call_frame [OF k2(1)] in \<open>simp_all add: event_step_def\<close>)
  then show ?thesis using leave_trap_clock(1) [OF hd [unfolded h] l] by simp
qed

definition slices_ok :: "kstate \<Rightarrow> sched \<Rightarrow> bool" where
  "slices_ok k A \<longleftrightarrow> (\<forall>t \<in> threads A. time_slice (tcbs k t) = DEFAULT_TIME_SLICE)"

lemma run_event_slices_ok:
  assumes "slices_ok k A" "kinv f k A" "board_ok bd" "permitted f k A e" "run_event bd e k = Some k'" "A' \<in> event_step k e A"
  shows "slices_ok k' A'"
  using assms(1) run_event_clock(1) [OF assms(2-6)] run_event_new_slice [OF assms(2-6)]
  unfolding slices_ok_def slices_kept_def slice_of by metis

declare slice_of [simp del]

end
