(* ===== verification/Kernel_Calls.thy ===== *)
theory Kernel_Calls
  imports Kernel_Ticks
begin

text \<open>
  One system call from the ecall instruction to the value in a0: what the trap entry hands to the
  dispatcher, and what the caller gets back when the call returns to it.
\<close>

lemma env_eq_irrelevant [simp]: "env_eq (k\<lparr>cpu_of := c\<rparr>) k' = env_eq k k'" "env_eq (k\<lparr>tcbs := h\<rparr>) k' = env_eq k k'"
  "env_eq k (k'\<lparr>cpu_of := c\<rparr>) = env_eq k k'" "env_eq k (k'\<lparr>tcbs := h\<rparr>) = env_eq k k'"
  by (simp_all add: env_eq_def)

lemma env_eq_io: "env_eq k k' \<Longrightarrow> io k' = io k"
  by (simp add: env_eq_def io_def)

lemma entered_env [simp]: "env_eq k' (entered k) = env_eq k' k"
  by (simp add: entered_def Let_def)

lemma entered_cpu:
  "regs (cpu_of (entered k)) r = (if r = X_sp then c_sys_sp (tcontext (tcbs k (current_tcb k))) - trap_frame_size else regs (cpu_of k) r)"
  "csr_scause (cpu_of (entered k)) = csr_scause (cpu_of k)" "csr_sstatus (cpu_of (entered k)) = csr_sstatus (cpu_of k)"
  by (simp_all add: entered_def Let_def)

lemma entered_saves:
  assumes "current_tcb k = t"
  shows "trap_frame (tcbs (entered k) t) = regs (cpu_of k)" "c_usr_sp (tcontext (tcbs (entered k) t)) = regs (cpu_of k) X_sp"
  using assms by (simp_all add: entered_def Let_def)

text \<open>When the trap returns, the call comes back or another thread runs.\<close>

lemma kernel_call_trap:
  assumes "k_ecall_trap (bd_run_wrapper bd) (bd_stat bd) (bd_stat bd) (k\<lparr>cpu_of := enter_ecall bd a0 a1 a2 a3 a4 (cpu_of k)\<rparr>) = Some (Returns (), k1)"
  shows "kernel_call bd a0 a1 a2 a3 a4 k =
    Some (if current_tcb k1 = current_tcb k then Comes_back (regs (cpu_of k1) X_a0) else Gives_up, k1)"
  using assms by (simp add: kernel_call_def)

lemma kernel_ecall_trap:
  assumes "k_ecall_trap (bd_run_wrapper bd) (bd_stat bd) (bd_stat bd) (k\<lparr>cpu_of := enter_ecall bd a0 a1 a2 a3 a4 (cpu_of k)\<rparr>) = Some (Returns (), k1)"
    and "current_tcb k1 = current_tcb k"
  shows "kernel_ecall bd a0 a1 a2 a3 a4 k = Some (regs (cpu_of k1) X_a0, k1)"
  using kernel_call_trap [OF assms(1)] assms(2) by (simp add: kernel_ecall_def)

lemma leave_trap_ends: "leave_trap rw b r = Some (fl, k1) \<Longrightarrow> fl = Returns () \<or> fl = Halts"
  by (cases r) (auto simp: leave_trap_def split: flow.splits bind_splits option.splits)

lemma kernel_ecall_some:
  assumes "kernel_ecall bd a0 a1 a2 a3 a4 k = Some (r, k1)"
  shows "k_ecall_trap (bd_run_wrapper bd) (bd_stat bd) (bd_stat bd)
      (k\<lparr>cpu_of := enter_ecall bd a0 a1 a2 a3 a4 (cpu_of k)\<rparr>) = Some (Returns (), k1)"
    and "current_tcb k1 = current_tcb k" and "regs (cpu_of k1) X_a0 = r"
proof -
  obtain fl where fl: "k_ecall_trap (bd_run_wrapper bd) (bd_stat bd) (bd_stat bd)
      (k\<lparr>cpu_of := enter_ecall bd a0 a1 a2 a3 a4 (cpu_of k)\<rparr>) = Some (fl, k1)"
    "fl \<noteq> Halts" "current_tcb k1 = current_tcb k \<and> regs (cpu_of k1) X_a0 = r"
    using assms by (auto simp: kernel_ecall_def kernel_call_def split: option.splits call_end.splits bind_splits flow.splits if_splits)
  moreover have "fl = Returns () \<or> fl = Halts"
    using fl(1) by (auto simp: k_ecall_trap_def Let_def split: bind_splits dest: leave_trap_ends)
  ultimately show "k_ecall_trap (bd_run_wrapper bd) (bd_stat bd) (bd_stat bd)
      (k\<lparr>cpu_of := enter_ecall bd a0 a1 a2 a3 a4 (cpu_of k)\<rparr>) = Some (Returns (), k1)"
    "current_tcb k1 = current_tcb k" "regs (cpu_of k1) X_a0 = r" by auto
qed

lemma ecall_enter:
  assumes rep: "krep k A" and bd: "board_ok bd"
  obtains k1 where
    "k_ecall_trap (bd_run_wrapper bd) s1 s2 (k\<lparr>cpu_of := enter_ecall bd code p0 p1 p2 p3 (cpu_of k)\<rparr>) =
       (syscall code p0 p1 p2 p3 k1 \<bind> leave_trap (bd_run_wrapper bd) True)"
    "krep k1 A" "frame {a_cur A} k k1" "env_eq k k1" "c_a0 (tcontext (tcbs k1 (a_cur A))) = FAILED_SYSCALL"
    "csr_sstatus (cpu_of k1) = csr_sstatus (cpu_of k)"
    "trap_frame (tcbs k1 (a_cur A)) = regs (enter_ecall bd code p0 p1 p2 p3 (cpu_of k))"
    "c_usr_sp (tcontext (tcbs k1 (a_cur A))) = regs (cpu_of k) X_sp"
proof -
  let ?k = "k\<lparr>cpu_of := enter_ecall bd code p0 p1 p2 p3 (cpu_of k)\<rparr>"
  have rep': "krep ?k A" using rep by simp
  obtain E where E: "E = entered ?k" by simp
  note te = trap_enter_rep [OF rep', folded E]
  let ?c = "(cpu_of E)\<lparr>csr_sepc := csr_sepc (cpu_of E) + INSTRUCTION_SIZE, csr_sip := csr_sip (cpu_of E) AND NOT 0x02\<rparr>"
  let ?kb = "E\<lparr>cpu_of := ?c\<rparr>"
  have k0: "krep ?kb A" using te(2) by simp
  note a = set_a0_rep [OF k0, of FAILED_SYSCALL]
  let ?k1 = "?kb\<lparr>tcbs := (tcbs ?kb)(a_cur A := (tcbs ?kb (a_cur A))\<lparr>tcontext := (tcontext (tcbs ?kb (a_cur A)))\<lparr>c_a0 := FAILED_SYSCALL\<rparr>\<rparr>)\<rparr>"
  have r: "regs (cpu_of E) X_a0 = code" "regs (cpu_of E) X_a1 = p0" "regs (cpu_of E) X_a2 = p1"
    "regs (cpu_of E) X_a3 = p2" "regs (cpu_of E) X_a4 = p3"
    by (simp_all add: E entered_cpu enter_ecall_def)
  have cause: "csr_scause (cpu_of E) = SCAUSE_ECALL_USER \<or> csr_scause (cpu_of E) = SCAUSE_ECALL_SUPERVISOR"
    using bd by (simp add: E entered_cpu board_ok_def enter_ecall_def)
  have "k_handle_ecall s1 s2 code p0 p1 p2 p3 E = syscall code p0 p1 p2 p3 ?k1"
    using cause a(1) by (simp add: k_handle_ecall_def Let_def)
  then have 1: "k_ecall_trap (bd_run_wrapper bd) s1 s2 ?k = (syscall code p0 p1 p2 p3 ?k1 \<bind> leave_trap (bd_run_wrapper bd) True)"
    using te(1) by (simp add: k_ecall_trap_def r)
  have env: "env_eq k ?k1" by (simp add: E)
  have "frame {a_cur A} ?k E"
    using trap_enter_frame [OF te(1)] krepD(3) [OF rep'] by simp
  moreover have "frame {a_cur A} ?kb ?k1"
    using set_a0_frame [OF a(1)] krepD(3) [OF k0] by simp
  ultimately have 2: "frame {a_cur A} k ?k1" using frame_trans_same by simp
  have "current_tcb ?k = a_cur A" using krepD(2) [OF rep'] .
  note sv = entered_saves [OF this, folded E]
  have "csr_sstatus (cpu_of E) = csr_sstatus (cpu_of k)" by (simp add: E entered_cpu enter_ecall_def)
  then show ?thesis by (intro that [OF 1 a(2) 2 env]) (simp_all add: sv, simp add: enter_ecall_def)
qed

lemma kernel_ecall_returns:
  assumes rep: "krep k A" and bd: "board_ok bd"
    and call: "\<And>k1. krep k1 A \<Longrightarrow> frame {a_cur A} k k1 \<Longrightarrow> env_eq k k1 \<Longrightarrow>
       \<exists>k2 A2. syscall code p0 p1 p2 p3 k1 = Some (Returns (), k2) \<and> krep k2 A2 \<and> a_cur A2 = a_cur A \<and> Q k1 k2 A2"
  obtains k1 k2 k3 A2 where "frame {a_cur A} k k1" "env_eq k k1" "Q k1 k2 A2"
    "kernel_ecall bd code p0 p1 p2 p3 k = Some (c_a0 (tcontext (tcbs k2 (a_cur A))), k3)"
    "krep k3 A2" "frame {a_cur A} k2 k3" "env_eq k2 k3" "a_cur A2 = a_cur A"
proof -
  obtain k1 where k1: "k_ecall_trap (bd_run_wrapper bd) (bd_stat bd) (bd_stat bd)
        (k\<lparr>cpu_of := enter_ecall bd code p0 p1 p2 p3 (cpu_of k)\<rparr>) =
       (syscall code p0 p1 p2 p3 k1 \<bind> leave_trap (bd_run_wrapper bd) True)"
    "krep k1 A" "frame {a_cur A} k k1" "env_eq k k1"
    using ecall_enter [OF rep bd] by metis
  obtain k2 A2 where k2: "syscall code p0 p1 p2 p3 k1 = Some (Returns (), k2)" "krep k2 A2" "a_cur A2 = a_cur A" "Q k1 k2 A2"
    using call [OF k1(2-4)] by blast
  obtain k3 where k3: "trap_exit True k2 = Some k3" "krep k3 A2" "regs (cpu_of k3) = exit_regs True (tcbs k2 (a_cur A2))"
    "env_eq k2 k3"
    using trap_exit_rep [OF k2(2), of True] by metis
  have "frame {a_cur A} k2 k3" using trap_exit_frame [OF k3(1)] krepD(3) [OF k2(2)] k2(3) by simp
  moreover have "kernel_ecall bd code p0 p1 p2 p3 k = Some (c_a0 (tcontext (tcbs k2 (a_cur A))), k3)"
    using kernel_ecall_trap [of bd code p0 p1 p2 p3 k k3] k1(1) k2(1,3) k3(1,3) krepD(2) [OF k3(2)] krepD(2) [OF rep]
    by (simp add: leave_trap_def exit_regs_def Let_def)
  ultimately show ?thesis by (intro that [OF k1(3,4) k2(4) _ k3(2) _ k3(4) k2(3)])
qed

end
