(* ===== verification/Boot_Correct.thy ===== *)
theory Boot_Correct
  imports Kernel_Calls
begin

text \<open>
  main() up to the point where interrupts are enabled: from the initial image of the kernel and an
  empty heap it reaches a state in which the invariant of the system holds, with the main thread
  running and the flushing thread ready.
\<close>

section \<open>Allocations from the end of the heap\<close>

lemma alloc_from_tail:
  assumes rep: "alloc_rep a (us @ [Free l])" and us: "\<forall>s \<in> set us. \<not> is_free s" and n: "0 < n" "unat n < l"
  obtains p a' where "mem_alloc_blocks n a = Some (p, a')" "p \<noteq> NULL"
    "alloc_rep a' ((us @ [Used (unat n)]) @ [Free (l - unat n)])" "heap_start a' = heap_start a" "p + ucast n * 64 \<noteq> NULL"
proof -
  have "abs_alloc (unat n) (us @ Free l # []) = Some (seg_total us, us @ Used (unat n) # rest_free (l - unat n) @ [])"
    by (rule abs_alloc_best) (use us n in auto)
  moreover have "rest_free (l - unat n) = [Free (l - unat n)]" using n by (simp add: rest_free_def)
  ultimately have a: "abs_alloc (unat n) (us @ [Free l]) = Some (seg_total us, us @ [Used (unat n), Free (l - unat n)])" by simp
  note r = alloc_repD [OF rep]
  have "unat (baddr (heap_start a) (seg_total us + unat n)) = unat (heap_start a) + 64 * (seg_total us + unat n)"
    by (rule unat_baddr [OF r(3)]) (use n in simp)
  then have "baddr (heap_start a) (seg_total us + unat n) \<noteq> 0"
    using n(1) by (metis add_is_0 mult_is_0 unat_0 unat_gt_0 less_irrefl zero_neq_numeral)
  moreover have "baddr (heap_start a) (seg_total us + unat n) = baddr (heap_start a) (seg_total us) + ucast n * 64"
    by (simp add: baddr_def MEM_BLOCK_SIZE_def algebra_simps)
  ultimately show ?thesis
    by (cases rule: mem_alloc_cases [OF rep n(1)]) (use a that in auto)
qed

section \<open>The initial image\<close>

definition boot_sched :: "layout \<Rightarrow> sched" where
  "boot_sched l =
    \<lparr>a_cur = main_tcb l, a_queue = (\<lambda>_. []), a_sems = {putc_sem l, getc_sem l},
     a_val = (\<lambda>_. 0)(putc_sem l := int IO_BUFFER_SIZE), a_wake = (\<lambda>_. 0)\<rparr>"

lemma boot_sched_fields [simp]:
  "a_cur (boot_sched l) = main_tcb l" "a_queue (boot_sched l) q = []" "a_sems (boot_sched l) = {putc_sem l, getc_sem l}"
  "a_val (boot_sched l) = (\<lambda>_. 0)(putc_sem l := int IO_BUFFER_SIZE)"
  by (simp_all add: boot_sched_def)

definition layout_ok :: "layout \<Rightarrow> addr \<Rightarrow> bool" where
  "layout_ok l start \<longleftrightarrow> main_tcb l \<noteq> NULL \<and> putc_sem l \<noteq> NULL \<and> getc_sem l \<noteq> NULL \<and> flush_tcb_cell l \<noteq> NULL \<and>
     putc_sem l \<noteq> getc_sem l \<and> main_tcb l < start \<and> putc_sem l < start \<and> getc_sem l < start \<and>
     unat (flush_tcb_cell l) + 8 \<le> unat start \<and>
     object_bytes (flush_tcb_cell l) 8 \<inter> (object_bytes (main_tcb l) (unat sizeof_TCB) \<union>
       object_bytes (putc_sem l) (unat sizeof_Sem) \<union> object_bytes (getc_sem l) (unat sizeof_Sem)) = {}"

lemma threads_boot [simp]: "threads (boot_sched l) = {main_tcb l}"
  by (auto simp: threads_def places_def)

lemma counters_boot: "counters_ok (boot_sched l)"
  by (simp add: counters_ok_def IO_BUFFER_SIZE_def)

lemma owned_boot:
  assumes l: "layout_ok (lay k) (heap_start (mem k))" and m: "store_ok (mem k)" and j: "join_sem (tcbs k (main_tcb (lay k))) = NULL"
  shows "owned k (boot_sched (lay k))"
  using l m j by (simp add: owned_def layout_ok_def user_threads_def static_addr_def)

text \<open>The cell that takes the handle of the flushing thread is a static variable: no object of the kernel covers it.\<close>

lemma boot_handle:
  assumes l: "layout_ok l (heap_start (mem k))" and st: "heap_start (mem k) \<le> sys_stack (tcbs k (main_tcb l))"
  shows "handle_word k (boot_sched l) (flush_tcb_cell l)"
proof -
  let ?c = "object_bytes (flush_tcb_cell l) 8"
  note ld = l [unfolded layout_ok_def]
  have above: "?c \<inter> object_bytes p n = {}" if "heap_start (mem k) \<le> p" for p n
    using that ld by (auto simp: object_bytes_def word_le_nat_alt)
  have "?c \<inter> heap_memory (mem k) = {}" unfolding heap_memory_def by (rule above) simp
  then show ?thesis
    using ld above [OF st] by (simp add: handle_word_def kernel_memory_def Int_Un_distrib) blast
qed

text \<open>The state before the flushing thread is created.\<close>

lemma boot_rep:
  assumes l: "layout_ok l start" and tc: "tcbs k (main_tcb l) = main_tcb_init\<lparr>sys_stack := st, tcontext := x\<rparr>"
    and q: "sched_queue k = \<lparr>lh_head = NULL, lh_tail = NULL\<rparr>" "sleep_queue k = \<lparr>lh_head = NULL, lh_tail = NULL\<rparr>"
    and s: "sems k (putc_sem l) = new_sem (of_nat IO_BUFFER_SIZE)" "sems k (getc_sem l) = new_sem 0"
    and cur: "current_tcb k = main_tcb l" "current_context k = main_tcb l"
  shows "krep k (boot_sched l)"
proof -
  have "list_rep (tcbs k) (queue_hd k p) []" if "p \<in> places (boot_sched l)" for p
    using that q s by (cases p) (auto simp: list_rep_def places_def new_sem_def)
  then have "queues_rep k (places (boot_sched l)) (a_queue (boot_sched l))" by (simp add: queues_rep_def)
  moreover have "sems_ok k (boot_sched l)"
    using l s by (auto simp: sems_ok_def layout_ok_def new_sem_def IO_BUFFER_SIZE_def)
  moreover have "status_ok k (boot_sched l)" "sleepers_ok k (boot_sched l)"
    by (simp_all add: status_ok_def sleepers_ok_def)
  ultimately show ?thesis
    using l tc cur by (simp add: krep_def krep0_def layout_ok_def main_tcb_init_def)
qed

section \<open>Creating the flushing thread\<close>

lemma room_from_tail:
  assumes rep: "alloc_rep (mem k) (us @ [Free n])" and us: "\<forall>s \<in> set us. \<not> is_free s" and n: "72 \<le> n"
  obtains t st js m segs where "thread_room k t st js m" "alloc_rep m (segs @ [Free (n - 71)])" "\<forall>s \<in> set segs. \<not> is_free s"
proof -
  obtain t m1 where 1: "mem_alloc_blocks 6 (mem k) = Some (t, m1)" "t \<noteq> NULL"
    "alloc_rep m1 ((us @ [Used 6]) @ [Free (n - 6)])"
    by (rule alloc_from_tail [OF rep us, of 6]) (use n in simp_all)
  obtain st m2 where 2: "mem_alloc_blocks 64 m1 = Some (st, m2)" "st \<noteq> NULL"
    "alloc_rep m2 (((us @ [Used 6]) @ [Used 64]) @ [Free (n - 6 - 64)])"
    by (rule alloc_from_tail [OF 1(3), of 64]) (use us n in auto)
  obtain js m3 where 3: "mem_alloc_blocks 1 m2 = Some (js, m3)" "js \<noteq> NULL"
    "alloc_rep m3 ((((us @ [Used 6]) @ [Used 64]) @ [Used 1]) @ [Free (n - 6 - 64 - 1)])"
    by (rule alloc_from_tail [OF 2(3), of 1]) (use us n in auto)
  show ?thesis
    by (rule that [of t st js m3 "((us @ [Used 6]) @ [Used 64]) @ [Used 1]"]) (use 1 2 3 us in \<open>auto simp: thread_room_def\<close>)
qed

lemma alloc_call:
  fixes n :: u32
  assumes rep: "krep k A" and bd: "board_ok bd" and al: "mem_alloc_blocks n (mem k) = Some (u, m)"
  obtains k3 where "kernel_ecall bd MEM_ALLOC_CODE (ucast n) 0 0 0 k = Some (u, k3)" "krep k3 A"
    "frame {a_cur A} (k\<lparr>mem := m\<rparr>) k3" "env_eq (k\<lparr>mem := m\<rparr>) k3"
proof -
  have n: "(ucast (ucast n :: u64) :: u32) = n" by (rule bit_word_eqI) (auto simp: bit_simps)
  let ?Q = "\<lambda>k1 k2 A2. A2 = A \<and> mem k1 = mem k \<and> frame {a_cur A} (k1\<lparr>mem := m\<rparr>) k2 \<and> env_eq (k1\<lparr>mem := m\<rparr>) k2 \<and>
      c_a0 (tcontext (tcbs k2 (a_cur A))) = u"
  have call: "\<exists>k2 A2. syscall MEM_ALLOC_CODE (ucast n) 0 0 0 k1 = Some (Returns (), k2) \<and> krep k2 A2 \<and> a_cur A2 = a_cur A \<and> ?Q k1 k2 A2"
    if k1: "krep k1 A" "env_eq k k1" for k1
  proof -
    have "krep (k1\<lparr>mem := m\<rparr>) A" using k1 by simp
    note a = set_a0_rep [OF this, of u]
    let ?k2 = "k1\<lparr>mem := m, tcbs := (tcbs (k1\<lparr>mem := m\<rparr>))(a_cur A := (tcbs (k1\<lparr>mem := m\<rparr>) (a_cur A))\<lparr>tcontext :=
           (tcontext (tcbs (k1\<lparr>mem := m\<rparr>) (a_cur A)))\<lparr>c_a0 := u\<rparr>\<rparr>)\<rparr>"
    have "mem k1 = mem k" using k1(2) by (simp add: env_eq_def)
    moreover from this have "syscall MEM_ALLOC_CODE (ucast n) 0 0 0 k1 = Some (Returns (), ?k2)"
      using al a(1) n by (simp add: syscall_def)
    moreover have "frame {a_cur A} (k1\<lparr>mem := m\<rparr>) ?k2"
      using set_a0_frame [OF a(1)] krepD(3) [OF k1(1)] by simp
    ultimately show ?thesis using a(2) by (intro exI [of _ ?k2] exI [of _ A]) simp
  qed
  obtain k1 k2 k3 A2 where r: "frame {a_cur A} k k1" "env_eq k k1" "?Q k1 k2 A2"
    "kernel_ecall bd MEM_ALLOC_CODE (ucast n) 0 0 0 k = Some (c_a0 (tcontext (tcbs k2 (a_cur A))), k3)"
    "krep k3 A2" "frame {a_cur A} k2 k3" "env_eq k2 k3"
    using kernel_ecall_returns [OF rep bd, of MEM_ALLOC_CODE "ucast n" 0 0 0 ?Q] call by metis
  have fr: "frame {a_cur A} (k\<lparr>mem := m\<rparr>) (k1\<lparr>mem := m\<rparr>)" using r(1) by (simp add: frame_def)
  have "frame {a_cur A} (k\<lparr>mem := m\<rparr>) k3" using frame_trans_same [OF frame_trans_same [OF fr] r(6)] r(3) by simp
  moreover have "env_eq (k\<lparr>mem := m\<rparr>) k3" using r(2,3,7) by (auto simp: env_eq_def)
  ultimately show ?thesis using r by (intro that [of k3]) simp_all
qed

text \<open>CREATE_THREAD with a stack of the caller's and room for the control block.\<close>

lemma create_call:
  assumes rep: "krep k A" and own: "owned k A" and bd: "board_ok bd" and p: "p0 \<noteq> NULL" "bdy \<noteq> 0" "sp \<noteq> NULL"
    and u: "live_blocks (mem k) (sp - DEFAULT_STACK_SIZE) \<noteq> None" "\<not> kernel_owned k A (sp - DEFAULT_STACK_SIZE)"
    and room: "thread_room k t st js m"
  obtains k' where "kernel_ecall bd CREATE_THREAD_CODE p0 bdy arg sp k = Some (SUCCESS_SYSCALL, k')" "krep k' (a_create t js A)"
    "owned k' (a_create t js A)" "t \<notin> threads A" "js \<notin> a_sems A" "user_cells k' p0 = t" "body (tcbs k' t) = bdy"
    "args (tcbs k' t) = arg" "resume (tcbs k' t) = KStart" "lay k' = lay k" "io k' = io k"
    "slices_kept k k'" "slices k' t = DEFAULT_TIME_SLICE" "timer_ticks k' = timer_ticks k" "mem k' = m"
proof -
  let ?A = "a_create t js A"
  let ?Q = "\<lambda>k1 k2 A2. A2 = ?A \<and> owned k2 ?A \<and> user_cells k2 p0 = t \<and> body (tcbs k2 t) = bdy \<and> args (tcbs k2 t) = arg \<and>
      resume (tcbs k2 t) = KStart \<and> lay k2 = lay k \<and> io k2 = io k \<and> c_a0 (tcontext (tcbs k2 (a_cur A))) = SUCCESS_SYSCALL \<and>
      t \<notin> threads A \<and> js \<notin> a_sems A \<and> slices_kept k k2 \<and> slices k2 t = DEFAULT_TIME_SLICE \<and>
      timer_ticks k2 = timer_ticks k \<and> mem k2 = m"
  have call: "\<exists>k2 A2. syscall CREATE_THREAD_CODE p0 bdy arg sp k1 = Some (Returns (), k2) \<and> krep k2 A2 \<and> a_cur A2 = a_cur A \<and> ?Q k1 k2 A2"
    if k1: "krep k1 A" "frame {a_cur A} k k1" "env_eq k k1" for k1
  proof -
    have own1: "owned k1 A" by (rule owned_frame [OF own k1(2)]) simp_all
    have m1: "mem k1 = mem k" "lay k1 = lay k" "io k1 = io k" using k1(3) by (simp_all add: env_eq_def io_def)
    have u1: "live_blocks (mem k1) (sp - DEFAULT_STACK_SIZE) \<noteq> None" "\<not> kernel_owned k1 A (sp - DEFAULT_STACK_SIZE)"
      using u m1 by (simp_all add: kernel_owned_def user_threads_def frameD [OF k1(2)])
    have room1: "thread_room k1 t st js m" using room m1 by (simp add: thread_room_def)
    obtain k2 where k2: "handle_create_thread p0 bdy arg sp k1 = Some k2" "krep k2 ?A" "owned k2 ?A"
      "user_cells k2 p0 = t" "t \<notin> threads A" "js \<notin> a_sems A" "lay k2 = lay k1"
      "c_a0 (tcontext (tcbs k2 (a_cur A))) = SUCCESS_SYSCALL" "resume (tcbs k2 t) = KStart" "body (tcbs k2 t) = bdy" "args (tcbs k2 t) = arg"
      "time_slice (tcbs k2 t) = DEFAULT_TIME_SLICE" "mem k2 = m"
      using handle_create_thread_rep [OF k1(1) own1 p u1 room1, of arg] by metis
    have "syscall CREATE_THREAD_CODE p0 bdy arg sp k1 = Some (Returns (), k2)"
      using k2(1) by (simp add: syscall_def syscall_code_defs)
    moreover have "slices_kept k k2"
      using handle_create_slices [OF k2(1)] slices_kept_trans [OF slices_kept_same [OF frame_slices [OF k1(2)]]] by simp
    moreover have "timer_ticks k2 = timer_ticks k"
      using ticks.handle_create_thread_same [OF k2(1)] k1(3) by (simp add: env_eq_def)
    ultimately show ?thesis
      using k2 m1 handle_create_thread_io [OF k2(1)] by (intro exI [of _ k2] exI [of _ ?A]) (simp add: slice_of [symmetric])
  qed
  obtain k1 k2 k4 A2 where r: "?Q k1 k2 A2"
    "kernel_ecall bd CREATE_THREAD_CODE p0 bdy arg sp k = Some (c_a0 (tcontext (tcbs k2 (a_cur A))), k4)"
    "krep k4 A2" "frame {a_cur A} k2 k4" "env_eq k2 k4"
    by (rule kernel_ecall_returns [OF rep bd, of CREATE_THREAD_CODE p0 bdy arg sp ?Q], erule (2) call) blast
  have t: "t \<noteq> a_cur A" using r(1) by (auto simp: threads_def)
  have "saved (tcbs k4 t) = saved (tcbs k2 t)" using frameD(6) [OF r(4), of t] t by simp
  then have "body (tcbs k4 t) = bdy \<and> args (tcbs k4 t) = arg \<and> resume (tcbs k4 t) = KStart"
    using r(1) by (simp add: saved_def)
  moreover have "owned k4 ?A" by (rule owned_frame [of k2 ?A]) (use r in auto)
  moreover have "lay k4 = lay k" "io k4 = io k" "timer_ticks k4 = timer_ticks k" "mem k4 = m" "user_cells k4 p0 = t" using r(1,5) by (simp_all add: env_eq_def io_def)
  moreover have "slices k4 = slices k2" using frame_slices [OF r(4)] .
  then have "slices_kept k k4" "slices k4 t = DEFAULT_TIME_SLICE" using r(1) by (simp_all add: slices_kept_def)
  ultimately show ?thesis using r by (intro that [of k4]) simp_all
qed

text \<open>
  thread_create on a platform whose ecall is the kernel's between two changes of the processor's
  registers: \<open>before\<close> is what the hart does on entry to the trap, \<open>after\<close> what it does on return.
\<close>

definition wraps_kernel :: "board \<Rightarrow> kstate platform \<Rightarrow> (cpu \<Rightarrow> cpu) \<Rightarrow> (cpu \<Rightarrow> cpu) \<Rightarrow> bool" where
  "wraps_kernel bd pf before after \<longleftrightarrow> (\<forall>a0 a1 a2 a3 a4 k. pf_ecall pf a0 a1 a2 a3 a4 k =
     map_option (\<lambda>(r, k'). (r, k'\<lparr>cpu_of := after (cpu_of k')\<rparr>))
       (kernel_ecall bd a0 a1 a2 a3 a4 (k\<lparr>cpu_of := before (cpu_of k)\<rparr>)))"

lemma thread_create_wrapped:
  assumes rep: "krep k A" and own: "owned k A" and bd: "board_ok bd" and p: "p0 \<noteq> NULL" "bdy \<noteq> 0"
    and heap: "alloc_rep (mem k) (us @ [Free n])" "\<forall>s \<in> set us. \<not> is_free s" "136 \<le> n"
    and pf: "wraps_kernel bd pf before after"
  obtains u m t st js m' k3 k4 where
    "kernel_ecall bd MEM_ALLOC_CODE 64 0 0 0 (k\<lparr>cpu_of := before (cpu_of k)\<rparr>) = Some (u, k3)" "krep k3 A" "owned k3 A"
    "u + DEFAULT_STACK_SIZE \<noteq> NULL" "live_blocks (mem k3) u \<noteq> None" "\<not> kernel_owned k3 A u" "thread_room k3 t st js m'"
    "kernel_ecall bd CREATE_THREAD_CODE p0 bdy arg (u + DEFAULT_STACK_SIZE) (k3\<lparr>cpu_of := before (after (cpu_of k3))\<rparr>) = Some (SUCCESS_SYSCALL, k4)"
    "thread_create pf p0 bdy arg k = Some (0, k4\<lparr>cpu_of := after (cpu_of k4)\<rparr>)"
    "krep k4 (a_create t js A)" "owned k4 (a_create t js A)" "t \<notin> threads A" "js \<notin> a_sems A" "user_cells k4 p0 = t"
    "body (tcbs k4 t) = bdy" "args (tcbs k4 t) = arg" "resume (tcbs k4 t) = KStart" "lay k4 = lay k" "io k4 = io k"
    "slices_kept k k4" "slices k4 t = DEFAULT_TIME_SLICE" "timer_ticks k4 = timer_ticks k"
    "\<exists>us'. alloc_rep (mem k4) (us' @ [Free (n - 135)]) \<and> (\<forall>s \<in> set us'. \<not> is_free s)"
    "heap_start (mem k3) = heap_start (mem k)" "\<And>x. sys_stack (tcbs k3 x) = sys_stack (tcbs k x)"
proof -
  let ?kb = "k\<lparr>cpu_of := before (cpu_of k)\<rparr>"
  have repb: "krep ?kb A" using rep by simp
  obtain u m where u: "mem_alloc_blocks 64 (mem k) = Some (u, m)" "u \<noteq> NULL"
    "alloc_rep m ((us @ [Used 64]) @ [Free (n - 64)])" "heap_start m = heap_start (mem k)" "u + 4096 \<noteq> NULL"
    by (rule alloc_from_tail [OF heap(1,2), of 64]) (use heap(3) in auto)
  have ub: "mem_alloc_blocks 64 (mem ?kb) = Some (u, m)" using u(1) by simp
  obtain k3 where k3: "kernel_ecall bd MEM_ALLOC_CODE (ucast (64 :: u32)) 0 0 0 ?kb = Some (u, k3)" "krep k3 A"
    "frame {a_cur A} (?kb\<lparr>mem := m\<rparr>) k3" "env_eq (?kb\<lparr>mem := m\<rparr>) k3"
    by (rule alloc_call [OF repb bd ub])
  have fr3: "frame {a_cur A} (k\<lparr>mem := m\<rparr>) k3" "env_eq (k\<lparr>mem := m\<rparr>) k3"
    using k3(3,4) by (simp_all add: frame_def env_eq_def)
  note f = fresh_not_owned [OF own u(1) _ u(2), simplified]
  have own3: "owned k3 A" by (rule owned_frame [OF f(5) fr3(1)]) simp_all
  have mem3: "mem k3 = m" "lay k3 = lay k" "io k3 = io k" "timer_ticks k3 = timer_ticks k"
    using fr3(2) by (simp_all add: env_eq_def io_def)
  let ?sp = "u + DEFAULT_STACK_SIZE"
  have "\<not> kernel_owned (k\<lparr>mem := m\<rparr>) A u"
    using f(1) by (simp add: kernel_owned_def user_threads_def thread_regions_def)
  then have ko: "\<not> kernel_owned k3 A u" by (simp add: kernel_owned_def user_threads_def frameD [OF fr3(1)])
  have sp: "?sp \<noteq> NULL" "?sp - DEFAULT_STACK_SIZE = u" using u(5) by (simp_all add: DEFAULT_STACK_SIZE_def)
  have live: "live_blocks (mem k3) u \<noteq> None" using f(6) mem3(1) by simp
  obtain t st js m' segs where room: "thread_room k3 t st js m'"
    "alloc_rep m' (segs @ [Free (n - 64 - 71)])" "\<forall>s \<in> set segs. \<not> is_free s"
    by (rule room_from_tail [of k3 "us @ [Used 64]" "n - 64"]) (use u(3) mem3(1) heap(2,3) in auto)
  let ?kc = "k3\<lparr>cpu_of := before (after (cpu_of k3))\<rparr>"
  have fr: "frame {a_cur A} k3 ?kc" by simp
  have c: "krep ?kc A" "owned ?kc A" using k3(2) owned_frame [OF own3 fr] by simp_all
  have rc: "thread_room ?kc t st js m'" using room(1) by (simp add: thread_room_def)
  have lc: "live_blocks (mem ?kc) (?sp - DEFAULT_STACK_SIZE) \<noteq> None" unfolding sp(2) using live by simp
  have kc: "\<not> kernel_owned ?kc A (?sp - DEFAULT_STACK_SIZE)"
    unfolding sp(2) using ko by (simp add: kernel_owned_def user_threads_def thread_regions_def)
  obtain k4 where k4: "kernel_ecall bd CREATE_THREAD_CODE p0 bdy arg ?sp ?kc = Some (SUCCESS_SYSCALL, k4)" "krep k4 (a_create t js A)"
    "owned k4 (a_create t js A)" "t \<notin> threads A" "js \<notin> a_sems A" "user_cells k4 p0 = t" "body (tcbs k4 t) = bdy"
    "args (tcbs k4 t) = arg" "resume (tcbs k4 t) = KStart" "lay k4 = lay ?kc" "io k4 = io ?kc"
    "slices_kept ?kc k4" "slices k4 t = DEFAULT_TIME_SLICE" "timer_ticks k4 = timer_ticks ?kc" "mem k4 = m'"
    by (rule create_call [OF c bd p sp(1) lc kc rc, where arg = arg])
  have "slices k3 = slices k" using frame_slices [OF fr3(1)] by simp
  then have sl: "slices_kept k k4" using k4(12) by (simp add: slices_kept_def)
  have "to_blocks DEFAULT_STACK_SIZE = 64" by (simp add: to_blocks_def DEFAULT_STACK_SIZE_def MEM_BLOCK_SIZE_def)
  moreover have e: "pf_ecall pf a0 a1 a2 a3 a4 k0 = map_option (\<lambda>(r, k'). (r, k'\<lparr>cpu_of := after (cpu_of k')\<rparr>))
       (kernel_ecall bd a0 a1 a2 a3 a4 (k0\<lparr>cpu_of := before (cpu_of k0)\<rparr>))" for a0 a1 a2 a3 a4 k0
    using pf by (simp add: wraps_kernel_def)
  ultimately have tc: "thread_create pf p0 bdy arg k = Some (0, k4\<lparr>cpu_of := after (cpu_of k4)\<rparr>)"
    using p u(2) k3(1) k4(1)
    by (simp add: thread_create_def k_system_call_def mem_alloc_def SUCCESS_SYSCALL_def to_c_int_def)
  have al: "kernel_ecall bd MEM_ALLOC_CODE 64 0 0 0 ?kb = Some (u, k3)" using k3(1) by simp
  have tail: "\<exists>us'. alloc_rep (mem k4) (us' @ [Free (n - 135)]) \<and> (\<forall>s \<in> set us'. \<not> is_free s)"
    using room(2,3) k4(15) by auto
  have stacks: "sys_stack (tcbs k3 x) = sys_stack (tcbs k x)" for x
    using fr3(1) by (simp add: frame_def heap_frame_def regions_of_def)
  show ?thesis
    by (rule that [OF al k3(2) own3 sp(1) live ko room(1) k4(1) tc k4(2-9) _ _ sl k4(13) _ tail _ stacks])
      (use k4(10,11,14) mem3 u(4) in simp_all)
qed

lemma kernel_platform_wraps: "wraps_kernel bd (kernel_platform bd cs ci) (\<lambda>c. c) (\<lambda>c. c)"
  by (simp add: wraps_kernel_def kernel_platform_def option.map_ident option.map_id prod.case_eq_if id_def)

lemma thread_create_rep:
  assumes rep: "krep k A" and own: "owned k A" and bd: "board_ok bd" and p: "p0 \<noteq> NULL" "bdy \<noteq> 0"
    and heap: "alloc_rep (mem k) (us @ [Free n])" "\<forall>s \<in> set us. \<not> is_free s" "136 \<le> n"
  obtains t js k' where "thread_create (kernel_platform bd cs ci) p0 bdy arg k = Some (0, k')" "krep k' (a_create t js A)"
    "owned k' (a_create t js A)" "t \<notin> threads A" "js \<notin> a_sems A" "user_cells k' p0 = t" "body (tcbs k' t) = bdy"
    "args (tcbs k' t) = arg" "resume (tcbs k' t) = KStart" "lay k' = lay k" "io k' = io k"
    "slices_kept k k'" "slices k' t = DEFAULT_TIME_SLICE" "timer_ticks k' = timer_ticks k"
    "\<exists>us'. alloc_rep (mem k') (us' @ [Free (n - 135)]) \<and> (\<forall>s \<in> set us'. \<not> is_free s)"
proof -
  obtain t js k4 where "thread_create (kernel_platform bd cs ci) p0 bdy arg k = Some (0, k4\<lparr>cpu_of := cpu_of k4\<rparr>)"
    "krep k4 (a_create t js A)" "owned k4 (a_create t js A)" "t \<notin> threads A" "js \<notin> a_sems A" "user_cells k4 p0 = t"
    "body (tcbs k4 t) = bdy" "args (tcbs k4 t) = arg" "resume (tcbs k4 t) = KStart" "lay k4 = lay k" "io k4 = io k"
    "slices_kept k k4" "slices k4 t = DEFAULT_TIME_SLICE" "timer_ticks k4 = timer_ticks k"
    "\<exists>us'. alloc_rep (mem k4) (us' @ [Free (n - 135)]) \<and> (\<forall>s \<in> set us'. \<not> is_free s)"
    by (rule thread_create_wrapped [OF rep own bd p heap kernel_platform_wraps, where arg = arg]) blast
  then show ?thesis by (intro that) simp_all
qed

section \<open>The whole of main's initialisation\<close>

definition kernel_started :: "kstate \<Rightarrow> addr \<Rightarrow> addr \<Rightarrow> board \<Rightarrow> kstate \<Rightarrow> bool" where
  "kernel_started k0 t js bd k \<longleftrightarrow> kinv t k (a_create t js (boot_sched (lay k0))) \<and> lay k = lay k0 \<and> io k = io k0 \<and>
     body (tcbs k t) = bd_flush_loop bd \<and> resume (tcbs k t) = KStart \<and> user_cells k (flush_tcb_cell (lay k0)) = t \<and>
     slices_ok k (a_create t js (boot_sched (lay k0))) \<and> timer_ticks k = 0"

text \<open>The state in which main calls Scheduler::initialize.\<close>

definition boot_prepared :: "layout \<Rightarrow> addr \<Rightarrow> mem_allocator \<Rightarrow> kstate \<Rightarrow> kstate" where
  "boot_prepared l st m k =
     k\<lparr>cpu_of := (cpu_of k)\<lparr>csr_stvec := addr_k_intr_table l OR 1\<rparr>, mem := m,
       tcbs := (tcbs k)(main_tcb l := (tcbs k (main_tcb l))\<lparr>sys_stack := st,
         tcontext := (tcontext (tcbs k (main_tcb l)))\<lparr>c_sys_sp := st + DEFAULT_STACK_SIZE\<rparr>\<rparr>),
       sems := (sems k)(putc_sem l := new_sem (of_nat IO_BUFFER_SIZE), getc_sem l := new_sem 0)\<rparr>"

lemma main_boot_prepares:
  assumes l: "layout_ok l (heap_start m)" and heap: "alloc_rep m [Free n]" "200 \<le> n"
    and k: "k = kernel_image l m ts ss c cells"
  obtains st m1 where "krep (boot_prepared l st m1 k) (boot_sched l)" "owned (boot_prepared l st m1 k) (boot_sched l)"
    "alloc_rep m1 ([Used 64] @ [Free (n - 64)])"
    "\<forall>bd pf. main_boot bd pf k = map_option (\<lambda>(r, k4). k4\<lparr>cpu_of := (cpu_of k4)\<lparr>csr_sie := 0x202, csr_sstatus := csr_sstatus (cpu_of k4) OR 0x02\<rparr>\<rparr>)
       (thread_create pf (flush_tcb_cell l) (bd_flush_loop bd) 0 (boot_prepared l st m1 k))"
    "heap_start m1 = heap_start m" "heap_start m \<le> st"
proof -
  note ld = l [unfolded layout_ok_def]
  obtain st m1 where st: "mem_alloc_blocks 64 m = Some (st, m1)" "alloc_rep m1 (([] @ [Used 64]) @ [Free (n - 64)])"
    "heap_start m1 = heap_start m" "st \<noteq> NULL"
    by (rule alloc_from_tail [of m "[]" n 64]) (use heap in auto)
  let ?x = "(tcbs k (main_tcb l))\<lparr>sys_stack := st, tcontext := (tcontext (tcbs k (main_tcb l)))\<lparr>c_sys_sp := st + DEFAULT_STACK_SIZE\<rparr>\<rparr>"
  let ?k3 = "boot_prepared l st m1 k"
  have bl: "to_blocks DEFAULT_STACK_SIZE = 64" by (simp add: to_blocks_def DEFAULT_STACK_SIZE_def MEM_BLOCK_SIZE_def)
  have k3: "krep ?k3 (boot_sched l)"
    by (rule boot_rep [OF l, where st = st and x = "tcontext ?x"]) (use ld in \<open>simp_all add: boot_prepared_def k kernel_image_def\<close>)
  have al: "alloc_rep m1 ([Used 64] @ [Free (n - 64)])" using st(2) by simp
  then have "store_ok m1" by (auto simp: store_ok_def)
  then have own: "owned ?k3 (boot_sched l)"
    using owned_boot [of ?k3] l st(3) ld by (simp add: boot_prepared_def k kernel_image_def main_tcb_init_def)
  have lay: "lay k = l" "user_cells k (flush_tcb_cell l) = 0" "mem k = m" by (simp_all add: k kernel_image_def)
  have sem: "(sems k s)\<lparr>sem_value := v, suspended := list_initialize (suspended (sems k s))\<rparr> = new_sem v" for s v
    by (cases "sems k s") (simp add: list_initialize_def new_sem_def)
  have ne: "getc_sem l \<noteq> putc_sem l" using ld by auto
  have "main_boot bd pf k = map_option (\<lambda>(r, k4). k4\<lparr>cpu_of := (cpu_of k4)\<lparr>csr_sie := 0x202, csr_sstatus := csr_sstatus (cpu_of k4) OR 0x02\<rparr>\<rparr>)
      (thread_create pf (flush_tcb_cell l) (bd_flush_loop bd) 0 ?k3)" for bd pf
    using ne ld st(1)
    by (cases "thread_create pf (flush_tcb_cell l) (bd_flush_loop bd) 0 ?k3")
      (auto simp: main_boot_def bl lay sem sem_initialize_def scheduler_initialize_def Let_def boot_prepared_def)
  moreover have "store_ok m" using heap(1) by (auto simp: store_ok_def)
  then have "live_blocks m1 st \<noteq> None" using store.alloc_live [of m 64 st m1] st(1,4) by simp
  then have "heap_start m \<le> st" using live_above_start [OF \<open>store_ok m1\<close>] st(3) by simp
  ultimately show ?thesis by (intro that [OF k3 own al _ st(3)]) blast+
qed

lemma main_boot_wrapped:
  assumes l: "layout_ok l (heap_start m)" and bd: "board_ok bd" "bd_flush_loop bd \<noteq> 0"
    and heap: "alloc_rep m [Free n]" "200 \<le> n"
    and k: "k = kernel_image l m ts ss c cells" and pf: "wraps_kernel bd pf before after"
  obtains st m1 u t ts0 js m' k3 k4 k' where "main_boot bd pf k = Some k'" "kernel_started k t js bd k'"
    "t \<noteq> main_tcb l" "js \<noteq> putc_sem l" "js \<noteq> getc_sem l"
    "\<exists>us. alloc_rep (mem k') (us @ [Free (n - 199)]) \<and> (\<forall>s \<in> set us. \<not> is_free s)"
    "kernel_ecall bd MEM_ALLOC_CODE 64 0 0 0
       ((boot_prepared l st m1 k)\<lparr>cpu_of := before (cpu_of (boot_prepared l st m1 k))\<rparr>) = Some (u, k3)"
    "krep k3 (boot_sched l)" "owned k3 (boot_sched l)" "u + DEFAULT_STACK_SIZE \<noteq> NULL" "live_blocks (mem k3) u \<noteq> None"
    "\<not> kernel_owned k3 (boot_sched l) u" "thread_room k3 t ts0 js m'"
    "kernel_ecall bd CREATE_THREAD_CODE (flush_tcb_cell l) (bd_flush_loop bd) 0 (u + DEFAULT_STACK_SIZE)
       (k3\<lparr>cpu_of := before (after (cpu_of k3))\<rparr>) = Some (SUCCESS_SYSCALL, k4)"
    "k' = k4\<lparr>cpu_of := (after (cpu_of k4))\<lparr>csr_sie := 0x202, csr_sstatus := csr_sstatus (after (cpu_of k4)) OR 0x02\<rparr>\<rparr>"
    "krep (boot_prepared l st m1 k) (boot_sched l)" "owned (boot_prepared l st m1 k) (boot_sched l)"
    "handle_word k3 (boot_sched l) (flush_tcb_cell l)"
proof -
  note ld = l [unfolded layout_ok_def]
  obtain st m1 where p: "krep (boot_prepared l st m1 k) (boot_sched l)" "owned (boot_prepared l st m1 k) (boot_sched l)"
    "alloc_rep m1 ([Used 64] @ [Free (n - 64)])"
    "\<forall>bd pf. main_boot bd pf k = map_option (\<lambda>(r, k4). k4\<lparr>cpu_of := (cpu_of k4)\<lparr>csr_sie := 0x202, csr_sstatus := csr_sstatus (cpu_of k4) OR 0x02\<rparr>\<rparr>)
       (thread_create pf (flush_tcb_cell l) (bd_flush_loop bd) 0 (boot_prepared l st m1 k))"
    "heap_start m1 = heap_start m" "heap_start m \<le> st"
    by (rule main_boot_prepares [OF l heap k])
  let ?k3 = "boot_prepared l st m1 k"
  have f: "mem ?k3 = m1" "lay ?k3 = lay k" "io ?k3 = io k" "timer_ticks ?k3 = timer_ticks k" "slices ?k3 = slices k"
    by (auto simp: boot_prepared_def io_def slices_def)
  have h3: "alloc_rep (mem ?k3) ([Used 64] @ [Free (n - 64)])" "\<forall>s \<in> set [Used 64]. \<not> is_free s" "136 \<le> n - 64"
    using p(3) heap(2) f by simp_all
  have cell: "flush_tcb_cell l \<noteq> NULL" using ld by simp
  obtain u mm t st0 js m' k3 k4 where x:
    "kernel_ecall bd MEM_ALLOC_CODE 64 0 0 0 (?k3\<lparr>cpu_of := before (cpu_of ?k3)\<rparr>) = Some (u, k3)" "krep k3 (boot_sched l)" "owned k3 (boot_sched l)"
    "u + DEFAULT_STACK_SIZE \<noteq> NULL" "live_blocks (mem k3) u \<noteq> None" "\<not> kernel_owned k3 (boot_sched l) u" "thread_room k3 t st0 js m'"
    "kernel_ecall bd CREATE_THREAD_CODE (flush_tcb_cell l) (bd_flush_loop bd) 0 (u + DEFAULT_STACK_SIZE) (k3\<lparr>cpu_of := before (after (cpu_of k3))\<rparr>) = Some (SUCCESS_SYSCALL, k4)"
    "thread_create pf (flush_tcb_cell l) (bd_flush_loop bd) 0 ?k3 = Some (0, k4\<lparr>cpu_of := after (cpu_of k4)\<rparr>)"
    "krep k4 (a_create t js (boot_sched l))" "owned k4 (a_create t js (boot_sched l))" "t \<notin> threads (boot_sched l)" "js \<notin> a_sems (boot_sched l)"
    "user_cells k4 (flush_tcb_cell l) = t"
    "body (tcbs k4 t) = bd_flush_loop bd" "resume (tcbs k4 t) = KStart" "lay k4 = lay ?k3" "io k4 = io ?k3"
    "slices_kept ?k3 k4" "slices k4 t = DEFAULT_TIME_SLICE" "timer_ticks k4 = timer_ticks ?k3"
    "\<exists>us'. alloc_rep (mem k4) (us' @ [Free (n - 64 - 135)]) \<and> (\<forall>s \<in> set us'. \<not> is_free s)"
    "heap_start (mem k3) = heap_start (mem ?k3)" "\<And>x. sys_stack (tcbs k3 x) = sys_stack (tcbs ?k3 x)"
    by (rule thread_create_wrapped [OF p(1,2) bd(1) cell bd(2) h3 pf, where arg = 0]) blast
  have hw: "handle_word k3 (boot_sched l) (flush_tcb_cell l)"
    by (rule boot_handle) (use l p(5,6) x(23,24) f(1) in \<open>simp_all add: boot_prepared_def\<close>)
  let ?k5 = "k4\<lparr>cpu_of := (after (cpu_of k4))\<lparr>csr_sie := 0x202, csr_sstatus := csr_sstatus (after (cpu_of k4)) OR 0x02\<rparr>\<rparr>"
  have lay: "lay k = l" by (simp add: k kernel_image_def)
  have boot: "main_boot bd pf k = Some ?k5" using x(9) by (simp add: p(4))
  have inv: "kinv t ?k5 (a_create t js (boot_sched l))"
    using x(10,11) counters_ok_create [OF counters_boot x(13)] by (simp add: kinv_def)
  have "slices k (main_tcb l) = DEFAULT_TIME_SLICE" "timer_ticks k = 0"
    by (simp_all add: k kernel_image_def main_tcb_init_def slices_def)
  then have "slices k4 (main_tcb l) = DEFAULT_TIME_SLICE" "timer_ticks k4 = 0"
    using x(19,21) f unfolding slices_kept_def by metis+
  then have sl: "slices_ok ?k5 (a_create t js (boot_sched l))" "timer_ticks k4 = 0"
    using x(20) threads_create [OF x(13), of t] by (simp_all add: slices_ok_def slice_of)
  have started: "kernel_started k t js bd ?k5"
    using inv sl x(14-18) f lay by (simp add: kernel_started_def)
  have tail: "\<exists>us. alloc_rep (mem ?k5) (us @ [Free (n - 199)]) \<and> (\<forall>s \<in> set us. \<not> is_free s)" using x(22) by simp
  show ?thesis
    by (rule that [OF boot started _ _ _ tail x(1-8) refl p(1,2) hw]) (use x(12,13) in simp_all)
qed

lemma main_boot_rep:
  assumes l: "layout_ok l (heap_start m)" and bd: "board_ok bd" "bd_flush_loop bd \<noteq> 0"
    and heap: "alloc_rep m [Free n]" "200 \<le> n"
    and k: "k = kernel_image l m ts ss c cells"
  obtains t js k' where "main_boot bd (kernel_platform bd cs ci) k = Some k'" "kernel_started k t js bd k'"
    "t \<noteq> main_tcb l" "js \<noteq> putc_sem l" "js \<noteq> getc_sem l"
    "\<exists>us. alloc_rep (mem k') (us @ [Free (n - 199)]) \<and> (\<forall>s \<in> set us. \<not> is_free s)"
  by (rule main_boot_wrapped [OF assms kernel_platform_wraps [of bd cs ci]]) blast

end
