(* ===== verification/Console_Flow.thy ===== *)
theory Console_Flow
  imports Boot_Correct
begin

text \<open>
  The flow control of the console.  The counter of putc_sem and the output buffer, and the counter of
  getc_sem and the input buffer, are updated in different places: a thread that waited puts or takes
  its character only when it runs again.  The invariant \<open>flow\<close> accounts for the characters in
  between; it is what makes the bounds checks of the buffers never drop a character.
\<close>

section \<open>The invariant\<close>

definition putters :: "addr set \<Rightarrow> kstate \<Rightarrow> addr set" where
  "putters T k = {t \<in> T. \<exists>c. resume (tcbs k t) = KPutC c}"

definition getters :: "addr set \<Rightarrow> kstate \<Rightarrow> addr set" where
  "getters T k = {t \<in> T. resume (tcbs k t) = KGetC}"

definition flow :: "addr set \<Rightarrow> kstate \<Rightarrow> sched \<Rightarrow> bool" where
  "flow T k A \<longleftrightarrow> finite T \<and> putc_sem (lay k) \<noteq> getc_sem (lay k) \<and> q_inv IO_BUFFER_SIZE (putc_buffer k) \<and> q_inv IO_BUFFER_SIZE (getc_buffer k) \<and>
     a_val A (putc_sem (lay k)) + int (q_get_length (putc_buffer k)) + int (card (putters T k)) = int IO_BUFFER_SIZE \<and>
     a_val A (getc_sem (lay k)) + int (card (getters T k)) = int (q_get_length (getc_buffer k)) \<and>
     set (a_queue A (Waiting (putc_sem (lay k)))) \<subseteq> putters T k \<and>
     set (a_queue A (Waiting (getc_sem (lay k)))) \<subseteq> getters T k"

definition flow_ok :: "kstate \<Rightarrow> sched \<Rightarrow> bool" where
  "flow_ok k A \<longleftrightarrow> flow (threads A - {a_cur A}) k A"

text \<open>Everything that was ever accepted for output.\<close>

definition out_stream :: "kstate \<Rightarrow> u8 list" where
  "out_stream k = tx_out k @ q_contents IO_BUFFER_SIZE (putc_buffer k)"

definition pending :: "tcb \<Rightarrow> bool" where
  "pending x \<longleftrightarrow> resume x = KGetC \<or> (\<exists>c. resume x = KPutC c)"

lemma io_fields: "io k' = io k \<Longrightarrow> putc_buffer k' = putc_buffer k \<and> getc_buffer k' = getc_buffer k \<and> tx_out k' = tx_out k"
  by (simp add: io_def)

lemma out_stream_io: "io k' = io k \<Longrightarrow> out_stream k' = out_stream k"
  by (simp add: out_stream_def io_def)

text \<open>What leaves the accounts alone.\<close>

lemma pending_sets:
  assumes "\<And>t. t \<in> T \<Longrightarrow> t \<in> U \<Longrightarrow> resume (tcbs k' t) = resume (tcbs k t)"
    and "\<And>t. t \<in> U \<Longrightarrow> t \<notin> T \<Longrightarrow> \<not> pending (tcbs k' t)" "\<And>t. t \<in> T \<Longrightarrow> t \<notin> U \<Longrightarrow> \<not> pending (tcbs k t)"
  shows "putters U k' = putters T k" "getters U k' = getters T k"
proof -
  have "(t \<in> U \<and> P (resume (tcbs k' t))) = (t \<in> T \<and> P (resume (tcbs k t)))" if "\<And>x :: tcb. P (resume x) \<Longrightarrow> pending x" for t P
    using assms(1-3) [of t] that by (cases "t \<in> T"; cases "t \<in> U") auto
  from this [of "\<lambda>r. \<exists>c. r = KPutC c"] this [of "\<lambda>r. r = KGetC"]
  show "putters U k' = putters T k" "getters U k' = getters T k"
    by (simp_all add: putters_def getters_def pending_def)
qed

lemma flow_keep:
  assumes fl: "flow T k A" and io: "io k' = io k" and lay: "lay k' = lay k" and fin: "finite U"
    and same: "\<And>t. t \<in> T \<Longrightarrow> t \<in> U \<Longrightarrow> resume (tcbs k' t) = resume (tcbs k t)"
    and new: "\<And>t. t \<in> U \<Longrightarrow> t \<notin> T \<Longrightarrow> \<not> pending (tcbs k' t)" and old: "\<And>t. t \<in> T \<Longrightarrow> t \<notin> U \<Longrightarrow> \<not> pending (tcbs k t)"
    and v: "\<And>s. s = putc_sem (lay k) \<or> s = getc_sem (lay k) \<Longrightarrow> a_val A' s = a_val A s"
    and q: "\<And>s. s = putc_sem (lay k) \<or> s = getc_sem (lay k) \<Longrightarrow> set (a_queue A' (Waiting s)) \<subseteq> set (a_queue A (Waiting s))"
  shows "flow U k' A'"
proof -
  have sets: "putters U k' = putters T k" "getters U k' = getters T k"
    by (rule pending_sets; use same new old in blast)+
  have "set (a_queue A' (Waiting (putc_sem (lay k)))) \<subseteq> putters T k" "set (a_queue A' (Waiting (getc_sem (lay k)))) \<subseteq> getters T k"
    using fl q unfolding flow_def by blast+
  then show ?thesis using fl io_fields [OF io] lay fin v unfolding flow_def sets by simp
qed

section \<open>What a switch leaves in the thread that ran\<close>

lemma yield_resume: "yield cont old new k = Some (Switches, k') \<Longrightarrow> old \<noteq> NULL \<Longrightarrow> resume (tcbs k' old) = cont"
  by (auto simp: yield_def Let_def save_context_def upd_tcb_def store_at_def split: if_splits bind_splits)

lemma switch_away_resume:
  assumes "(let (t, k1) = next_tcb k in yield cont old t (k1\<lparr>current_tcb := t\<rparr>)) = Some (Switches, k')" "old \<noteq> NULL"
  shows "resume (tcbs k' old) = cont"
  using assms yield_resume by (cases "next_tcb k") auto

lemma dispatch_resume:
  assumes "dispatch cont k = Some (Switches, k')" "current_tcb k \<noteq> NULL" "status (tcbs k (current_tcb k)) \<noteq> TERMINATING"
  shows "resume (tcbs k' (current_tcb k)) = cont"
proof -
  obtain k1 where "(let (t, k2) = next_tcb k1 in yield cont (current_tcb k) t (k2\<lparr>current_tcb := t\<rparr>)) = Some (Switches, k')"
    using assms by (auto simp: dispatch_def Let_def split: if_splits bind_splits)
  then show ?thesis using assms(2) by (rule switch_away_resume)
qed

lemma sem_wait_resume:
  assumes "sem_wait cont s k = Some (Switches, k')" "current_tcb k \<noteq> NULL"
  shows "resume (tcbs k' (current_tcb k)) = cont"
proof -
  obtain k1 where k1: "upd_sem s (\<lambda>x. x\<lparr>sem_value := sem_value x - 1\<rparr>) k = Some k1" "sem_block cont s k1 = Some (Switches, k')"
    using assms(1) by (auto simp: sem_wait_def split: if_splits bind_splits flow.splits)
  then have "current_tcb k1 = current_tcb k" using upd_sem_keeps by blast
  then show ?thesis
    using k1(2) assms(2) switch_away_resume [where old = "current_tcb k" and cont = cont]
    by (auto simp: sem_block_def Option.bind_eq_Some_conv Let_def)
qed

section \<open>Handlers\<close>

text \<open>
  A handler leaves the accounts right: for the threads that do not run when it returns, and for all
  threads when it switches, because the thread that continues has yet to put or take its character.
  \<open>xs\<close> are the characters accepted.
\<close>

definition flow_left :: "addr \<Rightarrow> kstate \<Rightarrow> sched \<Rightarrow> (unit flow \<times> kstate) option \<Rightarrow> sched \<Rightarrow> u8 list \<Rightarrow> bool" where
  "flow_left f k A r A1 xs \<longleftrightarrow> (\<exists>fl k1. r = Some (fl, k1) \<and> kinv f k1 A1 \<and> kept A k k1 \<and> out_stream k1 = out_stream k @ xs \<and>
     (case fl of Returns _ \<Rightarrow> a_cur A1 = a_cur A \<and> flow_ok k1 A1
      | Switches \<Rightarrow> flow (threads A1) k1 A1 \<and> a_cur A1 \<in> threads A \<and> (a_cur A1 = a_cur A \<longrightarrow> \<not> pending (tcbs k1 (a_cur A)))
      | Halts \<Rightarrow> False))"

lemma kept_resume: "kept A k k1 \<Longrightarrow> t \<in> threads A \<Longrightarrow> t \<noteq> a_cur A \<Longrightarrow> resume (tcbs k1 t) = resume (tcbs k t)"
  by (auto simp: kept_def saved_def)

lemma flow_return:
  assumes fl: "flow_ok k A" and h: "handled {A1} f k A (Some (Returns (), k1))" and io: "io k1 = io k"
    and fin: "finite (threads A1)" and sub: "threads A - {a_cur A} \<subseteq> threads A1"
    and new: "\<And>t. t \<in> threads A1 \<Longrightarrow> t \<notin> threads A \<Longrightarrow> \<not> pending (tcbs k1 t)"
    and v: "\<And>s. s = putc_sem (lay k) \<or> s = getc_sem (lay k) \<Longrightarrow> a_val A1 s = a_val A s"
    and q: "\<And>s. s = putc_sem (lay k) \<or> s = getc_sem (lay k) \<Longrightarrow> set (a_queue A1 (Waiting s)) \<subseteq> set (a_queue A (Waiting s))"
  shows "flow_left f k A (Some (Returns (), k1)) A1 []"
proof -
  have h': "kinv f k1 A1" "kept A k k1" "a_cur A1 = a_cur A" using h by (auto simp: handled_def)
  have "flow (threads A1 - {a_cur A1}) k1 A1"
    by (rule flow_keep [OF fl [unfolded flow_ok_def] io])
      (use h' kept_resume [OF h'(2)] fin sub new v q in \<open>auto simp: kept_def\<close>)
  then show ?thesis using h' out_stream_io [OF io] by (auto simp: flow_left_def flow_ok_def)
qed

lemma flow_switches:
  assumes fl: "flow_ok k A" and h: "handled {A1} f k A (Some (Switches, k1))" and io: "io k1 = io k"
    and sub: "threads A - {a_cur A} \<subseteq> threads A1" "threads A1 \<subseteq> threads A"
    and cur: "a_cur A \<in> threads A1 \<Longrightarrow> \<not> pending (tcbs k1 (a_cur A))"
    and v: "\<And>s. s = putc_sem (lay k) \<or> s = getc_sem (lay k) \<Longrightarrow> a_val A1 s = a_val A s"
    and q: "\<And>s. s = putc_sem (lay k) \<or> s = getc_sem (lay k) \<Longrightarrow> set (a_queue A1 (Waiting s)) \<subseteq> set (a_queue A (Waiting s))"
  shows "flow_left f k A (Some (Switches, k1)) A1 []"
proof -
  have h': "kinv f k1 A1" "kept A k k1" using h by (auto simp: handled_def)
  have fin: "finite (threads A1)"
    using fl sub(2) finite_subset [of "threads A1" "insert (a_cur A) (threads A - {a_cur A})"]
    by (auto simp: flow_ok_def flow_def)
  have "flow (threads A1) k1 A1"
    by (rule flow_keep [OF fl [unfolded flow_ok_def] io _ fin])
      (use h' kept_resume [OF h'(2)] sub cur v q in \<open>auto simp: kept_def\<close>)
  moreover have "a_cur A1 \<in> threads A1" by (simp add: threads_def)
  ultimately show ?thesis using h' out_stream_io [OF io] cur sub(2) by (auto simp: flow_left_def)
qed

lemma flow_ok_finite: "flow_ok k A \<Longrightarrow> finite (threads A)"
  by (simp add: flow_ok_def flow_def)

section \<open>System calls\<close>

text \<open>A program leaves the two semaphores of the console to the kernel.\<close>

definition console_private :: "kstate \<Rightarrow> u64 \<Rightarrow> u64 \<Rightarrow> bool" where
  "console_private k code p0 \<longleftrightarrow> (code = SEM_WAIT_CODE \<or> code = SEM_SIGNAL_CODE \<longrightarrow> p0 \<noteq> putc_sem (lay k) \<and> p0 \<noteq> getc_sem (lay k))"

lemma wait_then_io:
  assumes "wait_then cont s k = Some (fl, k')" "\<not> pending x" "resume x = cont"
  shows "io k' = io k"
  using assms by (auto simp: wait_then_def after_wait_def pending_def dest!: sem_wait_io set_a0_io
      split: bind_splits flow.splits kcont.splits)

lemma syscall_io:
  assumes "syscall code p0 p1 p2 p3 k = Some (fl, k')" "code \<noteq> GET_C_CODE" "code \<noteq> PUT_C_CODE"
  shows "io k' = io k"
proof -
  have w: "wait_then cont s k = Some (fl, k') \<Longrightarrow> cont \<in> {KJoin, KSemWait} \<Longrightarrow> io k' = io k" for cont s
    using wait_then_io [of cont s k fl k' "(tcbs k 0)\<lparr>resume := cont\<rparr>"] by (auto simp: pending_def)
  show ?thesis
    using assms
    by (auto simp: syscall_def prepare_user_mode_def dest!: w dispatch_io set_a0_io upd_tcb_io put_to_sleep_io
        handle_create_thread_io handle_sem_open_io handle_sem_close_io sem_signal_io split: if_splits bind_splits)
qed

lemma wait_then_switches: "wait_then cont s k = Some (Switches, k') \<Longrightarrow> sem_wait cont s k = Some (Switches, k')"
  by (auto simp: wait_then_def split: bind_splits flow.splits)

lemma syscall_switches:
  assumes rep: "krep k A" and r: "syscall code p0 p1 p2 p3 k = Some (Switches, k')"
    and code: "code \<noteq> GET_C_CODE" "code \<noteq> PUT_C_CODE" "code \<noteq> THREAD_EXIT_CODE"
  shows "\<not> pending (tcbs k' (a_cur A))"
proof -
  note cur = krepD(2-5) [OF rep]
  have d: "resume (tcbs k' (a_cur A)) = KDispatch" if "dispatch KDispatch k1 = Some (Switches, k')"
    "current_tcb k1 = a_cur A" "status (tcbs k1 (a_cur A)) \<noteq> TERMINATING" for k1
    using dispatch_resume [OF that(1)] that(2,3) cur by simp
  have w: "resume (tcbs k' (a_cur A)) = cont" if "wait_then cont s k = Some (Switches, k')" for cont s
    using sem_wait_resume [OF wait_then_switches [OF that]] cur by simp
  have sl: "resume (tcbs k' (a_cur A)) = KDispatch"
    if s: "put_to_sleep (current_tcb k) p0 k = Some k1" "set_a0 SUCCESS_SYSCALL k1 = Some k2" "dispatch KDispatch k2 = Some (Switches, k')"
      "0 < p0" for k1 k2
  proof -
    obtain k1' where p: "put_to_sleep (a_cur A) p0 k = Some k1'"
      "\<And>q. status (tcbs k1' q) = (if q = a_cur A then SUSPENDED else status (tcbs k q))"
      "current_tcb k1' = current_tcb k" "current_context k1' = current_context k"
      by (rule put_to_sleep_rep [OF krepD(1,4,6) [OF rep] s(4)]) auto
    have k1: "current_tcb k1 = a_cur A" "current_context k1 = a_cur A" "status (tcbs k1 (a_cur A)) = SUSPENDED"
      using p s(1) cur by auto
    then have "current_tcb k2 = a_cur A" "status (tcbs k2 (a_cur A)) = SUSPENDED"
      using s(2) cur by (auto simp: set_a0_def)
    then show ?thesis using d [OF s(3)] by simp
  qed
  have "resume (tcbs k' (a_cur A)) \<in> {KDispatch, KJoin, KSemWait}"
    using r code cur
    by (auto simp: syscall_def dest!: w intro: sl d split: if_splits bind_splits)
  then show ?thesis by (auto simp: pending_def)
qed

text \<open>What a call means for the semaphores of the console.\<close>

definition console_kept :: "kstate \<Rightarrow> sched \<Rightarrow> sched \<Rightarrow> bool" where
  "console_kept k A A1 \<longleftrightarrow> (\<forall>s \<in> {putc_sem (lay k), getc_sem (lay k)}.
     a_val A1 s = a_val A s \<and> set (a_queue A1 (Waiting s)) \<subseteq> set (a_queue A (Waiting s)))"

lemma console_not_live: "owned k A \<Longrightarrow> live_blocks (mem k) s \<noteq> None \<Longrightarrow> s \<noteq> putc_sem (lay k) \<and> s \<noteq> getc_sem (lay k)"
  using live_not_static [of k A s] ownedD(13,14) by blast

lemma a_next_waiting [simp]: "a_queue (a_next A) (Waiting s) = a_queue A (Waiting s)"
  by simp

lemma console_kept_simps:
  "console_kept k A A" "console_kept k A (a_dispatch A)"
  "u \<noteq> putc_sem (lay k) \<Longrightarrow> u \<noteq> getc_sem (lay k) \<Longrightarrow> console_kept k A (a_wait u A)"
  "u \<noteq> putc_sem (lay k) \<Longrightarrow> u \<noteq> getc_sem (lay k) \<Longrightarrow> console_kept k A (a_signal u A)"
  "u \<noteq> putc_sem (lay k) \<Longrightarrow> u \<noteq> getc_sem (lay k) \<Longrightarrow> console_kept k A (a_close_sem u A)"
  "u \<noteq> putc_sem (lay k) \<Longrightarrow> u \<noteq> getc_sem (lay k) \<Longrightarrow> console_kept k A (a_exit u A)"
  "u \<noteq> putc_sem (lay k) \<Longrightarrow> u \<noteq> getc_sem (lay k) \<Longrightarrow> console_kept k A (a_new_sem u v A)"
  "u \<noteq> putc_sem (lay k) \<Longrightarrow> u \<noteq> getc_sem (lay k) \<Longrightarrow> console_kept k A (a_create t u A)"
  "console_kept k A (a_next (a_sleep t n A))" "console_kept k A (a_tick A)"
  by (auto simp: console_kept_def a_dispatch_def a_enq_def a_wait_def a_signal_def a_unblock_def a_exit_def a_drop_sem_def
      a_close_def a_create_def a_sleep_def a_tick_def Let_def split: list.splits)

lemma call_step_console:
  assumes inv: "kinv f k A" and may: "may_call f k A code p0 p1 p3" and pr: "console_private k code p0"
    and A1: "A1 \<in> call_step k code p0 p1 p3 A" and code: "code \<noteq> GET_C_CODE" "code \<noteq> PUT_C_CODE"
  shows "console_kept k A A1"
proof -
  note own = kinvD(3) [OF inv]
  have "s \<notin> a_sems A \<Longrightarrow> s \<noteq> putc_sem (lay k) \<and> s \<noteq> getc_sem (lay k)" for s using ownedD(11,12) [OF own] by auto
  with inv may A1 show ?thesis
    by (cases rule: call_step_cases)
      (use code pr console_not_live [OF own] in \<open>auto simp: console_private_def intro!: console_kept_simps\<close>)
qed

lemma call_left:
  assumes inv: "kinv f k A" and may: "may_call f k A code p0 p1 p3" and A1: "A1 \<in> call_step k code p0 p1 p3 A"
  obtains fl k1 where "syscall code p0 p1 p2 p3 k = Some (fl, k1)" "handled {A1} f k A (Some (fl, k1))"
proof -
  have "handled (call_step k code p0 p1 p3 A) f k A (syscall code p0 p1 p2 p3 k)" by (rule handled_syscall [OF inv may])
  then have "handled {A1} f k A (syscall code p0 p1 p2 p3 k)"
    using call_step_unique [OF A1] by (auto simp: handled_def)
  then show ?thesis using that by (auto simp: handled_def)
qed

lemma flow_call_plain:
  assumes inv: "kinv f k A" and fl: "flow_ok k A" and may: "may_call f k A code p0 p1 p3" and pr: "console_private k code p0"
    and A1: "A1 \<in> call_step k code p0 p1 p3 A" and code: "code \<noteq> GET_C_CODE" "code \<noteq> PUT_C_CODE"
  shows "flow_left f k A (syscall code p0 p1 p2 p3 k) A1 []"
proof -
  note rep = kinvD(1) [OF inv]
  obtain fw k1 where r: "syscall code p0 p1 p2 p3 k = Some (fw, k1)" "handled {A1} f k A (Some (fw, k1))"
    by (rule call_left [OF inv may A1])
  have io: "io k1 = io k" by (rule syscall_io [OF r(1) code])
  note kp = call_step_console [OF inv may pr A1 code]
  have keep: "s = putc_sem (lay k) \<or> s = getc_sem (lay k) \<Longrightarrow> a_val A1 s = a_val A s"
    "s = putc_sem (lay k) \<or> s = getc_sem (lay k) \<Longrightarrow> set (a_queue A1 (Waiting s)) \<subseteq> set (a_queue A (Waiting s))" for s
    using kp by (auto simp: console_kept_def)
  note sub = call_step_threads [OF inv may A1] and fin = flow_ok_finite [OF fl]
  have new: "(code \<noteq> CREATE_THREAD_CODE \<longrightarrow> threads A1 \<subseteq> threads A) \<and> finite (threads A1) \<and>
      (\<forall>t. t \<in> threads A1 \<longrightarrow> t \<notin> threads A \<longrightarrow> \<not> pending (tcbs k1 t))"
    using inv may A1
  proof (cases rule: call_step_cases)
    case (create t st js m)
    have "handle_create_thread p0 p1 p2 p3 k = Some k1 \<and> fw = Returns ()"
      using r(1) create(2) by (auto simp: syscall_def syscall_code_defs)
    then have "resume (tcbs k1 t) = KStart"
      using handle_create_thread_rep [OF rep kinvD(3) [OF inv] create(5-9,3), of p2] by (metis option.inject)
    then show ?thesis using create threads_create [OF create(4), of t] fin by (auto simp: pending_def)
  next
    case (exit s)
    then show ?thesis using threads_exit(1) [of s A] krepD(6) [OF rep] fin by simp
  qed (use fin in \<open>auto simp: threads_wait_may [OF inv] may_signal_def\<close>)
  have cur: "\<not> pending (tcbs k1 (a_cur A))" if sw: "fw = Switches" "a_cur A \<in> threads A1"
  proof -
    have "code \<noteq> THREAD_EXIT_CODE"
    proof
      assume ex: "code = THREAD_EXIT_CODE"
      from inv may A1 show False
      proof (cases rule: call_step_cases)
        case (exit s)
        then show False using threads_exit(1) [of s A] krepD(6) [OF rep] sw(2) by simp
      next
        case same
        have "a_cur A \<noteq> main_tcb (lay k)"
          using r(1) ex sw(1) krepD(2) [OF rep] by (auto simp: syscall_def syscall_code_defs)
        then have "A1 = a_exit (join_sem (tcbs k (a_cur A))) A"
          using A1 ex by (simp add: call_step_def syscall_code_defs)
        then have "a_sems A1 = a_sems A - {join_sem (tcbs k (a_cur A))}" by (simp add: a_exit_def a_drop_sem_def)
        then have "join_sem (tcbs k (a_cur A)) \<notin> a_sems A" using same by auto
        then show False
          using ownedD(3) [OF kinvD(3) [OF inv], of "a_cur A"] \<open>a_cur A \<noteq> main_tcb (lay k)\<close> by (simp add: user_threads_def threads_def)
      qed (use ex in \<open>simp_all add: syscall_code_defs\<close>)
    qed
    with syscall_switches [OF rep] r(1) code sw(1) show ?thesis by blast
  qed
  show ?thesis
  proof (cases fw)
    case (Returns u)
    then show ?thesis using flow_return [OF fl _ io _ sub _ keep] r new by simp
  next
    case Switches
    then have "code \<noteq> CREATE_THREAD_CODE" using r(1) by (auto simp: syscall_def syscall_code_defs)
    then show ?thesis using flow_switches [OF fl _ io sub _ _ keep] r new cur Switches by simp
  next
    case Halts
    then show ?thesis using r(2) by (simp add: handled_def)
  qed
qed

section \<open>Console calls\<close>

lemma wait_pass_handled:
  assumes h: "handled {a_wait s A} f k A (wait_then cont s k)" and rep: "krep k A" and s: "s \<in> a_sems A" "0 < a_val A s"
  obtains k2 where "after_wait cont WAIT_SUCCESS (k\<lparr>sems := (sems k)(s := (sems k s)\<lparr>sem_value := sem_value (sems k s) - 1\<rparr>)\<rparr>) = Some k2"
    "wait_then cont s k = Some (Returns (), k2)" "kinv f k2 (a_wait s A)" "kept A k k2" "a_cur (a_wait s A) = a_cur A"
    "a_queue (a_wait s A) = a_queue A" "a_val (a_wait s A) = (a_val A)(s := a_val A s - 1)" "threads (a_wait s A) = threads A"
proof -
  have w: "wait_then cont s k = after_wait cont WAIT_SUCCESS (k\<lparr>sems := (sems k)(s := (sems k s)\<lparr>sem_value := sem_value (sems k s) - 1\<rparr>)\<rparr>) \<bind>
      (\<lambda>k2. Some (Returns (), k2))"
    using sem_wait_pass(1) [OF rep s, of cont] by (simp add: wait_then_def)
  have A1: "a_cur (a_wait s A) = a_cur A" "a_queue (a_wait s A) = a_queue A" "a_val (a_wait s A) = (a_val A)(s := a_val A s - 1)"
    using s(2) by (simp_all add: a_wait_def)
  have "threads (a_wait s A) = threads A" using s by simp
  then show ?thesis using h A1 that unfolding w by (auto simp: handled_def split: bind_splits)
qed

lemma wait_block_handled:
  assumes h: "handled {a_wait s A} f k A (wait_then cont s k)" and rep: "krep k A" and s: "s \<in> a_sems A" "\<not> 0 < a_val A s"
    "- (2 ^ 31) < a_val A s" and Q: "a_queue A Ready \<noteq> []"
  obtains k2 where "wait_then cont s k = Some (Switches, k2)" "kinv f k2 (a_wait s A)" "kept A k k2" "a_cur (a_wait s A) \<noteq> a_cur A"
    "\<And>u. a_queue (a_wait s A) (Waiting u) = a_queue A (Waiting u) @ (if u = s then [a_cur A] else [])"
    "a_val (a_wait s A) = (a_val A)(s := a_val A s - 1)" "threads (a_wait s A) = threads A" "io k2 = io k"
    "resume (tcbs k2 (a_cur A)) = cont"
proof -
  obtain k2 where w: "sem_wait cont s k = Some (Switches, k2)"
    using sem_wait_block [OF rep s(1) _ s(3) Q, where cont = cont] s(2) by (metis not_less)
  then have wt: "wait_then cont s k = Some (Switches, k2)" by (simp add: wait_then_def)
  have k2: "kinv f k2 (a_wait s A)" "kept A k k2" using h wt by (auto simp: handled_def)
  have q: "a_queue (a_wait s A) (Waiting u) = a_queue A (Waiting u) @ (if u = s then [a_cur A] else [])" for u
    using s(2) by (simp add: a_wait_def a_enq_def Let_def)
  have "a_cur (a_wait s A) \<noteq> a_cur A"
    using krepD(6) [OF kinvD(1) [OF k2(1)], of "Waiting s"] q [of s] s(1) by (auto simp: a_wait_def a_enq_def Let_def)
  moreover have "a_val (a_wait s A) = (a_val A)(s := a_val A s - 1)" using s(2) by (simp add: a_wait_def a_enq_def Let_def)
  moreover have "threads (a_wait s A) = threads A" using s Q by simp
  moreover have "resume (tcbs k2 (a_cur A)) = cont" using sem_wait_resume [OF w] krepD(2,4) [OF rep] by simp
  ultimately show ?thesis using that [OF wt k2 _ q] sem_wait_io [OF w] by blast
qed

lemma flow_ok_fields:
  assumes "flow_ok k A"
  shows "q_inv IO_BUFFER_SIZE (putc_buffer k)" "q_inv IO_BUFFER_SIZE (getc_buffer k)" "putc_sem (lay k) \<noteq> getc_sem (lay k)"
    "getc_sem (lay k) \<noteq> putc_sem (lay k)"
    "a_val A (putc_sem (lay k)) + int (q_get_length (putc_buffer k)) + int (card (putters (threads A - {a_cur A}) k)) = int IO_BUFFER_SIZE"
    "a_val A (getc_sem (lay k)) + int (card (getters (threads A - {a_cur A}) k)) = int (q_get_length (getc_buffer k))"
    "set (a_queue A (Waiting (putc_sem (lay k)))) \<subseteq> putters (threads A - {a_cur A}) k"
    "set (a_queue A (Waiting (getc_sem (lay k)))) \<subseteq> getters (threads A - {a_cur A}) k"
  using assms by (auto simp: flow_ok_def flow_def)

text \<open>The thread that blocks joins those whose character is still to be put or taken.\<close>

lemma pending_join:
  assumes kp: "kept A k k1" and r: "resume (tcbs k1 (a_cur A)) = cont"
  shows "putters (threads A) k1 = (if \<exists>c. cont = KPutC c then insert (a_cur A) (putters (threads A - {a_cur A}) k)
      else putters (threads A - {a_cur A}) k)"
    "getters (threads A) k1 = (if cont = KGetC then insert (a_cur A) (getters (threads A - {a_cur A}) k)
      else getters (threads A - {a_cur A}) k)"
proof -
  have c: "a_cur A \<in> threads A" by (simp add: threads_def)
  have s: "resume (tcbs k1 t) = resume (tcbs k t)" if "t \<in> threads A" "t \<noteq> a_cur A" for t using kept_resume [OF kp that] .
  show "putters (threads A) k1 = (if \<exists>c. cont = KPutC c then insert (a_cur A) (putters (threads A - {a_cur A}) k)
      else putters (threads A - {a_cur A}) k)"
    using c r s by (auto simp: putters_def) metis
  show "getters (threads A) k1 = (if cont = KGetC then insert (a_cur A) (getters (threads A - {a_cur A}) k)
      else getters (threads A - {a_cur A}) k)"
    using c r s by (auto simp: getters_def) metis
qed

lemma card_join: "finite (threads A) \<Longrightarrow> card (insert (a_cur A) (putters (threads A - {a_cur A}) k)) = Suc (card (putters (threads A - {a_cur A}) k))"
  "finite (threads A) \<Longrightarrow> card (insert (a_cur A) (getters (threads A - {a_cur A}) k)) = Suc (card (getters (threads A - {a_cur A}) k))"
  by (subst card_insert_disjoint; simp add: putters_def getters_def)+

lemma pending_same:
  assumes "kept A k k1"
  shows "putters (threads A - {a_cur A}) k1 = putters (threads A - {a_cur A}) k"
    "getters (threads A - {a_cur A}) k1 = getters (threads A - {a_cur A}) k"
  using kept_resume [OF assms] by (auto simp: putters_def getters_def)

lemma flow_put:
  assumes inv: "kinv f k A" and fl: "flow_ok k A" and b: "may_block f A (putc_sem (lay k))"
  shows "flow_left f k A (wait_then (KPutC c) (putc_sem (lay k)) k) (a_wait (putc_sem (lay k)) A)
    (if 0 < a_val A (putc_sem (lay k)) then [c] else [])"
proof -
  let ?s = "putc_sem (lay k)"
  note rep = kinvD(1) [OF inv] and F = flow_ok_fields [OF fl] and fin = flow_ok_finite [OF fl]
  note h = handled_wait [OF inv b, of "KPutC c"]
  have s: "?s \<in> a_sems A" "- (2 ^ 31) < a_val A ?s" "a_queue A Ready \<noteq> []"
    using b kinvD(5) [OF inv] by (auto simp: may_block_def)
  show ?thesis
  proof (cases "0 < a_val A ?s")
    case True
    obtain k2 where k2: "after_wait (KPutC c) WAIT_SUCCESS (k\<lparr>sems := (sems k)(?s := (sems k ?s)\<lparr>sem_value := sem_value (sems k ?s) - 1\<rparr>)\<rparr>) = Some k2"
      "wait_then (KPutC c) ?s k = Some (Returns (), k2)" "kinv f k2 (a_wait ?s A)" "kept A k k2" "a_cur (a_wait ?s A) = a_cur A"
      "a_queue (a_wait ?s A) = a_queue A" "a_val (a_wait ?s A) = (a_val A)(?s := a_val A ?s - 1)" "threads (a_wait ?s A) = threads A"
      by (rule wait_pass_handled [OF h rep s(1) True])
    have io: "putc_buffer k2 = q_put IO_BUFFER_SIZE c (putc_buffer k)" "getc_buffer k2 = getc_buffer k" "tx_out k2 = tx_out k" "lay k2 = lay k"
      using k2(1) by (auto simp: after_wait_def)
    have room: "q_count (putc_buffer k) < IO_BUFFER_SIZE" using F(5) True by (simp add: q_get_length_def)
    have len: "q_get_length (putc_buffer k2) = Suc (q_get_length (putc_buffer k))"
      using room by (simp add: io q_get_length_def q_put_def)
    have "flow (threads A - {a_cur A}) k2 (a_wait ?s A)"
      unfolding flow_def pending_same [OF k2(4)] using F k2(6,7) q_put_room(1) [OF F(1) room] fin len by (simp add: io)
    moreover have "out_stream k2 = out_stream k @ [c]"
      using q_put_room(2) [OF F(1) room] by (simp add: out_stream_def io)
    ultimately show ?thesis using k2 True by (simp add: flow_left_def flow_ok_def)
  next
    case False
    obtain k2 where k2: "wait_then (KPutC c) ?s k = Some (Switches, k2)" "kinv f k2 (a_wait ?s A)" "kept A k k2" "a_cur (a_wait ?s A) \<noteq> a_cur A"
      "\<And>u. a_queue (a_wait ?s A) (Waiting u) = a_queue A (Waiting u) @ (if u = ?s then [a_cur A] else [])"
      "a_val (a_wait ?s A) = (a_val A)(?s := a_val A ?s - 1)" "threads (a_wait ?s A) = threads A" "io k2 = io k"
      "resume (tcbs k2 (a_cur A)) = KPutC c"
      using wait_block_handled [OF h rep s(1) False s(2,3)] by metis
    note P = pending_join [OF k2(3,9), simplified]
    have lay: "lay k2 = lay k" using k2(3) by (simp add: kept_def)
    have "flow (threads A) k2 (a_wait ?s A)"
      unfolding flow_def P using F k2(5,6) fin lay io_fields [OF k2(8)] card_join [OF fin, of k] by auto
    moreover have "a_cur (a_wait ?s A) \<in> threads A" using k2(7) by (auto simp: threads_def)
    ultimately show ?thesis using k2 out_stream_io [OF k2(8)] False by (simp add: flow_left_def)
  qed
qed

lemma flow_get:
  assumes inv: "kinv f k A" and fl: "flow_ok k A" and b: "may_block f A (getc_sem (lay k))"
  shows "flow_left f k A (wait_then KGetC (getc_sem (lay k)) k) (a_wait (getc_sem (lay k)) A) []"
proof -
  let ?s = "getc_sem (lay k)"
  note rep = kinvD(1) [OF inv] and F = flow_ok_fields [OF fl] and fin = flow_ok_finite [OF fl]
  note h = handled_wait [OF inv b, of KGetC]
  have s: "?s \<in> a_sems A" "- (2 ^ 31) < a_val A ?s" "a_queue A Ready \<noteq> []"
    using b kinvD(5) [OF inv] by (auto simp: may_block_def)
  show ?thesis
  proof (cases "0 < a_val A ?s")
    case True
    obtain k2 where k2: "after_wait KGetC WAIT_SUCCESS (k\<lparr>sems := (sems k)(?s := (sems k ?s)\<lparr>sem_value := sem_value (sems k ?s) - 1\<rparr>)\<rparr>) = Some k2"
      "wait_then KGetC ?s k = Some (Returns (), k2)" "kinv f k2 (a_wait ?s A)" "kept A k k2" "a_cur (a_wait ?s A) = a_cur A"
      "a_queue (a_wait ?s A) = a_queue A" "a_val (a_wait ?s A) = (a_val A)(?s := a_val A ?s - 1)" "threads (a_wait ?s A) = threads A"
      by (rule wait_pass_handled [OF h rep s(1) True])
    obtain x q where q: "q_get IO_BUFFER_SIZE (getc_buffer k) = (x, q)" by (cases "q_get IO_BUFFER_SIZE (getc_buffer k)")
    have io: "getc_buffer k2 = q" "putc_buffer k2 = putc_buffer k" "tx_out k2 = tx_out k" "lay k2 = lay k"
      using k2(1) q by (auto simp: after_wait_def dest!: set_a0_io io_fields) (use k2(4) in \<open>simp add: kept_def\<close>)
    have some: "0 < q_count (getc_buffer k)" using F(6) True by (simp add: q_get_length_def)
    have len: "q_get_length (getc_buffer k) = Suc (q_get_length q)" "q_inv IO_BUFFER_SIZE q"
      using some q q_get_some(1) [OF F(2) some] by (auto simp: q_get_length_def q_get_def)
    have "flow (threads A - {a_cur A}) k2 (a_wait ?s A)"
      unfolding flow_def pending_same [OF k2(4)] using F k2(6,7) fin len by (simp add: io)
    moreover have "out_stream k2 = out_stream k" by (simp add: out_stream_def io)
    ultimately show ?thesis using k2 by (simp add: flow_left_def flow_ok_def)
  next
    case False
    obtain k2 where k2: "wait_then KGetC ?s k = Some (Switches, k2)" "kinv f k2 (a_wait ?s A)" "kept A k k2" "a_cur (a_wait ?s A) \<noteq> a_cur A"
      "\<And>u. a_queue (a_wait ?s A) (Waiting u) = a_queue A (Waiting u) @ (if u = ?s then [a_cur A] else [])"
      "a_val (a_wait ?s A) = (a_val A)(?s := a_val A ?s - 1)" "threads (a_wait ?s A) = threads A" "io k2 = io k"
      "resume (tcbs k2 (a_cur A)) = KGetC"
      using wait_block_handled [OF h rep s(1) False s(2,3)] by metis
    note P = pending_join [OF k2(3,9), simplified]
    have lay: "lay k2 = lay k" using k2(3) by (simp add: kept_def)
    have "flow (threads A) k2 (a_wait ?s A)"
      unfolding flow_def P using F k2(5,6) fin lay io_fields [OF k2(8)] card_join [OF fin, of k] by auto
    moreover have "a_cur (a_wait ?s A) \<in> threads A" using k2(7) by (auto simp: threads_def)
    ultimately show ?thesis using k2 out_stream_io [OF k2(8)] by (simp add: flow_left_def)
  qed
qed

section \<open>Interrupts and the flushing thread\<close>

lemma flow_left_from:
  assumes "flow_left f k0 B r A1 xs" "frame {a_cur A} k k0" "threads B = threads A" "a_cur B = a_cur A" "out_stream k0 = out_stream k"
  shows "flow_left f k A r A1 xs"
proof -
  have "kept B k0 k1 \<Longrightarrow> kept A k k1" for k1
    using assms(2-4) by (auto simp: kept_def frame_def heap_frame_def)
  moreover obtain fl k1 where "r = Some (fl, k1)" "kinv f k1 A1" "kept B k0 k1" "out_stream k1 = out_stream k0 @ xs"
    "case fl of Returns _ \<Rightarrow> a_cur A1 = a_cur B \<and> flow_ok k1 A1
      | Switches \<Rightarrow> flow (threads A1) k1 A1 \<and> a_cur A1 \<in> threads B \<and> (a_cur A1 = a_cur B \<longrightarrow> \<not> pending (tcbs k1 (a_cur B)))
      | Halts \<Rightarrow> False"
    using assms(1) unfolding flow_left_def by blast
  ultimately show ?thesis using assms(3-5) unfolding flow_left_def by (cases fl) auto
qed

lemma flow_dispatch:
  assumes inv: "kinv f k A" and fl: "flow_ok k A" and cont: "cont \<in> {KDispatch, KInterrupt}"
  shows "flow_left f k A (dispatch cont k) (a_dispatch A) []"
proof -
  note rep = kinvD(1) [OF inv] and h = handled_dispatch [OF inv, of cont]
  obtain k1 where k1: "dispatch cont k = Some (Switches, k1)" using dispatch_rep [OF rep, where cont = cont] by metis
  have "resume (tcbs k1 (a_cur A)) = cont" using dispatch_resume [OF k1] krepD(2,4,5) [OF rep] by simp
  then show ?thesis
    unfolding k1 using h flow_ok_finite [OF fl] cont console_kept_simps(2) [of k A]
    by (intro flow_switches [OF fl _ dispatch_io [OF k1]]) (auto simp: k1 pending_def console_kept_def)
qed

lemma flow_ok_same:
  assumes "flow_ok k A" "io k' = io k" "frame {a_cur A} k k'" "threads B = threads A" "a_cur B = a_cur A" "console_kept k A B"
  shows "flow_ok k' B"
  unfolding flow_ok_def
  by (rule flow_keep [OF assms(1) [unfolded flow_ok_def] assms(2)])
    (use assms(3-6) flow_ok_finite [OF assms(1)] in \<open>auto simp: console_kept_def frameD saved_def dest: frameD(6)\<close>)

lemma flow_timer:
  assumes inv: "kinv f k A" and fl: "flow_ok k A" and A1: "A1 \<in> event_step k Timer_interrupt A"
  shows "flow_left f k A (k_handle_timer k) A1 []"
proof -
  let ?kb = "k\<lparr>cpu_of := (cpu_of k)\<lparr>csr_sip := csr_sip (cpu_of k) AND NOT 0x02\<rparr>\<rparr>"
  have kb: "krep ?kb A" using kinvD(1) [OF inv] by simp
  obtain k1 where k1: "timer_tick ?kb = Some k1" "krep k1 (a_tick A)" "core_eq ?kb k1" by (rule timer_tick_rep [OF kb])
  have fr: "frame {a_cur A} ?kb k1" by (rule timer_tick_frame [OF k1(1)])
  let ?k2 = "k1\<lparr>timer_ticks := timer_ticks k1 + 1\<rparr>"
  have "kinv f ?kb A" using inv by simp
  from kinv_step [OF this fr k1(2)] have "kinv f k1 (a_tick A)"
    using kinvD [OF inv] counters_ok_tick run_ring_tick by simp
  then have k2: "kinv f ?k2 (a_tick A)" by simp
  have fr2: "frame {a_cur A} k ?k2" using fr by (simp add: frame_def)
  have io2: "io ?k2 = io k" using timer_tick_io [OF k1(1)] by simp
  have fl2: "flow_ok ?k2 (a_tick A)"
    by (rule flow_ok_same [OF fl io2 fr2]) (simp_all add: console_kept_simps)
  have d: "deref (tcbs ?k2) (current_tcb ?k2) = Some (tcbs ?k2 (a_cur A))"
    using krep_cur_nonnull [OF kinvD(1) [OF k2]] by simp
  have "time_slice (tcbs k1 (a_cur A)) = time_slice (tcbs k (a_cur A))" "timer_ticks k1 = timer_ticks k"
    using core_eq_fields(1) [OF k1(3), of "a_cur A", THEN core_fields(6)] k1(3) by (simp_all add: core_eq_def env_eq_def)
  then have A1': "A1 = (if timer_ticks ?k2 \<ge> time_slice (tcbs ?k2 (a_cur A)) then a_dispatch (a_tick A) else a_tick A)"
    using A1 by (simp add: event_step_def split: if_splits)
  show ?thesis
  proof (cases "timer_ticks ?k2 \<ge> time_slice (tcbs ?k2 (a_cur A))")
    case True
    have "flow_left f k A (dispatch KInterrupt ?k2) (a_dispatch (a_tick A)) []"
      by (rule flow_left_from [OF flow_dispatch [OF k2 fl2] fr2]) (simp_all add: out_stream_io [OF io2])
    moreover have "k_handle_timer k = dispatch KInterrupt ?k2" using True k1(1) d by (simp add: k_handle_timer_def Let_def)
    ultimately show ?thesis using True A1' by simp
  next
    case False
    have "k_handle_timer k = Some (Returns (), ?k2)" using False k1(1) d by (simp add: k_handle_timer_def Let_def)
    then show ?thesis using False A1' k2 fl2 frame_kept [OF fr2] out_stream_io [OF io2] by (simp add: flow_left_def)
  qed
qed

lemma a_signal_waiting: "set (a_queue (a_signal s A) (Waiting u)) \<subseteq> set (a_queue A (Waiting u))"
  by (auto simp: a_signal_def a_unblock_def a_enq_def Let_def split: list.splits)

text \<open>The accounts after a character has been moved and its semaphore signalled.\<close>

lemma flow_signal:
  assumes fl: "flow_ok k A" and fr: "frame {a_cur A} k k'" and B: "threads B = threads A" "a_cur B = a_cur A"
    and q: "\<And>u. set (a_queue B (Waiting u)) \<subseteq> set (a_queue A (Waiting u))"
    and b: "q_inv IO_BUFFER_SIZE (putc_buffer k')" "q_inv IO_BUFFER_SIZE (getc_buffer k')"
      "a_val B (putc_sem (lay k)) + int (q_get_length (putc_buffer k')) = a_val A (putc_sem (lay k)) + int (q_get_length (putc_buffer k))"
      "a_val B (getc_sem (lay k)) - int (q_get_length (getc_buffer k')) = a_val A (getc_sem (lay k)) - int (q_get_length (getc_buffer k))"
  shows "flow_ok k' B"
proof -
  note F = flow_ok_fields [OF fl] and P = pending_same [OF frame_kept [OF fr]]
  have w: "set (a_queue B (Waiting (putc_sem (lay k)))) \<subseteq> putters (threads A - {a_cur A}) k"
    "set (a_queue B (Waiting (getc_sem (lay k)))) \<subseteq> getters (threads A - {a_cur A}) k" using F(7,8) q by blast+
  show ?thesis
    unfolding flow_ok_def flow_def B P frameD(2) [OF fr] using F(3,5,6) b w flow_ok_finite [OF fl] by simp
qed

lemma flow_console:
  assumes inv: "kinv f k A" and fl: "flow_ok k A" and s: "may_signal A (getc_sem (lay k))"
    and A1: "A1 \<in> event_step k (Console_interrupt stat data) A"
  shows "flow_left f k A (k_handle_console stat data k) A1 []"
proof -
  let ?kb = "k\<lparr>cpu_of := (cpu_of k)\<lparr>csr_sip := csr_sip (cpu_of k) AND NOT 0x200\<rparr>\<rparr>"
  let ?s = "getc_sem (lay k)"
  show ?thesis
  proof (cases "stat AND CONSOLE_RX_STATUS_BIT \<noteq> 0 \<and> q_get_length (getc_buffer k) < IO_BUFFER_SIZE")
    case True
    let ?kc = "?kb\<lparr>getc_buffer := q_put IO_BUFFER_SIZE data (getc_buffer k)\<rparr>"
    have kc: "kinv f ?kc A" "frame {a_cur A} k ?kc" using inv by simp_all
    obtain k1 where k1: "sem_signal ?s ?kc = Some (SIGNAL_SUCCESS, k1)" "kinv f k1 (a_signal ?s A)" "frame {} ?kc k1"
      by (rule kinv_signal [OF kc(1), of ?s]) (use s in simp)
    have fr: "frame {a_cur A} k k1" using frame_trans_same [OF kc(2) frame_mono [OF k1(3)]] by simp
    note io = io_fields [OF sem_signal_io [OF k1(1)]]
    have room: "q_count (getc_buffer k) < IO_BUFFER_SIZE" using True by (simp add: q_get_length_def)
    note F = flow_ok_fields [OF fl]
    have "flow_ok k1 (a_signal ?s A)"
      by (rule flow_signal [OF fl fr])
        (use s F io q_put_room(1) [OF F(2) room] room in \<open>auto simp: may_signal_def q_get_length_def q_put_def a_signal_waiting\<close>)
    from flow_dispatch [OF k1(2) this, of KInterrupt]
    have "flow_left f k1 (a_signal ?s A) (dispatch KInterrupt k1) (a_dispatch (a_signal ?s A)) []" by simp
    then have "flow_left f k A (dispatch KInterrupt k1) (a_dispatch (a_signal ?s A)) []"
      by (rule flow_left_from [OF _ fr]) (use s io in \<open>simp_all add: may_signal_def out_stream_def\<close>)
    moreover have "k_handle_console stat data k = dispatch KInterrupt k1"
      using True k1(1) by (simp add: k_handle_console_def fill_getc_buffer_def q_get_capacity_def)
    ultimately show ?thesis using True A1 by (simp add: event_step_def)
  next
    case False
    then have "k_handle_console stat data k = Some (Returns (), ?kb)"
      by (auto simp: k_handle_console_def fill_getc_buffer_def q_get_capacity_def Let_def)
    moreover have "flow_ok ?kb A" by (rule flow_ok_same [OF fl]) (simp_all add: console_kept_simps)
    moreover have "A1 = A" using A1 False by (auto simp: event_step_def split: if_splits)
    ultimately show ?thesis using inv by (simp add: flow_left_def out_stream_def)
  qed
qed

lemma a_signals_waiting: "set (a_queue (a_signals s n A) (Waiting u)) \<subseteq> set (a_queue A (Waiting u))"
proof (induction n arbitrary: A)
  case (Suc n)
  from Suc [of "a_signal s A"] a_signal_waiting [of s A u] show ?case by auto
qed simp

lemma flow_flush:
  assumes inv: "kinv f k A" and fl: "flow_ok k A" and n: "n = tx_ready stat (q_get_length (putc_buffer k))"
    "a_val A (putc_sem (lay k)) + int n < 2 ^ 31" and k': "flush_putc_buffer stat k = Some k'"
  shows "flow_ok k' (a_signals (putc_sem (lay k)) n A)" "out_stream k' = out_stream k"
    "tx_out k' = tx_out k @ take n (q_contents IO_BUFFER_SIZE (putc_buffer k))"
proof -
  let ?s = "putc_sem (lay k)"
  note F = flow_ok_fields [OF fl]
  have s: "?s \<in> a_sems A" by (rule ownedD(11) [OF kinvD(3) [OF inv]])
  obtain k1 where k1: "flush_putc_buffer stat k = Some k1" "krep k1 (a_signals ?s n A)"
    "counters_ok (a_signals ?s n A)" "frame {} k k1" "cpu_of k1 = cpu_of k" "getc_buffer k1 = getc_buffer k"
    "q_get_length (putc_buffer k1) = q_get_length (putc_buffer k) - n"
    "q_inv IO_BUFFER_SIZE (putc_buffer k) \<Longrightarrow> q_inv IO_BUFFER_SIZE (putc_buffer k1) \<and>
       tx_out k1 = tx_out k @ take n (q_contents IO_BUFFER_SIZE (putc_buffer k)) \<and>
       q_contents IO_BUFFER_SIZE (putc_buffer k1) = drop n (q_contents IO_BUFFER_SIZE (putc_buffer k))"
    by (rule flush_putc_buffer_rep [OF kinvD(1,2) [OF inv] s n]) blast
  then have eq: "k1 = k'" using k' by simp
  have le: "n \<le> q_get_length (putc_buffer k)" using tx_ready_le n(1) by simp
  show "flow_ok k' (a_signals ?s n A)"
    by (rule flow_signal [OF fl]) (use k1 eq F s le a_signals_waiting frame_mono [OF k1(4)] in auto)
  show "out_stream k' = out_stream k" "tx_out k' = tx_out k @ take n (q_contents IO_BUFFER_SIZE (putc_buffer k))"
    using k1(8) [OF F(1)] eq by (simp_all add: out_stream_def)
qed

section \<open>Leaving the trap\<close>

text \<open>The character that a thread puts when it runs again.\<close>

definition put_late :: "tcb \<Rightarrow> u8 list" where
  "put_late x = (case resume x of KPutC c \<Rightarrow> [c] | _ \<Rightarrow> [])"

lemma queue_distinct:
  assumes "krep k A" "q \<in> places A"
  shows "distinct (a_queue A q)"
  using queues_repD(1) [OF krep0D(1) [OF krepD(1) [OF assms(1)]] assms(2)] list_rep_distinct by blast

lemma resume_io:
  assumes r: "resume_current rw k = Some k'" and rep: "krep k A"
  shows "tx_out k' = tx_out k"
    "putc_buffer k' = (case resume (tcbs k (a_cur A)) of KPutC c \<Rightarrow> q_put IO_BUFFER_SIZE c (putc_buffer k) | _ \<Rightarrow> putc_buffer k)"
    "getc_buffer k' = (if resume (tcbs k (a_cur A)) = KGetC then snd (q_get IO_BUFFER_SIZE (getc_buffer k)) else getc_buffer k)"
  using r krep_cur_nonnull [OF rep]
  by (auto simp: resume_current_def after_wait_def Let_def
      dest!: trap_exit_io [THEN io_fields] k_tcb_start_io [THEN io_fields] set_a0_io [THEN io_fields]
      split: kcont.splits bind_splits prod.splits)

text \<open>A thread that has yet to put its character finds room, and one that has yet to take one finds one.\<close>

lemma pending_room:
  assumes inv: "kinv f k A" and fl: "flow (threads A) k A"
  shows "resume (tcbs k (a_cur A)) = KPutC c \<Longrightarrow> q_get_length (putc_buffer k) < IO_BUFFER_SIZE"
    and "resume (tcbs k (a_cur A)) = KGetC \<Longrightarrow> 0 < q_get_length (getc_buffer k)"
proof -
  note rep = kinvD(1) [OF inv] and own = kinvD(3) [OF inv] and F = fl [unfolded flow_def]
  have c: "a_cur A \<in> threads A" by (simp add: threads_def)
  have waiting: "nat (- a_val A s) < card P"
    if "s \<in> a_sems A" "set (a_queue A (Waiting s)) \<subseteq> P" "finite P" "a_cur A \<in> P" for s P
  proof -
    have "a_cur A \<notin> set (a_queue A (Waiting s))" using krepD(6) [OF rep, of "Waiting s"] that(1) by simp
    then have "card (set (a_queue A (Waiting s))) < card P" using that by (intro psubset_card_mono) auto
    moreover have "card (set (a_queue A (Waiting s))) = nat (- a_val A s)"
      using distinct_card [OF queue_distinct [OF rep, of "Waiting s"]] kinvD(2) [OF inv] that(1) by (simp add: counters_ok_def)
    ultimately show ?thesis by simp
  qed
  have fin: "finite (putters (threads A) k)" "finite (getters (threads A) k)"
    using F by (auto simp: putters_def getters_def)
  show "q_get_length (putc_buffer k) < IO_BUFFER_SIZE" if "resume (tcbs k (a_cur A)) = KPutC c"
    using waiting [of "putc_sem (lay k)" "putters (threads A) k"] F fin ownedD(11) [OF own] c that
    by (auto simp: putters_def)
  show "0 < q_get_length (getc_buffer k)" if "resume (tcbs k (a_cur A)) = KGetC"
    using waiting [of "getc_sem (lay k)" "getters (threads A) k"] F fin ownedD(12) [OF own] c that
    by (auto simp: getters_def)
qed

lemma flow_resume:
  assumes inv: "kinv f k A" and fl: "flow (threads A) k A" and r: "resume_current rw k = Some k'"
  shows "flow_ok k' A" "out_stream k' = out_stream k @ put_late (tcbs k (a_cur A))"
proof -
  note rep = kinvD(1) [OF inv] and F = fl [unfolded flow_def] and io = resume_io [OF r kinvD(1) [OF inv]]
  have fr: "frame {a_cur A} k k'" using resume_current_frame [OF r] krepD(3) [OF rep] by simp
  have c: "a_cur A \<in> threads A" by (simp add: threads_def)
  have fin: "finite (putters (threads A) k)" "finite (getters (threads A) k)"
    using F by (auto simp: putters_def getters_def)
  have same: "putters (threads A - {a_cur A}) k' = putters (threads A) k - {a_cur A}"
    "getters (threads A - {a_cur A}) k' = getters (threads A) k - {a_cur A}"
    using frameD(6) [OF fr] by (auto simp: putters_def getters_def saved_def)
  have w: "a_cur A \<notin> set (a_queue A (Waiting (putc_sem (lay k))))" "a_cur A \<notin> set (a_queue A (Waiting (getc_sem (lay k))))"
    using krepD(6) [OF rep] ownedD(11,12) [OF kinvD(3) [OF inv]] by simp_all
  have P: "a_cur A \<in> putters (threads A) k \<longleftrightarrow> (\<exists>c. resume (tcbs k (a_cur A)) = KPutC c)"
    "a_cur A \<in> getters (threads A) k \<longleftrightarrow> resume (tcbs k (a_cur A)) = KGetC"
    using c by (simp_all add: putters_def getters_def)
  have put: "q_inv IO_BUFFER_SIZE (putc_buffer k') \<and> q_contents IO_BUFFER_SIZE (putc_buffer k') =
        q_contents IO_BUFFER_SIZE (putc_buffer k) @ put_late (tcbs k (a_cur A)) \<and>
      int (q_get_length (putc_buffer k')) + int (card (putters (threads A) k - {a_cur A})) =
        int (q_get_length (putc_buffer k)) + int (card (putters (threads A) k))"
  proof (cases "\<exists>c. resume (tcbs k (a_cur A)) = KPutC c")
    case True
    then obtain x where x: "resume (tcbs k (a_cur A)) = KPutC x" by blast
    have room: "q_count (putc_buffer k) < IO_BUFFER_SIZE"
      using pending_room(1) [OF inv fl x] by (simp add: q_get_length_def)
    have "Suc (card (putters (threads A) k - {a_cur A})) = card (putters (threads A) k)"
      using card.remove [OF fin(1), of "a_cur A"] P(1) x by simp
    moreover have "putc_buffer k' = q_put IO_BUFFER_SIZE x (putc_buffer k)" using io(2) x by simp
    moreover have "q_count (q_put IO_BUFFER_SIZE x (putc_buffer k)) = Suc (q_count (putc_buffer k))"
      using room by (simp add: q_put_def)
    moreover have "q_inv IO_BUFFER_SIZE (putc_buffer k)" "put_late (tcbs k (a_cur A)) = [x]" using F x by (simp_all add: put_late_def)
    ultimately show ?thesis using q_put_room [OF _ room, of x] by (simp add: q_get_length_def)
  next
    case False
    then have "putc_buffer k' = putc_buffer k" "put_late (tcbs k (a_cur A)) = []"
      using io(2) by (auto simp: put_late_def split: kcont.splits)
    then show ?thesis using False P(1) F by simp
  qed
  have get: "q_inv IO_BUFFER_SIZE (getc_buffer k') \<and>
      int (q_get_length (getc_buffer k')) - int (card (getters (threads A) k - {a_cur A})) =
        int (q_get_length (getc_buffer k)) - int (card (getters (threads A) k))"
  proof (cases "resume (tcbs k (a_cur A)) = KGetC")
    case True
    have some: "0 < q_count (getc_buffer k)"
      using pending_room(2) [OF inv fl True] by (simp add: q_get_length_def)
    have "Suc (card (getters (threads A) k - {a_cur A})) = card (getters (threads A) k)"
      using card.remove [OF fin(2), of "a_cur A"] P(2) True by simp
    moreover have "getc_buffer k' = snd (q_get IO_BUFFER_SIZE (getc_buffer k))" using io(3) True by simp
    moreover have "Suc (q_count (snd (q_get IO_BUFFER_SIZE (getc_buffer k)))) = q_count (getc_buffer k)"
      using some by (simp add: q_get_def)
    moreover have "q_inv IO_BUFFER_SIZE (getc_buffer k)" using F by simp
    ultimately show ?thesis using q_get_some(1) [OF _ some] by (simp add: q_get_length_def)
  next
    case False
    then show ?thesis using io(3) P(2) F by simp
  qed
  show "flow_ok k' A"
    unfolding flow_ok_def flow_def same frameD(2) [OF fr] using F put get w by auto
  show "out_stream k' = out_stream k @ put_late (tcbs k (a_cur A))"
    using put io(1) by (simp add: out_stream_def)
qed

lemma flow_leave:
  assumes fl: "flow_left f k A (Some r) A1 xs" and l: "leave_trap rw e r = Some (Returns (), k')"
  shows "flow_ok k' A1"
    "out_stream k' = out_stream k @ xs @ (if a_cur A1 \<in> threads A - {a_cur A} then put_late (tcbs k (a_cur A1)) else [])"
proof -
  obtain fw k1 where r: "r = (fw, k1)" "kinv f k1 A1" "kept A k k1" "out_stream k1 = out_stream k @ xs"
    "case fw of Returns _ \<Rightarrow> a_cur A1 = a_cur A \<and> flow_ok k1 A1
      | Switches \<Rightarrow> flow (threads A1) k1 A1 \<and> a_cur A1 \<in> threads A \<and> (a_cur A1 = a_cur A \<longrightarrow> \<not> pending (tcbs k1 (a_cur A)))
      | Halts \<Rightarrow> False"
    using fl by (auto simp: flow_left_def)
  have "flow_ok k' A1 \<and> out_stream k' = out_stream k @ xs @ (if a_cur A1 \<in> threads A - {a_cur A} then put_late (tcbs k (a_cur A1)) else [])"
  proof (cases fw)
    case (Returns u)
    then have t: "trap_exit e k1 = Some k'" using l r(1) by (simp add: leave_trap_def)
    have fr: "frame {a_cur A1} k1 k'" using trap_exit_frame [OF t] krepD(3) [OF kinvD(1) [OF r(2)]] by simp
    have "flow_ok k' A1"
      by (rule flow_ok_same [OF _ trap_exit_io [OF t] fr]) (use r(5) Returns in \<open>simp_all add: console_kept_simps\<close>)
    then show ?thesis using r(4,5) Returns out_stream_io [OF trap_exit_io [OF t]] by simp
  next
    case Switches
    then have t: "resume_current rw k1 = Some k'" using l r(1) by (simp add: leave_trap_def)
    have f: "flow (threads A1) k1 A1" "a_cur A1 = a_cur A \<longrightarrow> \<not> pending (tcbs k1 (a_cur A))" "a_cur A1 \<in> threads A" using r(5) Switches by simp_all
    note R = flow_resume [OF r(2) f(1) t]
    have "put_late (tcbs k1 (a_cur A1)) = (if a_cur A1 \<in> threads A - {a_cur A} then put_late (tcbs k (a_cur A1)) else [])"
      using f(2,3) kept_resume [OF r(3), of "a_cur A1"]
      by (auto simp: put_late_def pending_def split: kcont.splits)
    then show ?thesis using R r(4) by simp
  next
    case Halts
    then show ?thesis using r(5) by simp
  qed
  then show "flow_ok k' A1"
    "out_stream k' = out_stream k @ xs @ (if a_cur A1 \<in> threads A - {a_cur A} then put_late (tcbs k (a_cur A1)) else [])"
    by simp_all
qed

end
