(* ===== verification/Console_Runs.thy ===== *)
theory Console_Runs
  imports Console_Flow
begin

text \<open>
  The accounts of the console over whole events and runs, from the start of the kernel on: no
  character that a thread puts is dropped or reordered.
\<close>

section \<open>One event\<close>

text \<open>
  The characters that an event accepts: the argument of a putc that passes, or the character of a
  thread that has waited in putc and runs again.
\<close>

definition accepted :: "kstate \<Rightarrow> event \<Rightarrow> sched \<Rightarrow> sched \<Rightarrow> u8 list" where
  "accepted k e A A1 =
     (case e of
        Ecall code p0 p1 p2 p3 \<Rightarrow> if code = PUT_C_CODE \<and> 0 < a_val A (putc_sem (lay k)) then [ucast p0] else []
      | _ \<Rightarrow> []) @
     (if a_cur A1 \<in> threads A - {a_cur A} then put_late (tcbs k (a_cur A1)) else [])"

text \<open>Programs leave the semaphores of the console to putc and getc.\<close>

definition polite :: "layout \<Rightarrow> event \<Rightarrow> bool" where
  "polite l e \<longleftrightarrow>
     (case e of
        Ecall code p0 p1 p2 p3 \<Rightarrow> (code = SEM_WAIT_CODE \<or> code = SEM_SIGNAL_CODE \<longrightarrow> p0 \<noteq> putc_sem l \<and> p0 \<noteq> getc_sem l)
      | _ \<Rightarrow> True)"

lemma flow_trap:
  assumes inv: "kinv f k A" and fl: "flow_ok k A" and fr: "frame {a_cur A} k k0" and io: "io k0 = io k"
    and left: "flow_left f k0 A res A1 xs"
    and run: "res \<bind> leave_trap rw e = Some (u, k')"
  shows "flow_ok k' A1"
    "out_stream k' = out_stream k @ xs @ (if a_cur A1 \<in> threads A - {a_cur A} then put_late (tcbs k (a_cur A1)) else [])"
proof -
  have l: "flow_left f k A res A1 xs" by (rule flow_left_from [OF left fr]) (simp_all add: out_stream_io [OF io])
  then obtain r where r: "res = Some r" "flow_left f k A (Some r) A1 xs" by (auto simp: flow_left_def)
  have "fst r \<noteq> Halts" using r(2) by (auto simp: flow_left_def)
  then have "leave_trap rw e r = Some (Returns (), k')"
    using run r(1) by (auto simp: leave_trap_def split: flow.splits)
  from flow_leave [OF r(2) this] show "flow_ok k' A1"
    "out_stream k' = out_stream k @ xs @ (if a_cur A1 \<in> threads A - {a_cur A} then put_late (tcbs k (a_cur A1)) else [])"
    by simp_all
qed

lemma flow_entered:
  assumes inv: "kinv f k A" and fl: "flow_ok k A"
  shows "kinv f (entered k) A" "flow_ok (entered k) A" "frame {a_cur A} k (entered k)" "io (entered k) = io k"
proof -
  note te = trap_enter_rep [OF kinvD(1) [OF inv]]
  show fr: "frame {a_cur A} k (entered k)"
    using trap_enter_frame [OF te(1)] krepD(3) [OF kinvD(1) [OF inv]] by simp
  show io: "io (entered k) = io k" by (rule trap_enter_io [OF te(1)])
  show "kinv f (entered k) A" by (rule kinv_step [OF inv fr te(2)]) (use kinvD [OF inv] in simp_all)
  show "flow_ok (entered k) A" by (rule flow_ok_same [OF fl io fr]) (simp_all add: console_kept_simps)
qed

lemma flow_syscall:
  assumes inv: "kinv f k A" and fl: "flow_ok k A" and may: "may_call f k A code p0 p1 p3" and pr: "console_private k code p0"
    and A1: "A1 \<in> call_step k code p0 p1 p3 A"
  shows "flow_left f k A (syscall code p0 p1 p2 p3 k) A1
    (if code = PUT_C_CODE \<and> 0 < a_val A (putc_sem (lay k)) then [ucast p0] else [])"
proof -
  consider "code = GET_C_CODE" | "code = PUT_C_CODE" | "code \<noteq> GET_C_CODE" "code \<noteq> PUT_C_CODE" by blast
  then show ?thesis
  proof cases
    case 1
    have "may_block f A (getc_sem (lay k))" using may 1 by (simp add: may_call_def)
    from flow_get [OF inv fl this] show ?thesis using 1 A1 by (simp add: syscall_def call_step_def syscall_code_defs)
  next
    case 2
    have "may_block f A (putc_sem (lay k))" using may 2 by (simp add: may_call_def)
    from flow_put [OF inv fl this, of "ucast p0"] show ?thesis using 2 A1 by (simp add: syscall_def call_step_def syscall_code_defs)
  next
    case 3
    then show ?thesis using flow_call_plain [OF inv fl may pr A1] by simp
  qed
qed

lemma flow_event:
  assumes inv: "kinv f k A" and bd: "board_ok bd" and ok: "permitted f k A e" and fl: "flow_ok k A" and pr: "polite (lay k) e"
    and run: "run_event bd e k = Some k'" and A1: "A1 \<in> event_step k e A"
  shows "flow_ok k' A1" "out_stream k' = out_stream k @ accepted k e A A1"
proof -
  note te = trap_enter_rep(1) [OF kinvD(1) [OF inv]] and E = flow_entered [OF inv fl]
  have "flow_ok k' A1 \<and> out_stream k' = out_stream k @ accepted k e A A1"
  proof (cases e)
    case (Compute c u)
    then have k': "k' = k\<lparr>cpu_of := c, user_cells := u\<rparr>" "A1 = A" using run A1 by (simp_all add: run_event_def event_step_def)
    have "flow_ok (k\<lparr>cpu_of := c, user_cells := u\<rparr>) A" by (rule flow_ok_same [OF fl]) (simp_all add: console_kept_simps)
    then show ?thesis using k' Compute by (simp add: accepted_def out_stream_def)
  next
    case Timer_interrupt
    obtain u where r: "k_handle_timer (entered k) \<bind> leave_trap (bd_run_wrapper bd) False = Some (u, k')"
      using run Timer_interrupt te by (auto simp: run_event_def k_timer_trap_def)
    have "A1 \<in> event_step (entered k) Timer_interrupt A" using A1 Timer_interrupt by (simp add: event_step_def)
    from flow_timer [OF E(1,2) this] have "flow_left f (entered k) A (k_handle_timer (entered k)) A1 []" .
    from flow_trap [OF inv fl E(3,4) this r] show ?thesis using Timer_interrupt by (simp add: accepted_def)
  next
    case (Console_interrupt stat data)
    obtain u where r: "k_handle_console stat data (entered k) \<bind> leave_trap (bd_run_wrapper bd) False = Some (u, k')"
      using run Console_interrupt te by (auto simp: run_event_def k_console_trap_def)
    have s: "may_signal A (getc_sem (lay (entered k)))" using ok Console_interrupt by (simp add: permitted_def)
    have "A1 \<in> event_step (entered k) (Console_interrupt stat data) A" using A1 Console_interrupt by (auto simp: event_step_def split: if_splits)
    from flow_console [OF E(1,2) s this] have "flow_left f (entered k) A (k_handle_console stat data (entered k)) A1 []" .
    from flow_trap [OF inv fl E(3,4) this r] show ?thesis using Console_interrupt by (simp add: accepted_def)
  next
    case (Ecall code p0 p1 p2 p3)
    obtain k1 where k1: "k_ecall_trap (bd_run_wrapper bd) (bd_stat bd) (bd_stat bd)
          (k\<lparr>cpu_of := enter_ecall bd code p0 p1 p2 p3 (cpu_of k)\<rparr>) =
         (syscall code p0 p1 p2 p3 k1 \<bind> leave_trap (bd_run_wrapper bd) True)"
      "krep k1 A" "frame {a_cur A} k k1" "env_eq k k1"
      using ecall_enter [OF kinvD(1) [OF inv] bd] by metis
    have io: "io k1 = io k" by (rule env_eq_io [OF k1(4)])
    have inv1: "kinv f k1 A" by (rule kinv_step [OF inv k1(3,2)]) (use kinvD [OF inv] in simp_all)
    have fl1: "flow_ok k1 A" by (rule flow_ok_same [OF fl io k1(3)]) (simp_all add: console_kept_simps)
    have may: "may_call f k1 A code p0 p1 p3" using ok Ecall may_call_frame(1) [OF k1(3)] by (simp add: permitted_def)
    have A1': "A1 \<in> call_step k1 code p0 p1 p3 A" using A1 Ecall may_call_frame(2) [OF k1(3)] by (simp add: event_step_def)
    have lay: "lay k1 = lay k" using k1(4) by (simp add: env_eq_def)
    have pr1: "console_private k1 code p0" using pr Ecall lay by (simp add: polite_def console_private_def)
    obtain u where r: "syscall code p0 p1 p2 p3 k1 \<bind> leave_trap (bd_run_wrapper bd) True = Some (u, k')"
      using run Ecall k1(1) by (auto simp: run_event_def)
    from flow_trap [OF inv fl k1(3) io flow_syscall [OF inv1 fl1 may pr1 A1'] r] show ?thesis
      using Ecall lay by (simp add: accepted_def)
  next
    case (Flush stat)
    let ?n = "tx_ready stat (q_get_length (putc_buffer k))"
    have n: "a_val A (putc_sem (lay k)) + int ?n < 2 ^ 31" using ok Flush by (simp add: permitted_def)
    have k': "flush_putc_buffer stat k = Some k'" using run Flush by (simp add: run_event_def)
    have "A1 = a_signals (putc_sem (lay k)) ?n A" using A1 Flush by (simp add: event_step_def)
    then show ?thesis using flow_flush [OF inv fl refl n k'] Flush by (simp add: accepted_def)
  qed
  then show "flow_ok k' A1" "out_stream k' = out_stream k @ accepted k e A A1" by simp_all
qed

section \<open>Runs\<close>

lemma flow_run:
  assumes "kernel_run bd f k A es k' A'" "board_ok bd" "kinv f k A" "flow_ok k A" "\<forall>(e, t) \<in> set es. polite (lay k) e"
  shows "flow_ok k' A' \<and> (\<exists>xs. out_stream k' = out_stream k @ xs)"
  using assms
proof (induction rule: kernel_run.induct)
  case (run_cons k A e k1 A1 es k2 A2)
  note i = run_event_inv [OF run_cons.prems(2,1) run_cons.hyps(1-3)]
  have "polite (lay k) e" using run_cons.prems(4) by simp
  note F = flow_event [OF run_cons.prems(2,1) run_cons.hyps(1) run_cons.prems(3) this run_cons.hyps(2,3)]
  have "lay k1 = lay k" using i(2) by (simp add: undisturbed_def)
  then have "\<forall>(e, t) \<in> set es. polite (lay k1) e" using run_cons.prems(4) by auto
  from run_cons.IH [OF run_cons.prems(1) i(1) F(1) this] F(2) show ?case by auto
qed simp

section \<open>The start\<close>

lemma flow_started:
  assumes st: "kernel_started k0 t js bd k" and t: "t \<noteq> main_tcb (lay k0)" "js \<noteq> putc_sem (lay k0)" "js \<noteq> getc_sem (lay k0)"
    and l: "putc_sem (lay k0) \<noteq> getc_sem (lay k0)" and e: "io k0 = (q_new (replicate IO_BUFFER_SIZE 0), q_new (replicate IO_BUFFER_SIZE 0), [])"
  shows "flow_ok k (a_create t js (boot_sched (lay k0)))"
proof -
  let ?A = "a_create t js (boot_sched (lay k0))"
  have s: "lay k = lay k0" "io k = io k0" "resume (tcbs k t) = KStart" using st by (simp_all add: kernel_started_def)
  have q: "putc_buffer k = q_new (replicate IO_BUFFER_SIZE 0)" "getc_buffer k = q_new (replicate IO_BUFFER_SIZE 0)"
    using s(2) e by (simp_all add: io_def)
  have th: "threads ?A - {a_cur ?A} = {t}" using threads_create [of js "boot_sched (lay k0)" t] t by auto
  have "putters {t} k = {}" "getters {t} k = {}" using s(3) by (simp_all add: putters_def getters_def)
  moreover have "q_inv IO_BUFFER_SIZE (q_new (replicate IO_BUFFER_SIZE (0 :: u8)))"
    by (rule q_inv_new) (simp_all add: IO_BUFFER_SIZE_def)
  moreover have "q_get_length (q_new xs) = 0" for xs :: "u8 list" by (simp add: q_get_length_def q_new_def)
  moreover have "a_queue ?A (Waiting u) = []" for u by (simp add: a_create_def a_enq_def)
  ultimately show ?thesis
    using t l unfolding flow_ok_def th flow_def q s(1) by simp
qed

end
