(* ===== verification/Sample_Kernel.thy ===== *)
theory Sample_Kernel
  imports Kernel_Steps
begin

text \<open>
  A small concrete kernel state on which the properties are instantiated: four threads, one of
  them running, one ready (it was preempted), one asleep and one waiting for a semaphore.
\<close>

definition sample_layout :: layout where
  "sample_layout =
    \<lparr>main_tcb = 0x1000, putc_sem = 0x2000, getc_sem = 0x2100, flush_tcb_cell = 0x3000,
     addr_k_tcb_start = 0x80001000, addr_k_intr_table = 0x80002000\<rparr>"

definition sample_tcbs :: "addr \<Rightarrow> tcb" where
  "sample_tcbs =
     (\<lambda>_. main_tcb_init)
       (0x1200 := main_tcb_init\<lparr>status := READY, resume := KInterrupt\<rparr>,
        0x1400 := main_tcb_init\<lparr>status := SUSPENDED, resume := KDispatch, sleep_for := 2\<rparr>,
        0x1600 := main_tcb_init\<lparr>status := SUSPENDED, resume := KSemWait\<rparr>)"

definition sample_sems :: "addr \<Rightarrow> sem" where
  "sample_sems =
     (\<lambda>_. \<lparr>sem_value = 0, suspended = \<lparr>lh_head = 0, lh_tail = 0\<rparr>\<rparr>)
       (0x2000 := \<lparr>sem_value = 2048, suspended = \<lparr>lh_head = 0, lh_tail = 0\<rparr>\<rparr>,
        0x2200 := \<lparr>sem_value = - 1, suspended = \<lparr>lh_head = 0x1600, lh_tail = 0x1600\<rparr>\<rparr>,
        0x2300 := \<lparr>sem_value = 1, suspended = \<lparr>lh_head = 0, lh_tail = 0\<rparr>\<rparr>)"

definition sample_cpu :: cpu where
  "sample_cpu =
    \<lparr>regs = (\<lambda>_. 0), csr_sepc = 0x80003000, csr_sstatus = 0x20, csr_scause = 8, csr_sip = 0,
     csr_sie = 0x202, csr_stvec = 0x80002001\<rparr>"

definition sample_heap :: mem_allocator where
  "sample_heap = mem_allocator_new 0x80010000 0x80020000 (\<lambda>_. \<lparr>nxt = 0, prv = 0, n_blocks = 0\<rparr>)"

definition sample_kernel :: kstate where
  "sample_kernel =
    \<lparr>lay = sample_layout, mem = sample_heap, tcbs = sample_tcbs, sems = sample_sems,
     sched_queue = \<lparr>lh_head = 0x1200, lh_tail = 0x1200\<rparr>, sleep_queue = \<lparr>lh_head = 0x1400, lh_tail = 0x1400\<rparr>,
     current_tcb = 0x1000, current_context = 0x1000, timer_ticks = 0,
     putc_buffer = q_new (replicate IO_BUFFER_SIZE 0), getc_buffer = q_new (replicate IO_BUFFER_SIZE 0),
     cpu_of = sample_cpu, user_cells = (\<lambda>_. 0), tx_out = []\<rparr>"

definition sample_sched :: sched where
  "sample_sched =
    \<lparr>a_cur = 0x1000,
     a_queue = (\<lambda>q. if q = Ready then [0x1200] else if q = Sleeping then [0x1400]
                    else if q = Waiting 0x2200 then [0x1600] else []),
     a_sems = {0x2000, 0x2100, 0x2200, 0x2300},
     a_val = (\<lambda>s. if s = 0x2000 then 2048 else if s = 0x2200 then - 1 else if s = 0x2300 then 1 else 0),
     a_wake = (\<lambda>_. 2)\<rparr>"

lemma sample_places: "places sample_sched = {Ready, Sleeping, Waiting 0x2000, Waiting 0x2100, Waiting 0x2200, Waiting 0x2300}"
  by (simp add: places_def sample_sched_def) blast

lemma sample_queues [simp]:
  "a_queue sample_sched Ready = [0x1200]" "a_queue sample_sched Sleeping = [0x1400]"
  "a_queue sample_sched (Waiting s) = (if s = 0x2200 then [0x1600] else [])"
  "a_cur sample_sched = 0x1000" "a_sems sample_sched = {0x2000, 0x2100, 0x2200, 0x2300}"
  "a_val sample_sched s = (if s = 0x2000 then 2048 else if s = 0x2200 then - 1 else if s = 0x2300 then 1 else 0)"
  "a_wake sample_sched t = 2"
  by (simp_all add: sample_sched_def)

lemma sample_heads [simp]:
  "sched_queue sample_kernel = \<lparr>lh_head = 0x1200, lh_tail = 0x1200\<rparr>"
  "sleep_queue sample_kernel = \<lparr>lh_head = 0x1400, lh_tail = 0x1400\<rparr>"
  "sems sample_kernel = sample_sems" "tcbs sample_kernel = sample_tcbs"
  "current_tcb sample_kernel = 0x1000" "current_context sample_kernel = 0x1000"
  "timer_ticks sample_kernel = 0" "lay sample_kernel = sample_layout" "cpu_of sample_kernel = sample_cpu"
  "mem sample_kernel = sample_heap"
  by (simp_all add: sample_kernel_def)

lemma sample_rep: "krep sample_kernel sample_sched"
proof -
  have "list_rep sample_tcbs (queue_hd sample_kernel q) (a_queue sample_sched q)" if "q \<in> places sample_sched" for q
    using that unfolding sample_places
    by (auto simp: list_rep_def sample_tcbs_def sample_sems_def main_tcb_init_def)
  then have "queues_rep sample_kernel (places sample_sched) (a_queue sample_sched)"
    by (auto simp: queues_rep_def sample_places)
  moreover have "status_ok sample_kernel sample_sched"
    by (auto simp: status_ok_def sample_places sample_tcbs_def)
  moreover have "sems_ok sample_kernel sample_sched"
    by (auto simp: sems_ok_def sample_sems_def)
  moreover have "sleepers_ok sample_kernel sample_sched"
    by (simp add: sleepers_ok_def sample_tcbs_def)
  ultimately show ?thesis
    by (auto simp: krep_def krep0_def sample_places sample_tcbs_def main_tcb_init_def)
qed

lemma sample_counters: "counters_ok sample_sched"
  by (auto simp: counters_ok_def)

end
