(* ===== verification/Sample_System.thy ===== *)
theory Sample_System
  imports Console_Runs Sample_Kernel
begin

text \<open>
  A concrete machine that has just booted, on which the properties of whole runs are instantiated:
  a heap of 64 kilobytes, the main thread running and the flushing thread ready.
\<close>

definition sample_board :: board where
  "sample_board =
    \<lparr>bd_run_wrapper = 0x80004000, bd_flush_loop = 0x80005000, bd_cause = 9, bd_epc = 0x80006000,
     bd_stat = (\<lambda>_. 0x21)\<rparr>"

definition sample_image :: kstate where
  "sample_image = kernel_image sample_layout sample_heap (\<lambda>_. main_tcb_init)
     (\<lambda>_. \<lparr>sem_value = 0, suspended = \<lparr>lh_head = 0, lh_tail = 0\<rparr>\<rparr>) sample_cpu (\<lambda>_. 0)"

lemma sample_board_ok [simp]: "board_ok sample_board"
  by (simp add: board_ok_def sample_board_def scause_defs)

lemma sample_heap_rep: "\<exists>n. alloc_rep sample_heap [Free n] \<and> 500 \<le> n"
proof -
  have "heap_range_ok 0x80010000 0x80020000" by (simp add: heap_range_ok_def heap_bytes_def)
  from mem_allocator_new_rep [OF this, of "\<lambda>_. \<lparr>nxt = 0, prv = 0, n_blocks = 0\<rparr>"]
  show ?thesis by (auto simp: sample_heap_def new_blocks_def heap_bytes_def Let_def)
qed

lemma sample_layout_ok: "layout_ok sample_layout (heap_start sample_heap)"
proof -
  have "heap_range_ok 0x80010000 0x80020000" by (simp add: heap_range_ok_def heap_bytes_def)
  from mem_allocator_new_fields(2) [OF this, of "\<lambda>_. \<lparr>nxt = 0, prv = 0, n_blocks = 0\<rparr>"]
  have "unat (0x80010000 :: addr) \<le> unat (heap_start sample_heap)" unfolding sample_heap_def by linarith
  then show ?thesis
    by (auto simp: layout_ok_def sample_layout_def word_less_nat_alt object_bytes_def sizeof_TCB_def sizeof_Sem_def)
qed

abbreviation sample_platform :: "kstate platform" where
  "sample_platform \<equiv> kernel_platform sample_board 0x4000 0x4100"

lemma sample_booted:
  obtains t js k where "main_boot sample_board sample_platform sample_image = Some k"
    "kinv t k (a_create t js (boot_sched sample_layout))" "flow_ok k (a_create t js (boot_sched sample_layout))"
    "t \<noteq> 0x1000" "js \<noteq> 0x2000" "js \<noteq> 0x2100" "lay k = sample_layout" "resume (tcbs k t) = KStart"
    "slices_ok k (a_create t js (boot_sched sample_layout))" "timer_ticks k = 0"
    "\<exists>us r. alloc_rep (mem k) (us @ [Free r]) \<and> (\<forall>s \<in> set us. \<not> is_free s) \<and> 300 \<le> r"
proof -
  obtain n where n: "alloc_rep sample_heap [Free n]" "200 \<le> n" and big: "500 \<le> n" using sample_heap_rep by auto
  have lp: "bd_flush_loop sample_board \<noteq> 0" by (simp add: sample_board_def)
  obtain t js k where b: "main_boot sample_board sample_platform sample_image = Some k"
    "kernel_started sample_image t js sample_board k" "t \<noteq> main_tcb sample_layout" "js \<noteq> putc_sem sample_layout" "js \<noteq> getc_sem sample_layout"
    "\<exists>us. alloc_rep (mem k) (us @ [Free (n - 199)]) \<and> (\<forall>s \<in> set us. \<not> is_free s)"
    by (rule main_boot_rep [OF sample_layout_ok sample_board_ok lp n sample_image_def, where cs = "0x4000" and ci = "0x4100"])
  have l: "lay sample_image = sample_layout" by (simp add: sample_image_def kernel_image_def)
  have ps: "main_tcb sample_layout = 0x1000" "putc_sem sample_layout = 0x2000" "getc_sem sample_layout = 0x2100"
    by (simp_all add: sample_layout_def)
  have io0: "io sample_image = (q_new (replicate IO_BUFFER_SIZE 0), q_new (replicate IO_BUFFER_SIZE 0), [])"
    by (simp add: io_def sample_image_def kernel_image_def)
  have "flow_ok k (a_create t js (boot_sched (lay sample_image)))"
    by (rule flow_started [OF b(2) _ _ _ _ io0]) (use b(3-5) in \<open>simp_all add: l ps\<close>)
  moreover have "\<exists>us r. alloc_rep (mem k) (us @ [Free r]) \<and> (\<forall>s \<in> set us. \<not> is_free s) \<and> 300 \<le> r"
  proof -
    obtain us where "alloc_rep (mem k) (us @ [Free (n - 199)])" "\<forall>s \<in> set us. \<not> is_free s" using b(6) by blast
    moreover have "300 \<le> n - 199" using big by simp
    ultimately show ?thesis by blast
  qed
  ultimately show ?thesis using b by (intro that [of k t js]) (simp_all add: kernel_started_def l ps)
qed

text \<open>Its fields, as the properties meet them.\<close>

lemma boot_sample [simp]:
  "a_cur (boot_sched sample_layout) = 0x1000" "a_sems (boot_sched sample_layout) = {0x2000, 0x2100}"
  "a_val (boot_sched sample_layout) = (\<lambda>_. 0)(0x2000 := 2048)"
  "a_queue (a_create t js (boot_sched sample_layout)) Ready = [t]"
  "a_queue (a_create t js (boot_sched sample_layout)) (Waiting s) = []"
  by (simp_all add: boot_sched_def sample_layout_def IO_BUFFER_SIZE_def a_create_def a_enq_def)

lemma sample_lay [simp]: "main_tcb sample_layout = 0x1000" "putc_sem sample_layout = 0x2000" "getc_sem sample_layout = 0x2100"
  by (simp_all add: sample_layout_def)

end
