(* ===== verification/Props_Data.thy ===== *)
theory Props_Data
  imports Ring_Queue Block_Store
begin

text \<open>
  The properties of the data structures and of the allocator, each with a concrete instance: the
  arithmetic of h/k_utils.hpp, the circular buffer of h/queue.hpp, the intrusive list of
  h/list.hpp and the best-fit allocator of src/k_memory.cpp.
\<close>

section \<open>Arithmetic\<close>

text \<open>to_blocks rounds up: for every size whose block count fits in 32 bits, the blocks cover the bytes and
  the last block is needed.\<close>

lemma to_blocks_ceiling:
  assumes "unat n \<le> 64 * (2 ^ 32 - 1)"
  shows "unat n \<le> 64 * unat (to_blocks n) \<and> 64 * unat (to_blocks n) < unat n + 64"
proof -
  have "x \<le> 64 * ((x + 63) div 64) \<and> 64 * ((x + 63) div 64) < x + 64" for x :: nat
    using div_mult_mod_eq [of "x + 63" 64] mod_less_divisor [of 64 "x + 63"] by linarith
  then show ?thesis unfolding unat_to_blocks_small [OF assms] .
qed

text \<open>The exact value of to_blocks on all 64-bit sizes, with both wrap-arounds: the addition
  overflows for the last 63 sizes, and the result is cut to 32 bits, so that the largest size and
  every multiple of 2^38 request no block at all.\<close>

lemma to_blocks_wraps:
  "unat (to_blocks n) = (unat n + 63) mod 2 ^ 64 div 64 mod 2 ^ 32 \<and>
   to_blocks (- 1) = 0 \<and> to_blocks (2 ^ 38) = 0"
  using unat_to_blocks [of n] by (simp add: to_blocks_def MEM_BLOCK_SIZE_def)

text \<open>The characters that print_uint64 and the panic message print are the decimal digits of the
  number, most significant first.\<close>

lemma decimal_chars_are_digits:
  "decimal_chars number = map (\<lambda>d. 48 + of_nat d) (dec_digits (unat number))"
  by (rule decimal_chars_digits)

section \<open>The circular buffer\<close>

text \<open>C37: the buffer is first in first out and bounded: putting a sequence of elements appends as many
  of them as fit and drops the rest; a get returns the oldest element and removes it, and on an empty
  buffer returns the default value and changes nothing; the invariant is kept.\<close>

theorem ring_is_bounded_fifo:
  fixes q :: "'a::zero queue"
  assumes "q_inv sz q"
  shows "q_inv sz (fold (q_put sz) xs q) \<and>
    q_contents sz (fold (q_put sz) xs q) = take sz (q_contents sz q @ xs) \<and>
    q_inv sz (snd (q_get sz q)) \<and>
    (case q_contents sz q of
       [] \<Rightarrow> q_get sz q = (0, q)
     | x # ys \<Rightarrow> fst (q_get sz q) = x \<and> q_contents sz (snd (q_get sz q)) = ys)"
proof -
  have "q_inv sz (fold (q_put sz) xs q)" "q_contents sz (fold (q_put sz) xs q) = take sz (q_contents sz q @ xs)"
    using ring.put_all [OF assms] by simp_all
  moreover have "q_inv sz (snd (q_get sz q)) \<and>
    (case q_contents sz q of
       [] \<Rightarrow> q_get sz q = (0, q)
     | x # ys \<Rightarrow> fst (q_get sz q) = x \<and> q_contents sz (snd (q_get sz q)) = ys)"
    using ring.get_some [OF assms] ring.get_none [OF assms] assms by (auto split: list.splits)
  ultimately show ?thesis by simp
qed

theorem ring_is_bounded_fifo_witness:
  "q_contents 2 (fold (q_put 2) [1, 2, 3] (q_new [0, 0 :: u8])) = [1, 2] \<and> fst (q_get 2 (q_new [0, 0 :: u8])) = 0"
proof -
  have "q_inv 2 (q_new [0, 0 :: u8])" by (rule q_inv_new) simp_all
  from ring_is_bounded_fifo [OF this, of "[1, 2, 3]"] show ?thesis by simp
qed

section \<open>The intrusive list\<close>

text \<open>Adding a node that is not in the list, at the end or at the front, extends the represented
  sequence there and touches no node outside the list but the new one.\<close>

lemma list_add_both_ends:
  assumes "list_rep h l xs" "t \<noteq> NULL" "t \<notin> set xs"
  shows "(\<exists>l' h'. list_add_last t l h = Some (l', h') \<and> list_rep h' l' (xs @ [t]) \<and>
            (\<forall>p. p \<notin> insert t (set xs) \<longrightarrow> h' p = h p)) \<and>
         (\<exists>l' h'. list_add_first t l h = Some (l', h') \<and> list_rep h' l' (t # xs) \<and>
            (\<forall>p. p \<notin> insert t (set xs) \<longrightarrow> h' p = h p))"
proof
  show "\<exists>l' h'. list_add_last t l h = Some (l', h') \<and> list_rep h' l' (xs @ [t]) \<and>
            (\<forall>p. p \<notin> insert t (set xs) \<longrightarrow> h' p = h p)"
    by (rule add_last_rep [OF assms]) blast
  show "\<exists>l' h'. list_add_first t l h = Some (l', h') \<and> list_rep h' l' (t # xs) \<and>
            (\<forall>p. p \<notin> insert t (set xs) \<longrightarrow> h' p = h p)"
    by (rule add_first_rep [OF assms]) blast
qed

text \<open>Taking from either end returns the node there and leaves the rest represented; the first
  node comes back unlinked; an empty list returns the null pointer.\<close>

lemma list_take_both_ends:
  assumes "list_rep h l xs"
  shows "(case xs of
            [] \<Rightarrow> list_take_first l h = (NULL, l, h) \<and> list_take_last l h = Some (NULL, l, h)
          | x # ys \<Rightarrow>
              (\<exists>l' h'. list_take_first l h = (x, l', h') \<and> list_rep h' l' ys \<and> nxt (h' x) = NULL \<and> prv (h' x) = NULL) \<and>
              (\<exists>l' h'. list_take_last l h = Some (last xs, l', h') \<and> list_rep h' l' (butlast xs)))"
proof (cases xs)
  case Nil
  then show ?thesis using take_first_empty take_last_empty assms by auto
next
  case (Cons x ys)
  then have "butlast xs @ [last xs] = xs" by simp
  then have "list_rep h l (butlast xs @ [last xs])" "list_rep h l (x # ys)" using assms Cons by simp_all
  then have "\<exists>l' h'. list_take_last l h = Some (last xs, l', h') \<and> list_rep h' l' (butlast xs)"
    and "\<exists>l' h'. list_take_first l h = (x, l', h') \<and> list_rep h' l' ys \<and> nxt (h' x) = NULL \<and> prv (h' x) = NULL"
    by (metis take_last_rep, metis take_first_rep)
  then show ?thesis using Cons by simp
qed

text \<open>C36: the intrusive list is a deque over the objects that it links: a node that is not in the list
  can be added at either end, touching no node outside the list but the new one; taking from either end
  returns the node there and leaves the rest represented, the first node unlinked; an empty list
  returns the null pointer.\<close>

theorem intrusive_list_is_deque:
  assumes "list_rep h l xs"
  shows "(t \<noteq> NULL \<and> t \<notin> set xs \<longrightarrow>
           (\<exists>l' h'. list_add_last t l h = Some (l', h') \<and> list_rep h' l' (xs @ [t]) \<and>
              (\<forall>p. p \<notin> insert t (set xs) \<longrightarrow> h' p = h p)) \<and>
           (\<exists>l' h'. list_add_first t l h = Some (l', h') \<and> list_rep h' l' (t # xs) \<and>
              (\<forall>p. p \<notin> insert t (set xs) \<longrightarrow> h' p = h p))) \<and>
         (case xs of
            [] \<Rightarrow> list_take_first l h = (NULL, l, h) \<and> list_take_last l h = Some (NULL, l, h)
          | x # ys \<Rightarrow>
              (\<exists>l' h'. list_take_first l h = (x, l', h') \<and> list_rep h' l' ys \<and> nxt (h' x) = NULL \<and> prv (h' x) = NULL) \<and>
              (\<exists>l' h'. list_take_last l h = Some (last xs, l', h') \<and> list_rep h' l' (butlast xs)))"
  using list_add_both_ends [OF assms, of t] list_take_both_ends [OF assms] by blast

theorem intrusive_list_is_deque_witness:
  "\<exists>l' h'. list_add_last 8 \<lparr>lh_head = 0, lh_tail = 0\<rparr> (\<lambda>_. \<lparr>nxt = 0, prv = 0\<rparr>) = Some (l', h') \<and>
     list_rep h' l' [8]"
proof -
  have "list_rep (\<lambda>_. \<lparr>nxt = 0, prv = 0\<rparr>) \<lparr>lh_head = 0, lh_tail = 0\<rparr> []" by (simp add: list_rep_def)
  from intrusive_list_is_deque [OF this, of 8] show ?thesis by auto
qed

section \<open>The allocator\<close>

text \<open>A small heap for the instances: 4097 bytes, of which 59 blocks can be handed out.\<close>

definition small_heap :: mem_allocator where
  "small_heap = mem_allocator_new 0x80010000 0x80011000 (\<lambda>_. \<lparr>nxt = 0, prv = 0, n_blocks = 0\<rparr>)"

lemma small_heap_range: "heap_range_ok 0x80010000 0x80011000"
  by (simp add: heap_range_ok_def heap_bytes_def)

lemma small_heap_rep: "alloc_rep small_heap [Free 59]"
  using mem_allocator_new_rep [OF small_heap_range, of "\<lambda>_. \<lparr>nxt = 0, prv = 0, n_blocks = 0\<rparr>"]
  by (simp add: small_heap_def new_blocks_def heap_bytes_def Let_def)

text \<open>C35: the constructor turns the memory between the two addresses into a table of zero entries, at the
  first address, followed by one free segment that starts at a multiple of the block size; the table ends
  before the segment, at most one block's size of padding is between them, the segment ends before the last
  address and is not empty, and less than two blocks' worth of memory is lost.\<close>

theorem constructor_tiles_heap:
  fixes s e :: addr and memory :: "addr \<Rightarrow> free_blocks"
  assumes "heap_range_ok s e"
  defines "a \<equiv> mem_allocator_new s e memory" and "n \<equiv> new_blocks s e"
  shows "alloc_rep a [Free n] \<and> alloc_table a = replicate n 0 \<and> 0 < n \<and>
    unat (heap_start a) mod 64 = 0 \<and> unat s + 4 * n \<le> unat (heap_start a) \<and>
    unat (heap_start a) \<le> unat s + 4 * n + 64 \<and> unat (heap_start a) + 64 * n \<le> unat e + 1 \<and>
    heap_bytes s e < 68 * (n + 2)"
proof -
  have "new_padding s e \<le> 64" by (simp add: new_padding_def)
  moreover have "unat (heap_start a) mod 64 = 0"
    using alloc_repD(3) [OF mem_allocator_new_rep [OF assms(1)]] by (simp add: a_def heap_ok_def)
  ultimately show ?thesis
    unfolding a_def n_def
    using mem_allocator_new_rep [OF assms(1)] mem_allocator_new_fields(1,2) [OF assms(1)]
      new_blocks_fit [OF assms(1)] by simp
qed

theorem constructor_tiles_heap_witness: "alloc_rep small_heap [Free 59]"
  using constructor_tiles_heap [OF small_heap_range, of "\<lambda>_. \<lparr>nxt = 0, prv = 0, n_blocks = 0\<rparr>"]
  by (simp add: small_heap_def new_blocks_def heap_bytes_def Let_def)

text \<open>C14: alloc is best fit: in a heap that represents a tiling it returns the null pointer and
  changes nothing when no free segment is large enough, and otherwise the address of the first
  smallest one that is, whose rest stays free.\<close>

theorem alloc_is_best_fit:
  assumes "alloc_rep a segs" "0 < n"
  shows "case abs_alloc (unat n) segs of
     None \<Rightarrow> mem_alloc_blocks n a = Some (NULL, a) \<and> (\<forall>l. Free l \<in> set segs \<longrightarrow> l < unat n)
   | Some (i, segs') \<Rightarrow>
       (\<exists>a'. mem_alloc_blocks n a = Some (baddr (heap_start a) i, a') \<and> alloc_rep a' segs' \<and>
          heap_start a' = heap_start a \<and>
          (\<exists>pre l post. segs = pre @ Free l # post \<and> i = seg_total pre \<and> unat n \<le> l \<and> Free l \<notin> set pre \<and>
             segs' = pre @ Used (unat n) # rest_free (l - unat n) @ post \<and>
             (\<forall>m. Free m \<in> set segs \<longrightarrow> unat n \<le> m \<longrightarrow> l \<le> m)))"
proof (rule mem_alloc_cases [OF assms])
  fix i segs' a'
  assume *: "abs_alloc (unat n) segs = Some (i, segs')" "mem_alloc_blocks n a = Some (baddr (heap_start a) i, a')"
    "alloc_rep a' segs'" "heap_start a' = heap_start a"
  have "\<exists>pre l post. segs = pre @ Free l # post \<and> i = seg_total pre \<and> unat n \<le> l \<and> Free l \<notin> set pre \<and>
             segs' = pre @ Used (unat n) # rest_free (l - unat n) @ post \<and>
             (\<forall>m. Free m \<in> set segs \<longrightarrow> unat n \<le> m \<longrightarrow> l \<le> m)"
    by (rule abs_alloc_cases [OF *(1)]) blast
  with * show ?thesis by auto
next
  assume "abs_alloc (unat n) segs = None" "mem_alloc_blocks n a = Some (NULL, a)"
  then show ?thesis using abs_alloc_None_iff [of "unat n" segs] by simp
qed

lemma abs_alloc_small: "abs_alloc 2 [Free 59] = Some (0, [Used 2, Free 57])"
  by (simp add: abs_alloc_best [of 2 59 "[]" "[]", simplified] rest_free_def)

theorem alloc_is_best_fit_witness:
  "\<exists>a'. mem_alloc_blocks 2 small_heap = Some (baddr (heap_start small_heap) 0, a') \<and> alloc_rep a' [Used 2, Free 57]"
  using alloc_is_best_fit [OF small_heap_rep, of 2] by (auto simp: abs_alloc_small)

text \<open>C15: free of a live block succeeds and computes the abstract free, which joins the block with
  the free neighbours on both sides; segments stay non-empty and no two free ones are adjacent.\<close>

theorem free_coalesces:
  assumes "alloc_rep a (pre @ Used n # post)"
  shows "\<exists>a'. mem_free_blocks (baddr (heap_start a) (seg_total pre)) a = Some (MEM_SUCCESS, a') \<and>
     alloc_rep a' (if pre = [] \<or> \<not> is_free (last pre) then pre @ free_cons (Free n) post
                   else butlast pre @ free_cons (last pre) (free_cons (Free n) post)) \<and>
     heap_start a' = heap_start a"
proof -
  have "(seg_total pre, n) \<in> set (used_at 0 (pre @ Used n # post))"
    using used_at_iff_split by blast
  from mem_free_refines [OF assms this] abs_free_join [OF alloc_repD(1) [OF assms]]
  show ?thesis by auto
qed

theorem free_coalesces_witness:
  "\<exists>a a'. alloc_rep a [Used 2, Free 57] \<and>
     mem_free_blocks (baddr (heap_start a) 0) a = Some (MEM_SUCCESS, a') \<and> alloc_rep a' [Free 59]"
proof -
  obtain a where a: "alloc_rep a ([] @ Used 2 # [Free 57])"
    by (rule mem_alloc_cases [OF small_heap_rep, of 2]) (auto simp: abs_alloc_small)
  from free_coalesces [OF a] a show ?thesis by auto
qed

text \<open>C28: freeing what alloc has just returned gives back the tiling from before, so no
  fragmentation is left behind.\<close>

theorem free_undoes_alloc:
  assumes "alloc_rep a segs" "0 < n" "mem_alloc_blocks n a = Some (p, a1)" "p \<noteq> NULL"
  shows "\<exists>a2. mem_free_blocks p a1 = Some (MEM_SUCCESS, a2) \<and> alloc_rep a2 segs \<and> heap_start a2 = heap_start a"
  by (rule alloc_free_tiling [OF assms])

theorem free_undoes_alloc_witness:
  "\<exists>p a1 a2. mem_alloc_blocks 2 small_heap = Some (p, a1) \<and> mem_free_blocks p a1 = Some (MEM_SUCCESS, a2) \<and>
     alloc_rep a2 [Free 59]"
proof (rule mem_alloc_cases [OF small_heap_rep, of 2])
  fix i segs' a'
  assume *: "mem_alloc_blocks 2 small_heap = Some (baddr (heap_start small_heap) i, a')"
    "baddr (heap_start small_heap) i \<noteq> NULL"
  from free_undoes_alloc [OF small_heap_rep _ *] * show ?thesis by auto
qed (simp_all add: abs_alloc_small)

text \<open>C27: two different live allocations never overlap, and a new one overlaps none.\<close>

theorem live_regions_apart:
  assumes "store_ok a" "0 < n" "mem_alloc_blocks n a = Some (p, a')" "p \<noteq> NULL" "live_blocks a q = Some l"
  shows "(unat p + 64 * unat n \<le> unat q \<or> unat q + 64 * l \<le> unat p) \<and>
     live_blocks a' q = Some l \<and> live_blocks a' p = Some (unat n) \<and> store_ok a'"
  using store.alloc_apart [OF assms] store.alloc_keeps_live [OF assms(1-3,5)] store.alloc_live [OF assms(1-4)]
  by auto

lemma small_heap_two:
  obtains p a1 q a2 where "mem_alloc_blocks 2 small_heap = Some (p, a1)" "store_ok a1" "live_blocks a1 p = Some 2"
    "mem_alloc_blocks 3 a1 = Some (q, a2)" "q \<noteq> NULL" "store_ok a2" "p \<noteq> NULL"
proof -
  have ok: "store_ok small_heap" using small_heap_rep by (auto simp: store_ok_def)
  obtain i segs1 a1 where 1: "mem_alloc_blocks 2 small_heap = Some (baddr (heap_start small_heap) i, a1)"
    "alloc_rep a1 segs1" "baddr (heap_start small_heap) i \<noteq> NULL" "abs_alloc 2 [Free 59] = Some (i, segs1)"
    by (rule mem_alloc_cases [OF small_heap_rep, of 2]) (auto simp: abs_alloc_small)
  have s1: "segs1 = [Used 2, Free 57]" using 1(4) by (simp add: abs_alloc_small)
  have "abs_alloc 3 segs1 \<noteq> None" by (auto simp: abs_alloc_None_iff s1)
  then obtain q a2 segs2 where 2: "mem_alloc_blocks 3 a1 = Some (q, a2)" "alloc_rep a2 segs2" "q \<noteq> NULL"
    by (cases rule: mem_alloc_cases [OF 1(2), of 3]) auto
  show ?thesis
    using store.alloc_live [OF ok _ 1(1) 1(3)] 1 2 by (intro that [OF 1(1) _ _ 2(1,3)]) (auto simp: store_ok_def)
qed

theorem live_regions_apart_witness:
  "\<exists>p a1 q a2. mem_alloc_blocks 2 small_heap = Some (p, a1) \<and> mem_alloc_blocks 3 a1 = Some (q, a2) \<and>
     (unat q + 64 * 3 \<le> unat p \<or> unat p + 64 * 2 \<le> unat q) \<and> live_blocks a2 p = Some 2"
proof -
  obtain p a1 q a2 where s: "mem_alloc_blocks 2 small_heap = Some (p, a1)" "store_ok a1" "live_blocks a1 p = Some 2"
    "mem_alloc_blocks 3 a1 = Some (q, a2)" "q \<noteq> NULL" by (rule small_heap_two)
  from live_regions_apart [OF s(2) _ s(4,5,3)] s show ?thesis by auto
qed

text \<open>Any list of distinct live addresses can be freed one after the other; every call reports
  success, and exactly these allocations are gone.\<close>

lemma free_all_live:
  assumes "store_ok a" "distinct ps" "\<forall>p \<in> set ps. live_blocks a p \<noteq> None"
  shows "\<exists>a'. store.release_all ps a = Some a' \<and> store_ok a' \<and> live_blocks a' = (live_blocks a) |` (- set ps)"
  using store.release_all_live [OF assms(1,2)] assms(3) by blast

text \<open>C40: alloc of zero blocks, which to_blocks yields for the wrapped sizes, returns the address of
  a block that stays free, and the state is unchanged: the caller gets memory that is not its own.\<close>

theorem alloc_zero_returns_free_memory:
  assumes "alloc_rep a segs" "free_at 0 segs \<noteq> []"
  shows "\<exists>p. mem_alloc_blocks 0 a = Some (p, a) \<and> p \<noteq> NULL \<and> p \<in> set (free_addrs (heap_start a) 0 segs)"
  using mem_alloc_zero [OF assms(1)] assms(2) by simp

theorem alloc_zero_returns_free_memory_witness:
  "mem_alloc_blocks (to_blocks (- 1)) small_heap = Some (heap_start small_heap, small_heap)"
proof -
  have "to_blocks (- 1) = 0" by (simp add: to_blocks_def MEM_BLOCK_SIZE_def)
  with alloc_zero_returns_free_memory [OF small_heap_rep] show ?thesis by (auto simp: baddr_def)
qed




end
