(* ===== verification/Props_Kernel.thy ===== *)
theory Props_Kernel
  imports Sample_Kernel User_API Props_Data
begin

text \<open>
  The properties of threads, semaphores and the clock, each with an instance on the state of
  \<open>Sample_Kernel\<close>.
\<close>

lemma to_c_int_results [simp]: "to_c_int 0 = 0" "to_c_int (- 1) = - 1"
proof -
  have "(ucast (- 1 :: u64) :: u32) = - 1" by (intro bit_word_eqI) (simp add: bit_simps)
  then show "to_c_int 0 = 0" "to_c_int (- 1) = - 1" by (simp_all add: to_c_int_def)
qed

lemma ex2_mono: "\<exists>x y. P x y \<Longrightarrow> (\<And>x y. P x y \<Longrightarrow> Q x y) \<Longrightarrow> \<exists>x y. Q x y"
  by blast

section \<open>Context switches\<close>

text \<open>C34: what k_save_context stores, k_restore_context gives back, whatever ran in between: every
  register but a0, the saved program counter and the saved status; the two returns of
  k_save_context are told apart by a0, and the user stack pointer of the context is left alone.\<close>

theorem context_roundtrip:
  "regs (k_restore_context (fst (k_save_context c x)) c') = (regs c)(X_a0 := 0x1000) \<and>
   csr_sepc (k_restore_context (fst (k_save_context c x)) c') = csr_sepc c \<and>
   csr_sstatus (k_restore_context (fst (k_save_context c x)) c') = csr_sstatus c \<and>
   regs (snd (k_save_context c x)) X_a0 = 0 \<and> c_usr_sp (fst (k_save_context c x)) = c_usr_sp x"
  using restore_after_save save_keeps by simp

text \<open>Scheduling is round robin: after n dispatches, the running thread followed by the ready
  queue is the same ring rotated by n, and every other queue is as it was.\<close>

lemma dispatch_round_robin:
  assumes "krep k A"
  shows "\<exists>k' A'. dispatch_steps rw n k = Some k' \<and> krep k' A' \<and>
    a_cur A' # a_queue A' Ready = rotate n (a_cur A # a_queue A Ready) \<and>
    (\<forall>q. q \<noteq> Ready \<longrightarrow> a_queue A' q = a_queue A q)"
  using dispatch_steps_rep [OF assms, of rw n] dispatches_ring [where n = n and A = A]
  unfolding run_ring_def by blast


section \<open>Semaphores\<close>






text \<open>C23: close ends (it may loop as often as threads wait), reports success, and makes every waiting
  thread ready, in order, marked so that its wait fails.\<close>

theorem close_wakes_everyone:
  assumes "krep k A" "s \<in> a_sems A"
  shows "\<exists>k' A'. sem_close s k = Some (CLOSE_SUCCESS, k') \<and> krep k' A' \<and> a_cur A' = a_cur A \<and>
    a_queue A' = (a_queue A)(Ready := a_queue A Ready @ a_queue A (Waiting s), Waiting s := []) \<and>
    (\<forall>t. interrupted (tcbs k' t) = (t \<in> set (a_queue A (Waiting s)) \<or> interrupted (tcbs k t)))"
proof -
  obtain k' where k': "sem_close s k = Some (CLOSE_SUCCESS, k')" "krep k' (a_close s A)"
    "woken True (set (a_queue A (Waiting s))) k k'"
    by (rule sem_close_rep [OF assms])
  have "interrupted (tcbs k' t) = (t \<in> set (a_queue A (Waiting s)) \<or> interrupted (tcbs k t))" for t
  proof -
    have "core (tcbs k' t) = core (if t \<in> set (a_queue A (Waiting s)) then (tcbs k t)\<lparr>interrupted := True\<rparr> else tcbs k t)"
      using k'(3) by (simp add: woken_def)
    from core_fields(4) [OF this] show ?thesis by (simp split: if_splits)
  qed
  then show ?thesis
    using k'(1,2) by (intro exI [of _ k'] exI [of _ "a_close s A"]) (auto simp: a_close_def a_set_def fun_upd_twist)
qed

theorem close_wakes_everyone_witness:
  "\<exists>k' A'. sem_close 0x2200 sample_kernel = Some (CLOSE_SUCCESS, k') \<and> krep k' A' \<and>
     a_queue A' Ready = [0x1200, 0x1600] \<and> interrupted (tcbs k' 0x1600)"
  by (rule ex2_mono [OF close_wakes_everyone [OF sample_rep, of "0x2200"]]) auto

text \<open>C24: a thread resumed inside sem_wait leaves its trap with the result in a0, -1 when its wait
  was interrupted and 0 otherwise, with every other register as it was at the call, and with a fresh
  time slice.\<close>

theorem resumed_wait_result:
  assumes "krep k A" "resume (tcbs k (a_cur A)) = KSemWait"
  shows "\<exists>k'. resume_current rw k = Some k' \<and> krep k' A \<and> timer_ticks k' = 0 \<and>
    to_c_int (regs (cpu_of k') X_a0) = (if interrupted (tcbs k (a_cur A)) then -1 else 0) \<and>
    (\<forall>r. r \<noteq> X_a0 \<longrightarrow> r \<noteq> X_sp \<longrightarrow> regs (cpu_of k') r = trap_frame (tcbs k (a_cur A)) r) \<and>
    regs (cpu_of k') X_sp = c_usr_sp (tcontext (tcbs k (a_cur A)))"
proof -
  obtain k' where k': "resume_current rw k = Some k'" "krep k' A" "timer_ticks k' = 0"
    "regs (cpu_of k') = (exit_regs False (tcbs k (a_cur A)))
       (X_a0 := if interrupted (tcbs k (a_cur A)) then int_to_u64 WAIT_FAIL else int_to_u64 WAIT_SUCCESS)"
    by (rule resume_sem_wait [OF assms, where rw = rw])
  then show ?thesis by (auto simp: exit_regs_def int_to_u64_def)
qed

text \<open>The running thread of the sample, as if it came back from a wait that was interrupted.\<close>

definition sample_waiter :: kstate where
  "sample_waiter = sample_kernel\<lparr>tcbs := sample_tcbs(0x1000 := main_tcb_init\<lparr>resume := KSemWait, interrupted := True\<rparr>)\<rparr>"

lemma sample_waiter_rep: "krep sample_waiter sample_sched"
  using krep_upd_cur [OF sample_rep, of "main_tcb_init\<lparr>resume := KSemWait, interrupted := True\<rparr>"]
  by (simp add: sample_waiter_def main_tcb_init_def)

theorem resumed_wait_result_witness:
  "\<exists>k'. resume_current 0 sample_waiter = Some k' \<and> to_c_int (regs (cpu_of k') X_a0) = - 1"
  using resumed_wait_result [OF sample_waiter_rep, of 0] by (auto simp: sample_waiter_def)

section \<open>Sleeping\<close>

text \<open>C26: the sleep call inserts the calling thread behind every sleeper that is due no later and
  before all the others, so the queue stays ordered by time and first come first served; nobody
  else's time changes, the result will be success, and the first ready thread runs.\<close>

theorem sleep_keeps_queue_ordered:
  assumes "krep k A" "0 < n" "a_queue A Ready = t # ts"
  shows "\<exists>k' A'. syscall TIME_SLEEP_CODE n p1 p2 p3 k = Some (Switches, k') \<and> krep k' A' \<and>
    a_cur A' = t \<and> a_queue A' Ready = ts \<and> a_wake A' = (a_wake A)(a_cur A := unat n) \<and>
    a_queue A' Sleeping = filter (\<lambda>u. a_wake A u \<le> unat n) (a_queue A Sleeping) @
        a_cur A # filter (\<lambda>u. unat n < a_wake A u) (a_queue A Sleeping) \<and>
    sorted (map (a_wake A') (a_queue A' Sleeping)) \<and>
    c_a0 (tcontext (tcbs k' (a_cur A))) = SUCCESS_SYSCALL"
proof -
  obtain k' where k': "syscall TIME_SLEEP_CODE n p1 p2 p3 k = Some (Switches, k')"
    "krep k' (a_next (a_sleep (a_cur A) (unat n) A))" "c_a0 (tcontext (tcbs k' (a_cur A))) = SUCCESS_SYSCALL"
    by (rule syscall_sleep_rep [OF assms(1,2), where ?p1.0 = p1 and ?p2.0 = p2 and ?p3.0 = p3]) (use assms(3) in auto)
  show ?thesis
    using k' sleepers_sorted [OF k'(2)] assms(3) sorted_split_filter [OF sleepers_sorted [OF assms(1)]]
    by (intro exI [of _ k'] exI [of _ "a_next (a_sleep (a_cur A) (unat n) A)"])
      (simp add: a_next_def a_sleep_def Let_def)
qed

theorem sleep_keeps_queue_ordered_witness:
  "\<exists>k' A'. syscall TIME_SLEEP_CODE 3 0 0 0 sample_kernel = Some (Switches, k') \<and> krep k' A' \<and>
     a_queue A' Sleeping = [0x1400, 0x1000] \<and> a_wake A' 0x1000 = 3"
  by (rule ex2_mono [OF sleep_keeps_queue_ordered [OF sample_rep, of 3 "0x1200" "[]" 0 0 0]]) auto

text \<open>A tick of the clock makes every sleeper ready whose last tick it was, in the order of the
  queue, and leaves one tick less to all the others.\<close>

lemma tick_wakes_due_threads:
  assumes "krep k A"
  shows "\<exists>k' A'. timer_tick k = Some k' \<and> krep k' A' \<and> a_cur A' = a_cur A \<and>
    a_queue A' = (a_queue A)(Ready := a_queue A Ready @ filter (\<lambda>t. a_wake A t = 1) (a_queue A Sleeping),
                             Sleeping := filter (\<lambda>t. 1 < a_wake A t) (a_queue A Sleeping)) \<and>
    (\<forall>t \<in> set (a_queue A' Sleeping). a_wake A' t = a_wake A t - 1)"
proof -
  obtain k' where k': "timer_tick k = Some k'" "krep k' (a_tick A)" by (rule timer_tick_rep [OF assms])
  note split = sorted_split_filter [OF sleepers_sorted [OF assms], of 1]
  have "filter (\<lambda>t. a_wake A t \<le> 1) (a_queue A Sleeping) = filter (\<lambda>t. a_wake A t = 1) (a_queue A Sleeping)"
    using krepD(7) [OF assms] by (intro filter_cong) (force simp: le_Suc_eq)+
  with split k' show ?thesis
    by (intro exI [of _ k'] exI [of _ "a_tick A"]) (simp add: a_tick_def a_set_def Let_def fun_upd_twist)
qed

text \<open>C25: a sleeping thread becomes ready with the tick for which it asked: after n ticks exactly the
  threads that had at most n left are ready, and the others have n less.\<close>

theorem sleepers_wake_on_time:
  assumes "krep k A"
  shows "\<exists>k' A'. clock.ticks n k = Some k' \<and> krep k' A' \<and>
    set (a_queue A' Ready) = set (a_queue A Ready) \<union> {t \<in> set (a_queue A Sleeping). a_wake A t \<le> n} \<and>
    set (a_queue A' Sleeping) = {t \<in> set (a_queue A Sleeping). n < a_wake A t} \<and>
    (\<forall>t \<in> set (a_queue A' Sleeping). a_wake A' t = a_wake A t - n)"
proof -
  obtain k' A' where k': "clock.ticks n k = Some k'" "krep k' A'"
    "\<And>t. ticks_left A' t = (case ticks_left A t of None \<Rightarrow> None | Some m \<Rightarrow> if m \<le> n then None else Some (m - n))"
    "ready_set A' = ready_set A \<union> {t. \<exists>m. ticks_left A t = Some m \<and> m \<le> n}"
    using clock.ticks_law [OF assms, of n] by blast
  have left: "ticks_left A' t = (if t \<in> set (a_queue A Sleeping) \<and> n < a_wake A t then Some (a_wake A t - n) else None)" for t
    using k'(3) [of t] by (simp add: ticks_left_def)
  have "t \<in> set (a_queue A' Sleeping) \<longleftrightarrow> ticks_left A' t \<noteq> None" for t by (simp add: ticks_left_def)
  then have sl: "set (a_queue A' Sleeping) = {t \<in> set (a_queue A Sleeping). n < a_wake A t}"
    using left by (auto split: if_splits)
  moreover have "a_wake A' t = a_wake A t - n" if "t \<in> set (a_queue A' Sleeping)" for t
    using left [of t] that sl by (simp add: ticks_left_def split: if_splits)
  ultimately show ?thesis
    using k'(1,2,4) by (intro exI [of _ k'] exI [of _ A']) (auto simp: ready_set_def ticks_left_def split: if_splits)
qed

theorem sleepers_wake_on_time_witness:
  "\<exists>k' A'. clock.ticks 2 sample_kernel = Some k' \<and> krep k' A' \<and> a_queue A' Sleeping = [] \<and> 0x1400 \<in> set (a_queue A' Ready)"
  by (rule ex2_mono [OF sleepers_wake_on_time [OF sample_rep, of 2]]) auto

section \<open>The timer interrupt\<close>

text \<open>A timer interrupt inside the time slice is invisible to the running thread: every register,
  the program counter, the status and both stack pointers are unchanged when it goes on.\<close>

lemma timer_interrupt_transparent:
  assumes "krep k A" "timer_ticks k + 1 < time_slice (tcbs k (a_cur A))"
  shows "\<exists>k' A'. k_timer_trap rw k = Some (Returns (), k') \<and> krep k' A' \<and> a_cur A' = a_cur A \<and>
    timer_ticks k' = timer_ticks k + 1 \<and> regs (cpu_of k') = regs (cpu_of k) \<and>
    csr_sepc (cpu_of k') = csr_sepc (cpu_of k) \<and> csr_sstatus (cpu_of k') = csr_sstatus (cpu_of k) \<and>
    c_sys_sp (tcontext (tcbs k' (a_cur A))) = c_sys_sp (tcontext (tcbs k (a_cur A)))"
proof -
  obtain k' where "k_timer_trap rw k = Some (Returns (), k')" "krep k' (a_tick A)"
    "timer_ticks k' = timer_ticks k + 1" "regs (cpu_of k') = regs (cpu_of k)"
    "csr_sepc (cpu_of k') = csr_sepc (cpu_of k)" "csr_sstatus (cpu_of k') = csr_sstatus (cpu_of k)"
    "c_sys_sp (tcontext (tcbs k' (a_cur A))) = c_sys_sp (tcontext (tcbs k (a_cur A)))"
    by (rule k_timer_trap_stay [OF assms, where rw = rw])
  then show ?thesis by (intro exI [of _ k'] exI [of _ "a_tick A"]) simp
qed

section \<open>Starting, ending and failing\<close>

text \<open>A thread that runs for the first time leaves the trap at k_tcb_run_wrapper on its own user
  stack; the tick counter is not reset, so its first time slice is shorter by the ticks that the
  previous thread has used.\<close>

lemma first_slice_not_fresh:
  assumes "krep k A" "resume (tcbs k (a_cur A)) = KStart"
  shows "\<exists>k'. resume_current run_wrapper k = Some k' \<and> krep k' A \<and> csr_sepc (cpu_of k') = run_wrapper \<and>
    regs (cpu_of k') X_sp = c_usr_sp (tcontext (tcbs k (a_cur A))) \<and> timer_ticks k' = timer_ticks k"
  using resume_start [OF assms, of run_wrapper] by metis

text \<open>When no block is left, creating a semaphore does not return an error: it writes through
  the null pointer, and so do opening a semaphore and creating a thread that has got its two
  other regions.\<close>

lemma semaphore_out_of_memory_faults:
  assumes "alloc_rep (mem k) segs" "\<forall>l. Free l \<notin> set segs" "handle \<noteq> NULL"
  shows "create_sem v k = None \<and> handle_sem_open handle p1 k = None"
proof -
  have "abs_alloc 1 segs = None" using assms(2) by (simp add: abs_alloc_None_iff)
  then have "mem_alloc_blocks 1 (mem k) = Some (NULL, mem k)"
    using mem_alloc_cases [OF assms(1), of 1] by fastforce
  then show ?thesis using create_sem_no_room assms(3) by (simp add: handle_sem_open_def)
qed

end
