(* ===== verification/Props_System.thy ===== *)
theory Props_System
  imports Sample_System Props_Kernel
begin

text \<open>
  The properties of the whole kernel: what holds after booting, at every event and over every run,
  each with an instance on the machine of \<open>Sample_System\<close>.
\<close>

section \<open>Boot\<close>

text \<open>C3: main initialises the kernel: from the image that the linker makes and one free heap of at
  least 200 blocks it reaches a state in which the invariant of the system holds, the main thread
  runs, the flushing thread is ready with its loop as body, putc may be called 2048 times and getc not
  at all, and every thread has the default time slice.\<close>

theorem boot_establishes_invariant:
  assumes "layout_ok l (heap_start m)" "board_ok bd" "bd_flush_loop bd \<noteq> 0" "alloc_rep m [Free n]" "200 \<le> n"
  shows "\<exists>t k A. main_boot bd (kernel_platform bd cs ci) (kernel_image l m ts ss c cells) = Some k \<and>
    kinv t k A \<and> flow_ok k A \<and> a_cur A = main_tcb l \<and> a_queue A Ready = [t] \<and> body (tcbs k t) = bd_flush_loop bd \<and>
    a_val A (putc_sem l) = 2048 \<and> a_val A (getc_sem l) = 0 \<and> slices_ok k A \<and> timer_ticks k = 0"
proof -
  let ?k0 = "kernel_image l m ts ss c cells"
  obtain t js k where b: "main_boot bd (kernel_platform bd cs ci) ?k0 = Some k" "kernel_started ?k0 t js bd k"
    "t \<noteq> main_tcb l" "js \<noteq> putc_sem l" "js \<noteq> getc_sem l"
    by (rule main_boot_rep [OF assms refl, where cs = cs and ci = ci])
  have l: "lay ?k0 = l" "putc_sem l \<noteq> getc_sem l" using assms(1) by (simp_all add: kernel_image_def layout_ok_def)
  have "io ?k0 = (q_new (replicate IO_BUFFER_SIZE 0), q_new (replicate IO_BUFFER_SIZE 0), [])"
    by (simp add: io_def kernel_image_def)
  with flow_started [OF b(2)] b(3-5) l have "flow_ok k (a_create t js (boot_sched l))" by simp
  moreover have "a_queue (a_create t js (boot_sched l)) Ready = [t]" by (simp add: a_create_def a_enq_def)
  ultimately show ?thesis
    using b l by (intro exI [of _ t] exI [of _ k] exI [of _ "a_create t js (boot_sched l)"])
      (auto simp: kernel_started_def IO_BUFFER_SIZE_def)
qed

theorem boot_establishes_invariant_witness:
  "\<exists>t k A. main_boot sample_board sample_platform sample_image = Some k \<and> kinv t k A \<and> a_queue A Ready = [t]"
proof -
  obtain n where n: "alloc_rep sample_heap [Free n]" "200 \<le> n" using sample_heap_rep by auto
  have lp: "bd_flush_loop sample_board \<noteq> 0" by (simp add: sample_board_def)
  show ?thesis
    unfolding sample_image_def
    using boot_establishes_invariant [OF sample_layout_ok sample_board_ok lp n, of "0x4000" "0x4100"] by blast
qed

section \<open>Every event refines the abstract scheduler\<close>

text \<open>C1: whatever happens next to a running system (user code, a timer or console interrupt, a system
  call, a flush), the kernel handles it without fault, and the new state represents the one that the
  abstract scheduler prescribes; the prescription is unique.\<close>

theorem kernel_refines_scheduler:
  assumes "kinv f k A" "board_ok bd" "permitted f k A e"
  shows "\<exists>k' A'. run_event bd e k = Some k' \<and> event_step k e A = {A'} \<and> krep k' A' \<and> counters_ok A' \<and> owned k' A'"
proof -
  obtain k' A' where r: "run_event bd e k = Some k'" "A' \<in> event_step k e A" "kinv f k' A'" "undisturbed A A' k k'"
    by (rule run_event_refines [OF assms])
  have "event_step k e A = {A'}" using r(2) event_step_unique [OF r(2)] by blast
  then show ?thesis
    using r(1) kinvD(1-3) [OF r(3)] by (intro exI [of _ k'] exI [of _ A']) simp
qed

lemma permitted_simple [simp]:
  "permitted f k A Timer_interrupt" "permitted f k A (Compute c u)" "permitted f k A (Ecall THREAD_DISPATCH_CODE p0 p1 p2 p3)"
  by (simp_all add: permitted_def may_call_def syscall_code_defs)

lemma permitted_put [simp]:
  "permitted f k A (Ecall PUT_C_CODE p0 p1 p2 p3) = may_block f A (putc_sem (lay k))"
  by (simp add: permitted_def may_call_def syscall_code_defs)

lemma put_sample:
  assumes "A' \<in> event_step k (Ecall PUT_C_CODE 65 0 0 0) (a_create t js (boot_sched sample_layout))"
    and "lay k = sample_layout" "js \<noteq> 0x2000"
  shows "a_cur A' = 0x1000 \<and> a_val A' 0x2000 = 2047"
  using assms by (simp add: event_step_def call_step_def syscall_code_defs a_wait_def Let_def IO_BUFFER_SIZE_def)

theorem kernel_refines_scheduler_witness:
  "\<exists>k k' A'. run_event sample_board (Ecall PUT_C_CODE 65 0 0 0) k = Some k' \<and> krep k' A' \<and> a_val A' 0x2000 = 2047"
proof -
  obtain t js k where s: "kinv t k (a_create t js (boot_sched sample_layout))" "t \<noteq> 0x1000" "js \<noteq> 0x2000" "lay k = sample_layout"
    by (rule sample_booted)
  have "permitted t k (a_create t js (boot_sched sample_layout)) (Ecall PUT_C_CODE 65 0 0 0)"
    using s by (auto simp: may_block_def)
  from kernel_refines_scheduler [OF s(1) sample_board_ok this] obtain k' A' where
    "run_event sample_board (Ecall PUT_C_CODE 65 0 0 0) k = Some k'" "krep k' A'"
    "event_step k (Ecall PUT_C_CODE 65 0 0 0) (a_create t js (boot_sched sample_layout)) = {A'}" by blast
  then show ?thesis using put_sample [of A' k t js] s(3,4) by blast
qed

section \<open>Runs\<close>

text \<open>C9: over every run of permitted events the invariant holds: the queues, the counters, the
  sleeping times and the ownership of memory are right in every state that the system reaches.\<close>

theorem runs_keep_invariant:
  assumes "kernel_run bd f k A es k' A'" "board_ok bd" "kinv f k A"
  shows "krep k' A' \<and> counters_ok A' \<and> owned k' A' \<and> f \<in> set (a_cur A' # a_queue A' Ready)"
  using kinvD [OF kernel_run_invariant [OF assms]] by (simp add: run_ring_def)

lemma run_one:
  assumes "kinv f k A" "board_ok bd" "permitted f k A e" "event_step k e A = {A'}"
  obtains k' where "run_event bd e k = Some k'" "kernel_run bd f k A [(e, a_cur A')] k' A'"
proof -
  obtain k' A1 where r: "run_event bd e k = Some k'" "A1 \<in> event_step k e A" by (rule run_event_refines [OF assms(1-3)])
  then have "A1 = A'" using assms(4) by simp
  then show ?thesis using r run_cons [OF assms(3) r run_nil] by (intro that) simp_all
qed

lemma dispatch_sample [simp]:
  "event_step k (Ecall THREAD_DISPATCH_CODE 0 0 0 0) A = {a_dispatch A}"
  "a_cur (a_dispatch (a_create t js (boot_sched sample_layout))) = t"
  by (simp_all add: event_step_def call_step_def syscall_code_defs a_dispatch_def a_create_def a_enq_def a_next_def a_new_sem_def boot_sched_def)

theorem runs_keep_invariant_witness:
  "\<exists>t k k' A A'. kernel_run sample_board t k A [(Ecall THREAD_DISPATCH_CODE 0 0 0 0, t)] k' A' \<and> krep k' A' \<and> owned k' A'"
proof -
  obtain t js k where s: "kinv t k (a_create t js (boot_sched sample_layout))" by (rule sample_booted)
  obtain k' where r: "kernel_run sample_board t k (a_create t js (boot_sched sample_layout))
      [(Ecall THREAD_DISPATCH_CODE 0 0 0 0, t)] k' (a_dispatch (a_create t js (boot_sched sample_layout)))"
    by (rule run_one [OF s sample_board_ok, where e = "Ecall THREAD_DISPATCH_CODE 0 0 0 0"
          and A' = "a_dispatch (a_create t js (boot_sched sample_layout))"]) simp_all
  from runs_keep_invariant [OF r sample_board_ok s] r show ?thesis by blast
qed

text \<open>C4: a preempted thread is isolated: when the timer or the console interrupts a thread and another one
  runs, then, whatever happens until it runs again, it has all its registers, its program counter and its
  status as at the interrupt.\<close>

theorem preempted_context_survives:
  assumes "kinv f k A" "board_ok bd" "interrupts e" "u \<noteq> a_cur A" "t = a_cur A"
    and "kernel_run bd f k A ((e, u) # es @ [(e', t)]) k' A'" "t \<notin> snd ` set es"
  shows "regs (cpu_of k') = regs (cpu_of k) \<and> csr_sepc (cpu_of k') = csr_sepc (cpu_of k) \<and>
    csr_sstatus (cpu_of k') = csr_sstatus (cpu_of k) \<and> current_tcb k' = current_tcb k"
proof -
  obtain k0 A0 where r0: "permitted f k A e" "run_event bd e k = Some k0" "A0 \<in> event_step k e A" "u = a_cur A0"
    "kernel_run bd f k0 A0 (es @ [(e', t)]) k' A'"
    using assms(6) by (auto elim: kernel_run_consE)
  have h: "holds_cpu k (tcbs k0 t)" using interrupt_holds [OF assms(1) r0(1) assms(3) r0(2,3)] assms(4,5) r0(4) by simp
  note i0 = run_event_inv(1) [OF assms(1,2) r0(1-3)]
  have t0: "t \<in> threads A0" "t \<noteq> a_cur A0" using interrupt_threads [OF assms(3) r0(1,3)] r0(4) assms(4,5) by (auto simp: threads_def)
  obtain k1 A1 where r1: "kernel_run bd f k0 A0 es k1 A1" and r2: "kernel_run bd f k1 A1 [(e', t)] k' A'"
    by (rule kernel_run_split [OF r0(5)])
  have u: "saved (tcbs k1 t) = saved (tcbs k0 t)" "t \<in> threads A1" "t \<noteq> a_cur A1"
    using kernel_run_undisturbed [OF r1 assms(2) i0 t0 assms(7)] by simp_all
  have i1: "kinv f k1 A1" by (rule kernel_run_invariant [OF r1 assms(2) i0])
  have r: "permitted f k1 A1 e'" "run_event bd e' k1 = Some k'" "A' \<in> event_step k1 e' A1" "a_cur A' = t"
    using r2 by (auto elim!: kernel_run_consE)
  have "undisturbed A1 A' k1 k'" by (rule run_event_inv(2) [OF i1 assms(2) r(1-3)])
  moreover have "holds_cpu k (tcbs k1 t)" using h u(1) by (simp add: holds_cpu_def saved_def exit_regs_def)
  moreover have "current_tcb k' = current_tcb k"
    using krepD(2) [OF kinvD(1) [OF run_event_inv(1) [OF i1 assms(2) r(1-3)]]] krepD(2) [OF kinvD(1) [OF assms(1)]] r(4) assms(5) by simp
  ultimately show ?thesis
    using u(2,3) r(4) by (auto simp: undisturbed_def holds_cpu_def)
qed

theorem preempted_context_survives_witness:
  "\<exists>t k k' A A'. kernel_run sample_board t k A ((Console_interrupt 1 104, t) # [] @ [(Ecall THREAD_DISPATCH_CODE 0 0 0 0, 0x1000)]) k' A' \<and>
     current_tcb k = 0x1000 \<and> t \<noteq> 0x1000 \<and> regs (cpu_of k') = regs (cpu_of k) \<and> csr_sepc (cpu_of k') = csr_sepc (cpu_of k)"
proof -
  obtain t js k where s: "kinv t k (a_create t js (boot_sched sample_layout))" "flow_ok k (a_create t js (boot_sched sample_layout))"
    "t \<noteq> 0x1000" "js \<noteq> 0x2100" "lay k = sample_layout" by (rule sample_booted)
  let ?A = "a_create t js (boot_sched sample_layout)" and ?e = "Console_interrupt 1 104" and ?d = "Ecall THREAD_DISPATCH_CODE 0 0 0 0"
  let ?B = "a_dispatch (a_signal 0x2100 ?A)"
  have v: "a_val ?A 0x2100 = 0" "a_cur ?A = 0x1000" using s(4) by simp_all
  have ok: "permitted t k ?A ?e" using s(5) v by (simp add: permitted_def may_signal_def)
  have "a_queue ?A Sleeping = []" by (simp add: a_create_def a_enq_def)
  then have "getters (threads ?A - {a_cur ?A}) k \<subseteq> {t}" using s(3) by (auto simp: getters_def threads_split run_ring_def)
  then have "card (getters (threads ?A - {a_cur ?A}) k) \<le> 1" by (metis card.empty card_insert_disjoint finite.emptyI empty_iff card_mono finite.insertI One_nat_def)
  then have q: "q_get_length (getc_buffer k) < IO_BUFFER_SIZE" using flow_ok_fields(6) [OF s(2)] s(5) v by (simp add: IO_BUFFER_SIZE_def)
  have st: "event_step k ?e ?A = {?B}" using q s(5) by (simp add: event_step_def CONSOLE_RX_STATUS_BIT_def)
  have B: "a_cur ?B = t" "a_queue ?B Ready = [0x1000]"
    using v by (simp_all add: a_dispatch_def a_signal_def a_enq_def a_next_def Let_def)
  obtain k1 where r1: "run_event sample_board ?e k = Some k1" "kernel_run sample_board t k ?A [(?e, a_cur ?B)] k1 ?B"
    by (rule run_one [OF s(1) sample_board_ok ok st])
  have i1: "kinv t k1 ?B" by (rule kernel_run_invariant [OF r1(2) sample_board_ok s(1)])
  obtain k' where r2: "run_event sample_board ?d k1 = Some k'" "kernel_run sample_board t k1 ?B [(?d, a_cur (a_dispatch ?B))] k' (a_dispatch ?B)"
    by (rule run_one [OF i1 sample_board_ok, where e = ?d and A' = "a_dispatch ?B"]) simp_all
  have C: "a_cur (a_dispatch ?B) = 0x1000" using B by (simp add: a_dispatch_def a_enq_def a_next_def)
  have run: "kernel_run sample_board t k ?A ((?e, t) # [] @ [(?d, 0x1000)]) k' (a_dispatch ?B)"
    using kernel_run_append [OF r1(2) r2(2)] by (simp add: B(1) C)
  have cur: "current_tcb k = 0x1000" using krepD(2) [OF kinvD(1) [OF s(1)]] v by simp
  have x: "interrupts ?e" "t \<noteq> a_cur ?A" "0x1000 = a_cur ?A" using s(3) v by (simp_all add: interrupts_def)
  have "regs (cpu_of k') = regs (cpu_of k) \<and> csr_sepc (cpu_of k') = csr_sepc (cpu_of k)"
    using preempted_context_survives [OF s(1) sample_board_ok x run] by simp
  then show ?thesis
    using run cur s(3) by (intro exI [of _ t] exI [of _ k] exI [of _ k'] exI [of _ ?A] exI [of _ "a_dispatch ?B"] conjI) simp_all
qed

section \<open>The console\<close>

text \<open>C5: the flow control of the console works: an event that accepts a character for output appends it
  to the stream of transmitted and buffered characters, every other event leaves that stream alone;
  in particular the bounds check of the buffer never drops a character.\<close>

theorem no_character_dropped:
  assumes "kinv f k A" "flow_ok k A" "board_ok bd" "permitted f k A e" "polite (lay k) e"
    and "run_event bd e k = Some k'" "A' \<in> event_step k e A"
  shows "tx_out k' @ q_contents IO_BUFFER_SIZE (putc_buffer k') =
      tx_out k @ q_contents IO_BUFFER_SIZE (putc_buffer k) @ accepted k e A A' \<and> flow_ok k' A'"
  using flow_event [OF assms(1,3,4,2,5-7)] by (simp add: out_stream_def)

theorem no_character_dropped_witness:
  "\<exists>k k'. run_event sample_board (Ecall PUT_C_CODE 65 0 0 0) k = Some k' \<and>
     tx_out k' @ q_contents IO_BUFFER_SIZE (putc_buffer k') = tx_out k @ q_contents IO_BUFFER_SIZE (putc_buffer k) @ [65]"
proof -
  obtain t js k where s: "kinv t k (a_create t js (boot_sched sample_layout))" "flow_ok k (a_create t js (boot_sched sample_layout))"
    "t \<noteq> 0x1000" "js \<noteq> 0x2000" "lay k = sample_layout"
    by (rule sample_booted)
  let ?A = "a_create t js (boot_sched sample_layout)" and ?e = "Ecall PUT_C_CODE 65 0 0 0"
  have p: "permitted t k ?A ?e" using s by (auto simp: may_block_def)
  obtain k' A' where r: "run_event sample_board ?e k = Some k'" "A' \<in> event_step k ?e ?A"
    by (rule run_event_refines [OF s(1) sample_board_ok p])
  have po: "polite (lay k) ?e" by (simp add: polite_def syscall_code_defs)
  have "a_cur A' = 0x1000" using put_sample [OF r(2) s(5,4)] by simp
  then have "accepted k ?e ?A A' = [65]" using s(4,5) by (simp add: accepted_def IO_BUFFER_SIZE_def)
  with no_character_dropped [OF s(1,2) sample_board_ok p po r] r show ?thesis by auto
qed

text \<open>C20: over every run the accounts of the console balance: the room that putc_sem promises is there
  even after the characters of the threads that wait or are about to put one, every character that
  getc_sem promises is there, and the output stream only grows.\<close>

theorem console_accounts_balance:
  assumes "kernel_run bd f k A es k' A'" "board_ok bd" "kinv f k A" "flow_ok k A" "\<forall>(e, t) \<in> set es. polite (lay k) e"
  shows "a_val A' (putc_sem (lay k')) + int (q_get_length (putc_buffer k')) + int (card (putters (threads A' - {a_cur A'}) k')) = 2048 \<and>
    int (q_get_length (getc_buffer k')) = a_val A' (getc_sem (lay k')) + int (card (getters (threads A' - {a_cur A'}) k')) \<and>
    (\<exists>xs. out_stream k' = out_stream k @ xs)"
proof -
  have r: "flow_ok k' A'" "\<exists>xs. out_stream k' = out_stream k @ xs" using flow_run [OF assms] by simp_all
  show ?thesis using flow_ok_fields(5,6) [OF r(1)] r(2) by (simp add: IO_BUFFER_SIZE_def)
qed

theorem console_accounts_balance_witness:
  "\<exists>t k k' A A'. kernel_run sample_board t k A [(Ecall THREAD_DISPATCH_CODE 0 0 0 0, t)] k' A' \<and>
     a_val A' (putc_sem (lay k')) + int (q_get_length (putc_buffer k')) + int (card (putters (threads A' - {a_cur A'}) k')) = 2048"
proof -
  obtain t js k where s: "kinv t k (a_create t js (boot_sched sample_layout))" "flow_ok k (a_create t js (boot_sched sample_layout))"
    by (rule sample_booted)
  obtain k' where r: "kernel_run sample_board t k (a_create t js (boot_sched sample_layout))
      [(Ecall THREAD_DISPATCH_CODE 0 0 0 0, t)] k' (a_dispatch (a_create t js (boot_sched sample_layout)))"
    by (rule run_one [OF s(1) sample_board_ok, where e = "Ecall THREAD_DISPATCH_CODE 0 0 0 0"
          and A' = "a_dispatch (a_create t js (boot_sched sample_layout))"]) simp_all
  have "\<forall>(e, u) \<in> set [(Ecall THREAD_DISPATCH_CODE 0 0 0 0, t)]. polite (lay k) e" by (simp add: polite_def syscall_code_defs)
  from console_accounts_balance [OF r sample_board_ok s this] r show ?thesis by blast
qed

end
