(* ===== verification/Cpp_Objects.thy ===== *)
theory Cpp_Objects
  imports Boot_Correct
begin

text \<open>
  The C++ classes on the running kernel: a Thread object creates its thread once, and a Semaphore object
  lets as many waits through as it was opened with; the next one gives up the processor.
\<close>

unbundle bit_operations_syntax

section \<open>System calls that block\<close>

lemma kernel_call_blocks:
  assumes rep: "krep k A" and bd: "board_ok bd"
    and call: "\<And>k1. krep k1 A \<Longrightarrow> frame {a_cur A} k k1 \<Longrightarrow> env_eq k k1 \<Longrightarrow>
       \<exists>k2. syscall code p0 p1 p2 p3 k1 = Some (Switches, k2) \<and> krep k2 A2"
    and other: "a_cur A2 \<noteq> a_cur A"
  obtains k3 where "kernel_call bd code p0 p1 p2 p3 k = Some (Gives_up, k3)" "krep k3 A2"
proof -
  obtain k1 where k1: "k_ecall_trap (bd_run_wrapper bd) (bd_stat bd) (bd_stat bd)
        (k\<lparr>cpu_of := enter_ecall bd code p0 p1 p2 p3 (cpu_of k)\<rparr>) =
       (syscall code p0 p1 p2 p3 k1 \<bind> leave_trap (bd_run_wrapper bd) True)"
    "krep k1 A" "frame {a_cur A} k k1" "env_eq k k1"
    using ecall_enter [OF rep bd] by metis
  obtain k2 where k2: "syscall code p0 p1 p2 p3 k1 = Some (Switches, k2)" "krep k2 A2"
    using call [OF k1(2-4)] by blast
  obtain k3 where k3: "resume_current (bd_run_wrapper bd) k2 = Some k3" "krep k3 A2"
    by (rule resume_current_rep [OF k2(2)])
  have "kernel_call bd code p0 p1 p2 p3 k = Some (Gives_up, k3)"
    using kernel_call_trap [of bd code p0 p1 p2 p3 k k3] k1(1) k2(1) k3(1) krepD(2) [OF k3(2)] krepD(2) [OF rep] other
    by (simp add: leave_trap_def)
  then show ?thesis using k3(2) by (rule that)
qed

section \<open>User mode\<close>

text \<open>
  The system call that leaves supervisor mode clears the previous-privilege bit of sstatus, so that the
  sret at the end of the trap returns to user mode; the registers are those of the call, with 0 in a0.
\<close>

lemma user_mode_call:
  assumes rep: "krep k A" and bd: "board_ok bd"
  obtains k' where "set_user_mode (kernel_platform bd cs ci) k = Some (0, k')" "krep k' A" "env_eq k k'"
    "csr_sstatus (cpu_of k') = csr_sstatus (cpu_of k) AND NOT (push_bit 8 1)"
    "regs (cpu_of k') = (regs (enter_ecall bd USER_MODE_CODE 0 0 0 0 (cpu_of k)))(X_a0 := 0)" "frame {a_cur A} k k'"
proof -
  obtain k1 where k1: "k_ecall_trap (bd_run_wrapper bd) (bd_stat bd) (bd_stat bd)
        (k\<lparr>cpu_of := enter_ecall bd USER_MODE_CODE 0 0 0 0 (cpu_of k)\<rparr>) =
       (syscall USER_MODE_CODE 0 0 0 0 k1 \<bind> leave_trap (bd_run_wrapper bd) True)"
    "krep k1 A" "frame {a_cur A} k k1" "env_eq k k1" "csr_sstatus (cpu_of k1) = csr_sstatus (cpu_of k)"
    "trap_frame (tcbs k1 (a_cur A)) = regs (enter_ecall bd USER_MODE_CODE 0 0 0 0 (cpu_of k))"
    "c_usr_sp (tcontext (tcbs k1 (a_cur A))) = regs (cpu_of k) X_sp"
    by (rule ecall_enter [OF rep bd]) blast
  let ?u = "prepare_user_mode k1"
  have u: "krep ?u A" "tcbs ?u = tcbs k1" using k1(2) by (simp_all add: prepare_user_mode_def)
  note a = set_a0_rep [OF u(1), of SUCCESS_SYSCALL]
  let ?x = "tcbs k1 (a_cur A)"
  let ?k2 = "?u\<lparr>tcbs := (tcbs ?u)(a_cur A := (tcbs ?u (a_cur A))\<lparr>tcontext := (tcontext (tcbs ?u (a_cur A)))\<lparr>c_a0 := SUCCESS_SYSCALL\<rparr>\<rparr>)\<rparr>"
  have s: "syscall USER_MODE_CODE 0 0 0 0 k1 = Some (Returns (), ?k2)"
    using a(1) by (simp add: syscall_def syscall_code_defs)
  obtain k3 where k3: "trap_exit True ?k2 = Some k3" "krep k3 A" "regs (cpu_of k3) = exit_regs True (tcbs ?k2 (a_cur A))"
    "csr_sstatus (cpu_of k3) = csr_sstatus (cpu_of ?k2)" "env_eq ?k2 k3"
    by (rule trap_exit_rep [OF a(2), of True])
  have st: "csr_sstatus (cpu_of k3) = csr_sstatus (cpu_of k) AND NOT (push_bit 8 1)"
    using k3(4) k1(5) by (simp add: prepare_user_mode_def)
  have rg: "regs (cpu_of k3) = (regs (enter_ecall bd USER_MODE_CODE 0 0 0 0 (cpu_of k)))(X_a0 := 0)"
    using k3(3) k1(6,7) by (simp add: exit_regs_def u(2) SUCCESS_SYSCALL_def enter_ecall_def fun_eq_iff)
  have env: "env_eq k k3" using k1(4) k3(5) by (simp add: env_eq_def prepare_user_mode_def)
  have "frame {a_cur A} ?u ?k2" using set_a0_frame [OF a(1)] krepD(3) [OF u(1)] by simp
  moreover have "frame {a_cur A} ?k2 k3" using trap_exit_frame [OF k3(1)] krepD(3) [OF a(2)] by simp
  moreover have "frame {a_cur A} k ?u" using k1(3) by (simp add: prepare_user_mode_def)
  ultimately have fr: "frame {a_cur A} k k3" using frame_trans_same by blast
  have "kernel_ecall bd USER_MODE_CODE 0 0 0 0 k = Some (0, k3)"
    using kernel_ecall_trap [of bd USER_MODE_CODE 0 0 0 0 k k3] k1(1) s k3(1) rg krepD(2) [OF k3(2)] krepD(2) [OF rep]
    by (simp add: leave_trap_def)
  then have "set_user_mode (kernel_platform bd cs ci) k = Some (0, k3)"
    by (simp add: set_user_mode_def k_system_call_def to_c_int_def kernel_platform_def)
  then show ?thesis using k3(2) env st rg fr by (intro that)
qed

section \<open>Semaphores\<close>

text \<open>The handle of the object, and the semaphore it stands for, in a state of the kernel.\<close>

definition sem_object :: "addr \<Rightarrow> addr \<Rightarrow> kstate \<Rightarrow> sched \<Rightarrow> bool" where
  "sem_object this s k A \<longleftrightarrow> krep k A \<and> s \<in> a_sems A \<and> user_cells k (this + off_myHandle) = s"

lemma sem_objectD:
  assumes "sem_object this s k A"
  shows "krep k A" "s \<in> a_sems A" "user_cells k (this + off_myHandle) = s" "s \<noteq> NULL"
  using assms sem_nonnull [of k A s] krepD(1) [of k A] by (auto simp: sem_object_def)

lemma platform_fields [simp]:
  "pf_ecall (kernel_platform bd cs ci) = kernel_ecall bd" "pf_load (kernel_platform bd cs ci) p k = user_cells k p"
  "pf_store (kernel_platform bd cs ci) p v k = k\<lparr>user_cells := (user_cells k)(p := v)\<rparr>"
  by (simp_all add: kernel_platform_def)

text \<open>A wait that the counter allows, on any semaphore of the kernel.\<close>

lemma sem_wait_call_passes:
  assumes rep: "krep k A" and bd: "board_ok bd" and s: "s \<in> a_sems A" and v: "0 < a_val A s"
  obtains k' where "sem_wait_call (kernel_platform bd cs ci) s k = Some (0, k')" "krep k' (a_wait s A)"
    "frame {a_cur A} k k'" "user_cells k' = user_cells k" "env_eq k k'"
proof -
  let ?Q = "\<lambda>k1 k2 A2. A2 = a_wait s A \<and> env_eq k k2 \<and> frame {a_cur A} k1 k2 \<and> c_a0 (tcontext (tcbs k2 (a_cur A))) = 0"
  have s0: "s \<noteq> NULL" using sem_nonnull [OF krepD(1) [OF rep] s] by simp
  have cur: "a_cur (a_wait s A) = a_cur A"
    using v by (simp add: a_wait_def Let_def)
  have call: "\<exists>k2 A2. syscall SEM_WAIT_CODE s 0 0 0 k1 = Some (Returns (), k2) \<and> krep k2 A2 \<and> a_cur A2 = a_cur A \<and> ?Q k1 k2 A2"
    if k1: "krep k1 A" "env_eq k k1" for k1
  proof -
    let ?w = "k1\<lparr>sems := (sems k1)(s := (sems k1 s)\<lparr>sem_value := sem_value (sems k1 s) - 1\<rparr>)\<rparr>"
    have w: "sem_wait KSemWait s k1 = Some (Returns WAIT_SUCCESS, ?w)" "krep ?w (a_wait s A)"
      using sem_wait_pass [OF k1(1) s v] by auto
    note a = set_a0_rep [OF w(2), of "int_to_u64 0", unfolded cur]
    let ?k2 = "?w\<lparr>tcbs := (tcbs ?w)(a_cur A := (tcbs ?w (a_cur A))\<lparr>tcontext := (tcontext (tcbs ?w (a_cur A)))\<lparr>c_a0 := int_to_u64 0\<rparr>\<rparr>)\<rparr>"
    have "syscall SEM_WAIT_CODE s 0 0 0 k1 = Some (Returns (), ?k2)"
      using w(1) a(1) s0 by (simp add: syscall_def syscall_code_defs wait_then_def after_wait_def)
    moreover have "frame {a_cur A} k1 ?k2"
      using set_a0_frame [OF a(1)] krepD(3) [OF w(2)] cur by simp
    ultimately show ?thesis
      using a(2) cur k1(2) by (intro exI [of _ ?k2] exI [of _ "a_wait s A"]) (simp add: env_eq_def int_to_u64_def)
  qed
  obtain k1 k2 k3 A2 where r: "frame {a_cur A} k k1" "?Q k1 k2 A2"
    "kernel_ecall bd SEM_WAIT_CODE s 0 0 0 k = Some (c_a0 (tcontext (tcbs k2 (a_cur A))), k3)"
    "krep k3 A2" "frame {a_cur A} k2 k3" "env_eq k2 k3"
    by (rule kernel_ecall_returns [OF rep bd, of SEM_WAIT_CODE s 0 0 0 ?Q], erule (1) call) blast
  have "frame {a_cur A} k k3" using frame_trans_same [OF frame_trans_same [OF r(1)] r(5)] r(2) by blast
  then show ?thesis
    using r s0 env_eq_trans [of k k2 k3] by (intro that [of k3])
      (simp_all add: sem_wait_call_def k_system_call_def to_c_int_def, simp_all add: env_eq_def)
qed

text \<open>A signal on a semaphore on which nobody waits.\<close>

lemma sem_signal_call_passes:
  assumes rep: "krep k A" and bd: "board_ok bd" and s: "s \<in> a_sems A" and v: "0 \<le> a_val A s" "a_val A s < 2 ^ 31 - 1"
    and W: "a_queue A (Waiting s) = []"
  obtains k' where "sem_signal_call (kernel_platform bd cs ci) s k = Some (0, k')" "krep k' (a_signal s A)"
    "frame {a_cur A} k k'" "env_eq k k'"
proof -
  let ?Q = "\<lambda>k1 k2 A2. A2 = a_signal s A \<and> env_eq k k2 \<and> frame {a_cur A} k1 k2 \<and> c_a0 (tcontext (tcbs k2 (a_cur A))) = 0"
  have s0: "s \<noteq> NULL" using sem_nonnull [OF krepD(1) [OF rep] s] by simp
  have cur: "a_cur (a_signal s A) = a_cur A" using v by (simp add: a_signal_def Let_def)
  have call: "\<exists>k2 A2. syscall SEM_SIGNAL_CODE s 0 0 0 k1 = Some (Returns (), k2) \<and> krep k2 A2 \<and> a_cur A2 = a_cur A \<and> ?Q k1 k2 A2"
    if k1: "krep k1 A" "env_eq k k1" for k1
  proof -
    obtain w where w: "sem_signal s k1 = Some (SIGNAL_SUCCESS, w)" "krep w (a_signal s A)"
      "woken False (if a_queue A (Waiting s) = [] then {} else {hd (a_queue A (Waiting s))})
         (set_value s (sem_value (sems k1 s) + 1) k1) w"
      by (rule sem_signal_rep [OF k1(1) s v(2)]) (use v W in auto)
    note a = set_a0_rep [OF w(2), of "int_to_u64 SIGNAL_SUCCESS", unfolded cur]
    let ?k2 = "w\<lparr>tcbs := (tcbs w)(a_cur A := (tcbs w (a_cur A))\<lparr>tcontext := (tcontext (tcbs w (a_cur A)))\<lparr>c_a0 := int_to_u64 SIGNAL_SUCCESS\<rparr>\<rparr>)\<rparr>"
    have "syscall SEM_SIGNAL_CODE s 0 0 0 k1 = Some (Returns (), ?k2)"
      using w(1) a(1) s0 by (simp add: syscall_def syscall_code_defs)
    moreover have "env_eq k1 w" using w(3) by (simp add: woken_def env_eq_def)
    moreover have "frame {a_cur A} k1 w" by (rule sem_signal_frame [OF w(1)])
    moreover have "frame {a_cur A} w ?k2" using set_a0_frame [OF a(1)] krepD(3) [OF w(2)] cur by simp
    ultimately show ?thesis
      using a(2) cur env_eq_trans [OF k1(2)] frame_trans_same
      by (intro exI [of _ ?k2] exI [of _ "a_signal s A"]) (auto simp: int_to_u64_def)
  qed
  obtain k1 k2 k3 A2 where r: "frame {a_cur A} k k1" "?Q k1 k2 A2"
    "kernel_ecall bd SEM_SIGNAL_CODE s 0 0 0 k = Some (c_a0 (tcontext (tcbs k2 (a_cur A))), k3)"
    "krep k3 A2" "frame {a_cur A} k2 k3" "env_eq k2 k3"
    by (rule kernel_ecall_returns [OF rep bd, of SEM_SIGNAL_CODE s 0 0 0 ?Q], erule (1) call) blast
  have "frame {a_cur A} k k3" using frame_trans_same [OF frame_trans_same [OF r(1)] r(5)] r(2) by blast
  then show ?thesis
    using r s0 env_eq_trans [of k k2 k3] by (intro that [of k3])
      (simp_all add: sem_signal_call_def k_system_call_def to_c_int_def)
qed

lemma Semaphore_wait_passes:
  assumes obj: "sem_object this s k A" and bd: "board_ok bd" and v: "0 < a_val A s"
  obtains k' where "Semaphore_wait (kernel_platform bd cs ci) this k = Some (0, k')" "sem_object this s k' (a_wait s A)"
    "frame {a_cur A} k k'"
proof -
  note o = sem_objectD [OF obj]
  obtain k' where k': "sem_wait_call (kernel_platform bd cs ci) s k = Some (0, k')" "krep k' (a_wait s A)"
    "frame {a_cur A} k k'" "user_cells k' = user_cells k"
    by (rule sem_wait_call_passes [OF o(1) bd o(2) v])
  have "a_sems (a_wait s A) = a_sems A" using v by (simp add: a_wait_def Let_def)
  then show ?thesis using k' o(2,3) by (intro that [of k']) (simp_all add: Semaphore_wait_def sem_object_def)
qed

text \<open>
  A wait on an exhausted semaphore does not come back: the caller is put behind the others that wait for the
  semaphore, and the first ready thread runs.
\<close>

lemma Semaphore_wait_blocks:
  assumes obj: "sem_object this s k A" and bd: "board_ok bd" and v: "a_val A s \<le> 0" "- (2 ^ 31) < a_val A s"
    and Q: "a_queue A Ready \<noteq> []"
  obtains k' where "kernel_call bd SEM_WAIT_CODE s 0 0 0 k = Some (Gives_up, k')" "krep k' (a_wait s A)"
    "a_cur (a_wait s A) \<noteq> a_cur A" "Semaphore_wait (kernel_platform bd cs ci) this k = None"
proof -
  note o = sem_objectD [OF obj]
  have other: "a_cur (a_wait s A) \<noteq> a_cur A"
  proof -
    have "a_cur (a_wait s A) \<in> set (a_queue A Ready)" using switch_heads(2) [OF Q, of s] v(1) Q by simp
    then show ?thesis using krepD(6) [OF o(1), of Ready] by auto
  qed
  have call: "\<exists>k2. syscall SEM_WAIT_CODE s 0 0 0 k1 = Some (Switches, k2) \<and> krep k2 (a_wait s A)"
    if k1: "krep k1 A" for k1
  proof -
    obtain k2 where "sem_wait KSemWait s k1 = Some (Switches, k2)" "krep k2 (a_wait s A)"
      by (rule sem_wait_block [OF k1 o(2) v Q])
    then show ?thesis
      using o(4) by (intro exI [of _ k2]) (simp add: syscall_def syscall_code_defs wait_then_def)
  qed
  obtain k' where k': "kernel_call bd SEM_WAIT_CODE s 0 0 0 k = Some (Gives_up, k')" "krep k' (a_wait s A)"
    by (rule kernel_call_blocks [OF o(1) bd call other])
  then have "kernel_ecall bd SEM_WAIT_CODE s 0 0 0 k = None" by (simp add: kernel_ecall_def)
  then have "Semaphore_wait (kernel_platform bd cs ci) this k = None"
    using o(3,4) by (simp add: Semaphore_wait_def sem_wait_call_def k_system_call_def)
  then show ?thesis by (rule that [OF k' other])
qed

text \<open>A program that waits \<open>n\<close> times.\<close>

fun Semaphore_waits :: "'s platform \<Rightarrow> addr \<Rightarrow> nat \<Rightarrow> 's \<Rightarrow> (int list \<times> 's) option" where
  "Semaphore_waits pf this 0 s = Some ([], s)"
| "Semaphore_waits pf this (Suc n) s = do {
     (r, s1) \<leftarrow> Semaphore_wait pf this s;
     (rs, s2) \<leftarrow> Semaphore_waits pf this n s1;
     Some (r # rs, s2)
   }"

lemma Semaphore_waits_pass:
  assumes "sem_object this s k A" "board_ok bd" "int n \<le> a_val A s"
  shows "\<exists>k' A'. Semaphore_waits (kernel_platform bd cs ci) this n k = Some (replicate n 0, k') \<and> sem_object this s k' A' \<and>
    a_val A' s = a_val A s - int n \<and> a_queue A' = a_queue A \<and> a_cur A' = a_cur A \<and> a_sems A' = a_sems A \<and>
    frame {a_cur A} k k'"
  using assms
proof (induction n arbitrary: k A)
  case (Suc n)
  have v: "0 < a_val A s" using Suc.prems(3) by simp
  obtain k1 where k1: "Semaphore_wait (kernel_platform bd cs ci) this k = Some (0, k1)" "sem_object this s k1 (a_wait s A)"
    "frame {a_cur A} k k1"
    by (rule Semaphore_wait_passes [OF Suc.prems(1,2) v])
  have w: "a_val (a_wait s A) s = a_val A s - 1" "a_queue (a_wait s A) = a_queue A" "a_cur (a_wait s A) = a_cur A"
    "a_sems (a_wait s A) = a_sems A"
    using v by (simp_all add: a_wait_def Let_def)
  have "int n \<le> a_val (a_wait s A) s" using Suc.prems(3) w(1) by simp
  from Suc.IH [OF k1(2) Suc.prems(2) this] obtain k' A' where
    r: "Semaphore_waits (kernel_platform bd cs ci) this n k1 = Some (replicate n 0, k')" "sem_object this s k' A'"
    "a_val A' s = a_val (a_wait s A) s - int n" "a_queue A' = a_queue A" "a_cur A' = a_cur A" "a_sems A' = a_sems A"
    "frame {a_cur A} k1 k'"
    unfolding w by blast
  then show ?case using k1(1) frame_trans_same [OF k1(3) r(7)] w by (intro exI [of _ k'] exI [of _ A']) simp
qed auto

text \<open>The destructor closes the semaphore and gives its memory back.\<close>

lemma Semaphore_destroys:
  assumes obj: "sem_object this s k A" and own: "owned k A" and bd: "board_ok bd"
    and live: "live_blocks (mem k) s \<noteq> None" "\<not> (\<exists>t \<in> user_threads k A. s \<in> set (thread_regions k t))"
  obtains k' where "Semaphore_dtor (kernel_platform bd cs ci) this k = Some k'" "krep k' (a_close_sem s A)"
    "owned k' (a_close_sem s A)" "mem_free_blocks s (mem k) = Some (MEM_SUCCESS, mem k')"
proof -
  note o = sem_objectD [OF obj]
  let ?A = "a_close_sem s A"
  let ?Q = "\<lambda>k1 k2 A2. A2 = ?A \<and> owned k2 ?A \<and> mem_free_blocks s (mem k) = Some (MEM_SUCCESS, mem k2)"
  have call: "\<exists>k2 A2. syscall SEM_CLOSE_CODE s 0 0 0 k1 = Some (Returns (), k2) \<and> krep k2 A2 \<and> a_cur A2 = a_cur A \<and> ?Q k1 k2 A2"
    if k1: "krep k1 A" "frame {a_cur A} k k1" for k1
  proof -
    note e = frameD [OF k1(2)]
    have own1: "owned k1 A" by (rule owned_frame [OF own k1(2)]) simp_all
    have "live_blocks (mem k1) s \<noteq> None" "\<not> (\<exists>t \<in> user_threads k1 A. s \<in> set (thread_regions k1 t))"
      using live by (simp_all add: e user_threads_def)
    from handle_sem_close_rep [OF k1(1) own1 o(2) this] obtain k2 where
      "handle_sem_close s k1 = Some k2" "krep k2 ?A" "owned k2 ?A" "mem_free_blocks s (mem k1) = Some (MEM_SUCCESS, mem k2)"
      by metis
    then show ?thesis using e(1) by (intro exI [of _ k2] exI [of _ ?A]) (simp add: syscall_def syscall_code_defs)
  qed
  obtain k1 k2 k3 A2 v where r: "?Q k1 k2 A2" "kernel_ecall bd SEM_CLOSE_CODE s 0 0 0 k = Some (v, k3)"
    "krep k3 A2" "frame {a_cur A} k2 k3"
    by (rule kernel_ecall_returns [OF o(1) bd, of SEM_CLOSE_CODE s 0 0 0 ?Q], erule (1) call) blast
  have "owned k3 ?A" by (rule owned_frame [of k2 ?A]) (use r in auto)
  then show ?thesis
    using r frameD(1) [OF r(4)] o(3,4) by (intro that [of k3])
      (simp_all add: Semaphore_dtor_def sem_close_call_def k_system_call_def)
qed

text \<open>The constructor opens the semaphore and keeps its handle in the object.\<close>

lemma Semaphore_opens:
  assumes rep: "krep k A" and own: "owned k A" and bd: "board_ok bd" and hn: "this + off_myHandle \<noteq> NULL"
    and room: "mem_alloc_blocks 1 (mem k) = Some (s, m)" "s \<noteq> NULL"
  obtains k' where "Semaphore_ctor (kernel_platform bd cs ci) this init k = Some k'"
    "sem_object this s k' (a_new_sem s (sint init) A)" "owned k' (a_new_sem s (sint init) A)" "s \<notin> a_sems A" "mem k' = m"
    "\<not> (\<exists>t \<in> user_threads k' (a_new_sem s (sint init) A). s \<in> set (thread_regions k' t))"
proof -
  let ?A = "a_new_sem s (sint init) A" and ?h = "this + off_myHandle"
  have u: "(ucast (ucast init :: u64) :: u32) = init" by (rule bit_word_eqI) (auto simp: bit_simps)
  let ?Q = "\<lambda>k1 k2 A2. A2 = ?A \<and> owned k2 ?A \<and> user_cells k2 ?h = s \<and> s \<notin> a_sems A \<and> mem k2 = m \<and> lay k2 = lay k \<and>
    (\<forall>t. join_sem (tcbs k2 t) = join_sem (tcbs k t))"
  have call: "\<exists>k2 A2. syscall SEM_OPEN_CODE ?h (ucast init) 0 0 k1 = Some (Returns (), k2) \<and> krep k2 A2 \<and> a_cur A2 = a_cur A \<and> ?Q k1 k2 A2"
    if k1: "krep k1 A" "frame {a_cur A} k k1" "env_eq k k1" for k1
  proof -
    have own1: "owned k1 A" by (rule owned_frame [OF own k1(2)]) simp_all
    have room1: "mem_alloc_blocks 1 (mem k1) = Some (s, m)" using room(1) k1(3) by (simp add: env_eq_def)
    obtain k2 where "handle_sem_open ?h (ucast init) k1 = Some k2" "krep k2 ?A" "owned k2 ?A" "user_cells k2 ?h = s" "s \<notin> a_sems A"
      "mem k2 = m" "lay k2 = lay k1" "\<And>t. join_sem (tcbs k2 t) = join_sem (tcbs k1 t)"
      using handle_sem_open_rep [OF k1(1) own1 hn room1 room(2), of "ucast init"] unfolding u by metis
    then show ?thesis using frameD(2,4) [OF k1(2)]
      by (intro exI [of _ k2] exI [of _ ?A]) (simp add: syscall_def syscall_code_defs)
  qed
  obtain k1 k2 k3 A2 v where r: "?Q k1 k2 A2"
    "kernel_ecall bd SEM_OPEN_CODE ?h (ucast init) 0 0 k = Some (v, k3)" "krep k3 A2" "frame {a_cur A} k2 k3" "env_eq k2 k3"
    by (rule kernel_ecall_returns [OF rep bd, of SEM_OPEN_CODE ?h "ucast init" 0 0 ?Q], erule (2) call) blast
  have own3: "owned k3 ?A" by (rule owned_frame [of k2 ?A]) (use r in auto)
  have "s \<notin> set (thread_regions k3 t)" if t: "t \<in> user_threads k3 ?A" for t
  proof
    assume "s \<in> set (thread_regions k3 t)"
    then have "s = join_sem (tcbs k t)" using ownedD(6) [OF own3 _ t] r(1) frameD(4) [OF r(4)] by auto
    moreover have "t \<in> user_threads k A" using t r(1) frameD(2) [OF r(4)] by (simp add: user_threads_def)
    ultimately show False using ownedD(3) [OF own] r(1) by blast
  qed
  moreover have "sem_object this s k3 ?A" using r by (simp add: sem_object_def env_eq_def)
  ultimately show ?thesis
    using r(1,2) own3 frameD(1) [OF r(4)] hn
    by (intro that [of k3]) (simp_all add: Semaphore_ctor_def sem_open_def k_system_call_def)
qed

text \<open>
  The life of a semaphore object: it lets \<open>n\<close> waits through, the next one blocks, and destroying it
  instead gives back the heap from before.
\<close>

lemma Semaphore_admits:
  assumes rep: "krep k A" and own: "owned k A" and bd: "board_ok bd" and hn: "this + off_myHandle \<noteq> NULL"
    and room: "mem_alloc_blocks 1 (mem k) = Some (s, m)" "s \<noteq> NULL" and init: "n < 2 ^ 31" and Q: "a_queue A Ready \<noteq> []"
  obtains k1 k2 k3 A3 k4 A4 where "Semaphore_ctor (kernel_platform bd cs ci) this (of_nat n) k = Some k1"
    "Semaphore_waits (kernel_platform bd cs ci) this n k1 = Some (replicate n 0, k2)"
    "user_cells k2 (this + off_myHandle) = s" "Semaphore_wait (kernel_platform bd cs ci) this k2 = None"
    "kernel_call bd SEM_WAIT_CODE s 0 0 0 k2 = Some (Gives_up, k4)" "krep k4 A4" "a_queue A4 (Waiting s) = [a_cur A]"
    "a_cur A4 = hd (a_queue A Ready)" "a_cur A4 \<noteq> a_cur A"
    "Semaphore_dtor (kernel_platform bd cs ci) this k2 = Some k3" "krep k3 A3" "owned k3 A3" "threads A3 = threads A"
    "a_sems A3 = a_sems A" "mem_free_blocks s m = Some (MEM_SUCCESS, mem k3)"
proof -
  have v: "sint (of_nat n :: u32) = int n"
    using init by (simp add: signed_of_nat signed_take_bit_int_eq_self)
  let ?A1 = "a_new_sem s (int n) A"
  obtain k1 where k1: "Semaphore_ctor (kernel_platform bd cs ci) this (of_nat n) k = Some k1"
    "sem_object this s k1 ?A1" "owned k1 ?A1" "s \<notin> a_sems A" "mem k1 = m"
    "\<not> (\<exists>t \<in> user_threads k1 ?A1. s \<in> set (thread_regions k1 t))"
    using Semaphore_opens [OF rep own bd hn room, where init = "of_nat n" and cs = cs and ci = ci] unfolding v by metis
  obtain k2 A2 where k2: "Semaphore_waits (kernel_platform bd cs ci) this n k1 = Some (replicate n 0, k2)"
    "sem_object this s k2 A2" "a_val A2 s = 0" "a_queue A2 = a_queue ?A1" "a_cur A2 = a_cur A" "a_sems A2 = a_sems ?A1"
    "frame {a_cur A} k1 k2"
    using Semaphore_waits_pass [OF k1(2) bd, of n cs ci] by auto
  note e = frameD [OF k2(7)]
  have q2: "a_queue A2 Ready = a_queue A Ready" "a_queue A2 Ready \<noteq> []" "\<not> 0 < a_val A2 s" using k2(3,4) Q by simp_all
  obtain k4 where k4: "kernel_call bd SEM_WAIT_CODE s 0 0 0 k2 = Some (Gives_up, k4)" "krep k4 (a_wait s A2)"
    "a_cur (a_wait s A2) \<noteq> a_cur A2" "Semaphore_wait (kernel_platform bd cs ci) this k2 = None"
    by (rule Semaphore_wait_blocks [OF k2(2) bd, where cs = cs and ci = ci]) (use k2(3) q2 in simp_all)
  obtain t ts where "a_queue A Ready = t # ts" using Q by (cases "a_queue A Ready") auto
  then have w: "a_queue (a_wait s A2) (Waiting s) = [a_cur A]" "a_cur (a_wait s A2) = hd (a_queue A Ready)"
    using k2(3-5) by (simp_all add: a_wait_def a_enq_def a_next_def Let_def)
  have thr: "threads A2 = threads ?A1" using k2(4-6) by (simp add: threads_def places_def)
  have own2: "owned k2 A2" by (rule owned_frame [OF k1(3) k2(7) thr k2(6)])
  have live: "live_blocks (mem k2) s \<noteq> None" using fresh_not_owned(6) [OF own room(1) _ room(2)] k1(5) e(1) by simp
  have apart: "\<not> (\<exists>t \<in> user_threads k2 A2. s \<in> set (thread_regions k2 t))"
    using k1(6) thr by (simp add: e user_threads_def)
  obtain k3 where k3: "Semaphore_dtor (kernel_platform bd cs ci) this k2 = Some k3" "krep k3 (a_close_sem s A2)"
    "owned k3 (a_close_sem s A2)" "mem_free_blocks s (mem k2) = Some (MEM_SUCCESS, mem k3)"
    by (rule Semaphore_destroys [OF k2(2) own2 bd live apart])
  have "threads (a_close_sem s A2) = threads A" "a_sems (a_close_sem s A2) = a_sems A"
    using thr k2(6) k1(4) by simp_all
  then show ?thesis
    using k1(1,5) k2(1,5) sem_objectD(3) [OF k2(2)] k4 w k3 e(1)
    by (intro that [of k1 k2 k4 "a_wait s A2" k3 "a_close_sem s A2"]) simp_all
qed

section \<open>Threads\<close>

lemma queued_nonnull: "krep k A \<Longrightarrow> q \<in> places A \<Longrightarrow> t \<in> set (a_queue A q) \<Longrightarrow> t \<noteq> NULL"
  using krep0D(1) [OF krepD(1), of k A] list_rep_distinct by (fastforce simp: queues_rep_def)

text \<open>
  A Thread object starts its thread once: the first start creates it, with the body and the argument
  that the constructor remembered; the handle in the object makes every later start fail.
\<close>

lemma Thread_starts_once:
  assumes rep: "krep k A" and own: "owned k A" and bd: "board_ok bd"
    and p: "this + off_myHandle \<noteq> NULL" "bdy \<noteq> 0"
    and heap: "alloc_rep (mem k) (us @ [Free n])" "\<forall>s \<in> set us. \<not> is_free s" "136 \<le> n"
  obtains t js k' where
    "Thread_start (kernel_platform bd cs ci) this (Thread_ctor (kernel_platform bd cs ci) this bdy arg k) = Some (0, k')"
    "krep k' (a_create t js A)" "owned k' (a_create t js A)" "t \<notin> threads A" "user_cells k' (this + off_myHandle) = t"
    "body (tcbs k' t) = bdy" "args (tcbs k' t) = arg"
    "Thread_start (kernel_platform bd cs ci) this k' = Some (THREAD_ALREADY_STARTED, k')"
proof -
  let ?pf = "kernel_platform bd cs ci" and ?h = "this + off_myHandle"
  let ?k0 = "Thread_ctor ?pf this bdy arg k"
  have k0: "?k0 = k\<lparr>user_cells := user_cells ?k0\<rparr>" by (simp add: Thread_ctor_def)
  have cells: "user_cells ?k0 ?h = 0" "user_cells ?k0 (this + off_body) = bdy" "user_cells ?k0 (this + off_arg) = arg"
    by (simp_all add: Thread_ctor_def off_myHandle_def off_body_def off_arg_def)
  have rep0: "krep ?k0 A" using rep by (subst k0) simp
  have "frame {a_cur A} k ?k0" by (subst k0) simp
  then have own0: "owned ?k0 A" by (rule owned_frame [OF own]) simp_all
  have "mem ?k0 = mem k" by (subst k0) simp
  then have heap0: "alloc_rep (mem ?k0) (us @ [Free n])" using heap(1) by simp
  obtain t js k' where c: "thread_create ?pf ?h bdy arg ?k0 = Some (0, k')" "krep k' (a_create t js A)"
    "owned k' (a_create t js A)" "t \<notin> threads A" "js \<notin> a_sems A" "user_cells k' ?h = t" "body (tcbs k' t) = bdy" "args (tcbs k' t) = arg"
    by (rule thread_create_rep [OF rep0 own0 bd p heap0 heap(2,3), where arg = arg and cs = cs and ci = ci]) blast
  have "t \<noteq> NULL"
    using queued_nonnull [OF c(2), of Ready t] by (simp add: a_create_def a_enq_def)
  then show ?thesis
    using c cells by (intro that [of k' t js]) (simp_all add: Thread_start_def)
qed

end
