(* ===== verification/Console_Library.thy ===== *)
theory Console_Library
  imports Console_Flow Cpp_Objects
begin

text \<open>
  The console of src/console.cpp and the panic message: numbers are printed as their decimal
  digits, a line is read with its deletions into an array in memory, and a fault is reported behind what is
  still buffered.  Reading a line is proved once for every terminal (\<open>line_terminal\<close>: a platform
  on which keys arrive and characters go out) and interpreted for the kernel.
\<close>

section \<open>Printing numbers\<close>

lemma print_digits_put_all: "print_digits pf number weight s = put_all pf (digits_loop number weight) s"
proof (induction pf number weight s rule: print_digits.induct)
  case (1 pf number weight s)
  then show ?case
    by (cases "weight = 0")
      (simp_all add: print_digits.simps [of pf number weight s] print_digits.simps [of pf number 0 s]
        digits_loop.simps [of number weight] digits_loop.simps [of number 0] split: option.splits)
qed

lemma length_decimal_chars: "length (decimal_chars number) \<le> 20"
proof -
  obtain m where m: "unat (get_decimal_weight number) = 10 ^ m" "10 ^ m \<le> max 1 (unat number)"
    using get_decimal_weight_power by blast
  have "m < 20"
  proof (rule ccontr)
    assume "\<not> m < 20"
    then have "(10 :: nat) ^ 20 \<le> 10 ^ m" by (intro power_increasing) simp_all
    then show False using m(2) unat_lt64 [of number] by (simp add: max_def split: if_splits)
  qed
  then show ?thesis using digits_loop_powers [OF m(1), of number] by (simp add: decimal_chars_def)
qed

section \<open>Reading a line\<close>

text \<open>
  The specification of the line editor: a printable character is appended, the delete key removes the last
  one, the enter key ends the line, and so does a full line.  The result is the line, the echo, and
  the input that is left; none when the input ends before the line.
\<close>

fun edit_line :: "nat \<Rightarrow> u8 list \<Rightarrow> u8 list \<Rightarrow> (u8 list \<times> u8 list \<times> u8 list) option" where
  "edit_line n line inp =
     (if n \<le> length line then Some (line, [], inp)
      else case inp of
        [] \<Rightarrow> None
      | c # cs \<Rightarrow>
          if c = DELETE_KEY
          then map_option (\<lambda>(out, echo, rest). (out, (if line = [] then [] else [8, 32, 8]) @ echo, rest)) (edit_line n (butlast line) cs)
          else if c = ENTER_KEY then Some (line, [10], cs)
          else map_option (\<lambda>(out, echo, rest). (out, c # echo, rest)) (edit_line n (line @ [c]) cs))"

declare edit_line.simps [simp del]

lemma ucast_u8_u64 [simp]: "(ucast (ucast (c :: u8) :: u64) :: u8) = c"
  by (rule bit_word_eqI) (auto simp: bit_simps)

lemma index_eq: "i < 2 ^ 64 \<Longrightarrow> j < 2 ^ 64 \<Longrightarrow> (of_nat i :: addr) = of_nat j \<longleftrightarrow> i = j"
proof -
  have "unat (of_nat m :: addr) = m" if "m < 2 ^ 64" for m using that by (simp add: unat_of_nat)
  then show "i < 2 ^ 64 \<Longrightarrow> j < 2 ^ 64 \<Longrightarrow> (of_nat i :: addr) = of_nat j \<longleftrightarrow> i = j" by metis
qed

text \<open>
  A terminal, as get_string uses it: \<open>at keys room s\<close> says that the characters \<open>keys\<close> have been
  typed and that \<open>room\<close> more can be echoed before the caller has to wait.
\<close>

locale line_terminal =
  fixes pf :: "'s platform" and at :: "u8 list \<Rightarrow> nat \<Rightarrow> 's \<Rightarrow> bool"
    and shown :: "'s \<Rightarrow> u8 list" and cells :: "'s \<Rightarrow> addr \<Rightarrow> u64"
  assumes getc_law: "at (c # cs) r s \<Longrightarrow>
      \<exists>s'. Console_getc pf s = Some (c, s') \<and> at cs r s' \<and> shown s' = shown s \<and> cells s' = cells s"
    and putc_law: "at cs (Suc r) s \<Longrightarrow>
      \<exists>s'. Console_putc pf c s = Some s' \<and> at cs r s' \<and> shown s' = shown s @ [c] \<and> cells s' = cells s"
    and load_law: "pf_load pf p s = cells s p"
    and store_law: "at cs r s \<Longrightarrow> at cs r (pf_store pf p v s)"
      "shown (pf_store pf p v s) = shown s" "cells (pf_store pf p v s) = (cells s)(p := v)"
begin

lemma put_all_shows:
  "at cs (length xs + r) s \<Longrightarrow> \<exists>s'. put_all pf xs s = Some s' \<and> at cs r s' \<and> shown s' = shown s @ xs \<and> cells s' = cells s"
proof (induction xs arbitrary: s)
  case (Cons x xs)
  then obtain s1 where s1: "Console_putc pf x s = Some s1" "at cs (length xs + r) s1" "shown s1 = shown s @ [x]" "cells s1 = cells s"
    using putc_law [of cs "length xs + r" s x] by auto
  from Cons.IH [OF s1(2)] s1 show ?case by auto
qed simp

text \<open>\<open>holds str xs s\<close>: the array holds the characters \<open>xs\<close> at its start.\<close>

definition holds :: "addr \<Rightarrow> u8 list \<Rightarrow> 's \<Rightarrow> bool" where
  "holds str xs s \<longleftrightarrow> (\<forall>i < length xs. cells s (str + of_nat i) = ucast (xs ! i))"

definition only_within :: "addr \<Rightarrow> nat \<Rightarrow> 's \<Rightarrow> 's \<Rightarrow> bool" where
  "only_within str n s s' \<longleftrightarrow> (\<forall>q. (\<forall>i \<le> n. q \<noteq> str + of_nat i) \<longrightarrow> cells s' q = cells s q)"

lemma set_char_cells:
  "cells (set_char pf str (int i) c s) = (cells s)(str + of_nat i := ucast c)"
  "char_at pf str (int i) (set_char pf str (int i) c s) = c"
  by (simp_all add: set_char_def char_at_def store_law load_law)

lemma only_within_trans: "only_within str n s s1 \<Longrightarrow> only_within str n s1 s2 \<Longrightarrow> only_within str n s s2"
  by (simp add: only_within_def)

lemma read_line_edits:
  assumes "at inp r s" "edit_line n line inp = Some (out, echo, rest)" "length echo \<le> r" "length line \<le> n"
    and "str \<noteq> NULL" "n < 2 ^ 64" "holds str line s" "cells s (str + of_nat n) = 0"
  shows "\<exists>s'. read_line pf str (int n) (int (length line)) s = Some s' \<and> at rest (r - length echo) s' \<and>
    shown s' = shown s @ echo \<and> length out \<le> n \<and> holds str out s' \<and> cells s' (str + of_nat (length out)) = 0 \<and>
    only_within str n s s'"
  using assms
proof (induction inp arbitrary: s line echo r)
  case Nil
  then have "n \<le> length line" "out = line" "echo = []" "rest = []" by (auto simp: edit_line.simps [of n line] split: if_splits)
  then show ?case using Nil.prems by (subst read_line.simps) (simp add: only_within_def)
next
  case (Cons c cs)
  note step = read_line.simps [of pf str "int n" "int (length line)" s]
  show ?case
  proof (cases "n \<le> length line")
    case True
    then have "out = line" "echo = []" "rest = c # cs" using Cons.prems(2) by (simp_all add: edit_line.simps [of n line])
    then show ?thesis using Cons.prems True by (subst read_line.simps) (simp add: only_within_def)
  next
    case False
    then have i: "length line < n" by simp
    let ?p = "str + of_nat (length line)"
    have ne: "str + of_nat n \<noteq> ?p" "\<And>j. j < length line \<Longrightarrow> str + of_nat j \<noteq> ?p"
      using i Cons.prems(6) index_eq by auto
    obtain s1 where s1: "Console_getc pf s = Some (c, s1)" "at cs r s1" "shown s1 = shown s" "cells s1 = cells s"
      using getc_law [OF Cons.prems(1)] by blast
    let ?s2 = "set_char pf str (int (length line)) c s1"
    have s2: "at cs r ?s2" "shown ?s2 = shown s" "cells ?s2 = (cells s)(?p := ucast c)"
      using store_law s1(2-4) by (simp_all add: set_char_cells) (simp_all add: set_char_def store_law)
    have w2: "only_within str n s ?s2" using i by (auto simp: only_within_def s2(3))
    have z2: "cells ?s2 (str + of_nat n) = 0" using ne(1) Cons.prems(8) by (simp add: s2(3))
    have h2: "holds str line ?s2" "holds str (line @ [c]) ?s2"
      using ne(2) Cons.prems(7) by (auto simp: holds_def s2(3) nth_append less_Suc_eq)
    have rd: "char_at pf str (int (length line)) ?s2 = c" by (rule set_char_cells(2))
    consider "c = DELETE_KEY" | "c = ENTER_KEY" "c \<noteq> DELETE_KEY" | "c \<noteq> ENTER_KEY" "c \<noteq> DELETE_KEY" by blast
    then show ?thesis
    proof cases
      case 1
      let ?bs = "if line = [] then [] else [8, 32, 8] :: u8 list"
      obtain echo' where e: "edit_line n (butlast line) cs = Some (out, echo', rest)" "echo = ?bs @ echo'"
        using Cons.prems(2) 1 i by (auto simp: edit_line.simps [of n line])
      have len: "length echo' \<le> r - length ?bs" "length ?bs + (r - length ?bs) = r" using Cons.prems(3) e(2) by auto
      obtain s3 where s3: "put_all pf ?bs ?s2 = Some s3" "at cs (r - length ?bs) s3" "shown s3 = shown s @ ?bs" "cells s3 = cells ?s2"
        using put_all_shows [of cs ?bs "r - length ?bs" ?s2] s2(1,2) unfolding len(2) by auto
      have h3: "holds str (butlast line) s3" using h2(1) by (auto simp: holds_def s3(4) nth_butlast)
      have z3: "cells s3 (str + of_nat n) = 0" using z2 s3(4) by simp
      have b: "length (butlast line) \<le> n" using i by simp
      have eq: "(if int (length line) \<ge> 2 then int (length line) - 2 else -1) + 1 = int (length (butlast line))"
        by (cases "length line \<ge> 2") (auto simp: of_nat_diff)
      from Cons.IH [OF s3(2) e(1) len(1) b Cons.prems(5,6) h3 z3] obtain s' where
        s': "read_line pf str (int n) (int (length (butlast line))) s3 = Some s'" "at rest (r - length ?bs - length echo') s'"
        "shown s' = shown s3 @ echo'" "length out \<le> n" "holds str out s'" "cells s' (str + of_nat (length out)) = 0" "only_within str n s3 s'"
        by blast
      have "read_line pf str (int n) (int (length line)) s = Some s'"
        using step i s1(1) 1 s3(1) s'(1) Cons.prems(5) rd unfolding eq [symmetric] by (cases "line = []") (simp_all add: Let_def)
      moreover have "only_within str n s s'" using only_within_trans [OF w2] s'(7) s3(4) by (simp add: only_within_def)
      ultimately show ?thesis using s'(2-6) s3(3) e(2) by (auto split: if_splits)
    next
      case 2
      have e: "out = line" "echo = [10]" "rest = cs" using Cons.prems(2) 2 i by (simp_all add: edit_line.simps [of n line])
      let ?s3 = "set_char pf str (int (length line)) 0 ?s2"
      have s3: "at cs r ?s3" "shown ?s3 = shown s" "cells ?s3 = (cells s)(?p := 0)"
        using store_law s2(1,2) by (simp_all add: set_char_cells s2(3)) (simp_all add: set_char_def store_law s1(3,4))
      have r: "r = Suc (r - 1)" using Cons.prems(3) e(2) by simp
      obtain s' where s': "Console_putc pf 10 ?s3 = Some s'" "at cs (r - 1) s'" "shown s' = shown s @ [10]" "cells s' = cells ?s3"
        using putc_law [of cs "r - 1" ?s3 10] s3(1,2) r by auto
      have "holds str line s'" using ne(2) Cons.prems(7) by (auto simp: holds_def s'(4) s3(3))
      moreover have "only_within str n s s'" using i by (auto simp: only_within_def s'(4) s3(3))
      ultimately show ?thesis
        using step i s1(1) 2 s' Cons.prems(5) rd s3(3) e by (simp add: Let_def)
    next
      case 3
      obtain echo' where e: "edit_line n (line @ [c]) cs = Some (out, echo', rest)" "echo = c # echo'"
        using Cons.prems(2) 3 i by (auto simp: edit_line.simps [of n line])
      have r: "r = Suc (r - 1)" "length echo' \<le> r - 1" using Cons.prems(3) e(2) by auto
      obtain s3 where s3: "Console_putc pf c ?s2 = Some s3" "at cs (r - 1) s3" "shown s3 = shown s @ [c]" "cells s3 = cells ?s2"
        using putc_law [of cs "r - 1" ?s2 c] s2(1,2) r(1) by auto
      have h3: "holds str (line @ [c]) s3" "cells s3 (str + of_nat n) = 0" using h2(2) z2 by (simp_all add: holds_def s3(4))
      have b: "length (line @ [c]) \<le> n" using i by simp
      from Cons.IH [OF s3(2) e(1) r(2) b Cons.prems(5,6) h3] obtain s' where
        s': "read_line pf str (int n) (int (length (line @ [c]))) s3 = Some s'" "at rest (r - 1 - length echo') s'"
        "shown s' = shown s3 @ echo'" "length out \<le> n" "holds str out s'" "cells s' (str + of_nat (length out)) = 0" "only_within str n s3 s'"
        by blast
      have "read_line pf str (int n) (int (length line)) s = Some s'"
        using step i s1(1) 3 s3(1) s'(1) Cons.prems(5) rd by (simp add: Let_def add.commute)
      moreover have "only_within str n s s'" using only_within_trans [OF w2] s'(7) s3(4) by (simp add: only_within_def)
      ultimately show ?thesis using s'(2-6) s3(3) e(2) by simp
    qed
  qed
qed

end

section \<open>The terminal of the kernel\<close>

text \<open>
  The calls that do not wait: a character that has been typed, and a character for which there is room.
\<close>

abbreviation out_queue :: "kstate \<Rightarrow> u8 list" where "out_queue k \<equiv> q_contents IO_BUFFER_SIZE (putc_buffer k)"
abbreviation in_queue :: "kstate \<Rightarrow> u8 list" where "in_queue k \<equiv> q_contents IO_BUFFER_SIZE (getc_buffer k)"

lemma Console_getc_passes:
  assumes rep: "krep k A" and bd: "board_ok bd" and s: "getc_sem (lay k) \<in> a_sems A" "0 < a_val A (getc_sem (lay k))"
    and q: "q_inv IO_BUFFER_SIZE (getc_buffer k)" "in_queue k = c # xs"
  obtains k' where "Console_getc (kernel_platform bd cs ci) k = Some (c, k')" "krep k' (a_wait (getc_sem (lay k)) A)"
    "frame {a_cur A} k k'" "user_cells k' = user_cells k" "putc_buffer k' = putc_buffer k" "tx_out k' = tx_out k"
    "q_inv IO_BUFFER_SIZE (getc_buffer k')" "in_queue k' = xs"
proof -
  let ?s = "getc_sem (lay k)" and ?b = "getc_buffer k"
  have get: "fst (q_get IO_BUFFER_SIZE ?b) = c" "q_inv IO_BUFFER_SIZE (snd (q_get IO_BUFFER_SIZE ?b))"
    "q_contents IO_BUFFER_SIZE (snd (q_get IO_BUFFER_SIZE ?b)) = xs"
    using ring.get_some [OF q] by simp_all
  let ?Q = "\<lambda>k1 k2 A2. A2 = a_wait ?s A \<and> env_eq (k\<lparr>getc_buffer := snd (q_get IO_BUFFER_SIZE ?b)\<rparr>) k2 \<and> frame {a_cur A} k1 k2 \<and>
    c_a0 (tcontext (tcbs k2 (a_cur A))) = ucast c"
  have cur: "a_cur (a_wait ?s A) = a_cur A" using s(2) by (simp add: a_wait_def Let_def)
  have call: "\<exists>k2 A2. syscall GET_C_CODE 0 0 0 0 k1 = Some (Returns (), k2) \<and> krep k2 A2 \<and> a_cur A2 = a_cur A \<and> ?Q k1 k2 A2"
    if k1: "krep k1 A" "env_eq k k1" for k1
  proof -
    have e: "lay k1 = lay k" "getc_buffer k1 = ?b" using k1(2) by (simp_all add: env_eq_def)
    let ?w = "k1\<lparr>sems := (sems k1)(?s := (sems k1 ?s)\<lparr>sem_value := sem_value (sems k1 ?s) - 1\<rparr>)\<rparr>"
    let ?g = "?w\<lparr>getc_buffer := snd (q_get IO_BUFFER_SIZE ?b)\<rparr>"
    have w: "sem_wait KGetC ?s k1 = Some (Returns WAIT_SUCCESS, ?w)" "krep ?w (a_wait ?s A)" using sem_wait_pass [OF k1(1) s] by auto
    have g: "krep ?g (a_wait ?s A)" using w(2) by simp
    note a = set_a0_rep [OF g, of "ucast c", unfolded cur]
    let ?k2 = "?g\<lparr>tcbs := (tcbs ?g)(a_cur A := (tcbs ?g (a_cur A))\<lparr>tcontext := (tcontext (tcbs ?g (a_cur A)))\<lparr>c_a0 := ucast c\<rparr>\<rparr>)\<rparr>"
    have "syscall GET_C_CODE 0 0 0 0 k1 = Some (Returns (), ?k2)"
      using w(1) a(1) e get(1) by (simp add: syscall_def syscall_code_defs wait_then_def after_wait_def case_prod_beta)
    moreover have "frame {a_cur A} k1 ?k2" using set_a0_frame [OF a(1)] krepD(3) [OF g] cur by simp
    ultimately show ?thesis
      using a(2) cur k1(2) by (intro exI [of _ ?k2] exI [of _ "a_wait ?s A"]) (simp add: env_eq_def)
  qed
  obtain k1 k2 k3 A2 where r: "frame {a_cur A} k k1" "?Q k1 k2 A2"
    "kernel_ecall bd GET_C_CODE 0 0 0 0 k = Some (c_a0 (tcontext (tcbs k2 (a_cur A))), k3)"
    "krep k3 A2" "frame {a_cur A} k2 k3" "env_eq k2 k3"
    by (rule kernel_ecall_returns [OF rep bd, of GET_C_CODE 0 0 0 0 ?Q], erule (1) call) blast
  have fr: "frame {a_cur A} k k3" using frame_trans_same [OF frame_trans_same [OF r(1)] r(5)] r(2) by blast
  have "Console_getc (kernel_platform bd cs ci) k = Some (c, k3)"
    using r(2,3) by (simp add: Console_getc_def getc_def k_system_call_def)
  then show ?thesis using r(2,4,6) fr get by (intro that [of k3]) (simp_all add: env_eq_def)
qed

lemma Console_putc_passes:
  assumes rep: "krep k A" and bd: "board_ok bd" and s: "putc_sem (lay k) \<in> a_sems A" "0 < a_val A (putc_sem (lay k))"
    and q: "q_inv IO_BUFFER_SIZE (putc_buffer k)" "length (out_queue k) < IO_BUFFER_SIZE"
  obtains k' where "Console_putc (kernel_platform bd cs ci) c k = Some k'" "krep k' (a_wait (putc_sem (lay k)) A)"
    "frame {a_cur A} k k'" "user_cells k' = user_cells k" "getc_buffer k' = getc_buffer k" "tx_out k' = tx_out k"
    "q_inv IO_BUFFER_SIZE (putc_buffer k')" "out_queue k' = out_queue k @ [c]"
proof -
  let ?s = "putc_sem (lay k)" and ?b = "putc_buffer k"
  have put: "q_inv IO_BUFFER_SIZE (q_put IO_BUFFER_SIZE c ?b)" "q_contents IO_BUFFER_SIZE (q_put IO_BUFFER_SIZE c ?b) = out_queue k @ [c]"
    using ring.put_room [OF q] by simp_all
  let ?Q = "\<lambda>k1 k2 A2. A2 = a_wait ?s A \<and> env_eq (k\<lparr>putc_buffer := q_put IO_BUFFER_SIZE c ?b\<rparr>) k2 \<and> frame {a_cur A} k1 k2"
  have cur: "a_cur (a_wait ?s A) = a_cur A" using s(2) by (simp add: a_wait_def Let_def)
  have call: "\<exists>k2 A2. syscall PUT_C_CODE (ucast c) 0 0 0 k1 = Some (Returns (), k2) \<and> krep k2 A2 \<and> a_cur A2 = a_cur A \<and> ?Q k1 k2 A2"
    if k1: "krep k1 A" "env_eq k k1" for k1
  proof -
    have e: "lay k1 = lay k" "putc_buffer k1 = ?b" using k1(2) by (simp_all add: env_eq_def)
    let ?w = "k1\<lparr>sems := (sems k1)(?s := (sems k1 ?s)\<lparr>sem_value := sem_value (sems k1 ?s) - 1\<rparr>)\<rparr>"
    let ?g = "?w\<lparr>putc_buffer := q_put IO_BUFFER_SIZE c ?b\<rparr>"
    have w: "sem_wait (KPutC c) ?s k1 = Some (Returns WAIT_SUCCESS, ?w)" "krep ?w (a_wait ?s A)" using sem_wait_pass [OF k1(1) s] by auto
    have "krep ?g (a_wait ?s A)" using w(2) by simp
    moreover have "syscall PUT_C_CODE (ucast c) 0 0 0 k1 = Some (Returns (), ?g)"
      using w(1) e by (simp add: syscall_def syscall_code_defs wait_then_def after_wait_def)
    ultimately show ?thesis
      using cur k1(2) by (intro exI [of _ ?g] exI [of _ "a_wait ?s A"]) (simp add: env_eq_def)
  qed
  obtain k1 k2 k3 A2 v where r: "frame {a_cur A} k k1" "?Q k1 k2 A2"
    "kernel_ecall bd PUT_C_CODE (ucast c) 0 0 0 k = Some (v, k3)"
    "krep k3 A2" "frame {a_cur A} k2 k3" "env_eq k2 k3"
    by (rule kernel_ecall_returns [OF rep bd, of PUT_C_CODE "ucast c" 0 0 0 ?Q], erule (1) call) blast
  have fr: "frame {a_cur A} k k3" using frame_trans_same [OF frame_trans_same [OF r(1)] r(5)] r(2) by blast
  have "Console_putc (kernel_platform bd cs ci) c k = Some k3"
    using r(2,3) by (simp add: Console_putc_def putc_def k_system_call_def)
  then show ?thesis using r(2,4,6) fr put by (intro that [of k3]) (simp_all add: env_eq_def)
qed

text \<open>
  The running thread of \<open>B\<close> at the console: it may take the characters \<open>inp\<close> and put \<open>r\<close> characters;
  \<open>later\<close> are typed characters that are promised to other threads.  Nothing else has changed since \<open>k0\<close>.
\<close>

definition typing :: "board \<Rightarrow> kstate \<Rightarrow> sched \<Rightarrow> u8 list \<Rightarrow> u8 list \<Rightarrow> nat \<Rightarrow> kstate \<Rightarrow> bool" where
  "typing bd k0 B later inp r k \<longleftrightarrow> board_ok bd \<and> frame {a_cur B} k0 k \<and>
     putc_sem (lay k) \<in> a_sems B \<and> getc_sem (lay k) \<in> a_sems B \<and> putc_sem (lay k) \<noteq> getc_sem (lay k) \<and>
     krep k (B\<lparr>a_val := (a_val B)(getc_sem (lay k) := int (length inp), putc_sem (lay k) := int r)\<rparr>) \<and>
     q_inv IO_BUFFER_SIZE (getc_buffer k) \<and> q_inv IO_BUFFER_SIZE (putc_buffer k) \<and>
     in_queue k = inp @ later \<and> length (out_queue k) + r \<le> IO_BUFFER_SIZE"

interpretation kernel_line: line_terminal "kernel_platform bd cs ci" "typing bd k0 B later" out_stream user_cells
  for bd cs ci k0 B later
proof unfold_locales
  fix c :: u8 and xs r and k :: kstate
  let ?A = "\<lambda>inp r. B\<lparr>a_val := (a_val B)(getc_sem (lay k) := int (length inp), putc_sem (lay k) := int r)\<rparr>"
  {
    assume t: "typing bd k0 B later (c # xs) r k"
    have ne: "getc_sem (lay k) \<noteq> putc_sem (lay k)" using t by (auto simp: typing_def)
    have w: "a_wait (getc_sem (lay k)) (?A (c # xs) r) = ?A xs r"
      using ne by (simp add: a_wait_def Let_def fun_upd_twist)
    obtain k' where k': "Console_getc (kernel_platform bd cs ci) k = Some (c, k')" "krep k' (?A xs r)"
      "frame {a_cur B} k k'" "user_cells k' = user_cells k" "putc_buffer k' = putc_buffer k" "tx_out k' = tx_out k"
      "q_inv IO_BUFFER_SIZE (getc_buffer k')" "in_queue k' = xs @ later"
      by (rule Console_getc_passes [of k "?A (c # xs) r" bd c "xs @ later", unfolded w, where cs = cs and ci = ci])
        (use t ne in \<open>simp_all add: typing_def\<close>)
    have "lay k' = lay k" "frame {a_cur B} k0 k'" using frameD(2) [OF k'(3)] frame_trans_same [OF _ k'(3)] t by (auto simp: typing_def)
    then show "\<exists>k'. Console_getc (kernel_platform bd cs ci) k = Some (c, k') \<and> typing bd k0 B later xs r k' \<and>
        out_stream k' = out_stream k \<and> user_cells k' = user_cells k"
      using t k' by (intro exI [of _ k']) (simp add: typing_def out_stream_def)
  next
    fix inp
    assume t: "typing bd k0 B later inp (Suc r) k"
    have w: "a_wait (putc_sem (lay k)) (?A inp (Suc r)) = ?A inp r" by (simp add: a_wait_def Let_def)
    obtain k' where k': "Console_putc (kernel_platform bd cs ci) c k = Some k'" "krep k' (?A inp r)"
      "frame {a_cur B} k k'" "user_cells k' = user_cells k" "getc_buffer k' = getc_buffer k" "tx_out k' = tx_out k"
      "q_inv IO_BUFFER_SIZE (putc_buffer k')" "out_queue k' = out_queue k @ [c]"
      by (rule Console_putc_passes [of k "?A inp (Suc r)" bd, unfolded w, where cs = cs and ci = ci and c = c])
        (use t in \<open>simp_all add: typing_def\<close>)
    have "lay k' = lay k" "frame {a_cur B} k0 k'" using frameD(2) [OF k'(3)] frame_trans_same [OF _ k'(3)] t by (auto simp: typing_def)
    then show "\<exists>k'. Console_putc (kernel_platform bd cs ci) c k = Some k' \<and> typing bd k0 B later inp r k' \<and>
        out_stream k' = out_stream k @ [c] \<and> user_cells k' = user_cells k"
      using t k' by (intro exI [of _ k']) (simp add: typing_def out_stream_def)
  }
qed (simp_all add: typing_def out_stream_def)

section \<open>The whole of get_string\<close>

lemma to_blocks_covers: "0 < n \<Longrightarrow> n < 2 ^ 32 \<Longrightarrow> n \<le> 64 * unat (to_blocks (of_nat n))"
proof -
  assume n: "0 < n" "n < 2 ^ 32"
  have u: "unat (of_nat n :: u64) = n" using n(2) by (simp add: unat_of_nat)
  have "unat (to_blocks (of_nat n)) = (n + 63) div 64"
    using unat_to_blocks_small [of "of_nat n"] n(2) unfolding u by simp
  then show ?thesis by simp
qed

lemma array_end:
  assumes m: "store_ok m" and b: "live_blocks m p = Some b" "n < 64 * b"
  shows "unat (p + of_nat n) = unat p + n"
proof -
  have "unat p + n < 2 ^ 64" using store.live_region [OF m b(1)] b(2) by linarith
  moreover from this have "unat (of_nat n :: addr) = n" by (simp add: unat_of_nat)
  ultimately show ?thesis by (simp add: unat_add_no_wrap)
qed

lemma get_string_passes:
  assumes inv: "kinv f k A" and fl: "flow_ok k A" and bd: "board_ok bd"
    and lock: "user_cells k ci \<noteq> 0" "ci < heap_start (mem k)" "cs \<in> a_sems A" "a_val A cs = 1"
      "cs \<noteq> putc_sem (lay k)" "cs \<noteq> getc_sem (lay k)"
    and al: "mem_alloc_blocks (to_blocks (of_nat (n + 1))) (mem k) = Some (p, m)" "p \<noteq> NULL" "n < 2 ^ 31 - 1"
    and ed: "edit_line n [] (take (nat (a_val A (getc_sem (lay k)))) (in_queue k)) = Some (out, echo, rest)"
    and room: "0 \<le> a_val A (getc_sem (lay k))" "int (length echo) \<le> a_val A (putc_sem (lay k))"
  defines "A' \<equiv> A\<lparr>a_val := (a_val A)(getc_sem (lay k) := int (length rest), putc_sem (lay k) := a_val A (putc_sem (lay k)) - int (length echo))\<rparr>"
  obtains k' where "Console_get_string (kernel_platform bd cs ci) (int n) k = Some (p, k')" "krep k' A'" "frame {a_cur A} (k\<lparr>mem := m\<rparr>) k'"
    "length out \<le> n" "\<forall>i < length out. user_cells k' (p + of_nat i) = ucast (out ! i)" "user_cells k' (p + of_nat (length out)) = 0"
    "\<forall>q. (\<forall>i \<le> n. q \<noteq> p + of_nat i) \<longrightarrow> user_cells k' q = user_cells k q"
    "out_stream k' = out_stream k @ echo" "in_queue k' = rest @ drop (nat (a_val A (getc_sem (lay k)))) (in_queue k)"
    "live_blocks m p = Some (unat (to_blocks (of_nat (n + 1))))" "n < 64 * unat (to_blocks (of_nat (n + 1)))"
proof -
  let ?pf = "kernel_platform bd cs ci" and ?g = "getc_sem (lay k)" and ?p = "putc_sem (lay k)" and ?b = "to_blocks (of_nat (n + 1))"
  let ?inp = "take (nat (a_val A ?g)) (in_queue k)" and ?later = "drop (nat (a_val A ?g)) (in_queue k)"
  note rep = kinvD(1) [OF inv] and own = kinvD(3) [OF inv] and F = flow_ok_fields [OF fl]
  have big: "n < 64 * unat ?b" using to_blocks_covers [of "n + 1"] al(3) by simp
  then have b0: "0 < ?b" by (auto simp: word_gt_0)
  note fr = fresh_not_owned [OF own al(1) b0 al(2)]
  have live: "live_blocks m p = Some (unat ?b)" using fr(8) by simp
  have bytes: "word_of_int (int n + 1) = (of_nat (n + 1) :: u64)" by simp
  obtain k1 where k1: "kernel_ecall bd MEM_ALLOC_CODE (ucast ?b) 0 0 0 k = Some (p, k1)" "krep k1 A"
    "frame {a_cur A} (k\<lparr>mem := m\<rparr>) k1" "env_eq (k\<lparr>mem := m\<rparr>) k1"
    by (rule alloc_call [OF rep bd al(1)])
  have new: "operator_new_array ?pf (word_of_int (int n + 1)) k = Some (p, k1)"
    unfolding operator_new_array_def mem_alloc_def bytes using k1(1) by (simp add: k_system_call_def)
  let ?k2 = "k1\<lparr>user_cells := (user_cells k)(p + of_nat n := 0)\<rparr>"
  have set: "set_char ?pf p (int n) 0 k1 = ?k2" using k1(4) by (simp add: set_char_def env_eq_def)
  have "heap_start m \<le> p" by (rule live_above_start [OF fr(7,6)])
  moreover have "heap_start m = heap_start (mem k)" by (rule mem_alloc_start [OF al(1)])
  moreover have "unat (p + of_nat n) = unat p + n" by (rule array_end [OF fr(7) live big])
  ultimately have ci: "ci \<noteq> p + of_nat n" using lock(2) by (auto simp: word_less_nat_alt word_le_nat_alt)
  have r2: "krep ?k2 A" using k1(2) by simp
  have v: "0 < a_val A cs" using lock(4) by simp
  obtain k3 where k3: "sem_wait_call ?pf cs ?k2 = Some (0, k3)" "krep k3 (a_wait cs A)" "frame {a_cur A} ?k2 k3"
    "user_cells k3 = user_cells ?k2" "env_eq ?k2 k3"
    by (rule sem_wait_call_passes [OF r2 bd lock(3) v, where cs = cs and ci = ci])
  have lk: "console_lock ?pf ?k2 = Some k3" using ci lock(1) k3(1) by (simp add: console_lock_def kernel_platform_def)
  have e3: "lay k3 = lay k" "getc_buffer k3 = getc_buffer k" "putc_buffer k3 = putc_buffer k" "tx_out k3 = tx_out k"
    using k3(5) k1(4) by (simp_all add: env_eq_def)
  let ?B = "a_wait cs A" and ?r = "nat (a_val A ?p)"
  have B: "?B = A\<lparr>a_val := (a_val A)(cs := 0)\<rparr>" using lock(4) by (simp add: a_wait_def Let_def)
  have len: "int (length ?inp) = a_val A ?g"
  proof -
    have "nat (a_val A ?g) \<le> q_count (getc_buffer k)" using F(6) by (simp add: q_get_length_def)
    then show ?thesis using room(1) by simp
  qed
  have fe: "(a_val A)(cs := 0, ?g := a_val A ?g, ?p := a_val A ?p) = (a_val A)(cs := 0)"
    using lock(5,6) by (auto simp: fun_eq_iff)
  have "A\<lparr>a_val := (a_val A)(cs := 0)\<rparr> = ?B\<lparr>a_val := (a_val ?B)(?g := int (length ?inp), ?p := int ?r)\<rparr>"
    unfolding len using room fe by (simp add: B)
  then have t: "typing bd k3 ?B ?later ?inp ?r k3"
    using bd k3(2) F e3 ownedD(11,12) [OF own] room by (simp add: typing_def B q_get_length_def)
  have h: "kernel_line.holds p [] k3" by (simp add: kernel_line.holds_def)
  have z: "user_cells k3 (p + of_nat n) = 0" using k3(4) by simp
  have n64: "n < 2 ^ 64" using al(3) by simp
  have lr: "length echo \<le> ?r" using room(2) by simp
  obtain k4 where k4: "read_line ?pf p (int n) (int (length ([] :: u8 list))) k3 = Some k4" "typing bd k3 ?B ?later rest (?r - length echo) k4"
    "out_stream k4 = out_stream k3 @ echo" "length out \<le> n" "kernel_line.holds p out k4" "user_cells k4 (p + of_nat (length out)) = 0"
    "kernel_line.only_within p n k3 k4"
    using kernel_line.read_line_edits [OF t ed lr _ al(2) n64 h z, of cs ci] by auto
  note T = k4(2) [unfolded typing_def]
  have fr4: "frame {a_cur A} k3 k4" using T by (simp add: B)
  have e4: "lay k4 = lay k" using frameD(2) [OF fr4] e3(1) by simp
  let ?C = "?B\<lparr>a_val := (a_val ?B)(?g := int (length rest), ?p := int (?r - length echo))\<rparr>"
  have r4: "krep k4 ?C" using T e4 by simp
  have c: "cs \<in> a_sems ?C" "a_val ?C cs = 0" "a_queue ?C (Waiting cs) = []"
    using lock(3-6) counters_okD [OF kinvD(2) [OF inv] lock(3)] by (simp_all add: B)
  have c0: "0 \<le> a_val ?C cs" "a_val ?C cs < 2 ^ 31 - 1" unfolding c(2) by simp_all
  obtain k5 where k5: "sem_signal_call ?pf cs k4 = Some (0, k5)" "krep k5 (a_signal cs ?C)" "frame {a_cur ?C} k4 k5" "env_eq k4 k5"
    by (rule sem_signal_call_passes [OF r4 bd c(1) c0 c(3), where cs = cs and ci = ci])
  have "a_signal cs ?C = A'"
    using lock(4-6) room(2) by (simp add: a_signal_def A'_def B c(2) fun_upd_twist fun_upd_idem)
  then have r5: "krep k5 A'" using k5(2) by simp
  have "frame {a_cur A} k3 k5" using frame_trans_same [OF fr4] k5(3) by (simp add: B)
  moreover have "frame {a_cur A} (k\<lparr>mem := m\<rparr>) k3"
    using frame_trans_same [OF k1(3), of k3] k3(3) by simp
  ultimately have fr5: "frame {a_cur A} (k\<lparr>mem := m\<rparr>) k5" using frame_trans_same by blast
  have run: "Console_get_string ?pf (int n) k = Some (p, k5)"
    using new set lk k4(1) k5(1) al(2) by (simp add: Console_get_string_def console_unlock_def kernel_platform_def)
  have cells: "user_cells k5 = user_cells k4" using k5(4) by (simp add: env_eq_def)
  have hold: "\<forall>i < length out. user_cells k5 (p + of_nat i) = ucast (out ! i)"
    using k4(5) by (simp add: kernel_line.holds_def cells)
  have only: "\<forall>q. (\<forall>i \<le> n. q \<noteq> p + of_nat i) \<longrightarrow> user_cells k5 q = user_cells k q"
    using k4(7) k3(4) by (simp add: kernel_line.only_within_def cells)
  have "out_stream k5 = out_stream k @ echo" "in_queue k5 = rest @ ?later"
    using k4(3) k5(4) e3 T by (simp_all add: env_eq_def out_stream_def)
  then show ?thesis by (intro that [OF run r5 fr5 k4(4) hold _ only]) (use k4(6) live big in \<open>simp_all add: cells\<close>)
qed

section \<open>The panic message\<close>

lemma length_panic_message: "length (panic_message c) \<le> 42"
  by (simp add: panic_message_def chars_of_def Let_def)

text \<open>
  A flush sends what the transmitter takes; the message goes behind what is left, as far as there is room,
  and the second flush sends what the transmitter takes of that.
\<close>

lemma kernel_panic_rep:
  fixes stat1 stat2 :: "nat \<Rightarrow> u8" and c pc :: u64
  assumes inv: "kinv f k A" and fl: "flow_ok k A"
  defines "sz \<equiv> IO_BUFFER_SIZE"
  defines "B \<equiv> q_contents sz (putc_buffer k)"
  defines "n1 \<equiv> tx_ready stat1 (length B)"
  defines "Q \<equiv> take sz (drop n1 B @ panic_message c @ decimal_chars pc @ [10])"
  defines "n2 \<equiv> tx_ready stat2 (length Q)"
  obtains k' where "kernel_panic stat1 stat2 c pc k = Some (Halts, k')"
    "tx_out k' = tx_out k @ take n1 B @ take n2 Q" "q_contents sz (putc_buffer k') = drop n2 Q"
proof -
  let ?s = "putc_sem (lay k)" and ?msg = "panic_message c @ decimal_chars pc @ [10]"
  note F = flow_ok_fields [OF fl]
  have s: "?s \<in> a_sems A" by (rule ownedD(11) [OF kinvD(3) [OF inv]])
  have lB: "q_get_length (putc_buffer k) = length B" by (simp add: B_def q_get_length_def)
  then have n1: "n1 = tx_ready stat1 (q_get_length (putc_buffer k))" by (simp add: n1_def)
  have v: "a_val A ?s + int (length B) \<le> 2048" "n1 \<le> length B"
    using F(5) tx_ready_le [of stat1 "length B"] by (simp_all add: IO_BUFFER_SIZE_def lB n1_def)
  then have v1: "a_val A ?s + int n1 < 2 ^ 31" by simp
  obtain k1 where k1: "flush_putc_buffer stat1 k = Some k1" "krep k1 (a_signals ?s n1 A)"
    "counters_ok (a_signals ?s n1 A)" "frame {} k k1" "cpu_of k1 = cpu_of k" "getc_buffer k1 = getc_buffer k"
    "q_get_length (putc_buffer k1) = q_get_length (putc_buffer k) - n1"
    "q_inv sz (putc_buffer k) \<Longrightarrow> q_inv sz (putc_buffer k1) \<and> tx_out k1 = tx_out k @ take n1 (q_contents sz (putc_buffer k)) \<and>
       q_contents sz (putc_buffer k1) = drop n1 (q_contents sz (putc_buffer k))"
    unfolding sz_def by (rule flush_putc_buffer_rep [OF kinvD(1,2) [OF inv] s n1 v1]) blast
  have b1: "q_inv sz (putc_buffer k1)" "tx_out k1 = tx_out k @ take n1 B" "q_contents sz (putc_buffer k1) = drop n1 B"
    using k1(8) F(1) by (simp_all add: B_def sz_def)
  let ?k4 = "put_chars [10] (put_chars (decimal_chars pc) (put_chars (panic_message c) k1))"
  have k4: "?k4 = k1\<lparr>putc_buffer := fold (q_put sz) ?msg (putc_buffer k1)\<rparr>" by (simp add: put_chars_def sz_def)
  have b4: "q_inv sz (putc_buffer ?k4)" "q_contents sz (putc_buffer ?k4) = Q"
    using ring.put_all [OF b1(1), of ?msg] unfolding k4 by (simp_all add: b1(3) Q_def)
  have n2: "n2 = tx_ready stat2 (q_get_length (putc_buffer ?k4))"
    using arg_cong [OF b4(2), of length] by (simp add: n2_def q_get_length_def)
  have r4: "krep ?k4 (a_signals ?s n1 A)" using k1(2) by (simp add: k4)
  have lay: "lay ?k4 = lay k" using frameD(2) [OF k1(4)] by (simp add: k4)
  have "length Q \<le> 2048" unfolding Q_def sz_def IO_BUFFER_SIZE_def length_take by (rule min.cobounded2)
  then have "n2 \<le> 2048" using tx_ready_le [of stat2 "length Q"] by (simp add: n2_def)
  then have s4: "putc_sem (lay ?k4) \<in> a_sems (a_signals ?s n1 A)"
    and v4: "a_val (a_signals ?s n1 A) (putc_sem (lay ?k4)) + int n2 < 2 ^ 31"
    using s v unfolding lay by simp_all
  obtain k5 where k5: "flush_putc_buffer stat2 ?k4 = Some k5"
    "q_inv sz (putc_buffer ?k4) \<Longrightarrow> q_inv sz (putc_buffer k5) \<and>
       tx_out k5 = tx_out ?k4 @ take n2 (q_contents sz (putc_buffer ?k4)) \<and>
       q_contents sz (putc_buffer k5) = drop n2 (q_contents sz (putc_buffer ?k4))"
    unfolding sz_def by (rule flush_putc_buffer_rep [OF r4 k1(3) s4 n2 v4]) blast
  have "tx_out k5 = tx_out k @ take n1 B @ take n2 Q" "q_contents sz (putc_buffer k5) = drop n2 Q"
    using k5(2) [OF b4(1)] b1(2) unfolding b4(2) by (simp_all add: k4)
  moreover have "kernel_panic stat1 stat2 c pc k = Some (Halts, k5)"
    using k1(1) k5(1) by (simp add: kernel_panic_def Let_def)
  ultimately show ?thesis by (intro that)
qed

end
