(* ===== verification/Kernel_Semaphore_Runs.thy ===== *)
theory Kernel_Semaphore_Runs
  imports Kernel_Traces
begin

text \<open>
  What a semaphore promises over a run: its counter is the balance of the waits and the signals, so
  the number of waits that have been let through is bounded by the counter and the signals, and
  nobody waits while there is something left.
\<close>

unbundle bit_operations_syntax

section \<open>Waits and signals of an event\<close>

definition asks :: "addr \<Rightarrow> kstate \<Rightarrow> event \<Rightarrow> nat" where
  "asks s k e = (case e of
     Ecall code p0 p1 p2 p3 \<Rightarrow> of_bool
       (code = SEM_WAIT_CODE \<and> p0 = s \<or> code = THREAD_JOIN_CODE \<and> p0 \<noteq> NULL \<and> join_sem (tcbs k p0) = s \<or>
        code = GET_C_CODE \<and> getc_sem (lay k) = s \<or> code = PUT_C_CODE \<and> putc_sem (lay k) = s)
   | _ \<Rightarrow> 0)"

definition gives :: "addr \<Rightarrow> kstate \<Rightarrow> event \<Rightarrow> nat" where
  "gives s k e = (case e of
     Ecall code p0 p1 p2 p3 \<Rightarrow> of_bool (code = SEM_SIGNAL_CODE \<and> p0 = s)
   | Console_interrupt stat data \<Rightarrow> of_bool (getc_sem (lay k) = s \<and> stat AND CONSOLE_RX_STATUS_BIT \<noteq> 0 \<and>
       q_get_length (getc_buffer k) < IO_BUFFER_SIZE)
   | Flush stat \<Rightarrow> (if putc_sem (lay k) = s then tx_ready stat (q_get_length (putc_buffer k)) else 0)
   | _ \<Rightarrow> 0)"

definition closes :: "addr \<Rightarrow> kstate \<Rightarrow> event \<Rightarrow> bool" where
  "closes s k e \<longleftrightarrow> (case e of
     Ecall code p0 p1 p2 p3 \<Rightarrow> code = SEM_CLOSE_CODE \<and> p0 = s \<or>
       code = THREAD_EXIT_CODE \<and> current_tcb k \<noteq> main_tcb (lay k) \<and> join_sem (tcbs k (current_tcb k)) = s
   | _ \<Rightarrow> False)"

lemma balance_fields [simp]:
  "a_val (a_next A) = a_val A" "a_val (a_dispatch A) = a_val A" "a_sems (a_dispatch A) = a_sems A"
  "a_val (a_sleep t n A) = a_val A" "a_sems (a_sleep t n A) = a_sems A"
  "a_val (a_wait s A) = (a_val A)(s := a_val A s - 1)" "a_sems (a_wait s A) = a_sems A"
  "a_val (a_exit s A) = a_val A" "a_sems (a_exit s A) = a_sems A - {s}"
  "a_val (a_tick A) = a_val A"
  by (auto simp: a_next_def a_dispatch_def a_enq_def a_sleep_def a_wait_def a_exit_def a_drop_sem_def a_close_def a_tick_def Let_def
      split: list.splits)

lemma call_balance:
  assumes inv: "kinv f k A" and may: "may_call f k A code p0 p1 p3" and c: "A' \<in> call_step k code p0 p1 p3 A"
    and s: "s \<in> a_sems A" "\<not> closes s k (Ecall code p0 p1 p2 p3)"
  shows "s \<in> a_sems A' \<and> a_val A' s = a_val A s + int (gives s k (Ecall code p0 p1 p2 p3)) - int (asks s k (Ecall code p0 p1 p2 p3))"
proof -
  have cur: "current_tcb k = a_cur A" using krepD(2) [OF kinvD(1) [OF inv]] .
  have s0: "s \<noteq> NULL" using sem_nonnull [OF krepD(1) [OF kinvD(1) [OF inv]] s(1)] by simp
  have fresh: "\<not> thread_room k t st s m" for t st m
    using thread_room_fresh [OF kinvD(3) [OF inv], of t st s m] s(1) by auto
  have fresh': "u \<noteq> s" if "code = SEM_OPEN_CODE" "p0 \<noteq> NULL" "mem_alloc_blocks 1 (mem k) = Some (u, m)" for u m
  proof -
    have "u \<noteq> NULL" using may that by (auto simp: may_call_def syscall_code_defs)
    from room_sem [OF that(3) this kinvD(3) [OF inv]] show ?thesis using s(1) by auto
  qed
  consider "code = CREATE_THREAD_CODE" | "code = THREAD_EXIT_CODE" | "code = THREAD_DISPATCH_CODE" | "code = THREAD_JOIN_CODE"
    | "code = SEM_OPEN_CODE" | "code = SEM_CLOSE_CODE" | "code = SEM_WAIT_CODE" | "code = SEM_SIGNAL_CODE"
    | "code = TIME_SLEEP_CODE" | "code = GET_C_CODE" | "code = PUT_C_CODE"
    | (other) "code \<notin> {CREATE_THREAD_CODE, THREAD_EXIT_CODE, THREAD_DISPATCH_CODE, THREAD_JOIN_CODE, SEM_OPEN_CODE,
        SEM_CLOSE_CODE, SEM_WAIT_CODE, SEM_SIGNAL_CODE, TIME_SLEEP_CODE, GET_C_CODE, PUT_C_CODE}" by blast
  then show ?thesis
  proof cases
    case other
    then show ?thesis using c s by (simp add: call_step_def asks_def gives_def)
  qed (use c s s0 fresh fresh' cur in \<open>auto simp: call_step_def asks_def gives_def closes_def syscall_code_defs split: if_splits\<close>)
qed

lemma event_balance:
  assumes inv: "kinv f k A" and ok: "permitted f k A e" and A': "A' \<in> event_step k e A"
    and s: "s \<in> a_sems A" "\<not> closes s k e"
  shows "s \<in> a_sems A' \<and> a_val A' s = a_val A s + int (gives s k e) - int (asks s k e)"
proof (cases e)
  case (Ecall code p0 p1 p2 p3)
  then show ?thesis using call_balance [OF inv, of code p0 p1 p3 A' s p2] assms by (simp add: permitted_def event_step_def)
next
  case (Flush stat)
  then show ?thesis using A' s by (auto simp: event_step_def asks_def gives_def)
qed (use A' s in \<open>auto simp: event_step_def asks_def gives_def split: if_splits\<close>)

section \<open>The queue of a semaphore\<close>

text \<open>
  Signals take the threads that wait from the front, waits append to the end, and nothing else happens
  to the queue of a semaphore that stays open: \<open>fifo_step n m\<close> is n removals and at most m insertions.
\<close>

definition fifo_step :: "nat \<Rightarrow> nat \<Rightarrow> 'a list \<Rightarrow> 'a list \<Rightarrow> bool" where
  "fifo_step n m xs ys \<longleftrightarrow> (\<exists>zs. ys = drop n xs @ zs \<and> length zs \<le> m)"

lemma fifo_step_refl [simp]: "fifo_step 0 m xs xs"
  by (simp add: fifo_step_def)

lemma fifo_step_trans:
  assumes "fifo_step n m xs ys" "fifo_step n' m' ys zs"
  shows "fifo_step (n + n') (m + m') xs zs"
proof -
  obtain us vs where "ys = drop n xs @ us" "length us \<le> m" "zs = drop n' ys @ vs" "length vs \<le> m'"
    using assms by (auto simp: fifo_step_def)
  then have "zs = drop (n + n') xs @ drop (n' - length (drop n xs)) us @ vs"
    "length (drop (n' - length (drop n xs)) us @ vs) \<le> m + m'"
    by (simp_all add: add.commute)
  then show ?thesis unfolding fifo_step_def by blast
qed

lemma fifo_step_sets: "fifo_step n 0 xs ys \<Longrightarrow> set ys \<subseteq> set xs" "fifo_step 0 m xs ys \<Longrightarrow> set xs \<subseteq> set ys"
  by (auto simp: fifo_step_def dest: in_set_dropD)

lemma waiting_fields [simp]:
  "a_queue (a_next A) (Waiting s) = a_queue A (Waiting s)" "a_queue (a_dispatch A) (Waiting s) = a_queue A (Waiting s)"
  "a_queue (a_tick A) (Waiting s) = a_queue A (Waiting s)" "a_queue (a_sleep t n A) (Waiting s) = a_queue A (Waiting s)"
  "u \<noteq> s \<Longrightarrow> a_queue (a_exit u A) (Waiting s) = a_queue A (Waiting s)"
  "u \<noteq> s \<Longrightarrow> a_queue (a_create t u A) (Waiting s) = a_queue A (Waiting s)"
  by (auto simp: a_next_def a_dispatch_def a_enq_def a_sleep_def a_exit_def a_drop_sem_def a_close_def a_tick_def a_create_def
      Let_def split: list.splits)

lemma wait_fifo: "fifo_step 0 (of_bool (u = s)) (a_queue A (Waiting s)) (a_queue (a_wait u A) (Waiting s))"
  by (auto simp: fifo_step_def a_wait_def a_enq_def Let_def)

lemma signal_fifo:
  assumes "counters_ok A" "s \<in> a_sems A"
  shows "fifo_step (of_bool (u = s)) 0 (a_queue A (Waiting s)) (a_queue (a_signal u A) (Waiting s))"
proof (cases "u = s")
  case True
  then show ?thesis using counters_okD [OF assms]
    by (cases "a_queue A (Waiting s)") (auto simp: fifo_step_def a_signal_def a_unblock_def a_enq_def Let_def)
qed (auto simp: a_signal_def a_unblock_def a_enq_def Let_def split: list.splits)

lemma signals_fifo:
  assumes "counters_ok A" "s \<in> a_sems A"
  shows "fifo_step (if u = s then n else 0) 0 (a_queue A (Waiting s)) (a_queue (a_signals u n A) (Waiting s))"
  using assms
proof (induction n arbitrary: A)
  case (Suc n)
  have i: "counters_ok (a_signal u A)" "s \<in> a_sems (a_signal u A)"
    using counters_ok_signal [OF Suc.prems(1), of u] Suc.prems(2)
    by (auto simp: a_signal_def a_unblock_def a_enq_def Let_def split: list.splits)
  show ?case using fifo_step_trans [OF signal_fifo [OF Suc.prems, of u] Suc.IH [OF i]] by (simp split: if_splits)
qed simp

lemma call_fifo:
  assumes inv: "kinv f k A" and may: "may_call f k A code p0 p1 p3" and c: "A' \<in> call_step k code p0 p1 p3 A"
    and s: "s \<in> a_sems A" "\<not> closes s k (Ecall code p0 p1 p2 p3)"
  shows "fifo_step (gives s k (Ecall code p0 p1 p2 p3)) (asks s k (Ecall code p0 p1 p2 p3))
    (a_queue A (Waiting s)) (a_queue A' (Waiting s))"
proof -
  have cur: "current_tcb k = a_cur A" using krepD(2) [OF kinvD(1) [OF inv]] .
  note sig = signal_fifo [OF kinvD(2) [OF inv] s(1)]
  consider "code = THREAD_EXIT_CODE" | "code = THREAD_JOIN_CODE" | (other) "code \<noteq> THREAD_EXIT_CODE" "code \<noteq> THREAD_JOIN_CODE" by blast
  then show ?thesis
  proof cases
    case 1
    then show ?thesis using c s(2) cur
      by (auto simp: call_step_def closes_def gives_def asks_def syscall_code_defs split: if_splits)
  next
    case 2
    then show ?thesis using c wait_fifo [of "join_sem (tcbs k p0)" s A]
      by (auto simp: call_step_def gives_def asks_def syscall_code_defs split: if_splits)
  next
    case other
    from inv may c show ?thesis
    proof (cases rule: call_step_cases)
      case same
      show ?thesis
      proof (cases "code = SEM_SIGNAL_CODE \<and> p0 = s")
        case True
        then have "A' = a_signal s A" using c sem_nonnull [OF krepD(1) [OF kinvD(1) [OF inv]] s(1)]
          by (simp add: call_step_def syscall_code_defs)
        then show ?thesis using sig [of s] True by (simp add: gives_def asks_def syscall_code_defs)
      qed (use same in \<open>auto simp: gives_def\<close>)
    next
      case (create t st js m)
      then have "js \<noteq> s" using s(1) by auto
      then show ?thesis using create by (simp add: gives_def syscall_code_defs)
    next
      case (new u v)
      then have "u \<noteq> s" using s(1) by auto
      then show ?thesis using new by (simp add: gives_def syscall_code_defs)
    next
      case close
      then have "p0 \<noteq> s" using s(2) by (auto simp: closes_def)
      then show ?thesis using close by (simp add: gives_def syscall_code_defs)
    next
      case wait
      then show ?thesis using wait_fifo [of p0 s A] by (simp add: gives_def asks_def syscall_code_defs)
    next
      case signal
      then show ?thesis using sig [of p0] by (simp add: gives_def asks_def syscall_code_defs)
    next
      case getc
      then show ?thesis using wait_fifo [of "getc_sem (lay k)" s A] by (simp add: gives_def asks_def syscall_code_defs)
    next
      case putc
      then show ?thesis using wait_fifo [of "putc_sem (lay k)" s A] by (simp add: gives_def asks_def syscall_code_defs)
    qed (use other in \<open>simp_all add: gives_def syscall_code_defs\<close>)
  qed
qed

lemma event_fifo:
  assumes inv: "kinv f k A" and ok: "permitted f k A e" and A': "A' \<in> event_step k e A"
    and s: "s \<in> a_sems A" "\<not> closes s k e"
  shows "fifo_step (gives s k e) (asks s k e) (a_queue A (Waiting s)) (a_queue A' (Waiting s))"
proof (cases e)
  case (Ecall code p0 p1 p2 p3)
  then show ?thesis using call_fifo [OF inv, of code p0 p1 p3 A' s p2] assms by (simp add: permitted_def event_step_def)
next
  case (Flush stat)
  then show ?thesis using A' signals_fifo [OF kinvD(2) [OF inv] s(1), of "putc_sem (lay k)"]
    by (simp add: event_step_def gives_def asks_def)
next
  case (Console_interrupt stat data)
  then show ?thesis using A' signal_fifo [OF kinvD(2) [OF inv] s(1), of "getc_sem (lay k)"]
    by (auto simp: event_step_def gives_def asks_def split: if_splits)
qed (use A' in \<open>auto simp: event_step_def gives_def asks_def split: if_splits\<close>)

section \<open>Runs that keep a semaphore open\<close>

text \<open>The run counts the waits and the signals on the semaphore.\<close>

inductive sem_run :: "board \<Rightarrow> addr \<Rightarrow> addr \<Rightarrow> kstate \<Rightarrow> sched \<Rightarrow> nat \<Rightarrow> nat \<Rightarrow> kstate \<Rightarrow> sched \<Rightarrow> bool"
  for bd f s where
  sem_run_nil: "sem_run bd f s k A 0 0 k A"
| sem_run_cons: "\<lbrakk>permitted f k A e; run_event bd e k = Some k1; A1 \<in> event_step k e A; \<not> closes s k e;
     sem_run bd f s k1 A1 w g k2 A2\<rbrakk> \<Longrightarrow> sem_run bd f s k A (asks s k e + w) (gives s k e + g) k2 A2"

lemma sem_run_is_run: "sem_run bd f s k A w g k' A' \<Longrightarrow> \<exists>es. kernel_run bd f k A es k' A'"
  by (induction rule: sem_run.induct) (auto intro: run_nil run_cons)

lemma sem_run_balance:
  assumes "sem_run bd f s k A w g k' A'" "board_ok bd" "kinv f k A" "s \<in> a_sems A"
  shows "s \<in> a_sems A' \<and> a_val A' s = a_val A s + int g - int w"
  using assms
proof (induction rule: sem_run.induct)
  case (sem_run_cons k A e k1 A1 w g k2 A2)
  note b = event_balance [OF sem_run_cons.prems(2) sem_run_cons.hyps(1,3) sem_run_cons.prems(3) sem_run_cons.hyps(4)]
  have "kinv f k1 A1" by (rule run_event_inv(1) [OF sem_run_cons.prems(2,1) sem_run_cons.hyps(1-3)])
  from sem_run_cons.IH [OF sem_run_cons.prems(1) this] b show ?case by simp
qed simp

text \<open>First come, first served: signals wake the waiting threads in order, and nobody overtakes.\<close>

lemma sem_run_fifo:
  assumes "sem_run bd f s k A w g k' A'" "board_ok bd" "kinv f k A" "s \<in> a_sems A"
  shows "fifo_step g w (a_queue A (Waiting s)) (a_queue A' (Waiting s))"
  using assms
proof (induction rule: sem_run.induct)
  case (sem_run_cons k A e k1 A1 w g k2 A2)
  note b = event_balance [OF sem_run_cons.prems(2) sem_run_cons.hyps(1,3) sem_run_cons.prems(3) sem_run_cons.hyps(4)]
  note f = event_fifo [OF sem_run_cons.prems(2) sem_run_cons.hyps(1,3) sem_run_cons.prems(3) sem_run_cons.hyps(4)]
  have "kinv f k1 A1" by (rule run_event_inv(1) [OF sem_run_cons.prems(2,1) sem_run_cons.hyps(1-3)])
  from sem_run_cons.IH [OF sem_run_cons.prems(1) this] b show ?case by (intro fifo_step_trans [OF f]) simp
qed simp

text \<open>The waits that were let through: those that were called, and are not waiting any more.\<close>

definition let_through :: "addr \<Rightarrow> sched \<Rightarrow> nat \<Rightarrow> sched \<Rightarrow> int" where
  "let_through s A w A' = int (length (a_queue A (Waiting s))) + int w - int (length (a_queue A' (Waiting s)))"

lemma sem_run_admits:
  assumes "sem_run bd f s k A w g k' A'" "board_ok bd" "kinv f k A" "s \<in> a_sems A"
  shows "let_through s A w A' \<le> max 0 (a_val A s) + int g"
    and "a_queue A' (Waiting s) \<noteq> [] \<Longrightarrow> let_through s A w A' = max 0 (a_val A s) + int g"
proof -
  note b = sem_run_balance [OF assms]
  obtain es where "kernel_run bd f k A es k' A'" using sem_run_is_run [OF assms(1)] by blast
  then have inv': "kinv f k' A'" using kernel_run_invariant assms(2,3) by blast
  have n: "length (a_queue A (Waiting s)) = nat (- a_val A s)" "length (a_queue A' (Waiting s)) = nat (- a_val A' s)"
    using kinvD(2) [OF assms(3)] kinvD(2) [OF inv'] assms(4) b by (simp_all add: counters_ok_def)
  show "let_through s A w A' \<le> max 0 (a_val A s) + int g" using b n by (simp add: let_through_def)
  show "let_through s A w A' = max 0 (a_val A s) + int g" if "a_queue A' (Waiting s) \<noteq> []"
    using b n counters_okD [OF kinvD(2) [OF inv'], of s] that by (simp add: let_through_def)
qed

end
