(* ===== verification/Console_Lock.thy ===== *)
theory Console_Lock
  imports Kernel_Semaphore_Runs Cpp_Objects
begin

text \<open>
  The lock of src/console.cpp between threads.  The threads are preempted anywhere, so console_lock is
  a state machine: a test of \<open>initialized\<close>, the initialisation of the semaphore, the assignment, and the
  system call, with events of the kernel in between.  Once \<open>initialized\<close> is set the lock excludes;
  its initialisation on first use is a race.
\<close>

section \<open>The steps of the lock\<close>

text \<open>
  Where a thread is: outside the lock, after having found \<open>initialized\<close> false, after the
  initialisation, before the call of sem_wait, and after that call.  A thread that has called sem_wait
  is past the lock unless it is in the queue of the semaphore.  The initialisation counts as one step.
\<close>

datatype lock_pc = Outside | Found_unset | Has_initialized | Calls_wait | Called_wait

type_synonym lock_state = "kstate \<times> sched \<times> (addr \<Rightarrow> lock_pc)"

text \<open>
  Besides, threads may do anything that is permitted, except using the two static variables of
  src/console.cpp.
\<close>

definition minds_lock :: "addr \<Rightarrow> addr \<Rightarrow> kstate \<Rightarrow> event \<Rightarrow> kstate \<Rightarrow> bool" where
  "minds_lock cs ci k e k1 \<longleftrightarrow> asks cs k e = 0 \<and> gives cs k e = 0 \<and> \<not> closes cs k e \<and>
     user_cells k1 ci = user_cells k ci"

inductive lock_step :: "board \<Rightarrow> addr \<Rightarrow> addr \<Rightarrow> addr \<Rightarrow> lock_state \<Rightarrow> lock_state \<Rightarrow> bool" for bd f cs ci where
  lock_test: "pc (a_cur A) = Outside \<Longrightarrow>
     lock_step bd f cs ci (k, A, pc) (k, A, pc(a_cur A := if user_cells k ci = 0 then Found_unset else Calls_wait))"
| lock_initialize: "pc (a_cur A) = Found_unset \<Longrightarrow> sem_initialize cs 1 k = Some k1 \<Longrightarrow>
     lock_step bd f cs ci (k, A, pc) (k1, a_new_sem cs 1 A, pc(a_cur A := Has_initialized))"
| lock_assign: "pc (a_cur A) = Has_initialized \<Longrightarrow>
     lock_step bd f cs ci (k, A, pc) (k\<lparr>user_cells := (user_cells k)(ci := 1)\<rparr>, A, pc(a_cur A := Calls_wait))"
| lock_wait: "\<lbrakk>pc (a_cur A) = Calls_wait; permitted f k A (Ecall SEM_WAIT_CODE cs 0 0 0);
     run_event bd (Ecall SEM_WAIT_CODE cs 0 0 0) k = Some k1\<rbrakk> \<Longrightarrow>
     lock_step bd f cs ci (k, A, pc) (k1, a_wait cs A, pc(a_cur A := Called_wait))"
| lock_signal: "\<lbrakk>pc (a_cur A) = Called_wait; permitted f k A (Ecall SEM_SIGNAL_CODE cs 0 0 0);
     run_event bd (Ecall SEM_SIGNAL_CODE cs 0 0 0) k = Some k1\<rbrakk> \<Longrightarrow>
     lock_step bd f cs ci (k, A, pc) (k1, a_signal cs A, pc(a_cur A := Outside))"
| lock_other: "\<lbrakk>permitted f k A e; run_event bd e k = Some k1; A1 \<in> event_step k e A; minds_lock cs ci k e k1\<rbrakk> \<Longrightarrow>
     lock_step bd f cs ci (k, A, pc) (k1, A1, pc)"


text \<open>The threads past the lock: between console_lock and console_unlock.\<close>

definition past_lock :: "addr \<Rightarrow> lock_state \<Rightarrow> addr \<Rightarrow> bool" where
  "past_lock cs = (\<lambda>(k, A, pc) t. pc t = Called_wait \<and> t \<notin> set (a_queue A (Waiting cs)))"

section \<open>The memory of the user\<close>

text \<open>The system calls of semaphores store nothing in the memory of the user.\<close>

lemma after_wait_cells: "after_wait cont r k = Some k' \<Longrightarrow> user_cells k' = user_cells k"
  by (auto simp: after_wait_def dest!: cells.set_a0_same split: kcont.splits prod.splits)

lemma wait_then_cells: "wait_then cont s k = Some (fl, k') \<Longrightarrow> user_cells k' = user_cells k"
  by (auto simp: wait_then_def dest!: cells.sem_wait_same after_wait_cells split: bind_splits flow.splits)

lemma leave_trap_cells:
  assumes "leave_trap rw e (fl, k) = Some (u, k')"
  shows "user_cells k' = user_cells k"
proof -
  have "user_cells k2 = user_cells k1" if "resume_current rw k1 = Some k2" for k1 k2
    using that by (auto simp: resume_current_def Let_def dest!: after_wait_cells cells.trap_exit_same cells.k_tcb_start_same
        split: kcont.splits bind_splits)
  then show ?thesis
    using assms by (auto simp: leave_trap_def dest!: cells.trap_exit_same split: flow.splits)
qed

lemma sem_event_cells:
  assumes inv: "kinv f k A" and bd: "board_ok bd" and ok: "permitted f k A (Ecall code p0 p1 p2 p3)"
    and code: "code = SEM_WAIT_CODE \<or> code = SEM_SIGNAL_CODE"
    and run: "run_event bd (Ecall code p0 p1 p2 p3) k = Some k'"
  shows "user_cells k' = user_cells k"
proof -
  obtain k1 where k1: "k_ecall_trap (bd_run_wrapper bd) (bd_stat bd) (bd_stat bd)
        (k\<lparr>cpu_of := enter_ecall bd code p0 p1 p2 p3 (cpu_of k)\<rparr>) =
       (syscall code p0 p1 p2 p3 k1 \<bind> leave_trap (bd_run_wrapper bd) True)" "env_eq k k1"
    using ecall_enter [OF kinvD(1) [OF inv] bd] by metis
  obtain fl k2 u where k2: "syscall code p0 p1 p2 p3 k1 = Some (fl, k2)" "leave_trap (bd_run_wrapper bd) True (fl, k2) = Some (u, k')"
    using run k1(1) by (auto simp: run_event_def split: bind_splits)
  have "user_cells k2 = user_cells k1"
    using k2(1) code by (auto simp: syscall_def syscall_code_defs
        dest!: wait_then_cells cells.sem_signal_same cells.set_a0_same split: if_splits bind_splits)
  then show ?thesis using leave_trap_cells [OF k2(2)] k1(2) by (simp add: env_eq_def)
qed

section \<open>Mutual exclusion\<close>

text \<open>
  Once the lock is initialised, its counter is one minus the number of threads that have called
  sem_wait and not yet sem_signal, and everyone in its queue is one of these threads.
\<close>

definition callers :: "(addr \<Rightarrow> lock_pc) \<Rightarrow> addr set" where
  "callers pc = {t. pc t = Called_wait}"

lemma callers_upd: "callers (pc(t := x)) = (if x = Called_wait then insert t (callers pc) else callers pc - {t})"
  by (auto simp: callers_def)

definition lock_inv :: "addr \<Rightarrow> addr \<Rightarrow> addr \<Rightarrow> lock_state \<Rightarrow> bool" where
  "lock_inv f cs ci = (\<lambda>(k, A, pc). kinv f k A \<and> cs \<in> a_sems A \<and> user_cells k ci \<noteq> 0 \<and>
     finite (callers pc) \<and> a_val A cs = 1 - int (card (callers pc)) \<and> set (a_queue A (Waiting cs)) \<subseteq> callers pc \<and>
     (\<forall>t. pc t \<noteq> Found_unset \<and> pc t \<noteq> Has_initialized))"

lemma lock_inv_card:
  assumes inv: "lock_inv f cs ci (k, A, pc)"
  shows "card (callers pc - set (a_queue A (Waiting cs))) = min 1 (card (callers pc))" "finite (callers pc)"
    "set (a_queue A (Waiting cs)) \<subseteq> callers pc"
proof -
  let ?W = "set (a_queue A (Waiting cs))"
  have i: "kinv f k A" "cs \<in> a_sems A" "finite (callers pc)" "a_val A cs = 1 - int (card (callers pc))" "?W \<subseteq> callers pc"
    using inv by (auto simp: lock_inv_def)
  have "distinct (a_queue A (Waiting cs))"
    by (rule queues_repD(3) [OF krep0D(1) [OF krepD(1) [OF kinvD(1) [OF i(1)]]]]) (use i(2) in simp)
  then have "card ?W = card (callers pc) - 1"
    using kinvD(2) [OF i(1)] i(2,4) by (simp add: counters_ok_def distinct_card)
  then show "card (callers pc - ?W) = min 1 (card (callers pc))"
    using card_Diff_subset [OF finite_subset [OF i(5,3)] i(5)] by simp
qed (use inv in \<open>auto simp: lock_inv_def\<close>)

lemma past_lock_iff: "past_lock cs (k, A, pc) t \<longleftrightarrow> t \<in> callers pc - set (a_queue A (Waiting cs))"
  by (auto simp: past_lock_def callers_def)

lemma lock_inv_excludes:
  assumes "lock_inv f cs ci (k, A, pc)" "past_lock cs (k, A, pc) t" "past_lock cs (k, A, pc) u"
  shows "t = u"
proof -
  have "card (callers pc - set (a_queue A (Waiting cs))) \<le> Suc 0" using lock_inv_card(1) [OF assms(1)] by simp
  then show ?thesis
    using assms(2,3) lock_inv_card(2) [OF assms(1)] unfolding past_lock_iff by (metis card_le_Suc0_iff_eq finite_Diff)
qed

lemma lock_inv_held:
  assumes inv: "lock_inv f cs ci (k, A, pc)" and W: "a_queue A (Waiting cs) \<noteq> []"
  shows "\<exists>t. past_lock cs (k, A, pc) t"
proof -
  have "callers pc \<noteq> {}" using lock_inv_card(3) [OF inv] W by auto
  then have "1 \<le> card (callers pc)" using lock_inv_card(2) [OF inv] by (simp add: Suc_le_eq card_gt_0_iff)
  then have "card (callers pc - set (a_queue A (Waiting cs))) = 1" using lock_inv_card(1) [OF inv] by linarith
  then show ?thesis unfolding past_lock_iff by (auto simp: card_1_singleton_iff)
qed

lemma lock_inv_event:
  assumes inv: "lock_inv f cs ci (k, A, pc)" and bd: "board_ok bd" and ok: "permitted f k A e"
    and run: "run_event bd e k = Some k1" and A1: "A1 \<in> event_step k e A" and minds: "minds_lock cs ci k e k1"
  shows "lock_inv f cs ci (k1, A1, pc)"
proof -
  have i: "kinv f k A" "cs \<in> a_sems A" using inv by (auto simp: lock_inv_def)
  have m: "asks cs k e = 0" "gives cs k e = 0" "\<not> closes cs k e" "user_cells k1 ci = user_cells k ci"
    using minds by (simp_all add: minds_lock_def)
  show ?thesis
    using inv run_event_inv(1) [OF i(1) bd ok run A1] event_balance [OF i(1) ok A1 i(2) m(3)]
      fifo_step_sets(1) [OF event_fifo [OF i(1) ok A1 i(2) m(3), unfolded m(1)]] m by (auto simp: lock_inv_def)
qed

lemma lock_inv_wait:
  assumes inv: "lock_inv f cs ci (k, A, pc)" and bd: "board_ok bd" and pc: "pc (a_cur A) = Calls_wait"
    and ok: "permitted f k A (Ecall SEM_WAIT_CODE cs 0 0 0)" and run: "run_event bd (Ecall SEM_WAIT_CODE cs 0 0 0) k = Some k1"
  shows "lock_inv f cs ci (k1, a_wait cs A, pc(a_cur A := Called_wait))"
proof -
  have i: "kinv f k A" "cs \<in> a_sems A" using inv by (auto simp: lock_inv_def)
  have "cs \<noteq> NULL" using sem_nonnull [OF krepD(1) [OF kinvD(1) [OF i(1)]] i(2)] by simp
  then have "a_wait cs A \<in> event_step k (Ecall SEM_WAIT_CODE cs 0 0 0) A"
    by (simp add: event_step_def call_step_def syscall_code_defs)
  then have "kinv f k1 (a_wait cs A)" using run_event_inv(1) [OF i(1) bd ok run] by blast
  moreover have "a_cur A \<notin> callers pc" using pc by (simp add: callers_def)
  moreover have "user_cells k1 = user_cells k" using sem_event_cells [OF i(1) bd ok _ run] by blast
  ultimately show ?thesis
    using inv by (auto simp: lock_inv_def callers_upd a_wait_def a_enq_def Let_def)
qed

lemma lock_inv_signal:
  assumes inv: "lock_inv f cs ci (k, A, pc)" and bd: "board_ok bd" and pc: "pc (a_cur A) = Called_wait"
    and ok: "permitted f k A (Ecall SEM_SIGNAL_CODE cs 0 0 0)" and run: "run_event bd (Ecall SEM_SIGNAL_CODE cs 0 0 0) k = Some k1"
  shows "lock_inv f cs ci (k1, a_signal cs A, pc(a_cur A := Outside))"
proof -
  have i: "kinv f k A" "cs \<in> a_sems A" "finite (callers pc)" using inv by (auto simp: lock_inv_def)
  have "cs \<noteq> NULL" using sem_nonnull [OF krepD(1) [OF kinvD(1) [OF i(1)]] i(2)] by simp
  then have A1: "a_signal cs A \<in> event_step k (Ecall SEM_SIGNAL_CODE cs 0 0 0) A"
    by (simp add: event_step_def call_step_def syscall_code_defs)
  have "kinv f k1 (a_signal cs A)" using run_event_inv(1) [OF i(1) bd ok run A1] .
  moreover have "cs \<in> a_sems (a_signal cs A) \<and> a_val (a_signal cs A) cs = a_val A cs + 1"
    using event_balance [OF i(1) ok A1 i(2)] by (simp add: closes_def gives_def asks_def syscall_code_defs)
  moreover have c: "a_cur A \<in> callers pc" using pc by (simp add: callers_def)
  then have "int (card (callers pc - {a_cur A})) = int (card (callers pc)) - 1"
    using card_Diff_singleton [OF c] card_gt_0_iff [of "callers pc"] i(3) by (simp add: of_nat_diff Suc_leI) auto
  moreover have "user_cells k1 = user_cells k" using sem_event_cells [OF i(1) bd ok _ run] by blast
  moreover have "a_cur A \<notin> set (a_queue A (Waiting cs))" using krepD(6) [OF kinvD(1) [OF i(1)], of "Waiting cs"] i(2) by simp
  ultimately show ?thesis
    using inv fifo_step_sets(1) [OF signal_fifo [OF kinvD(2) [OF i(1)] i(2), of cs, simplified]]
    by (auto simp: lock_inv_def callers_upd)
qed

lemma lock_inv_step:
  assumes "lock_step bd f cs ci w w'" "board_ok bd" "lock_inv f cs ci w"
  shows "lock_inv f cs ci w'"
  using assms
proof (cases rule: lock_step.cases)
  case (lock_test pc A k)
  have "callers pc - {a_cur A} = callers pc" using lock_test(3) by (simp add: callers_def)
  then show ?thesis using lock_test assms(3) by (auto simp: lock_inv_def callers_upd)
next
  case (lock_wait pc A k k1)
  then show ?thesis using lock_inv_wait assms(2,3) by metis
next
  case (lock_signal pc A k k1)
  then show ?thesis using lock_inv_signal assms(2,3) by metis
next
  case (lock_other k A e k1 A1 pc)
  then show ?thesis using lock_inv_event assms(2,3) by metis
qed (auto simp: lock_inv_def)

lemma lock_inv_run:
  assumes "(lock_step bd f cs ci)\<^sup>*\<^sup>* w w'" "board_ok bd" "lock_inv f cs ci w"
  shows "lock_inv f cs ci w'"
  using assms by (induction rule: rtranclp_induct) (auto intro: lock_inv_step)

text \<open>Waiting threads get the lock in the order in which they came: a step adds to the end of the queue,
  or it is the unlocking by the thread that is past the lock, and the first of the queue is past it.\<close>

lemma lock_inv_order:
  assumes st: "lock_step bd f cs ci (k, A, pc) (k1, A1, pc1)" and bd: "board_ok bd" and inv: "lock_inv f cs ci (k, A, pc)"
  shows "(\<exists>zs. a_queue A1 (Waiting cs) = a_queue A (Waiting cs) @ zs) \<or>
    past_lock cs (k, A, pc) (a_cur A) \<and> \<not> past_lock cs (k1, A1, pc1) (a_cur A) \<and>
      (\<exists>t. a_queue A (Waiting cs) = t # a_queue A1 (Waiting cs) \<and> past_lock cs (k1, A1, pc1) t)"
proof -
  have i: "kinv f k A" "cs \<in> a_sems A" "set (a_queue A (Waiting cs)) \<subseteq> callers pc" using inv by (auto simp: lock_inv_def)
  note rep = kinvD(1) [OF i(1)]
  have out: "a_cur A \<notin> set (a_queue A (Waiting cs))" using krepD(6) [OF rep, of "Waiting cs"] i(2) by simp
  have d: "distinct (a_queue A (Waiting cs))"
    by (rule queues_repD(3) [OF krep0D(1) [OF krepD(1) [OF rep]]]) (use i(2) in simp)
  from st show ?thesis
  proof (cases rule: lock_step.cases)
    case lock_wait
    then show ?thesis by (simp add: a_wait_def a_enq_def Let_def)
  next
    case lock_signal
    show ?thesis
    proof (cases "a_queue A (Waiting cs)")
      case Nil
      then show ?thesis using fifo_step_sets(1) [OF signal_fifo [OF kinvD(2) [OF i(1)] i(2), of cs]] lock_signal by simp
    next
      case (Cons t ts)
      then have "a_queue A1 (Waiting cs) = ts"
        using signal_fifo [OF kinvD(2) [OF i(1)] i(2), of cs] lock_signal by (simp add: fifo_step_def)
      then show ?thesis using Cons lock_signal i(3) out d by (auto simp: past_lock_def callers_def)
    qed
  next
    case (lock_other e)
    then show ?thesis using event_fifo [OF i(1) lock_other(2,4) i(2)] by (simp add: minds_lock_def fifo_step_def)
  qed (use inv in \<open>auto simp: lock_inv_def\<close>)
qed

section \<open>The first use\<close>

text \<open>A static semaphore on which nobody waits is initialised in place, also for the second time.\<close>

lemma krep_init_sem:
  assumes rep: "krep k A" and s: "s \<noteq> NULL"
  shows "krep (k\<lparr>sems := (sems k)(s := new_sem v)\<rparr>) (a_new_sem s (sint v) A)"
proof -
  have "a_new_sem s (sint v) (a_drop_sem s A) = a_new_sem s (sint v) A" by (simp add: a_new_sem_def a_drop_sem_def)
  moreover have "s \<notin> a_sems (a_drop_sem s A)" by (simp add: a_drop_sem_def)
  ultimately show ?thesis using krep_new_sem [OF krep_drop_sem [OF rep, of s] _ s, of v] by simp
qed

lemma kinv_init_sem:
  assumes inv: "kinv f k A" and s: "s \<noteq> NULL" "static_addr k s" "s \<in> a_sems A \<Longrightarrow> a_queue A (Waiting s) = []" and v: "0 \<le> sint v"
  obtains k' where "sem_initialize s v k = Some k'" "kinv f k' (a_new_sem s (sint v) A)" "user_cells k' = user_cells k" "lay k' = lay k"
    "tcbs k' = tcbs k" "timer_ticks k' = timer_ticks k" "threads (a_new_sem s (sint v) A) = threads A"
proof -
  let ?k = "k\<lparr>sems := (sems k)(s := new_sem v)\<rparr>" and ?A = "a_new_sem s (sint v) A"
  note i = kinvD [OF inv]
  have no: "\<not> (\<exists>t \<in> user_threads k A. s \<in> set (thread_regions k t))"
    using region_live [OF i(3)] live_not_static [OF i(3)] s(2) by blast
  have thr: "threads ?A = threads A"
  proof (cases "s \<in> a_sems A")
    case True
    have "a_queue ?A = a_queue A" using s(3) [OF True] by (simp add: fun_upd_idem)
    then show ?thesis using True by (simp add: threads_def insert_absorb)
  qed simp
  have "owned k ?A" using i(3) no s(2) thr unfolding owned_def by (auto simp: user_threads_def)
  then have "owned ?k ?A" by simp
  moreover have "counters_ok ?A" using i(2) v by (auto simp: counters_ok_def)
  ultimately have "kinv f ?k ?A" using krep_init_sem [OF i(1) s(1)] i(4) by (simp add: kinv_def run_ring_def)
  moreover have "(sems k s)\<lparr>sem_value := v, suspended := list_initialize (suspended (sems k s))\<rparr> = new_sem v"
    by (cases "sems k s"; cases "suspended (sems k s)") (simp add: new_sem_def list_initialize_def)
  then have "sem_initialize s v k = Some ?k" using s(1) by (simp add: sem_initialize_def)
  ultimately show ?thesis using thr by (intro that [of ?k]) simp_all
qed

lemma console_lock_first:
  assumes inv: "kinv f k A" and bd: "board_ok bd" and cs: "cs \<noteq> NULL" "static_addr k cs" "cs \<notin> a_sems A"
    and unset: "user_cells k ci = 0"
  obtains k1 where "console_lock (kernel_platform bd cs ci) k = Some k1"
    "lock_inv f cs ci (k1, a_wait cs (a_new_sem cs 1 A), (\<lambda>_. Outside)(a_cur A := Called_wait))"
proof -
  let ?A = "a_new_sem cs 1 A" and ?pf = "kernel_platform bd cs ci"
  have v: "0 \<le> sint (1 :: u32)" "sint (1 :: u32) = 1" by simp_all
  obtain k1 where k1: "sem_initialize cs 1 k = Some k1" "kinv f k1 ?A"
    using kinv_init_sem [OF inv cs(1,2) _ v(1)] cs(3) unfolding v(2) by metis
  let ?k2 = "k1\<lparr>user_cells := (user_cells k1)(ci := 1)\<rparr>"
  have k2: "kinv f ?k2 ?A" using k1(2) by simp
  have s: "cs \<in> a_sems ?A" "0 < a_val ?A cs" by simp_all
  obtain k3 where k3: "sem_wait_call ?pf cs ?k2 = Some (0, k3)" "krep k3 (a_wait cs ?A)"
    "frame {a_cur ?A} ?k2 k3" "user_cells k3 = user_cells ?k2"
    by (rule sem_wait_call_passes [OF kinvD(1) [OF k2] bd s])
  have w: "a_queue (a_wait cs ?A) = a_queue ?A" "a_cur (a_wait cs ?A) = a_cur A" "a_sems (a_wait cs ?A) = a_sems ?A"
    "a_val (a_wait cs ?A) cs = 0" by (simp_all add: a_wait_def Let_def)
  have "threads (a_wait cs ?A) = threads ?A" using w by (simp add: threads_def places_def)
  moreover have "counters_ok (a_wait cs ?A)"
    using kinvD(2) [OF k2] by (auto simp: counters_ok_def a_wait_def Let_def)
  ultimately have "kinv f k3 (a_wait cs ?A)"
    by (intro kinv_step [OF k2 k3(3,2)]) (use kinvD(4) [OF k2] w in \<open>simp_all add: run_ring_def\<close>)
  moreover have "callers ((\<lambda>_. Outside)(a_cur A := Called_wait)) = {a_cur A}" by (auto simp: callers_def)
  ultimately have "lock_inv f cs ci (k3, a_wait cs ?A, (\<lambda>_. Outside)(a_cur A := Called_wait))"
    using w k3(4) by (simp add: lock_inv_def)
  moreover have "console_lock ?pf k = Some k3"
    using unset k1(1) k3(1) by (simp add: console_lock_def kernel_platform_def)
  ultimately show ?thesis by (intro that)
qed

section \<open>The race of the first use\<close>

text \<open>
  Two threads that are preempted between the test and the initialisation both get past the lock.  The
  run needs only timer interrupts; \<open>calm f cs n k A\<close> is what it carries along: nobody sleeps, the
  slices are the default ones and at most \<open>n\<close> ticks have been counted.
\<close>

definition calm :: "addr \<Rightarrow> addr \<Rightarrow> nat \<Rightarrow> kstate \<Rightarrow> sched \<Rightarrow> bool" where
  "calm f cs n k A \<longleftrightarrow> kinv f k A \<and> slices_ok k A \<and> a_queue A Sleeping = [] \<and> unat (timer_ticks k) \<le> n \<and>
     cs \<noteq> NULL \<and> cs < putc_sem (lay k)"

lemma calmD:
  assumes "calm f cs n k A"
  shows "kinv f k A" "slices_ok k A" "a_queue A Sleeping = []" "unat (timer_ticks k) \<le> n" "cs \<noteq> NULL" "cs < putc_sem (lay k)"
    "static_addr k cs"
  using assms ownedD(13) [OF kinvD(3), of f k A] by (auto simp: calm_def static_addr_def)

lemma timer_cells:
  assumes "run_event bd Timer_interrupt k = Some k'"
  shows "user_cells k' = user_cells k"
proof -
  obtain k1 fl k2 u where s: "trap_enter k = Some k1" "k_handle_timer k1 = Some (fl, k2)" "leave_trap (bd_run_wrapper bd) False (fl, k2) = Some (u, k')"
    using assms by (auto simp: run_event_def k_timer_trap_def split: bind_splits)
  have "user_cells k2 = user_cells k1"
    using s(2) by (auto simp: k_handle_timer_def Let_def dest!: cells.timer_tick_same cells.dispatch_same split: bind_splits if_splits)
  then show ?thesis using cells.trap_enter_same [OF s(1)] leave_trap_cells [OF s(3)] by simp
qed

lemma tick_nobody_sleeps: "a_queue A Sleeping = [] \<Longrightarrow> a_queue (a_tick A) = a_queue A"
  "a_cur (a_tick A) = a_cur A" "a_sems (a_tick A) = a_sems A"
  by (auto simp: a_tick_def Let_def)

text \<open>One timer interrupt, as a step of the lock's machine.\<close>

lemma timer_lock_step:
  assumes c: "calm f cs n k A" and bd: "board_ok bd" and n: "n + 1 < 2 ^ 64"
  obtains k' A' where "lock_step bd f cs ci (k, A, pc) (k', A', pc)" "A' \<in> event_step k Timer_interrupt A"
    "calm f cs (n + 1) k' A'" "user_cells k' = user_cells k"
    "timer_ticks k' = timer_ticks k + 1 \<or> timer_ticks k' = 0 \<and> (a_queue A Ready \<noteq> [] \<longrightarrow> a_cur A' = hd (a_queue A Ready))"
proof -
  note c' = calmD [OF c]
  obtain k' A' where r: "run_event bd Timer_interrupt k = Some k'" "A' \<in> event_step k Timer_interrupt A" "kinv f k' A'" "undisturbed A A' k k'"
    by (rule run_event_refines [OF c'(1) bd, of Timer_interrupt]) (simp_all add: permitted_def)
  have p: "permitted f k A Timer_interrupt" by (simp add: permitted_def)
  have cells: "user_cells k' = user_cells k" by (rule timer_cells [OF r(1)])
  note clock = run_event_clock(2) [OF c'(1) bd p r(1,2)]
  have "unat (timer_ticks k + 1) = unat (timer_ticks k) + 1" using c'(4) n by (simp add: unat_word_ariths)
  then have "unat (timer_ticks k') \<le> n + 1" using clock c'(4) by (auto simp: counted_def)
  moreover have "a_queue A' Sleeping = []"
    using r(2) tick_nobody_sleeps(1) [OF c'(3)] c'(3) by (auto simp: event_step_def a_dispatch_def a_enq_def split: if_splits)
  moreover have "slices_ok k' A'" by (rule run_event_slices_ok [OF c'(2,1) bd p r(1,2)])
  moreover have "lay k' = lay k" using r(4) by (simp add: undisturbed_def)
  ultimately have "calm f cs (n + 1) k' A'" using r(3) c'(5,6) by (simp add: calm_def)
  moreover have "lock_step bd f cs ci (k, A, pc) (k', A', pc)"
    by (rule lock_other [OF p r(1,2)]) (simp add: minds_lock_def asks_def gives_def closes_def cells)
  ultimately show ?thesis using r(2) cells clock by (intro that) (simp_all add: counted_def)
qed

text \<open>Preemption: after one or two ticks the next ready thread runs.\<close>

definition rotated :: "sched \<Rightarrow> sched \<Rightarrow> bool" where
  "rotated A A' \<longleftrightarrow> a_cur A' = hd (a_queue A Ready) \<and> a_queue A' = (a_queue A)(Ready := tl (a_queue A Ready) @ [a_cur A]) \<and>
     a_sems A' = a_sems A"

lemma rotated_dispatch:
  assumes "a_queue A Ready \<noteq> []" "a_queue A Sleeping = []"
  shows "rotated A (a_dispatch (a_tick A))"
  using assms tick_nobody_sleeps [of A]
  by (cases "a_queue A Ready") (auto simp: rotated_def a_dispatch_def a_next_def a_enq_def)

lemma calm_mono: "calm f cs n k A \<Longrightarrow> n \<le> n' \<Longrightarrow> calm f cs n' k A"
  by (simp add: calm_def)

lemma preempted:
  assumes c: "calm f cs n k A" and bd: "board_ok bd" and n: "n + 2 < 2 ^ 64" "m = n + 2" and Q: "a_queue A Ready \<noteq> []"
  obtains k' A' where "(lock_step bd f cs ci)\<^sup>*\<^sup>* (k, A, pc) (k', A', pc)" "rotated A A'" "calm f cs m k' A'"
    "user_cells k' = user_cells k"
proof -
  have "n + 1 < 2 ^ 64" using n by simp
  then obtain k1 A1 where s1: "lock_step bd f cs ci (k, A, pc) (k1, A1, pc)" "A1 \<in> event_step k Timer_interrupt A"
    "calm f cs (n + 1) k1 A1" "user_cells k1 = user_cells k"
    "timer_ticks k1 = timer_ticks k + 1 \<or> timer_ticks k1 = 0 \<and> (a_queue A Ready \<noteq> [] \<longrightarrow> a_cur A1 = hd (a_queue A Ready))"
    by (rule timer_lock_step [OF c bd])
  note c1 = calmD [OF c] and c2 = calmD [OF s1(3)]
  have slice: "time_slice (tcbs k (a_cur A)) = 2" "time_slice (tcbs k1 (a_cur A1)) = 2"
    using c1(2) c2(2) by (auto simp: slices_ok_def threads_def DEFAULT_TIME_SLICE_def)
  show ?thesis
  proof (cases "timer_ticks k + 1 < 2")
    case False
    then have "A1 = a_dispatch (a_tick A)" using s1(2) slice(1) by (simp add: event_step_def)
    then show ?thesis
      using rotated_dispatch [OF Q c1(3)] s1(1,4) calm_mono [OF s1(3), of m] n(2) by (intro that [of k1 A1]) auto
  next
    case True
    then have A1: "A1 = a_tick A" using s1(2) slice(1) by (simp add: event_step_def)
    then have same: "a_queue A1 = a_queue A" "a_cur A1 = a_cur A" "a_sems A1 = a_sems A"
      using tick_nobody_sleeps [of A] c1(3) by simp_all
    have "hd (a_queue A Ready) \<noteq> a_cur A"
      using krepD(6) [OF kinvD(1) [OF c1(1)], of Ready] hd_in_set [OF Q] by auto
    then have t1: "timer_ticks k1 = timer_ticks k + 1" using s1(5) Q same(2) by auto
    have "unat (timer_ticks k) + 1 < 2 ^ 64" using c1(4) n by simp
    then have "unat (timer_ticks k + 1) = unat (timer_ticks k) + 1" by (simp add: unat_word_ariths)
    then have "timer_ticks k = 0" using True by (simp add: word_less_nat_alt unat_eq_zero)
    then have late: "\<not> timer_ticks k1 + 1 < 2" using t1 by simp
    have "n + 1 + 1 < 2 ^ 64" using n by simp
    then obtain k2 A2 where s2: "lock_step bd f cs ci (k1, A1, pc) (k2, A2, pc)" "A2 \<in> event_step k1 Timer_interrupt A1"
      "calm f cs (n + 1 + 1) k2 A2" "user_cells k2 = user_cells k1"
      by (rule timer_lock_step [OF s1(3) bd])
    have "A2 = a_dispatch (a_tick A1)" using s2(2) slice(2) late by (simp add: event_step_def)
    moreover have "rotated A1 (a_dispatch (a_tick A1))" using rotated_dispatch [of A1] Q same c2(3) by simp
    ultimately have "rotated A A2" using same by (simp add: rotated_def)
    moreover have "(lock_step bd f cs ci)\<^sup>*\<^sup>* (k, A, pc) (k2, A2, pc)" using s1(1) s2(1) by (meson r_into_rtranclp rtranclp_trans)
    ultimately show ?thesis using s1(4) s2(3,4) n(2) by (intro that [of k2 A2]) simp_all
  qed
qed

text \<open>A thread that has found the lock uninitialised and is not interrupted any more gets past it.\<close>

lemma enters:
  assumes c: "calm f cs n k A" and bd: "board_ok bd" and cur: "a_cur A \<noteq> f" "pc (a_cur A) = Found_unset"
    and idle: "cs \<in> a_sems A \<Longrightarrow> a_queue A (Waiting cs) = []"
  obtains k' where "(lock_step bd f cs ci)\<^sup>*\<^sup>* (k, A, pc) (k', a_wait cs (a_new_sem cs 1 A), pc(a_cur A := Called_wait))"
    "calm f cs n k' (a_wait cs (a_new_sem cs 1 A))"
proof -
  let ?A = "a_new_sem cs 1 A" and ?e = "Ecall SEM_WAIT_CODE cs 0 0 0"
  note c' = calmD [OF c]
  have v: "0 \<le> sint (1 :: u32)" "sint (1 :: u32) = 1" by simp_all
  obtain k1 where k1: "sem_initialize cs 1 k = Some k1" "kinv f k1 ?A" "lay k1 = lay k" "tcbs k1 = tcbs k"
    "timer_ticks k1 = timer_ticks k" "threads ?A = threads A"
    using kinv_init_sem [OF c'(1,5,7) idle v(1)] unfolding v(2) by metis
  let ?k2 = "k1\<lparr>user_cells := (user_cells k1)(ci := 1)\<rparr>"
  have k2: "kinv f ?k2 ?A" "slices_ok ?k2 ?A" using k1 c'(2) by (simp_all add: slices_ok_def)
  have p: "permitted f ?k2 ?A ?e"
    using cur(1) by (simp add: permitted_def may_call_def may_block_def syscall_code_defs)
  have ev: "event_step ?k2 ?e ?A = {a_wait cs ?A}" using c'(5) by (simp add: event_step_def call_step_def syscall_code_defs)
  obtain k3 A3 where k3: "run_event bd ?e ?k2 = Some k3" "A3 \<in> event_step ?k2 ?e ?A" "kinv f k3 A3" "undisturbed ?A A3 ?k2 k3"
    by (rule run_event_refines [OF k2(1) bd p])
  have A3: "A3 = a_wait cs ?A" using k3(2) ev by simp
  have "unat (timer_ticks k3) \<le> n"
    using run_event_clock(2) [OF k2(1) bd p k3(1,2)] k1(5) c'(4) by (auto simp: counted_def)
  moreover have "slices_ok k3 A3" by (rule run_event_slices_ok [OF k2(2,1) bd p k3(1,2)])
  moreover have "lay k3 = lay k" using k3(4) k1(3) by (simp add: undisturbed_def)
  moreover have "a_queue (a_wait cs ?A) Sleeping = []" using c'(3) by (simp add: a_wait_def Let_def)
  ultimately have "calm f cs n k3 (a_wait cs ?A)" using k3(3) c'(5,6) by (simp add: calm_def A3)
  moreover have "(lock_step bd f cs ci)\<^sup>*\<^sup>* (k, A, pc) (k3, a_wait cs ?A, pc(a_cur A := Called_wait))"
  proof -
    have 1: "lock_step bd f cs ci (k, A, pc) (k1, ?A, pc(a_cur A := Has_initialized))"
      by (rule lock_initialize) (fact cur(2) k1(1))+
    have 2: "lock_step bd f cs ci (k1, ?A, pc(a_cur A := Has_initialized)) (?k2, ?A, pc(a_cur A := Calls_wait))"
      using lock_assign [of "pc(a_cur A := Has_initialized)" ?A bd f cs ci k1] by simp
    have 3: "lock_step bd f cs ci (?k2, ?A, pc(a_cur A := Calls_wait)) (k3, a_wait cs ?A, pc(a_cur A := Called_wait))"
      using lock_wait [of "pc(a_cur A := Calls_wait)" ?A f ?k2 cs bd k3 ci] p k3(1) by simp
    from converse_rtranclp_into_rtranclp [of "lock_step bd f cs ci", OF 1 converse_rtranclp_into_rtranclp [of "lock_step bd f cs ci", OF 2 r_into_rtranclp [of "lock_step bd f cs ci", OF 3]]]
    show ?thesis .
  qed
  ultimately show ?thesis by (intro that)
qed

lemma race:
  assumes c: "calm f cs 0 k A" and bd: "board_ok bd" and Q: "a_queue A Ready = [f, u]" and idle: "cs \<notin> a_sems A"
    and unset: "user_cells k ci = 0"
  obtains k' A' pc where "(lock_step bd f cs ci)\<^sup>*\<^sup>* (k, A, \<lambda>_. Outside) (k', A', pc)" "kinv f k' A'"
    "past_lock cs (k', A', pc) (a_cur A)" "past_lock cs (k', A', pc) u" "u \<noteq> a_cur A"
proof -
  let ?m = "a_cur A" and ?S = "lock_step bd f cs ci" and ?p0 = "\<lambda>_. Outside"
  note rep = kinvD(1) [OF calmD(1) [OF c]]
  have d: "?m \<noteq> f" "u \<noteq> ?m" "u \<noteq> f"
    using krepD(6) [OF rep, of Ready] queues_repD(3) [OF krep0D(1) [OF krepD(1) [OF rep]], of Ready] Q by auto
  let ?p1 = "?p0(?m := Found_unset)"
  have r1: "?S\<^sup>*\<^sup>* (k, A, ?p0) (k, A, ?p1)"
    using lock_test [of ?p0 A bd f cs ci k] unset by auto
  obtain k2 A2 where r2: "?S\<^sup>*\<^sup>* (k, A, ?p1) (k2, A2, ?p1)" "rotated A A2" "calm f cs 2 k2 A2" "user_cells k2 = user_cells k"
    by (rule preempted [OF c bd, of 2 ci ?p1]) (simp_all add: Q)
  have A2: "a_cur A2 = f" "a_queue A2 = (a_queue A)(Ready := [u, ?m])" "a_sems A2 = a_sems A"
    using r2(2) Q by (simp_all add: rotated_def)
  obtain k3 A3 where r3: "?S\<^sup>*\<^sup>* (k2, A2, ?p1) (k3, A3, ?p1)" "rotated A2 A3" "calm f cs 4 k3 A3" "user_cells k3 = user_cells k2"
    by (rule preempted [OF r2(3) bd, of 4 ci ?p1]) (simp_all add: A2)
  have A3: "a_cur A3 = u" "a_queue A3 = (a_queue A)(Ready := [?m, f])" "a_sems A3 = a_sems A"
    using r3(2) A2 by (simp_all add: rotated_def)
  let ?p2 = "?p1(u := Found_unset)"
  have r4: "?S\<^sup>*\<^sup>* (k3, A3, ?p1) (k3, A3, ?p2)"
    using lock_test [of ?p1 A3 bd f cs ci k3] unset A3(1) d(2) r2(4) r3(4) by auto
  let ?A4 = "a_wait cs (a_new_sem cs 1 A3)" and ?p3 = "?p2(u := Called_wait)"
  obtain k4 where r5: "?S\<^sup>*\<^sup>* (k3, A3, ?p2) (k4, ?A4, ?p3)" "calm f cs 4 k4 ?A4"
    by (rule enters [OF r3(3) bd, of ?p2 ci, unfolded A3(1)]) (use A3(3) d(3) idle in simp_all)
  have A4: "a_cur ?A4 = u" "a_queue ?A4 = (a_queue A)(Ready := [?m, f], Waiting cs := [])" "cs \<in> a_sems ?A4"
    using A3 by (simp_all add: a_wait_def Let_def)
  obtain k5 A5 where r6: "?S\<^sup>*\<^sup>* (k4, ?A4, ?p3) (k5, A5, ?p3)" "rotated ?A4 A5" "calm f cs 6 k5 A5"
    by (rule preempted [OF r5(2) bd, of 6 ci ?p3]) (simp_all add: A4)
  have A5: "a_cur A5 = ?m" "a_queue A5 (Waiting cs) = []"
    using r6(2) A4 by (simp_all add: rotated_def)
  let ?A6 = "a_wait cs (a_new_sem cs 1 A5)" and ?p4 = "?p3(?m := Called_wait)"
  obtain k6 where r7: "?S\<^sup>*\<^sup>* (k5, A5, ?p3) (k6, ?A6, ?p4)" "calm f cs 6 k6 ?A6"
    by (rule enters [OF r6(3) bd, of ?p3 ci, unfolded A5(1)]) (use A5(2) d in simp_all)
  have W: "a_queue ?A6 (Waiting cs) = []" by (simp add: a_wait_def Let_def)
  note run = rtranclp_trans [OF r1 rtranclp_trans [OF r2(1) rtranclp_trans [OF r3(1)
        rtranclp_trans [OF r4 rtranclp_trans [OF r5(1) rtranclp_trans [OF r6(1) r7(1)]]]]]]
  show ?thesis
    by (rule that [OF run calmD(1) [OF r7(2)]]) (use W d in \<open>simp_all add: past_lock_def\<close>)
qed

end
