(* ===== verification/Props_Life.thy ===== *)
theory Props_Life
  imports Props_System Console_Library Console_Lock
begin

unbundle bit_operations_syntax

text \<open>
  The properties of the life of threads, of the path of a system call through the library, and of
  the console as programs and the panic handler use it.
\<close>

section \<open>Threads\<close>

text \<open>C21: thread_exit gives back exactly the four allocations of the thread (user stack, kernel stack, join
  semaphore, control block), wakes the threads that joined it, marked as interrupted, and runs the next
  ready thread.\<close>

theorem exit_frees_and_wakes:
  assumes "kinv f k A" "a_cur A \<noteq> main_tcb (lay k)" "a_queue A Ready \<noteq> []"
  defines "t \<equiv> a_cur A"
  defines "js \<equiv> join_sem (tcbs k t)"
  shows "\<exists>k' A'. syscall THREAD_EXIT_CODE p0 p1 p2 p3 k = Some (Switches, k') \<and> krep k' A' \<and> owned k' A' \<and>
    live_blocks (mem k') = (live_blocks (mem k)) |` (- {usr_stack (tcbs k t) - 4096, sys_stack (tcbs k t), js, t}) \<and>
    threads A' = threads A - {t} \<and> a_cur A' # a_queue A' Ready = a_queue A Ready @ a_queue A (Waiting js) \<and>
    (\<forall>p \<in> set (a_queue A (Waiting js)). interrupted (tcbs k' p))"
proof -
  note rep = kinvD(1) [OF assms(1)] and own = kinvD(3) [OF assms(1)]
  obtain k' where k': "syscall THREAD_EXIT_CODE p0 p1 p2 p3 k = Some (Switches, k')" "krep k' (a_exit js A)" "owned k' (a_exit js A)"
    "live_blocks (mem k') = (live_blocks (mem k)) |` (- set (thread_regions k t))"
    "\<And>p. p \<in> set (a_queue A (Waiting js)) \<Longrightarrow> interrupted (tcbs k' p)"
    unfolding t_def js_def by (rule thread_exit_owned [OF own rep assms(2,3)]) blast
  have s: "js \<in> a_sems A" using ownedD(3) [OF own, of t] assms(2) by (simp add: js_def t_def user_threads_def threads_def)
  have "a_queue A Ready @ a_queue A (Waiting js) \<noteq> []" using assms(3) by simp
  note th = threads_exit [OF s this krepD(6) [OF rep]]
  have "set (thread_regions k t) = {usr_stack (tcbs k t) - 4096, sys_stack (tcbs k t), js, t}"
    by (simp add: thread_regions_def DEFAULT_STACK_SIZE_def js_def)
  then show ?thesis
    using k' th by (intro exI [of _ k'] exI [of _ "a_exit js A"]) (simp add: t_def run_ring_def)
qed

theorem exit_frees_and_wakes_witness:
  "\<exists>k k' A'. current_tcb k \<noteq> 0x1000 \<and> syscall THREAD_EXIT_CODE 0 0 0 0 k = Some (Switches, k') \<and> krep k' A' \<and> a_cur A' = 0x1000"
proof -
  obtain t js k where s: "kinv t k (a_create t js (boot_sched sample_layout))" "t \<noteq> 0x1000" "js \<noteq> 0x2000" "js \<noteq> 0x2100"
    "lay k = sample_layout" by (rule sample_booted)
  let ?A = "a_create t js (boot_sched sample_layout)"
  obtain k1 A1 where r: "A1 \<in> event_step k (Ecall THREAD_DISPATCH_CODE 0 0 0 0) ?A" "kinv t k1 A1" "undisturbed ?A A1 k k1"
    by (rule run_event_refines [OF s(1) sample_board_ok, of "Ecall THREAD_DISPATCH_CODE 0 0 0 0"]) simp_all
  have A1: "A1 = a_dispatch ?A" using r(1) by simp
  have q: "a_cur A1 = t" "a_queue A1 Ready = [0x1000]" "a_queue A1 (Waiting u) = []" for u
    unfolding A1 by (simp_all add: a_dispatch_def a_create_def a_enq_def a_next_def a_new_sem_def boot_sched_def)
  have l: "lay k1 = sample_layout" using r(3) s(5) by (simp add: undisturbed_def)
  obtain k' A' where e: "syscall THREAD_EXIT_CODE 0 0 0 0 k1 = Some (Switches, k')" "krep k' A'" "a_cur A' # a_queue A' Ready = [0x1000]"
    using exit_frees_and_wakes [OF r(2), of 0 0 0 0] q s(2) l by auto
  then show ?thesis using krepD(2) [OF kinvD(1) [OF r(2)]] q(1) s(2)
    by (intro exI [of _ k1] exI [of _ k'] exI [of _ A']) simp
qed

text \<open>The system call that creates a thread, with room for its three allocations, reports success,
  stores the handle where the caller asked, and makes the new thread the last of the ready ones; it will
  start in its body with its argument, on the stack that the caller handed over.\<close>

lemma create_thread_makes_ready:
  assumes "krep k A" "owned k A" "p0 \<noteq> NULL" "p1 \<noteq> 0" "p3 \<noteq> NULL"
    and "live_blocks (mem k) (p3 - DEFAULT_STACK_SIZE) \<noteq> None" "\<not> kernel_owned k A (p3 - DEFAULT_STACK_SIZE)"
    and "thread_room k t st js m"
  shows "\<exists>k' A'. syscall CREATE_THREAD_CODE p0 p1 p2 p3 k = Some (Returns (), k') \<and> krep k' A' \<and> owned k' A' \<and>
    c_a0 (tcontext (tcbs k' (a_cur A))) = 0 \<and> user_cells k' p0 = t \<and> t \<notin> threads A \<and> threads A' = insert t (threads A) \<and>
    a_cur A' # a_queue A' Ready = a_cur A # a_queue A Ready @ [t] \<and>
    resume (tcbs k' t) = KStart \<and> body (tcbs k' t) = p1 \<and> args (tcbs k' t) = p2 \<and> c_usr_sp (tcontext (tcbs k' t)) = p3"
proof -
  obtain k' where k': "handle_create_thread p0 p1 p2 p3 k = Some k'" "krep k' (a_create t js A)" "owned k' (a_create t js A)"
    "user_cells k' p0 = t" "t \<notin> threads A" "js \<notin> a_sems A" "c_a0 (tcontext (tcbs k' (a_cur A))) = SUCCESS_SYSCALL"
    "resume (tcbs k' t) = KStart" "body (tcbs k' t) = p1" "args (tcbs k' t) = p2" "c_usr_sp (tcontext (tcbs k' t)) = p3"
    by (rule handle_create_thread_rep [OF assms, where ?p2.0 = p2]) blast
  have "syscall CREATE_THREAD_CODE p0 p1 p2 p3 k = Some (Returns (), k')"
    using k'(1) by (simp add: syscall_def syscall_code_defs)
  then show ?thesis
    using k' threads_create [OF k'(6), of t] a_create_fields(3) [of t js A]
    by (intro exI [of _ k'] exI [of _ "a_create t js A"]) (simp add: run_ring_def SUCCESS_SYSCALL_def)
qed

section \<open>A system call from end to end\<close>

text \<open>The exact state after the call: only the heap, a0 and what the trap itself records have changed.\<close>

lemma alloc_call_state:
  assumes rep: "krep k A" and bd: "board_ok bd" and al: "mem_alloc_blocks b (mem k) = Some (p, m)"
  defines "t \<equiv> a_cur A" and "c \<equiv> enter_ecall bd MEM_ALLOC_CODE (ucast b) 0 0 0 (cpu_of k)"
  shows "kernel_ecall bd MEM_ALLOC_CODE (ucast b) 0 0 0 k = Some (p,
    k\<lparr>mem := m,
      tcbs := (tcbs k)(t := (tcbs k t)\<lparr>trap_frame := regs c, tcontext := (tcontext (tcbs k t))\<lparr>c_usr_sp := regs (cpu_of k) X_sp, c_a0 := p\<rparr>\<rparr>),
      cpu_of := c\<lparr>csr_sepc := bd_epc bd + 4, csr_sip := csr_sip (cpu_of k) AND NOT 2, regs := (regs c)(X_a0 := p)\<rparr>\<rparr>)"
proof -
  note r = krepD(2-5) [OF rep]
  have b: "(ucast (ucast b :: u64) :: u32) = b" by (rule bit_word_eqI) (auto simp: bit_simps)
  have cause: "bd_cause bd = SCAUSE_ECALL_USER \<or> bd_cause bd = SCAUSE_ECALL_SUPERVISOR" using bd by (simp add: board_ok_def)
  let ?k = "k\<lparr>cpu_of := c\<rparr>"
  let ?x = "\<lambda>v. (tcbs k t)\<lparr>trap_frame := regs c, tcontext := (tcontext (tcbs k t))\<lparr>c_usr_sp := regs (cpu_of k) X_sp, c_a0 := v\<rparr>\<rparr>"
  let ?c = "\<lambda>rs. c\<lparr>csr_sepc := bd_epc bd + 4, csr_sip := csr_sip (cpu_of k) AND NOT 2, regs := rs\<rparr>"
  let ?sp = "c_sys_sp (tcontext (tcbs k t)) - trap_frame_size"
  have t: "current_tcb k = t" "current_context k = t" "t \<noteq> NULL" using r by (simp_all add: t_def)
  have c: "regs c X_a0 = MEM_ALLOC_CODE" "regs c X_a1 = ucast b" "regs c X_a2 = 0" "regs c X_a3 = 0" "regs c X_a4 = 0"
    "regs c X_sp = regs (cpu_of k) X_sp" "csr_scause c = bd_cause bd" "csr_sepc c = bd_epc bd" "csr_sip c = csr_sip (cpu_of k)"
    by (simp_all add: c_def enter_ecall_def)
  have e: "trap_enter ?k = Some (entered ?k)" using t by (simp add: trap_enter_def entered_def Let_def)
  have h: "k_handle_ecall (bd_stat bd) (bd_stat bd) MEM_ALLOC_CODE (ucast b) 0 0 0 (entered ?k) =
    Some (Returns (), k\<lparr>mem := m, tcbs := (tcbs k)(t := ?x p), cpu_of := ?c ((regs c)(X_sp := ?sp))\<rparr>)"
    using cause t al b
    by (simp add: k_handle_ecall_def entered_def Let_def c syscall_def set_a0_def INSTRUCTION_SIZE_def)
  have sp: "(regs c)(X_a0 := p, X_sp := regs c X_sp) = (regs c)(X_a0 := p)" by (simp add: fun_eq_iff)
  have x: "trap_exit True (k\<lparr>mem := m, tcbs := (tcbs k)(t := ?x p), cpu_of := ?c ((regs c)(X_sp := ?sp))\<rparr>) =
    Some (k\<lparr>mem := m, tcbs := (tcbs k)(t := ?x p), cpu_of := ?c ((regs c)(X_a0 := p))\<rparr>)"
    using t sp by (simp add: trap_exit_def Let_def fun_upd_twist c(6) [symmetric])
  let ?k' = "k\<lparr>mem := m, tcbs := (tcbs k)(t := ?x p), cpu_of := ?c ((regs c)(X_a0 := p))\<rparr>"
  have regs: "regs (cpu_of (entered ?k)) X_a0 = MEM_ALLOC_CODE" "regs (cpu_of (entered ?k)) X_a1 = ucast b"
    "regs (cpu_of (entered ?k)) X_a2 = 0" "regs (cpu_of (entered ?k)) X_a3 = 0" "regs (cpu_of (entered ?k)) X_a4 = 0"
    by (simp_all add: entered_cpu c)
  have "k_ecall_trap (bd_run_wrapper bd) (bd_stat bd) (bd_stat bd) ?k = Some (Returns (), ?k')"
    using e h x by (simp add: k_ecall_trap_def Let_def regs leave_trap_def)
  then show ?thesis
    using kernel_ecall_trap [of bd MEM_ALLOC_CODE "ucast b" 0 0 0 k ?k', folded c_def] by simp
qed

text \<open>C33: the library function mem_alloc, through the ecall instruction, the trap entry, the dispatcher
  and the trap exit, returns the address that the allocator returns for the blocks that cover the bytes.
  The heap is the allocator's; of the caller's registers only the argument registers change (a0 holds
  the address), the program counter is behind the ecall, the pending software interrupt is cleared and
  nothing else of the processor changes; the control block of the caller keeps everything but the frame
  of this trap, its stack pointer and a0; and everything else (the other threads, the queues, the
  semaphores, the tick counter, the console and the memory of the programs) is exactly as before.\<close>

theorem mem_alloc_end_to_end:
  assumes "krep k A" "board_ok bd" "mem_alloc_blocks (to_blocks n) (mem k) = Some (p, m)"
  shows "\<exists>x c k'. mem_alloc (kernel_platform bd cs ci) n k = Some (p, k') \<and> krep k' A \<and>
    k' = k\<lparr>mem := m, tcbs := (tcbs k)(a_cur A := x), cpu_of := c\<rparr> \<and>
    regs c = (regs (cpu_of k))(X_a0 := p, X_a1 := ucast (to_blocks n), X_a2 := 0, X_a3 := 0, X_a4 := 0, X_a5 := 0, X_a6 := 0, X_a7 := 0) \<and>
    csr_sepc c = bd_epc bd + 4 \<and> csr_sstatus c = csr_sstatus (cpu_of k) \<and> csr_scause c = bd_cause bd \<and>
    csr_sip c = csr_sip (cpu_of k) AND NOT 2 \<and> csr_sie c = csr_sie (cpu_of k) \<and> csr_stvec c = csr_stvec (cpu_of k) \<and>
    x = (tcbs k (a_cur A))\<lparr>trap_frame := (regs c)(X_a0 := MEM_ALLOC_CODE),
      tcontext := (tcontext (tcbs k (a_cur A)))\<lparr>c_usr_sp := regs (cpu_of k) X_sp, c_a0 := p\<rparr>\<rparr>"
proof -
  let ?t = "a_cur A" and ?c = "enter_ecall bd MEM_ALLOC_CODE (ucast (to_blocks n)) 0 0 0 (cpu_of k)"
  let ?x = "(tcbs k ?t)\<lparr>trap_frame := regs ?c, tcontext := (tcontext (tcbs k ?t))\<lparr>c_usr_sp := regs (cpu_of k) X_sp, c_a0 := p\<rparr>\<rparr>"
  let ?d = "?c\<lparr>csr_sepc := bd_epc bd + 4, csr_sip := csr_sip (cpu_of k) AND NOT 2, regs := (regs ?c)(X_a0 := p)\<rparr>"
  let ?k = "k\<lparr>mem := m, tcbs := (tcbs k)(?t := ?x), cpu_of := ?d\<rparr>"
  have "mem_alloc (kernel_platform bd cs ci) n k = Some (p, ?k)"
    using alloc_call_state [OF assms] by (simp add: mem_alloc_def k_system_call_def kernel_platform_def)
  moreover have "krep (k\<lparr>mem := m\<rparr>) A" using assms(1) by simp
  from krep_upd_cur [OF this, of ?x] have "krep ?k A" using krepD(5) [OF assms(1)] by simp
  moreover have "regs ?d = (regs (cpu_of k))(X_a0 := p, X_a1 := ucast (to_blocks n), X_a2 := 0, X_a3 := 0, X_a4 := 0,
      X_a5 := 0, X_a6 := 0, X_a7 := 0)" "regs ?c = (regs ?d)(X_a0 := MEM_ALLOC_CODE)"
    by (simp_all add: enter_ecall_def fun_eq_iff)
  ultimately show ?thesis
    by (intro exI [of _ ?x] exI [of _ ?d] exI [of _ ?k] conjI refl) (assumption | simp add: enter_ecall_def)+
qed

theorem mem_alloc_end_to_end_witness:
  "\<exists>p k'. mem_alloc sample_platform 100 sample_kernel = Some (p, k') \<and> p \<noteq> NULL \<and> krep k' sample_sched \<and>
     regs (cpu_of k') X_a1 = 2 \<and> regs (cpu_of k') X_s1 = regs (cpu_of sample_kernel) X_s1"
proof -
  obtain n where n: "alloc_rep sample_heap ([] @ [Free n])" "500 \<le> n" using sample_heap_rep by auto
  obtain p m where p: "mem_alloc_blocks 2 sample_heap = Some (p, m)" "p \<noteq> NULL"
    by (rule alloc_from_tail [OF n(1), of 2]) (use n in auto)
  have b: "to_blocks 100 = 2" by (simp add: to_blocks_def MEM_BLOCK_SIZE_def)
  have m: "mem_alloc_blocks (to_blocks 100) (mem sample_kernel) = Some (p, m)" using p b by simp
  obtain x c k' where "mem_alloc sample_platform 100 sample_kernel = Some (p, k')" "krep k' sample_sched"
    "k' = sample_kernel\<lparr>mem := m, tcbs := (tcbs sample_kernel)(a_cur sample_sched := x), cpu_of := c\<rparr>"
    "regs c = (regs (cpu_of sample_kernel))(X_a0 := p, X_a1 := ucast (to_blocks 100), X_a2 := 0, X_a3 := 0, X_a4 := 0, X_a5 := 0, X_a6 := 0, X_a7 := 0)"
    using mem_alloc_end_to_end [OF sample_rep sample_board_ok m, where cs = "0x4000" and ci = "0x4100"] by metis
  then show ?thesis using p(2) by (intro exI [of _ p] exI [of _ k'] conjI) (simp_all add: b)
qed

section \<open>The console\<close>



lemma tx_ready_sample: "tx_ready (\<lambda>_. 0x20) n = n"
  by (rule tx_ready_all) (simp add: CONSOLE_TX_STATUS_BIT_def)


text \<open>C29: an illegal instruction or access ends in the panic handler: a first flush sends of the buffered
  characters what the transmitter takes; the message for the cause, the decimal digits of the faulting
  address and a newline are put behind what is left, as far as the buffer has room; a second flush sends what
  the transmitter takes of that; and the kernel halts.  A transmitter that is ready all the time gets
  everything that was buffered and the whole message.\<close>

theorem panic_reports_fault:
  fixes stat1 stat2 :: "nat \<Rightarrow> u8"
  assumes "kinv f k A" "flow_ok k A"
    and "csr_scause (cpu_of k) \<in> {SCAUSE_ILLEGAL_INSTRUCTION, SCAUSE_LOAD_ACCESS_FAULT, SCAUSE_STORE_AMO_ACCESS_FAULT}"
  defines "B \<equiv> q_contents IO_BUFFER_SIZE (putc_buffer k)"
    and "M \<equiv> panic_message (csr_scause (cpu_of k)) @ map (\<lambda>d. 48 + of_nat d) (dec_digits (unat (csr_sepc (cpu_of k)))) @ [10]"
  defines "n1 \<equiv> tx_ready stat1 (length B)"
  defines "Q \<equiv> take IO_BUFFER_SIZE (drop n1 B @ M)"
  defines "n2 \<equiv> tx_ready stat2 (length Q)"
  shows "\<exists>k'. k_handle_ecall stat1 stat2 code p0 p1 p2 p3 k = Some (Halts, k') \<and>
    tx_out k' = tx_out k @ take n1 B @ take n2 Q \<and> q_contents IO_BUFFER_SIZE (putc_buffer k') = drop n2 Q \<and>
    (n1 = length B \<and> n2 = length Q \<longrightarrow> tx_out k' = tx_out k @ B @ M)"
proof -
  have M: "M = panic_message (csr_scause (cpu_of k)) @ decimal_chars (csr_sepc (cpu_of k)) @ [10]"
    by (simp add: M_def decimal_chars_digits)
  obtain k' where k': "kernel_panic stat1 stat2 (csr_scause (cpu_of k)) (csr_sepc (cpu_of k)) k = Some (Halts, k')"
    "tx_out k' = tx_out k @ take n1 B @ take n2 Q" "q_contents IO_BUFFER_SIZE (putc_buffer k') = drop n2 Q"
    by (rule kernel_panic_rep [OF assms(1,2), where ?stat1.0 = stat1 and ?stat2.0 = stat2 and c = "csr_scause (cpu_of k)" and pc = "csr_sepc (cpu_of k)", folded B_def, folded n1_def, folded M,
          folded Q_def, folded n2_def])
  have "length M \<le> IO_BUFFER_SIZE"
    using length_panic_message [of "csr_scause (cpu_of k)"] length_decimal_chars [of "csr_sepc (cpu_of k)"]
    by (simp add: M IO_BUFFER_SIZE_def)
  then have "n1 = length B \<and> n2 = length Q \<longrightarrow> tx_out k' = tx_out k @ B @ M" using k'(2) by (simp add: Q_def)
  moreover have "k_handle_ecall stat1 stat2 code p0 p1 p2 p3 k = Some (Halts, k')"
    using assms(3) k'(1) by (auto simp: k_handle_ecall_def Let_def scause_defs)
  ultimately show ?thesis using k'(2,3) by (intro exI [of _ k'] conjI)
qed

theorem panic_reports_fault_witness:
  "\<exists>k k'. k_handle_ecall (\<lambda>_. 0x20) (\<lambda>_. 0x20) 0 0 0 0 0 k = Some (Halts, k') \<and>
     tx_out k' = out_stream k @ chars_of ''KERNEL PANIC! ILLEGAL INSTRUCTION AT: '' @ [49, 50] @ [10]"
proof -
  obtain t js k where s: "kinv t k (a_create t js (boot_sched sample_layout))" "flow_ok k (a_create t js (boot_sched sample_layout))"
    by (rule sample_booted)
  let ?A = "a_create t js (boot_sched sample_layout)" and ?k = "k\<lparr>cpu_of := (cpu_of k)\<lparr>csr_scause := 2, csr_sepc := 12\<rparr>\<rparr>"
  have i: "kinv t ?k ?A" using s(1) by simp
  have fl: "flow_ok ?k ?A" by (rule flow_ok_same [OF s(2)]) (simp_all add: console_kept_simps)
  have c: "csr_scause (cpu_of ?k) \<in> {SCAUSE_ILLEGAL_INSTRUCTION, SCAUSE_LOAD_ACCESS_FAULT, SCAUSE_STORE_AMO_ACCESS_FAULT}"
    by (simp add: scause_defs)
  obtain k' where "k_handle_ecall (\<lambda>_. 0x20) (\<lambda>_. 0x20) 0 0 0 0 0 ?k = Some (Halts, k')"
    "tx_out k' = tx_out ?k @ q_contents IO_BUFFER_SIZE (putc_buffer ?k) @ panic_message (csr_scause (cpu_of ?k)) @
       map (\<lambda>d. 48 + of_nat d) (dec_digits (unat (csr_sepc (cpu_of ?k)))) @ [10]"
    using panic_reports_fault [OF i fl c, of "\<lambda>_. 0x20" "\<lambda>_. 0x20" 0 0 0 0 0] unfolding tx_ready_sample by blast
  then show ?thesis
    by (intro exI [of _ ?k] exI [of _ k']) (simp add: out_stream_def panic_message_def dec_digits.simps)
qed

text \<open>C32: print_uint64 puts the decimal digits of the number, most significant first and without leading
  zeros, followed by the end character, while it holds the console's lock.\<close>

theorem print_uint64_prints_digits:
  "Console_print_uint64 pf number end_char s = do {
     s1 \<leftarrow> console_lock pf s;
     s2 \<leftarrow> put_all pf (map (\<lambda>d. 48 + of_nat d) (dec_digits (unat number)) @ [end_char]) s1;
     console_unlock pf s2
   }"
proof -
  have app: "put_all pf (xs @ [c]) s = put_all pf xs s \<bind> Console_putc pf c" for xs c s
    by (induction xs arbitrary: s) (auto split: bind_splits)
  show ?thesis
    by (simp add: Console_print_uint64_def Let_def print_digits_put_all app decimal_chars_digits [symmetric, unfolded decimal_chars_def])
qed

text \<open>C31: get_string on the kernel, when the console's lock is free, the line has been typed and there is room
  for its echo: it returns the address of a new block that is large enough; the cells from there on
  hold the edited line (the delete key takes back one character and never more than was typed) and its
  terminating null, at most max_length characters; no other cell of memory is written; the echo is
  appended to the output, exactly the keys of the line are taken from the input, the lock is free again
  and no other thread is touched.\<close>

theorem get_string_edits_line:
  assumes "kinv f k A" "flow_ok k A" "board_ok bd"
    and "user_cells k ci \<noteq> 0" "ci < heap_start (mem k)" "cs \<in> a_sems A" "a_val A cs = 1" "cs \<noteq> putc_sem (lay k)" "cs \<noteq> getc_sem (lay k)"
    and "mem_alloc_blocks (to_blocks (of_nat (n + 1))) (mem k) = Some (p, m)" "p \<noteq> NULL" "n < 2 ^ 31 - 1"
    and "edit_line n [] (take (nat (a_val A (getc_sem (lay k)))) (q_contents IO_BUFFER_SIZE (getc_buffer k))) = Some (out, echo, rest)"
    and "0 \<le> a_val A (getc_sem (lay k))" "int (length echo) \<le> a_val A (putc_sem (lay k))"
  shows "\<exists>k'. Console_get_string (kernel_platform bd cs ci) (int n) k = Some (p, k') \<and>
    length out \<le> n \<and> (\<forall>i < length out. user_cells k' (p + of_nat i) = ucast (out ! i)) \<and> user_cells k' (p + of_nat (length out)) = 0 \<and>
    (\<forall>q. (\<forall>i \<le> n. q \<noteq> p + of_nat i) \<longrightarrow> user_cells k' q = user_cells k q) \<and>
    (\<exists>b. live_blocks (mem k') p = Some b \<and> n < 64 * b) \<and> mem k' = m \<and>
    tx_out k' @ q_contents IO_BUFFER_SIZE (putc_buffer k') = tx_out k @ q_contents IO_BUFFER_SIZE (putc_buffer k) @ echo \<and>
    q_contents IO_BUFFER_SIZE (getc_buffer k') = rest @ drop (nat (a_val A (getc_sem (lay k)))) (q_contents IO_BUFFER_SIZE (getc_buffer k)) \<and>
    krep k' (A\<lparr>a_val := (a_val A)(getc_sem (lay k) := int (length rest),
      putc_sem (lay k) := a_val A (putc_sem (lay k)) - int (length echo))\<rparr>) \<and>
    (\<forall>t. t \<noteq> a_cur A \<longrightarrow> saved (tcbs k' t) = saved (tcbs k t))"
proof -
  obtain k' where k': "Console_get_string (kernel_platform bd cs ci) (int n) k = Some (p, k')"
    "krep k' (A\<lparr>a_val := (a_val A)(getc_sem (lay k) := int (length rest), putc_sem (lay k) := a_val A (putc_sem (lay k)) - int (length echo))\<rparr>)"
    "frame {a_cur A} (k\<lparr>mem := m\<rparr>) k'" "length out \<le> n" "\<forall>i < length out. user_cells k' (p + of_nat i) = ucast (out ! i)"
    "user_cells k' (p + of_nat (length out)) = 0" "\<forall>q. (\<forall>i \<le> n. q \<noteq> p + of_nat i) \<longrightarrow> user_cells k' q = user_cells k q"
    "out_stream k' = out_stream k @ echo"
    "in_queue k' = rest @ drop (nat (a_val A (getc_sem (lay k)))) (in_queue k)"
    "live_blocks m p = Some (unat (to_blocks (of_nat (n + 1))))" "n < 64 * unat (to_blocks (of_nat (n + 1)))"
    by (rule get_string_passes [OF assms])
  have "mem k' = m" "\<forall>t. t \<noteq> a_cur A \<longrightarrow> saved (tcbs k' t) = saved (tcbs k t)"
    using k'(3) by (simp_all add: frame_def heap_frame_def)
  then show ?thesis using k' by (intro exI [of _ k'] conjI) (auto simp: out_stream_def)
qed

text \<open>A console whose lock is free, with some keys typed: a state in which nobody else reads.\<close>

definition type_keys :: "u8 list \<Rightarrow> kstate \<Rightarrow> kstate" where
  "type_keys xs k = k\<lparr>sems := (sems k)(getc_sem (lay k) := (sems k (getc_sem (lay k)))\<lparr>sem_value := of_nat (length xs)\<rparr>),
     getc_buffer := fold (q_put IO_BUFFER_SIZE) xs (getc_buffer k)\<rparr>"

lemma type_keys_ok:
  assumes inv: "kinv f k A" and fl: "flow_ok k A" and idle: "q_contents IO_BUFFER_SIZE (getc_buffer k) = []" "a_val A (getc_sem (lay k)) = 0"
    and xs: "length xs \<le> IO_BUFFER_SIZE"
  defines "A' \<equiv> A\<lparr>a_val := (a_val A)(getc_sem (lay k) := int (length xs))\<rparr>"
  shows "kinv f (type_keys xs k) A'" "flow_ok (type_keys xs k) A'" "q_contents IO_BUFFER_SIZE (getc_buffer (type_keys xs k)) = xs"
proof -
  let ?g = "getc_sem (lay k)" and ?k = "type_keys xs k"
  note i = kinvD [OF inv] and F = flow_ok_fields [OF fl]
  have g: "?g \<in> a_sems A" by (rule ownedD(12) [OF i(3)])
  have "sint (of_nat (length xs) :: u32) = int (length xs)"
    using xs by (simp add: IO_BUFFER_SIZE_def signed_of_nat signed_take_bit_int_eq_self)
  then have "krep ?k A'" using krep_val [OF i(1) g, of "of_nat (length xs)"] by (simp add: type_keys_def A'_def)
  moreover have "a_queue A (Waiting ?g) = []" using counters_okD [OF i(2) g] idle(2) by auto
  then have "counters_ok A'" using i(2) by (auto simp: counters_ok_def A'_def)
  moreover have fr: "frame {a_cur A} k ?k" by (simp add: type_keys_def)
  moreover have thr: "threads A' = threads A" by (simp add: A'_def threads_def places_def)
  ultimately show "kinv f ?k A'"
    using i(4) by (intro kinv_step [OF inv fr]) (simp_all add: A'_def run_ring_def)
  have b: "q_inv IO_BUFFER_SIZE (getc_buffer ?k) \<and> q_contents IO_BUFFER_SIZE (getc_buffer ?k) = xs"
    using ring.put_all [OF F(2), of xs] idle(1) xs by (simp add: type_keys_def)
  then show "q_contents IO_BUFFER_SIZE (getc_buffer ?k) = xs" by simp
  have l: "q_get_length (getc_buffer k) = 0" "q_get_length (getc_buffer ?k) = length xs"
    using arg_cong [OF idle(1), of length] arg_cong [OF conjunct2 [OF b], of length] by (simp_all add: q_get_length_def)
  have p: "putters (threads A' - {a_cur A'}) ?k = putters (threads A - {a_cur A}) k"
    "getters (threads A' - {a_cur A'}) ?k = getters (threads A - {a_cur A}) k"
    by (simp_all add: thr) (simp_all add: A'_def putters_def getters_def type_keys_def)
  have "lay ?k = lay k" "putc_buffer ?k = putc_buffer k" by (simp_all add: type_keys_def)
  then show "flow_ok ?k A'"
    using b F l idle(2) flow_ok_finite [OF fl] unfolding flow_ok_def flow_def p by (simp add: A'_def)
qed

theorem get_string_edits_line_witness:
  "\<exists>p k k'. Console_get_string (kernel_platform sample_board 0x1800 0x1900) 5 k = Some (p, k') \<and>
     q_contents IO_BUFFER_SIZE (getc_buffer k) = [104, 111, 127, 105, 13] \<and>
     user_cells k' p = 104 \<and> user_cells k' (p + 1) = 105 \<and> user_cells k' (p + 2) = 0 \<and>
     tx_out k' @ q_contents IO_BUFFER_SIZE (putc_buffer k') =
       tx_out k @ q_contents IO_BUFFER_SIZE (putc_buffer k) @ [104, 111, 8, 32, 8, 105, 10]"
proof -
  obtain t js k0 where s: "kinv t k0 (a_create t js (boot_sched sample_layout))" "flow_ok k0 (a_create t js (boot_sched sample_layout))"
    "t \<noteq> 0x1000" "js \<noteq> 0x2000" "js \<noteq> 0x2100" "lay k0 = sample_layout" "resume (tcbs k0 t) = KStart"
    "\<exists>us r. alloc_rep (mem k0) (us @ [Free r]) \<and> (\<forall>s \<in> set us. \<not> is_free s) \<and> 300 \<le> r" by (rule sample_booted)
  let ?A = "a_create t js (boot_sched sample_layout)" and ?keys = "[104, 111, 127, 105, 13] :: u8 list"
  have st: "static_addr k0 0x2100" using ownedD(14) [OF kinvD(3) [OF s(1)]] s(6) by simp
  then have st0: "static_addr k0 0x1800" "0x1900 < heap_start (mem k0)" unfolding static_addr_def by (simp_all add: word_less_nat_alt)
  have v: "0 \<le> sint (1 :: u32)" "sint (1 :: u32) = 1" by simp_all
  obtain k1 where k1: "sem_initialize 0x1800 1 k0 = Some k1" "kinv t k1 (a_new_sem 0x1800 1 ?A)"
    "threads (a_new_sem 0x1800 1 ?A) = threads ?A"
    using kinv_init_sem [OF s(1) _ st0(1) _ v(1)] unfolding v(2) by auto
  let ?B = "a_new_sem 0x1800 1 ?A" and ?k2 = "k1\<lparr>user_cells := (user_cells k1)(0x1900 := 1)\<rparr>"
  let ?k3 = "type_keys ?keys ?k2" and ?C = "?B\<lparr>a_val := (a_val ?B)(0x2100 := 5)\<rparr>"
  obtain h where e1: "k1 = k0\<lparr>sems := h\<rparr>" using k1(1) by (auto simp: sem_initialize_def)
  have lay: "lay ?k2 = sample_layout" "mem ?k2 = mem k0" using s(6) by (simp_all add: e1)
  have i2: "kinv t ?k2 ?B" using k1(2) by simp
  have f2: "flow_ok ?k2 ?B"
    by (rule flow_ok_same [OF s(2) _ _ k1(3)]) (use s(6) in \<open>simp_all add: e1 console_kept_simps\<close>)
  have a: "a_val ?B 0x2100 = 0" "a_val ?B 0x2000 = 2048" "a_cur ?B = 0x1000" "0x2000 \<in> a_sems ?B" using s(4,5)
    by (simp_all add: a_create_def a_enq_def IO_BUFFER_SIZE_def)
  have "a_queue ?A Sleeping = []" by (simp add: a_create_def a_enq_def)
  then have "getters (threads ?A - {a_cur ?A}) k0 = {}" using s(3,7) by (auto simp: getters_def threads_split run_ring_def)
  then have "q_get_length (getc_buffer k0) = 0" using flow_ok_fields(6) [OF s(2)] s(6) a(1) by simp
  then have idle: "q_contents IO_BUFFER_SIZE (getc_buffer ?k2) = []" "a_val ?B (getc_sem (lay ?k2)) = 0"
    using a(1) lay(1) by (simp_all add: e1 q_get_length_def q_contents_def)
  have five: "length ?keys \<le> IO_BUFFER_SIZE" "int (length ?keys) = 5" by (simp_all add: IO_BUFFER_SIZE_def)
  note ty = type_keys_ok [OF i2 f2 idle five(1), unfolded five(2) lay(1) sample_lay]
  have e3: "lay ?k3 = sample_layout" "mem ?k3 = mem k0" "user_cells ?k3 0x1900 = 1" using lay by (simp_all add: type_keys_def)
  obtain us r where h: "alloc_rep (mem k0) (us @ [Free r])" "\<forall>s \<in> set us. \<not> is_free s" "unat (1 :: u32) < r" using s(8) by force
  obtain p m where al: "mem_alloc_blocks 1 (mem k0) = Some (p, m)" "p \<noteq> NULL" by (rule alloc_from_tail [OF h(1,2) _ h(3)]) simp_all
  have "to_blocks (of_nat (5 + 1)) = 1" by (simp add: to_blocks_def MEM_BLOCK_SIZE_def)
  then have al3: "mem_alloc_blocks (to_blocks (of_nat (5 + 1))) (mem ?k3) = Some (p, m)" using al(1) e3(2) by simp
  have ed: "edit_line 5 [] (take (nat (a_val ?C (getc_sem (lay ?k3)))) (q_contents IO_BUFFER_SIZE (getc_buffer ?k3))) =
      Some ([104, 105], [104, 111, 8, 32, 8, 105, 10], [])"
    unfolding ty(3) by (simp add: e3(1) edit_line.simps DELETE_KEY_def ENTER_KEY_def)
  have lk: "user_cells ?k3 0x1900 \<noteq> 0" "0x1900 < heap_start (mem ?k3)" "0x1800 \<in> a_sems ?C" "a_val ?C 0x1800 = 1"
    "0x1800 \<noteq> putc_sem (lay ?k3)" "0x1800 \<noteq> getc_sem (lay ?k3)"
    using e3 st0(2) by simp_all
  have rm: "0 \<le> a_val ?C (getc_sem (lay ?k3))" "int (length [104, 111, 8, 32, 8, 105, 10 :: u8]) \<le> a_val ?C (putc_sem (lay ?k3))"
    using a(2) e3(1) by simp_all
  have n: "(5 :: nat) < 2 ^ 31 - 1" by simp
  from get_string_edits_line [OF ty(1,2) sample_board_ok lk al3 al(2) n ed rm] obtain k' where
    "Console_get_string (kernel_platform sample_board 0x1800 0x1900) (int 5) ?k3 = Some (p, k')"
    "\<forall>i < length [104, 105 :: u8]. user_cells k' (p + of_nat i) = ucast ([104, 105 :: u8] ! i)"
    "user_cells k' (p + of_nat (length [104, 105 :: u8])) = 0"
    "tx_out k' @ q_contents IO_BUFFER_SIZE (putc_buffer k') =
       tx_out ?k3 @ q_contents IO_BUFFER_SIZE (putc_buffer ?k3) @ [104, 111, 8, 32, 8, 105, 10]"
    by blast
  then show ?thesis using ty(3) by (intro exI [of _ p] exI [of _ ?k3] exI [of _ k'] conjI) (simp_all add: less_Suc_eq All_less_Suc)
qed

end
