(* ===== verification/Kernel_Fair.thy ===== *)
theory Kernel_Fair
  imports Kernel_Ticks
begin

text \<open>
  Bounded waiting: a ready thread runs after at most one time slice for each thread before it in the
  ready queue, and one for the running thread.  The measure is the number of ticks that can still
  pass: \<open>patience\<close> counts the full slices of the threads before it and what is left of the
  running thread's slice.
\<close>

section \<open>The ready queue is first in first out\<close>

lemma ready_choices:
  "(\<exists>xs. a_queue (a_signal s A) Ready = a_queue A Ready @ xs)"
  "(\<exists>xs. a_cur (a_next B) # a_queue (a_next B) Ready = a_queue B Ready @ xs) \<or> a_queue B Ready = []"
  using a_signal_ready by (auto simp: a_next_def split: list.splits)

definition queue_step :: "sched \<Rightarrow> sched \<Rightarrow> bool" where
  "queue_step A A' \<longleftrightarrow> (\<exists>xs. (a_cur A' = a_cur A \<and> a_queue A' Ready = a_queue A Ready @ xs) \<or>
     a_cur A' # a_queue A' Ready = a_queue A Ready @ xs)"

lemma queue_step_stays: "a_cur A' = a_cur A \<Longrightarrow> a_queue A' Ready = a_queue A Ready @ xs \<Longrightarrow> queue_step A A'"
  by (auto simp: queue_step_def)

lemma queue_step_same [simp, intro]: "queue_step A A"
  by (rule queue_step_stays [of _ _ "[]"]) simp_all

lemma queue_step_next:
  assumes "a_queue B Ready = a_queue A Ready @ xs" "a_queue B Ready \<noteq> []"
  shows "queue_step A (a_next B)"
proof -
  obtain t ts where ts: "a_queue B Ready = t # ts" using assms(2) by (cases "a_queue B Ready") auto
  then have "a_cur (a_next B) # a_queue (a_next B) Ready = a_queue A Ready @ xs"
    using assms(1) by (simp add: a_next_def)
  then show ?thesis unfolding queue_step_def by blast
qed

lemma queue_step_dispatch: "a_queue B Ready = a_queue A Ready @ xs \<Longrightarrow> queue_step A (a_dispatch B)"
  unfolding a_dispatch_def by (rule queue_step_next [where xs = "xs @ [a_cur B]"]) (simp_all add: a_enq_def)

lemma queue_step_wait: "a_queue A Ready \<noteq> [] \<Longrightarrow> queue_step A (a_wait s A)"
  by (auto simp: a_wait_def Let_def a_enq_def intro: queue_step_next [where xs = "[]"] queue_step_stays [where xs = "[]"])

lemma a_signals_ready: "\<exists>xs. a_queue (a_signals s n A) Ready = a_queue A Ready @ xs"
proof (induction n arbitrary: A)
  case (Suc n)
  then show ?case using a_signal_ready [of s A] by (metis a_signals_simps(2) append.assoc)
qed simp

lemma event_queue_step:
  assumes inv: "kinv f k A" and ok: "permitted f k A e" and A': "A' \<in> event_step k e A" and Q: "a_queue A Ready \<noteq> []"
  shows "queue_step A A'"
proof (cases e)
  case (Compute c u)
  then show ?thesis using A' by (simp add: event_step_def)
next
  case Timer_interrupt
  then show ?thesis
    using A' queue_step_dispatch [OF a_tick_ready] queue_step_stays [OF _ a_tick_ready]
    by (auto simp: event_step_def split: if_splits)
next
  case (Console_interrupt stat data)
  obtain xs where "a_queue (a_signal (getc_sem (lay k)) A) Ready = a_queue A Ready @ xs" using a_signal_ready by blast
  from queue_step_dispatch [OF this] show ?thesis
    using A' Console_interrupt by (auto simp: event_step_def split: if_splits)
next
  case (Flush stat)
  obtain xs where "a_queue (a_signals (putc_sem (lay k)) (tx_ready stat (q_get_length (putc_buffer k))) A) Ready = a_queue A Ready @ xs"
    using a_signals_ready by blast
  from queue_step_stays [OF _ this] show ?thesis using A' Flush by (simp add: event_step_def)
next
  case (Ecall code p0 p1 p2 p3)
  have may: "may_call f k A code p0 p1 p3" and c: "A' \<in> call_step k code p0 p1 p3 A"
    using ok A' Ecall by (simp_all add: permitted_def event_step_def)
  from inv may c show ?thesis
  proof (cases rule: call_step_cases)
    case (create t st js m)
    then show ?thesis by (auto intro!: queue_step_stays [where xs = "[t]"] simp: a_create_def a_enq_def)
  next
    case (exit s)
    show ?thesis unfolding exit a_exit_def
      by (rule queue_step_next [where xs = "a_queue A (Waiting s)"]) (use Q in \<open>simp_all add: a_drop_sem_def\<close>)
  next
    case dispatch
    then show ?thesis using queue_step_dispatch [of A A "[]"] by simp
  next
    case (signal)
    obtain xs where "a_queue (a_signal p0 A) Ready = a_queue A Ready @ xs" using a_signal_ready by blast
    then show ?thesis using signal queue_step_stays by simp
  next
    case (sleep n)
    show ?thesis unfolding sleep
      by (rule queue_step_next [where xs = "[]"]) (use Q in \<open>simp_all add: a_sleep_def Let_def\<close>)
  qed (use Q in \<open>auto intro: queue_step_wait queue_step_stays [where xs = "[]"] queue_step_stays [where xs = "a_queue A (Waiting p0)"]\<close>)
qed


section \<open>The measure\<close>

abbreviation slice_ticks :: nat where
  "slice_ticks \<equiv> unat DEFAULT_TIME_SLICE"

lemma slice_ticks: "slice_ticks = 2"
  by (simp add: DEFAULT_TIME_SLICE_def)

definition patience :: "nat \<Rightarrow> kstate \<Rightarrow> nat" where
  "patience p k = p * slice_ticks + max 1 (slice_ticks - unat (timer_ticks k))"

lemma patience_bounds: "p * slice_ticks < patience p k" "patience p k \<le> (p + 1) * slice_ticks"
  by (simp_all add: patience_def slice_ticks)

definition is_tick :: "event \<Rightarrow> bool" where
  "is_tick e \<longleftrightarrow> e = Timer_interrupt"

definition tick_count :: "(event \<times> addr) list \<Rightarrow> nat" where
  "tick_count es = length (filter (is_tick \<circ> fst) es)"

lemma tick_count_simps [simp]:
  "tick_count [] = 0" "tick_count (x # es) = of_bool (is_tick (fst x)) + tick_count es"
  by (simp_all add: tick_count_def)

lemma tick_count_le: "tick_count es \<le> length es"
  by (simp add: tick_count_def)

text \<open>
  One event: the thread either takes over, or it stays in the queue and its patience shrinks with
  every tick.
\<close>

lemma event_patience:
  assumes inv: "kinv f k A" and bd: "board_ok bd" and ok: "permitted f k A e"
    and run: "run_event bd e k = Some k'" and A': "A' \<in> event_step k e A"
    and sl: "slices_ok k A" and Q: "a_queue A Ready = us @ t # vs" and small: "unat (timer_ticks k) + 1 < 2 ^ 64"
    and nt: "a_cur A' \<noteq> t"
  obtains us' vs' where "a_queue A' Ready = us' @ t # vs'" "patience (length us') k' + of_bool (is_tick e) \<le> patience (length us) k"
    "unat (timer_ticks k') \<le> unat (timer_ticks k) + 1"
proof -
  note rep = kinvD(1) [OF inv]
  have ne: "a_queue A Ready \<noteq> []" using Q by simp
  have cur: "a_cur A \<notin> set (a_queue A Ready)" using krepD(6) [OF rep, of Ready] by simp
  then have hd: "hd (a_queue A Ready) \<noteq> a_cur A" using ne hd_in_set by metis
  have inc: "unat (timer_ticks k + 1) = unat (timer_ticks k) + 1"
    using small by (simp add: unat_word_ariths)
  have clock: "timer_ticks k' = timer_ticks k + counted e \<or> timer_ticks k' = 0 \<and> a_cur A' = hd (a_queue A Ready)"
    using run_event_clock(2) [OF inv bd ok run A'] ne by simp
  have tk: "unat (timer_ticks k') \<le> unat (timer_ticks k) + 1"
    using clock inc by (auto simp: counted_def)
  obtain xs where "a_cur A' = a_cur A \<and> a_queue A' Ready = a_queue A Ready @ xs \<or> a_cur A' # a_queue A' Ready = a_queue A Ready @ xs"
    using event_queue_step [OF inv ok A' ne] by (auto simp: queue_step_def)
  then consider (stays) "a_cur A' = a_cur A" "a_queue A' Ready = a_queue A Ready @ xs"
    | (moves) "a_cur A' # a_queue A' Ready = a_queue A Ready @ xs" by blast
  then show ?thesis
  proof cases
    case stays
    have t': "timer_ticks k' = timer_ticks k + counted e" using clock hd stays(1) by auto
    have early: "timer_ticks k + 1 < DEFAULT_TIME_SLICE" if e: "e = Timer_interrupt"
    proof (rule ccontr)
      assume "\<not> timer_ticks k + 1 < DEFAULT_TIME_SLICE"
      then have "\<not> timer_ticks k + 1 < time_slice (tcbs k (a_cur A))"
        using sl unfolding slices_ok_def threads_def by auto
      then have "A' = a_dispatch (a_tick A)" using A' e by (simp add: event_step_def)
      moreover have "a_cur (a_dispatch (a_tick A)) = hd (a_queue A Ready)"
        using switch_heads(1) [of "a_tick A"] a_tick_ready [of A] ne by simp
      ultimately show False using hd stays(1) by simp
    qed
    have "patience (length us) k' + of_bool (is_tick e) \<le> patience (length us) k"
    proof (cases "e = Timer_interrupt")
      case True
      have "unat (timer_ticks k) + 1 < 2" using early [OF True] inc by (simp add: word_less_nat_alt DEFAULT_TIME_SLICE_def)
      then show ?thesis using True t' inc by (simp add: patience_def slice_ticks counted_def is_tick_def)
    qed (simp add: patience_def t' counted_def is_tick_def)
    then show ?thesis using stays(2) Q tk by (intro that [of us "vs @ xs"]) simp_all
  next
    case moves
    then obtain us' where us: "us = a_cur A' # us'" using Q nt by (cases us) auto
    then have "a_queue A' Ready = us' @ t # (vs @ xs)" using moves Q by simp
    moreover have "patience (length us') k' + of_bool (is_tick e) \<le> patience (length us) k"
      using patience_bounds(2) [of "length us'" k'] patience_bounds(1) [of "length us" k] us by (simp add: of_bool_def)
    ultimately show ?thesis using tk by (intro that)
  qed
qed

section \<open>Runs\<close>

text \<open>As long as the thread has not run, fewer ticks have passed than its patience allows.\<close>

theorem run_patience:
  assumes "kernel_run bd f k A es k' A'" "board_ok bd" "kinv f k A" "slices_ok k A"
    and "a_queue A Ready = us @ t # vs" "unat (timer_ticks k) + length es < 2 ^ 64" "t \<notin> snd ` set es"
  shows "tick_count es < patience (length us) k"
  using assms
proof (induction arbitrary: us vs rule: kernel_run.induct)
  case (run_nil k A)
  then show ?case using patience_bounds(1) [of "length us" k] by simp
next
  case (run_cons k A e k1 A1 es k2 A2)
  note i = run_event_inv [OF run_cons.prems(2,1) run_cons.hyps(1-3)]
  have t: "a_cur A1 \<noteq> t" "t \<notin> snd ` set es" using run_cons.prems(6) by auto
  obtain us' vs' where u: "a_queue A1 Ready = us' @ t # vs'" "patience (length us') k1 + of_bool (is_tick e) \<le> patience (length us) k"
    "unat (timer_ticks k1) \<le> unat (timer_ticks k) + 1"
    by (rule event_patience [OF run_cons.prems(2,1) run_cons.hyps(1-3) run_cons.prems(3,4) _ t(1)])
      (use run_cons.prems(5) in auto)
  have "slices_ok k1 A1" by (rule run_event_slices_ok [OF run_cons.prems(3,2,1) run_cons.hyps(1-3)])
  from run_cons.IH [OF run_cons.prems(1) i(1) this u(1) _ t(2)] have "tick_count es < patience (length us') k1"
    using u(3) run_cons.prems(5) by simp
  then show ?case using u(2) by simp
qed

end
