(* ===== verification/Kernel_Join.thy ===== *)
theory Kernel_Join
  imports Kernel_Semaphore_Runs
begin

unbundle bit_operations_syntax

text \<open>
  Joining a thread, over runs: a thread keeps its stacks and its join semaphore from its creation to its
  exit, so that the threads that wait for it wait until it has called thread_exit.
\<close>

section \<open>The regions of the living threads\<close>

definition regions :: "kstate \<Rightarrow> addr \<Rightarrow> addr \<times> addr \<times> addr \<times> u64" where
  "regions k = (\<lambda>p. regions_of (tcbs k p))"

lemma frame_regions: "frame X k k' \<Longrightarrow> regions k' = regions k"
  by (simp add: frame_def heap_frame_def regions_def)

lemma others_regions: "others_kept t k k' \<Longrightarrow> u \<noteq> t \<Longrightarrow> regions k' u = regions k u"
  by (simp add: others_kept_def regions_def)

lemma regions_upd [simp]:
  "regions (k\<lparr>sems := s\<rparr>) = regions k" "regions (k\<lparr>mem := m\<rparr>) = regions k" "regions (k\<lparr>user_cells := u\<rparr>) = regions k"
  "regions (k\<lparr>cpu_of := c\<rparr>) = regions k"
  by (simp_all add: regions_def)

lemma create_sem_regions: "create_sem v k = Some (s, k') \<Longrightarrow> regions k' = regions k"
  by (auto simp: create_sem_def sem_initialize_def dest!: frame_regions [OF upd_sem_frame [where X = "{}"]] split: bind_splits)

lemma free_sem_regions: "free_sem s k = Some (r, k') \<Longrightarrow> regions k' = regions k"
  by (auto simp: free_sem_def split: bind_splits)

lemma mem_others: "heap_start m = heap_start (mem k) \<Longrightarrow> others_kept t k (k\<lparr>mem := m\<rparr>)"
  by (simp add: others_kept_def)

lemma create_sem_others: "create_sem v k = Some (s, k') \<Longrightarrow> others_kept t k k'"
  by (cases "s = NULL") (auto simp: create_sem_def sem_initialize_def others_kept_def mem_alloc_start split: bind_splits)

text \<open>The creation of a thread touches the new control block only, also when it fails.\<close>

lemma create_tcb_others:
  assumes "create_tcb bdy ags sp k = Some (t, k')" "mem_alloc_blocks (to_blocks sizeof_TCB) (mem k) = Some (t0, m)"
  shows "others_kept t0 k k'"
proof (cases "bdy \<noteq> 0 \<and> sp \<noteq> NULL \<and> t0 \<noteq> NULL")
  case True
  have m: "others_kept t0 k (k\<lparr>mem := m\<rparr>)" by (rule mem_others [OF mem_alloc_start [OF assms(2)]])
  obtain f k1 st m2 k2 where s: "upd_tcb t0 f (k\<lparr>mem := m\<rparr>) = Some k1" "mem_alloc_blocks (to_blocks DEFAULT_STACK_SIZE) (mem k1) = Some (st, m2)"
    "upd_tcb t0 (sys_stack_update (\<lambda>_. st)) (k1\<lparr>mem := m2\<rparr>) = Some k2"
    and rest: "(if st = NULL then do { k3 \<leftarrow> free_tcb t0 k2; Some (NULL, k3) }
            else do {
              k3 \<leftarrow> upd_tcb t0 (\<lambda>x. x\<lparr>tcontext := (tcontext x)\<lparr>
                       c_sys_sp := sys_stack x + DEFAULT_STACK_SIZE, c_tp := 0,
                       c_sstatus := csr_sstatus (cpu_of k2) OR push_bit 5 1,
                       c_ra := addr_k_tcb_start (lay k2)\<rparr>, resume := KStart\<rparr>) k2;
              (js, k4) \<leftarrow> create_sem 0 k3;
              k5 \<leftarrow> upd_tcb t0 (join_sem_update (\<lambda>_. js)) k4;
              (if js = NULL then do { k6 \<leftarrow> free_tcb t0 k5; Some (NULL, k6) }
               else Some (t0, k5))
            }) = Some (t, k')"
    using assms True unfolding create_tcb_def Let_def
    by (simp del: upd_tcb_nonnull) (clarsimp simp del: upd_tcb_nonnull simp: Option.bind_eq_Some_conv)
  have k2: "others_kept t0 k k2"
    using m upd_tcb_others [OF s(1)] mem_others [OF mem_alloc_start [OF s(2)], of t0] upd_tcb_others [OF s(3)] others_kept_trans by meson
  have k': "others_kept t0 k2 k'"
    using rest
    by (auto simp del: upd_tcb_nonnull split: if_splits bind_splits
        dest!: upd_tcb_others free_tcb_others create_sem_others [where t = t0]; meson others_kept_trans)
  show ?thesis using others_kept_trans [OF k2 k'] .
next
  case False
  have m: "others_kept t0 k (k\<lparr>mem := m\<rparr>)" by (rule mem_others [OF mem_alloc_start [OF assms(2)]])
  have "others_kept t0 k k" by (simp add: others_kept_def)
  then show ?thesis using assms False m by (auto simp: create_tcb_def Let_def split: if_splits)
qed

lemma thread_nonnull: "krep k A \<Longrightarrow> t \<in> threads A \<Longrightarrow> t \<noteq> NULL"
  using krepD(4) [of k A] queues_repD(4) [OF krep0D(1) [OF krepD(1)], of k A] by (auto simp: threads_def)

lemma handle_create_regions:
  assumes h: "handle_create_thread p0 p1 p2 p3 k = Some k'" and rep: "kinv f k A" and u: "u \<in> threads A"
  shows "regions k' u = regions k u"
proof (cases "p0 \<noteq> NULL \<and> p1 \<noteq> 0 \<and> p3 \<noteq> NULL")
  case True
  obtain t k1 where c: "create_tcb p1 p2 p3 k = Some (t, k1)"
    and rest: "(if t \<noteq> NULL then put_tcb t (k1\<lparr>user_cells := (user_cells k1)(p0 := t)\<rparr>) \<bind> set_a0 SUCCESS_SYSCALL
       else Some (k1\<lparr>user_cells := (user_cells k1)(p0 := t)\<rparr>)) = Some k'"
    using h True by (auto simp: handle_create_thread_def Let_def split: bind_splits)
  have "regions k' = regions k1"
    using rest by (auto dest!: frame_regions [OF put_tcb_frame [where X = "{}"]] frame_regions [OF set_a0_frame]
        split: if_splits bind_splits)
  moreover have "regions k1 u = regions k u"
  proof -
    obtain t0 m where a: "mem_alloc_blocks (to_blocks sizeof_TCB) (mem k) = Some (t0, m)"
      using c True by (auto simp: create_tcb_def split: bind_splits)
    have o: "others_kept t0 k k1" by (rule create_tcb_others [OF c a])
    have "t0 \<noteq> NULL \<Longrightarrow> t0 \<notin> threads A" using fresh_not_owned(3) [OF kinvD(3) [OF rep], of 6 t0 m] a by simp
    then have "u \<noteq> t0" using u thread_nonnull [OF kinvD(1) [OF rep]] by metis
    with o show ?thesis by (rule others_regions)
  qed
  ultimately show ?thesis by simp
next
  case False
  then show ?thesis using h
    by (auto simp: handle_create_thread_def create_tcb_def Let_def split: if_splits bind_splits
      dest!: frame_regions [OF put_tcb_frame [where X = "{}"]] frame_regions [OF set_a0_frame])
qed

text \<open>A system call changes the regions of no living thread, except that of a thread that exits.\<close>

lemma dispatch_regions:
  assumes "dispatch cont k = Some (f, k')" "status (tcbs k (current_tcb k)) \<noteq> TERMINATING"
  shows "regions k' = regions k"
  using frame_regions [OF dispatch_frame [OF assms]] .

lemma wait_then_regions: "wait_then cont s k = Some (f, k') \<Longrightarrow> current_context k = current_tcb k \<Longrightarrow> regions k' = regions k"
  by (drule (1) wait_then_frame) (auto simp: frame_regions)

lemma syscall_regions:
  assumes sys: "syscall code p0 p1 p2 p3 k = Some (fl, k')" and inv: "kinv f k A" and u: "u \<in> threads A"
    and no: "\<not> (code = THREAD_EXIT_CODE \<and> u = a_cur A)"
  shows "regions k' u = regions k u"
proof -
  note rep = kinvD(1) [OF inv]
  have cc: "current_context k = current_tcb k" "current_tcb k = a_cur A" "status (tcbs k (a_cur A)) = RUNNING" "a_cur A \<noteq> NULL"
    using krepD [OF rep] by simp_all
  consider (create) "code = CREATE_THREAD_CODE" | (exit) "code = THREAD_EXIT_CODE" "a_cur A \<noteq> main_tcb (lay k)"
    | (sleep) "code = TIME_SLEEP_CODE"
    | (other) "code \<noteq> CREATE_THREAD_CODE" "code \<noteq> TIME_SLEEP_CODE" "code = THREAD_EXIT_CODE \<longrightarrow> a_cur A = main_tcb (lay k)" by blast
  then show ?thesis
  proof cases
    case create
    then show ?thesis using sys handle_create_regions [OF _ inv u] by (auto simp: syscall_def syscall_code_defs)
  next
    case exit
    have "join_sem (tcbs k (a_cur A)) \<in> a_sems A"
      using ownedD(3) [OF kinvD(3) [OF inv], of "a_cur A"] exit(2) by (simp add: user_threads_def threads_def)
    then have "join_sem (tcbs k (a_cur A)) \<noteq> NULL" using sem_nonnull [OF krepD(1) [OF rep]] by blast
    then have "others_kept (a_cur A) k k'"
      using thread_exit_others [of p0 p1 p2 p3 k fl k'] sys exit cc by simp
    then show ?thesis using no exit(1) by (intro others_regions) auto
  next
    case sleep
    show ?thesis
    proof (cases "p0 = 0")
      case False
      then have p0: "0 < p0" by (simp add: word_gt_0)
      obtain k1 k2 where s: "put_to_sleep (a_cur A) p0 k = Some k1" "set_a0 SUCCESS_SYSCALL k1 = Some k2" "dispatch KDispatch k2 = Some (fl, k')"
        using sys sleep p0 cc(2) by (auto simp: syscall_def syscall_code_defs split: bind_splits)
      obtain k1' where p: "put_to_sleep (a_cur A) p0 k = Some k1'"
        "\<And>q. status (tcbs k1' q) = (if q = a_cur A then SUSPENDED else status (tcbs k q))"
        "current_tcb k1' = current_tcb k" "current_context k1' = current_context k"
        by (rule put_to_sleep_rep [OF krepD(1,4,6) [OF rep] p0]) auto
      have k1: "current_tcb k1 = a_cur A" "status (tcbs k1 (a_cur A)) = SUSPENDED" "current_context k1 = a_cur A"
        using p s(1) cc by auto
      then have "status (tcbs k2 (current_tcb k2)) \<noteq> TERMINATING"
        using s(2) cc(4) by (auto simp: set_a0_def)
      then show ?thesis
        using dispatch_regions [OF s(3)] frame_regions [OF put_to_sleep_frame [OF s(1), of "{a_cur A}"]] frame_regions [OF set_a0_frame [OF s(2)]] by simp
    qed (use sys sleep in \<open>simp add: syscall_def syscall_code_defs\<close>)
  next
    case other
    then show ?thesis
      using sys cc
      by (auto simp: syscall_def prepare_user_mode_def handle_sem_open_def handle_sem_close_def Let_def
          dest!: wait_then_regions dispatch_regions frame_regions [OF set_a0_frame]
            create_sem_regions frame_regions [OF sem_close_frame [where X = "{}"]] free_sem_regions
            frame_regions [OF sem_signal_frame [where X = "{}"]]
          split: if_splits bind_splits)
  qed
qed

section \<open>Interrupts and whole events\<close>

lemma running_dispatch_regions:
  assumes "dispatch cont k = Some (f, k')" "krep k A"
  shows "regions k' = regions k"
  using dispatch_regions [OF assms(1)] krepD(2,5) [OF assms(2)] by simp

lemma timer_regions:
  assumes h: "k_handle_timer k = Some (fl, k')" and inv: "kinv f k A"
  shows "regions k' = regions k"
proof -
  let ?k0 = "k\<lparr>cpu_of := (cpu_of k)\<lparr>csr_sip := csr_sip (cpu_of k) AND NOT 0x02\<rparr>\<rparr>"
  have k0: "krep ?k0 A" using kinvD(1) [OF inv] by simp
  obtain k1 where k1: "timer_tick ?k0 = Some k1" "krep k1 (a_tick A)" by (rule timer_tick_rep [OF k0])
  have r1: "regions k1 = regions k" using frame_regions [OF timer_tick_frame [OF k1(1), of "{}"]] by simp
  have k2: "krep (k1\<lparr>timer_ticks := timer_ticks k1 + 1\<rparr>) (a_tick A)" using k1(2) by simp
  have r2: "regions (k1\<lparr>timer_ticks := timer_ticks k1 + 1\<rparr>) = regions k1" by (simp add: regions_def)
  show ?thesis
    using h k1(1) r1 r2 running_dispatch_regions [OF _ k2]
    by (auto simp: k_handle_timer_def Let_def split: bind_splits if_splits)
qed

lemma console_regions:
  assumes h: "k_handle_console stat data k = Some (fl, k')" and inv: "kinv f k A" and s: "may_signal A (getc_sem (lay k))"
  shows "regions k' = regions k"
proof -
  let ?k0 = "k\<lparr>cpu_of := (cpu_of k)\<lparr>csr_sip := csr_sip (cpu_of k) AND NOT 0x200\<rparr>\<rparr>"
  let ?kb = "?k0\<lparr>getc_buffer := q_put IO_BUFFER_SIZE data (getc_buffer ?k0)\<rparr>"
  have kb: "kinv f ?kb A" using inv by simp
  obtain k1 where k1: "sem_signal (getc_sem (lay k)) ?kb = Some (SIGNAL_SUCCESS, k1)"
    "kinv f k1 (a_signal (getc_sem (lay k)) A)" "frame {} ?kb k1"
    using kinv_signal [OF kb s] by metis
  have "regions k1 = regions k" using frame_regions [OF k1(3)] by (simp add: regions_def)
  then show ?thesis
    using h k1(1) running_dispatch_regions [OF _ kinvD(1) [OF k1(2)]]
    by (auto simp: k_handle_console_def fill_getc_buffer_def q_get_capacity_def Let_def split: bind_splits if_splits)
qed

text \<open>The running thread exits.\<close>

definition exits :: "event \<Rightarrow> bool" where
  "exits e \<longleftrightarrow> (case e of Ecall code p0 p1 p2 p3 \<Rightarrow> code = THREAD_EXIT_CODE | _ \<Rightarrow> False)"

lemma leave_trap_regions: "leave_trap rw e (fl, k1) = Some (u, k') \<Longrightarrow> fl \<noteq> Halts \<Longrightarrow> regions k' = regions k1"
  using frame_regions [OF trap_exit_frame] frame_regions [OF resume_current_frame]
  by (auto simp: leave_trap_def split: flow.splits)

lemma run_event_regions:
  assumes inv: "kinv f k A" and bd: "board_ok bd" and ok: "permitted f k A e" and run: "run_event bd e k = Some k'"
    and u: "u \<in> threads A" and no: "\<not> (exits e \<and> u = a_cur A)"
  shows "regions k' u = regions k u"
proof (cases "trap_of bd e k")
  case None
  then consider (c) r v where "e = Compute r v" | (f) stat where "e = Flush stat" by (cases e) auto
  then show ?thesis
  proof cases
    case c
    then show ?thesis using run by (auto simp: run_event_def)
  next
    case f
    obtain k1 where "flush_putc_buffer stat k = Some k1" "frame {} k k1"
      by (rule kinv_flush [OF inv, of "tx_ready stat (q_get_length (putc_buffer k))" stat]) (use ok f in \<open>simp_all add: permitted_def\<close>)
    then show ?thesis using frame_regions run f by (simp add: run_event_def)
  qed
next
  case (Some tr)
  obtain k0 c handler where tr: "trap_of bd e k = Some (k0, c, handler)" using Some by (cases tr) auto
  have k0: "kinv f k0 A" "regions k0 = regions k" "lay k0 = lay k" using tr inv by (cases e; auto)+
  note en = entered_inv [OF k0(1)]
  have hd: "handled (event_step k e A) f k0 A (handler (entered k0))" using event_handled [OF inv bd ok tr] .
  then obtain fl k1 where h: "handler (entered k0) = Some (fl, k1)" "fl \<noteq> Halts" by (fastforce simp: handled_def split: flow.splits)
  obtain v where l: "leave_trap (bd_run_wrapper bd) c (fl, k1) = Some (v, k')"
    using run run_event_trap [OF tr] en(1) h by auto
  have e: "regions (entered k0) = regions k" using frame_regions [OF en(3)] k0(2) by simp
  have "regions k1 u = regions k u"
  proof (cases e)
    case Timer_interrupt
    then have "k_handle_timer (entered k0) = Some (fl, k1)" using tr h(1) by simp
    from timer_regions [OF this en(2)] show ?thesis by (simp add: e)
  next
    case (Console_interrupt stat data)
    have "lay (entered k0) = lay k" using frameD(2) [OF en(3)] k0(3) by simp
    then have s: "may_signal A (getc_sem (lay (entered k0)))" using ok Console_interrupt by (simp add: permitted_def)
    have "k_handle_console stat data (entered k0) = Some (fl, k1)" using tr h(1) Console_interrupt by simp
    from console_regions [OF this en(2) s] show ?thesis by (simp add: e)
  next
    case (Ecall code p0 p1 p2 p3)
    have may: "may_call f k A code p0 p1 p3" using ok Ecall by (simp add: permitted_def)
    obtain k2 where k2: "frame {a_cur A} k k2" "syscall code p0 p1 p2 p3 k2 = Some (fl, k1)" "kinv f k2 A"
      using ecall_handled(2) [OF inv bd may tr [unfolded Ecall]] h by metis
    show ?thesis
      using syscall_regions [OF k2(2,3) u] frame_regions [OF k2(1)] no Ecall by (auto simp: exits_def)
  qed (use tr in auto)
  then show ?thesis using leave_trap_regions [OF l h(2)] by simp
qed

section \<open>Who is left\<close>

text \<open>Only an exit takes a thread away.\<close>

lemma event_keeps_threads:
  assumes inv: "kinv f k A" and ok: "permitted f k A e" and A': "A' \<in> event_step k e A"
    and t: "t \<in> threads A" "\<not> (exits e \<and> t = a_cur A)"
  shows "t \<in> threads A'"
proof (cases "t = a_cur A")
  case False
  then show ?thesis using event_step_threads [OF inv ok A'] t(1) by blast
next
  case True
  show ?thesis
  proof (cases e)
    case (Console_interrupt stat data)
    then show ?thesis using ok A' t by (auto simp: event_step_def permitted_def may_signal_def split: if_splits)
  next
    case (Flush stat)
    then show ?thesis using A' t ownedD(11) [OF kinvD(3) [OF inv]] by (auto simp: event_step_def)
  next
    case (Ecall code p0 p1 p2 p3)
    have may: "may_call f k A code p0 p1 p3" and c: "A' \<in> call_step k code p0 p1 p3 A"
      using ok A' Ecall by (simp_all add: permitted_def event_step_def)
    from inv may c show ?thesis
    proof (cases rule: call_step_cases)
      case (exit s)
      then show ?thesis using t(2) True Ecall by (simp add: exits_def)
    qed (use t(1) in \<open>auto simp: threads_create threads_wait_may [OF inv] may_signal_def\<close>)
  qed (use A' t(1) in \<open>auto simp: event_step_def split: if_splits\<close>)
qed

section \<open>Joining\<close>

text \<open>The join semaphore of a thread is closed by its exit, and by nothing else.\<close>

lemma join_sem_closed:
  assumes inv: "kinv f k A" and ok: "permitted f k A e" and t: "t \<in> user_threads k A"
    and c: "closes (join_sem (tcbs k t)) k e"
  shows "exits e \<and> a_cur A = t"
proof -
  note own = kinvD(3) [OF inv]
  let ?js = "join_sem (tcbs k t)"
  have cur: "current_tcb k = a_cur A" using krepD(2) [OF kinvD(1) [OF inv]] .
  have reg: "?js \<in> set (thread_regions k t)" by (simp add: thread_regions_def)
  have "?js \<noteq> NULL" using sem_nonnull [OF krepD(1) [OF kinvD(1) [OF inv]] ownedD(3) [OF own t]] by simp
  then have "e \<noteq> Ecall SEM_CLOSE_CODE ?js p1 p2 p3" for p1 p2 p3
    using ok t reg by (auto simp: permitted_def may_call_def syscall_code_defs)
  then obtain p0 p1 p2 p3 where e: "e = Ecall THREAD_EXIT_CODE p0 p1 p2 p3" "a_cur A \<noteq> main_tcb (lay k)" "join_sem (tcbs k (a_cur A)) = ?js"
    using c cur by (auto simp: closes_def split: event.splits)
  have "a_cur A \<in> user_threads k A" using e(2) by (simp add: user_threads_def threads_def)
  moreover have "?js \<in> set (thread_regions k (a_cur A))" using e(3) by (simp add: thread_regions_def)
  ultimately have "a_cur A = t" using ownedD(4) [OF own _ t] reg by blast
  then show ?thesis using e(1) by (simp add: exits_def)
qed

lemma join_waits:
  assumes "kernel_run bd f k A es k' A'" "board_ok bd" "kinv f k A" "t \<in> user_threads k A" "join_sem (tcbs k t) = js"
    and "u \<in> set (a_queue A (Waiting js))" "\<forall>x \<in> set es. \<forall>p1 p2 p3. fst x \<noteq> Ecall SEM_SIGNAL_CODE js p1 p2 p3"
  shows "u \<in> set (a_queue A' (Waiting js)) \<or>
    (\<exists>es1 e c es2 k1 A1. es = es1 @ (e, c) # es2 \<and> kernel_run bd f k A es1 k1 A1 \<and> a_cur A1 = t \<and> exits e)"
  using assms
proof (induction rule: kernel_run.induct)
  case (run_cons k A e k1 A1 es k2 A2)
  note inv = run_cons.prems(2) and own = kinvD(3) [OF run_cons.prems(2)]
  show ?case
  proof (cases "exits e \<and> a_cur A = t")
    case True
    then show ?thesis using run_nil [of bd f k A]
      by (intro disjI2 exI [of _ "[]"] exI [of _ e] exI [of _ "a_cur A1"] exI [of _ es] exI [of _ k] exI [of _ A]) simp
  next
    case False
    have js: "js \<in> a_sems A" using ownedD(3) [OF own run_cons.prems(3)] run_cons.prems(4) by simp
    have "live_blocks (mem k) js \<noteq> None"
      using region_live [OF own run_cons.prems(3), of js] run_cons.prems(4) by (simp add: thread_regions_def)
    then have io: "js \<noteq> putc_sem (lay k)" "js \<noteq> getc_sem (lay k)"
      using live_not_static [OF own] ownedD(13,14) [OF own] by auto
    have g: "gives js k e = 0" using run_cons.prems(6) io by (auto simp: gives_def split: event.splits)
    have c: "\<not> closes js k e" using join_sem_closed [OF inv run_cons.hyps(1) run_cons.prems(3)] run_cons.prems(4) False by auto
    have i: "kinv f k1 A1" "undisturbed A A1 k k1" by (rule run_event_inv [OF inv run_cons.prems(1) run_cons.hyps(1-3)])+
    have t0: "t \<in> threads A" "t \<noteq> main_tcb (lay k)" using run_cons.prems(3) by (simp_all add: user_threads_def)
    have t1: "t \<in> user_threads k1 A1"
      using event_keeps_threads [OF inv run_cons.hyps(1,3) t0(1)] False t0(2) i(2) by (auto simp: user_threads_def undisturbed_def)
    have "regions k1 t = regions k t" by (rule run_event_regions [OF inv run_cons.prems(1) run_cons.hyps(1,2) t0(1)]) (use False in blast)
    then have j1: "join_sem (tcbs k1 t) = js" using run_cons.prems(4) by (simp add: regions_def regions_of_def)
    have u1: "u \<in> set (a_queue A1 (Waiting js))"
      using fifo_step_sets(2) [OF event_fifo [OF inv run_cons.hyps(1,3) js c, unfolded g]] run_cons.prems(5) by blast
    have "\<forall>x \<in> set es. \<forall>p1 p2 p3. fst x \<noteq> Ecall SEM_SIGNAL_CODE js p1 p2 p3" using run_cons.prems(6) by simp
    from run_cons.IH [OF run_cons.prems(1) i(1) t1 j1 u1 this] show ?thesis
    proof
      assume "\<exists>es1 e c es2 k2 A2. es = es1 @ (e, c) # es2 \<and> kernel_run bd f k1 A1 es1 k2 A2 \<and> a_cur A2 = t \<and> exits e"
      then obtain es1 e' c' es2 k3 A3 where r: "es = es1 @ (e', c') # es2" "kernel_run bd f k1 A1 es1 k3 A3" "a_cur A3 = t" "exits e'" by blast
      have "kernel_run bd f k A ((e, a_cur A1) # es1) k3 A3" by (rule kernel_run.run_cons [OF run_cons.hyps(1-3) r(2)])
      then show ?thesis using r
        by (intro disjI2 exI [of _ "(e, a_cur A1) # es1"] exI [of _ e'] exI [of _ c'] exI [of _ es2] exI [of _ k3] exI [of _ A3]) simp
    qed simp
  qed
qed simp

end
