(* ===== verification/Props_Runs.thy ===== *)
theory Props_Runs
  imports Props_Life Kernel_Fair Kernel_Join Cpp_Objects
begin

text \<open>
  The properties that speak about many events at once (bounded waiting, the promises of a semaphore,
  joining) and about the C++ classes on the booted kernel.
\<close>

unbundle bit_operations_syntax

section \<open>Bounded waiting\<close>

text \<open>C6: no ready thread starves: the thread at position p of the ready queue is running after at most
  2 (p + 1) timer interrupts, whatever the threads do and whichever other events happen; a time slice is
  two ticks.\<close>

theorem ready_thread_runs_in_time:
  assumes "kernel_run bd f k A es k' A'" "board_ok bd" "kinv f k A" "slices_ok k A"
    and "p < length (a_queue A Ready)" "unat (timer_ticks k) + length es < 2 ^ 64" "2 * (p + 1) \<le> tick_count es"
  shows "\<exists>es1 es2 k1 A1. es = es1 @ es2 \<and> kernel_run bd f k A es1 k1 A1 \<and> a_cur A1 = a_queue A Ready ! p \<and>
    tick_count es1 \<le> 2 * (p + 1)"
proof -
  let ?t = "a_queue A Ready ! p"
  have q: "a_queue A Ready = take p (a_queue A Ready) @ ?t # drop (Suc p) (a_queue A Ready)"
    using assms(5) by (rule id_take_nth_drop)
  have len: "length (take p (a_queue A Ready)) = p" using assms(5) by simp
  have bound: "tick_count xs < 2 * (p + 1)" if "kernel_run bd f k A xs k1 A1" "?t \<notin> snd ` set xs" "length xs \<le> length es" for xs k1 A1
  proof -
    have "unat (timer_ticks k) + length xs < 2 ^ 64" using assms(6) that(3) by linarith
    from run_patience [OF that(1) assms(2-4) q this that(2)] have "tick_count xs < patience p k" unfolding len .
    then show ?thesis using patience_bounds(2) [of p k] by (simp add: slice_ticks)
  qed
  have "?t \<in> snd ` set es" using bound [OF assms(1)] assms(7) by auto
  then have "\<exists>x \<in> set es. snd x = ?t" by force
  then obtain xs x zs where x: "es = xs @ x # zs" "snd x = ?t" "\<forall>y \<in> set xs. snd y \<noteq> ?t"
    by (rule split_list_first_propE)
  have "kernel_run bd f k A ((xs @ [x]) @ zs) k' A'" using assms(1) x(1) by simp
  then obtain k2 A2 where r: "kernel_run bd f k A (xs @ [x]) k2 A2" by (rule kernel_run_split)
  obtain k1 A1 where r1: "kernel_run bd f k A xs k1 A1" "kernel_run bd f k1 A1 [x] k2 A2" by (rule kernel_run_split [OF r])
  have "a_cur A2 = ?t" using r1(2) x(2) by (auto elim!: kernel_run_consE)
  moreover have "tick_count xs < 2 * (p + 1)" by (rule bound [OF r1(1)]) (use x in auto)
  then have "tick_count (xs @ [x]) \<le> 2 * (p + 1)" by (simp add: tick_count_def)
  ultimately show ?thesis
    using r x(1) by (intro exI [of _ "xs @ [x]"] exI [of _ zs] exI [of _ k2] exI [of _ A2]) simp
qed

lemma run_timer:
  assumes "kinv f k A" "board_ok bd"
  obtains k1 A1 where "kernel_run bd f k A [(Timer_interrupt, a_cur A1)] k1 A1" "kinv f k1 A1"
proof -
  obtain k1 A1 where "run_event bd Timer_interrupt k = Some k1" "A1 \<in> event_step k Timer_interrupt A" "kinv f k1 A1"
    by (rule run_event_refines [OF assms, of Timer_interrupt]) simp_all
  then show ?thesis using run_cons [OF permitted_simple(1) _ _ run_nil] that by metis
qed

theorem ready_thread_runs_in_time_witness:
  "\<exists>t k A es1 k1 A1. a_queue A Ready = [t] \<and> kernel_run sample_board t k A es1 k1 A1 \<and> a_cur A1 = t \<and> tick_count es1 \<le> 2"
proof -
  obtain t js k where s: "kinv t k (a_create t js (boot_sched sample_layout))"
    "slices_ok k (a_create t js (boot_sched sample_layout))" "timer_ticks k = 0"
    by (rule sample_booted)
  let ?A = "a_create t js (boot_sched sample_layout)"
  obtain k1 A1 where r1: "kernel_run sample_board t k ?A [(Timer_interrupt, a_cur A1)] k1 A1" "kinv t k1 A1"
    by (rule run_timer [OF s(1) sample_board_ok])
  obtain k2 A2 where r2: "kernel_run sample_board t k1 A1 [(Timer_interrupt, a_cur A2)] k2 A2"
    by (rule run_timer [OF r1(2) sample_board_ok])
  from kernel_run_append [OF r1(1) r2]
  have r: "kernel_run sample_board t k ?A [(Timer_interrupt, a_cur A1), (Timer_interrupt, a_cur A2)] k2 A2" by simp
  have Q: "a_queue ?A Ready = [t]" by simp
  from ready_thread_runs_in_time [OF r sample_board_ok s(1,2), of 0] s(3) obtain es1 k3 A3 where
    "kernel_run sample_board t k ?A es1 k3 A3" "a_cur A3 = t" "tick_count es1 \<le> 2"
    by (auto simp: is_tick_def)
  then show ?thesis using Q by blast
qed

section \<open>Semaphores over runs\<close>

text \<open>C7: a semaphore keeps its promise over every run that does not close it: the waits that are let
  through are at most its initial counter plus the signals (so a semaphore opened with 1 excludes), and
  as long as a thread waits they are exactly as many: no wake-up is lost.\<close>

theorem semaphore_admits_exactly:
  assumes "sem_run bd f s k A w g k' A'" "board_ok bd" "kinv f k A" "s \<in> a_sems A"
  shows "s \<in> a_sems A' \<and> a_val A' s = a_val A s + int g - int w \<and>
    let_through s A w A' \<le> max 0 (a_val A s) + int g \<and>
    (a_queue A' (Waiting s) \<noteq> [] \<longrightarrow> let_through s A w A' = max 0 (a_val A s) + int g)"
  using sem_run_balance [OF assms] sem_run_admits [OF assms] by blast

theorem semaphore_admits_exactly_witness:
  "\<exists>t k A k' A'. sem_run sample_board t 0x2000 k A 1 0 k' A' \<and> a_val A 0x2000 = 2048 \<and> a_val A' 0x2000 = 2047 \<and>
     let_through 0x2000 A 1 A' \<le> 2048"
proof -
  obtain t js k where s: "kinv t k (a_create t js (boot_sched sample_layout))" "t \<noteq> 0x1000" "js \<noteq> 0x2000" "lay k = sample_layout"
    by (rule sample_booted)
  let ?A = "a_create t js (boot_sched sample_layout)" and ?e = "Ecall PUT_C_CODE 65 0 0 0"
  have p: "permitted t k ?A ?e" using s by (auto simp: may_block_def)
  obtain k' A' where r: "run_event sample_board ?e k = Some k'" "A' \<in> event_step k ?e ?A"
    by (rule run_event_refines [OF s(1) sample_board_ok p])
  have c: "\<not> closes 0x2000 k ?e" "asks 0x2000 k ?e = 1" "gives 0x2000 k ?e = 0"
    using s(4) by (simp_all add: closes_def asks_def gives_def syscall_code_defs)
  have run: "sem_run sample_board t 0x2000 k ?A 1 0 k' A'"
    using sem_run_cons [OF p r c(1) sem_run_nil] c(2,3) by simp
  have v: "0x2000 \<in> a_sems ?A" "a_val ?A 0x2000 = 2048" using s(3) by (simp_all add: IO_BUFFER_SIZE_def)
  from semaphore_admits_exactly [OF run sample_board_ok s(1) v(1)] v(2) run show ?thesis by fastforce
qed

text \<open>C8: a semaphore serves its threads in the order in which they came: over every run that keeps it open,
  the n-th signal wakes the n-th thread of the queue, whoever waits later is behind, and nobody else leaves
  or enters.\<close>

theorem semaphore_serves_in_order:
  assumes "sem_run bd f s k A w g k' A'" "board_ok bd" "kinv f k A" "s \<in> a_sems A"
  shows "\<exists>zs. a_queue A' (Waiting s) = drop g (a_queue A (Waiting s)) @ zs \<and> length zs \<le> w"
  using sem_run_fifo [OF assms] unfolding fifo_step_def .

text \<open>The main thread waits for a character, and still does so after a timer interrupt.\<close>

theorem semaphore_serves_in_order_witness:
  "\<exists>t k A k' A'. sem_run sample_board t 0x2100 k A 0 0 k' A' \<and> a_queue A (Waiting 0x2100) = [0x1000] \<and>
     a_queue A' (Waiting 0x2100) = [0x1000]"
proof -
  obtain t js k where s: "kinv t k (a_create t js (boot_sched sample_layout))" "t \<noteq> 0x1000" "js \<noteq> 0x2100" "lay k = sample_layout"
    by (rule sample_booted)
  let ?A = "a_create t js (boot_sched sample_layout)" and ?e = "Ecall GET_C_CODE 0 0 0 0"
  have p: "permitted t k ?A ?e"
    using s by (auto simp: permitted_def may_call_def may_block_def syscall_code_defs)
  obtain k1 A1 where r: "run_event sample_board ?e k = Some k1" "A1 \<in> event_step k ?e ?A" "kinv t k1 A1"
    by (rule run_event_refines [OF s(1) sample_board_ok p])
  have A1: "A1 = a_wait 0x2100 ?A" using r(2) s(4) by (simp add: event_step_def call_step_def syscall_code_defs)
  have q: "a_queue A1 (Waiting 0x2100) = [0x1000]" "0x2100 \<in> a_sems A1"
    using s(3) by (simp_all add: A1 a_wait_def a_enq_def Let_def)
  obtain k2 A2 where r2: "run_event sample_board Timer_interrupt k1 = Some k2" "A2 \<in> event_step k1 Timer_interrupt A1"
    by (rule run_event_refines [OF r(3) sample_board_ok, of Timer_interrupt]) simp_all
  have c: "\<not> closes 0x2100 k1 Timer_interrupt" "asks 0x2100 k1 Timer_interrupt = 0" "gives 0x2100 k1 Timer_interrupt = 0"
    by (simp_all add: closes_def asks_def gives_def)
  have run: "sem_run sample_board t 0x2100 k1 A1 0 0 k2 A2"
    using sem_run_cons [OF permitted_simple(1) r2 c(1) sem_run_nil] c(2,3) by simp
  from semaphore_serves_in_order [OF run sample_board_ok r(3) q(2)] q(1) have "a_queue A2 (Waiting 0x2100) = [0x1000]" by simp
  then show ?thesis using run q(1) by blast
qed

section \<open>Joining over runs\<close>

text \<open>C13: join waits for the end of the thread: the caller gives up the processor and does not come back,
  over any run, before the thread that it joins has called thread_exit (as long as no program signals the
  join semaphore, whose handle it was never given).\<close>

theorem join_waits_for_exit:
  assumes "kernel_run bd f k A ((Ecall THREAD_JOIN_CODE t p1 p2 p3, c) # es) k' A'" "board_ok bd" "kinv f k A"
    and "t \<in> user_threads k A" "a_val A (join_sem (tcbs k t)) \<le> 0"
    and "\<forall>x \<in> set es. \<forall>q1 q2 q3. fst x \<noteq> Ecall SEM_SIGNAL_CODE (join_sem (tcbs k t)) q1 q2 q3"
  shows "c \<noteq> a_cur A \<and>
    (a_cur A \<in> set (a_queue A' (Waiting (join_sem (tcbs k t)))) \<or>
     (\<exists>es1 q0 q1 q2 q3 d es2 k1 A1. es = es1 @ (Ecall THREAD_EXIT_CODE q0 q1 q2 q3, d) # es2 \<and>
        kernel_run bd f k A ((Ecall THREAD_JOIN_CODE t p1 p2 p3, c) # es1) k1 A1 \<and> a_cur A1 = t))"
proof -
  let ?js = "join_sem (tcbs k t)" and ?e = "Ecall THREAD_JOIN_CODE t p1 p2 p3"
  note own = kinvD(3) [OF assms(3)] and rep = kinvD(1) [OF assms(3)]
  obtain k1 A1 where r: "c = a_cur A1" "permitted f k A ?e" "run_event bd ?e k = Some k1" "A1 \<in> event_step k ?e A"
    "kernel_run bd f k1 A1 es k' A'"
    using assms(1) by (auto elim: kernel_run_consE)
  have t: "t \<in> threads A" "t \<noteq> main_tcb (lay k)" using assms(4) by (simp_all add: user_threads_def)
  have nn: "t \<noteq> NULL" "?js \<noteq> NULL" "?js \<in> a_sems A"
    using ownedD(3) [OF own assms(4)] sem_nonnull [OF krepD(1) [OF rep]] thread_nonnull [OF rep t(1)] by auto
  have A1: "A1 = a_wait ?js A" using r(4) nn by (simp add: event_step_def call_step_def syscall_code_defs)
  have "may_block f A ?js"
    using r(2) t(2) nn(1) by (auto simp: permitted_def may_call_def syscall_code_defs)
  then have Q: "a_queue A Ready \<noteq> []" using kinvD(5) [OF assms(3)] by (simp add: may_block_def)
  have "c \<in> set (a_queue A Ready)" using switch_heads(2) [OF Q, of ?js] assms(5) Q by (simp add: r(1) A1)
  then have c: "c \<noteq> a_cur A" using krepD(6) [OF rep, of Ready] by auto
  have w: "a_cur A \<in> set (a_queue A1 (Waiting ?js))"
    using assms(5) by (simp add: A1 a_wait_def Let_def a_enq_def)
  have i: "kinv f k1 A1" "undisturbed A A1 k k1" by (rule run_event_inv [OF assms(3,2) r(2-4)])+
  have no: "\<not> (exits ?e \<and> t = a_cur A)" by (simp add: exits_def syscall_code_defs)
  have t1: "t \<in> user_threads k1 A1"
    using event_keeps_threads [OF assms(3) r(2,4) t(1) no] t(2) i(2) by (simp add: user_threads_def undisturbed_def)
  have j1: "join_sem (tcbs k1 t) = ?js"
    using run_event_regions [OF assms(3,2) r(2,3) t(1) no] by (simp add: regions_def regions_of_def)
  from join_waits [OF r(5) assms(2) i(1) t1 j1 w assms(6)] show ?thesis
  proof
    assume "\<exists>es1 e d es2 k2 A2. es = es1 @ (e, d) # es2 \<and> kernel_run bd f k1 A1 es1 k2 A2 \<and> a_cur A2 = t \<and> exits e"
    then obtain es1 e d es2 k2 A2 where x: "es = es1 @ (e, d) # es2" "kernel_run bd f k1 A1 es1 k2 A2" "a_cur A2 = t" "exits e" by blast
    obtain q0 q1 q2 q3 where "e = Ecall THREAD_EXIT_CODE q0 q1 q2 q3" using x(4) by (auto simp: exits_def split: event.splits)
    moreover have "kernel_run bd f k A ((?e, c) # es1) k2 A2" unfolding r(1) by (rule run_cons [OF r(2-4) x(2)])
    ultimately show ?thesis using c x(1,3) by blast
  qed (use c in blast)
qed

theorem join_waits_for_exit_witness:
  "\<exists>t k A k' A' c. kernel_run sample_board t k A [(Ecall THREAD_JOIN_CODE t 0 0 0, c)] k' A' \<and> a_cur A = 0x1000 \<and> c \<noteq> 0x1000 \<and>
     0x1000 \<in> set (a_queue A' (Waiting (join_sem (tcbs k t))))"
proof -
  obtain t js k where s: "kinv t k (a_create t js (boot_sched sample_layout))" "t \<noteq> 0x1000" "lay k = sample_layout"
    by (rule sample_booted)
  let ?A = "a_create t js (boot_sched sample_layout)" and ?e = "Ecall THREAD_JOIN_CODE t 0 0 0"
  note own = kinvD(3) [OF s(1)]
  have ut: "t \<in> user_threads k ?A" using s(2,3) by (simp add: user_threads_def threads_split run_ring_def)
  have "live_blocks (mem k) (join_sem (tcbs k t)) \<noteq> None"
    by (rule region_live [OF own ut]) (simp add: thread_regions_def)
  then have "join_sem (tcbs k t) \<noteq> 0x2000" "join_sem (tcbs k t) \<noteq> 0x2100"
    using live_not_static [OF own] ownedD(13,14) [OF own] s(3) by auto
  then have js: "join_sem (tcbs k t) = js" using ownedD(3) [OF own ut] by simp
  have v: "a_val ?A js = 0" by simp
  have "permitted t k ?A ?e"
    using ut s js by (simp add: permitted_def may_call_def syscall_code_defs may_block_def user_threads_def)
  from run_event_refines [OF s(1) sample_board_ok this] obtain k' A' where
    "run_event sample_board ?e k = Some k'" "A' \<in> event_step k ?e ?A" by metis
  from run_cons [OF \<open>permitted t k ?A ?e\<close> this run_nil]
  have r: "kernel_run sample_board t k ?A [(?e, a_cur A')] k' A'" .
  have "a_cur A' \<noteq> a_cur ?A \<and> a_cur ?A \<in> set (a_queue A' (Waiting (join_sem (tcbs k t))))"
    using join_waits_for_exit [OF r sample_board_ok s(1) ut] by (simp add: js)
  then show ?thesis using r by (intro exI [of _ t] exI [of _ k] exI [of _ ?A] exI [of _ k'] exI [of _ A'] exI [of _ "a_cur A'"]) simp
qed

section \<open>C++ objects on the booted kernel\<close>

text \<open>C17: a Thread object starts its thread exactly once: start creates it through the system calls of the
  kernel, with the body and the argument that the constructor was given, and keeps its handle; a second
  start reports that it has been started and changes nothing.\<close>

theorem thread_object_starts_once:
  assumes "krep k A" "owned k A" "board_ok bd" "this + off_myHandle \<noteq> NULL" "bdy \<noteq> 0"
    and "alloc_rep (mem k) (us @ [Free n])" "\<forall>s \<in> set us. \<not> is_free s" "136 \<le> n"
  shows "\<exists>t js k'.
    Thread_start (kernel_platform bd cs ci) this (Thread_ctor (kernel_platform bd cs ci) this bdy arg k) = Some (0, k') \<and>
    krep k' (a_create t js A) \<and> owned k' (a_create t js A) \<and> t \<notin> threads A \<and> user_cells k' (this + off_myHandle) = t \<and>
    body (tcbs k' t) = bdy \<and> args (tcbs k' t) = arg \<and>
    Thread_start (kernel_platform bd cs ci) this k' = Some (THREAD_ALREADY_STARTED, k')"
  by (rule Thread_starts_once [OF assms, where arg = arg and cs = cs and ci = ci]) blast

theorem thread_object_starts_once_witness:
  "\<exists>k k' t. Thread_start sample_platform 0x5000 (Thread_ctor sample_platform 0x5000 0x80007000 7 k) = Some (0, k') \<and>
     body (tcbs k' t) = 0x80007000 \<and> args (tcbs k' t) = 7 \<and>
     Thread_start sample_platform 0x5000 k' = Some (-1, k')"
proof -
  obtain t js k where s: "kinv t k (a_create t js (boot_sched sample_layout))"
    "\<exists>us r. alloc_rep (mem k) (us @ [Free r]) \<and> (\<forall>s \<in> set us. \<not> is_free s) \<and> 300 \<le> r"
    by (rule sample_booted)
  obtain us r where h: "alloc_rep (mem k) (us @ [Free r])" "\<forall>s \<in> set us. \<not> is_free s" "136 \<le> r" using s(2) by force
  have p: "(0x5000 :: addr) + off_myHandle \<noteq> NULL" "(0x80007000 :: u64) \<noteq> 0" by (simp_all add: off_myHandle_def)
  from thread_object_starts_once [OF kinvD(1,3) [OF s(1)] sample_board_ok p h, of "0x4000" "0x4100" 7]
  show ?thesis by (auto simp: THREAD_ALREADY_STARTED_def)
qed

text \<open>The program runs without privileges: set_user_mode clears the previous-privilege bit of sstatus
  and no other bit, so that the trap returns to user mode; it reports success, keeps every register but
  a0, and the memory; and userMain starts in the state that it leaves.\<close>

lemma user_mode_drops_privilege:
  assumes "krep k A" "board_ok bd"
  shows "\<exists>k'. set_user_mode (kernel_platform bd cs ci) k = Some (0, k') \<and>
    user_main_thread (kernel_platform bd cs ci) userMain k = userMain k' \<and> krep k' A \<and>
    \<not> bit (csr_sstatus (cpu_of k')) 8 \<and> (\<forall>i. i \<noteq> 8 \<longrightarrow> bit (csr_sstatus (cpu_of k')) i = bit (csr_sstatus (cpu_of k)) i) \<and>
    regs (cpu_of k') = (regs (enter_ecall bd USER_MODE_CODE 0 0 0 0 (cpu_of k)))(X_a0 := 0) \<and> env_eq k k'"
proof -
  obtain k' where k': "set_user_mode (kernel_platform bd cs ci) k = Some (0, k')" "krep k' A" "env_eq k k'"
    "csr_sstatus (cpu_of k') = csr_sstatus (cpu_of k) AND NOT (push_bit 8 1)"
    "regs (cpu_of k') = (regs (enter_ecall bd USER_MODE_CODE 0 0 0 0 (cpu_of k)))(X_a0 := 0)"
    by (rule user_mode_call [OF assms, where cs = cs and ci = ci])
  have m: "bit (push_bit 8 1 :: u64) i \<longleftrightarrow> i = 8" for i
    unfolding bit_push_bit_iff bit_1_iff by (auto simp: possible_bit_word)
  have "bit (csr_sstatus (cpu_of k')) i \<longleftrightarrow> bit (csr_sstatus (cpu_of k)) i \<and> i \<noteq> 8" for i
    unfolding k'(4) bit_and_iff bit_not_iff m by (auto dest: bit_imp_le_length)
  then show ?thesis using k' by (intro exI [of _ k']) (simp add: user_main_thread_def)
qed




end
