(* ===== verification/Props_Lock.thy ===== *)
theory Props_Lock
  imports Console_Lock Sample_System
begin

text \<open>
  The properties of the lock around the console's complex output and input, and the two threads on
  which they are instantiated.
\<close>

section \<open>The lock excludes\<close>

text \<open>C16: the lock of the console works once it has been initialised: the first call of console_lock
  initialises it and gets past it, and from then on, whatever is interleaved, at most one thread is
  between console_lock and console_unlock; when a thread waits for the lock, somebody is there; and the
  waiting threads get the lock in the order in which they came, each when the one before it unlocks.\<close>

theorem console_lock_excludes:
  assumes "kinv f k A" "board_ok bd" "cs \<noteq> NULL" "cs < heap_start (mem k)" "cs \<notin> a_sems A" "user_cells k ci = 0"
  shows "\<exists>k1. console_lock (kernel_platform bd cs ci) k = Some k1 \<and>
    (\<forall>k' A' pc. (lock_step bd f cs ci)\<^sup>*\<^sup>*
        (k1, a_wait cs (a_new_sem cs 1 A), (\<lambda>_. Outside)(a_cur A := Called_wait)) (k', A', pc) \<longrightarrow>
      (\<forall>t u. past_lock cs (k', A', pc) t \<longrightarrow> past_lock cs (k', A', pc) u \<longrightarrow> t = u) \<and>
      (a_queue A' (Waiting cs) \<noteq> [] \<longrightarrow> (\<exists>t. past_lock cs (k', A', pc) t)) \<and>
      (\<forall>k2 A2 pc2. lock_step bd f cs ci (k', A', pc) (k2, A2, pc2) \<longrightarrow>
        (\<exists>zs. a_queue A2 (Waiting cs) = a_queue A' (Waiting cs) @ zs) \<or>
        past_lock cs (k', A', pc) (a_cur A') \<and> \<not> past_lock cs (k2, A2, pc2) (a_cur A') \<and>
          (\<exists>t. a_queue A' (Waiting cs) = t # a_queue A2 (Waiting cs) \<and> past_lock cs (k2, A2, pc2) t)))"
proof -
  obtain k1 where k1: "console_lock (kernel_platform bd cs ci) k = Some k1"
    "lock_inv f cs ci (k1, a_wait cs (a_new_sem cs 1 A), (\<lambda>_. Outside)(a_cur A := Called_wait))"
    by (rule console_lock_first [OF assms(1-3) _ assms(5,6)]) (simp_all add: static_addr_def assms(4))
  show ?thesis
  proof (intro exI [of _ k1] conjI allI impI)
    fix k' A' pc
    assume "(lock_step bd f cs ci)\<^sup>*\<^sup>* (k1, a_wait cs (a_new_sem cs 1 A), (\<lambda>_. Outside)(a_cur A := Called_wait)) (k', A', pc)"
    then have inv: "lock_inv f cs ci (k', A', pc)" using assms(2) k1(2) by (rule lock_inv_run)
    show "t = u" if "past_lock cs (k', A', pc) t" "past_lock cs (k', A', pc) u" for t u
      by (rule lock_inv_excludes [OF inv that])
    show "\<exists>t. past_lock cs (k', A', pc) t" if "a_queue A' (Waiting cs) \<noteq> []"
      by (rule lock_inv_held [OF inv that])
    fix k2 A2 pc2
    assume st: "lock_step bd f cs ci (k', A', pc) (k2, A2, pc2)"
    show "(\<exists>zs. a_queue A2 (Waiting cs) = a_queue A' (Waiting cs) @ zs) \<or>
        past_lock cs (k', A', pc) (a_cur A') \<and> \<not> past_lock cs (k2, A2, pc2) (a_cur A') \<and>
          (\<exists>t. a_queue A' (Waiting cs) = t # a_queue A2 (Waiting cs) \<and> past_lock cs (k2, A2, pc2) t)"
      by (rule lock_inv_order [OF st assms(2) inv])
  qed (rule k1(1))
qed

lemma free_address:
  obtains cs :: addr where "cs \<noteq> x" "cs \<noteq> y" "cs \<noteq> NULL" "cs < 0x2000"
proof -
  have "card {x, y} < card {0x1800 :: addr, 0x1900, 0x1a00}" by (simp add: card_insert_if)
  then have "\<not> {0x1800, 0x1900, 0x1a00} \<subseteq> {x, y}" using card_mono [of "{x, y}" "{0x1800, 0x1900, 0x1a00}"] by auto
  then obtain cs where cs: "cs \<in> {0x1800, 0x1900, 0x1a00}" "cs \<notin> {x, y}" by blast
  from cs(1) have "cs \<noteq> NULL" "cs < 0x2000" by auto
  then show ?thesis using cs(2) by (intro that) auto
qed

text \<open>The machine that has booted, with the static variables of src/console.cpp zero.\<close>

lemma sample_unlocked:
  obtains t js k where "kinv t k (a_create t js (boot_sched sample_layout))" "lay k = sample_layout" "user_cells k = (\<lambda>_. 0)"
    "t \<noteq> 0x1000" "putc_sem (lay k) < heap_start (mem k)" "slices_ok k (a_create t js (boot_sched sample_layout))" "timer_ticks k = 0"
    "\<exists>us r. alloc_rep (mem k) (us @ [Free r]) \<and> (\<forall>s \<in> set us. \<not> is_free s) \<and> 300 \<le> r"
proof -
  obtain t js k where s: "kinv t k (a_create t js (boot_sched sample_layout))" "t \<noteq> 0x1000" "lay k = sample_layout"
    "slices_ok k (a_create t js (boot_sched sample_layout))" "timer_ticks k = 0"
    "\<exists>us r. alloc_rep (mem k) (us @ [Free r]) \<and> (\<forall>s \<in> set us. \<not> is_free s) \<and> 300 \<le> r"
    by (rule sample_booted)
  have "putc_sem (lay k) < heap_start (mem k)" using ownedD(13) [OF kinvD(3) [OF s(1)]] by (simp add: static_addr_def)
  then show ?thesis using s by (intro that [of t "k\<lparr>user_cells := \<lambda>_. 0\<rparr>" js]) (simp_all add: slices_ok_def)
qed

theorem console_lock_excludes_witness:
  "\<exists>cs f k A k1. kinv f k A \<and> console_lock (kernel_platform sample_board cs 0x4100) k = Some k1 \<and>
     {t. past_lock cs (k1, a_wait cs (a_new_sem cs 1 A), (\<lambda>_. Outside)(0x1000 := Called_wait)) t} = {0x1000}"
proof -
  obtain t js k where s: "kinv t k (a_create t js (boot_sched sample_layout))" "lay k = sample_layout" "user_cells k = (\<lambda>_. 0)"
    "putc_sem (lay k) < heap_start (mem k)"
    by (rule sample_unlocked)
  obtain cs :: addr where cs: "cs \<noteq> js" "cs \<noteq> NULL" "cs < 0x2000" by (rule free_address [of js js])
  let ?A = "a_create t js (boot_sched sample_layout)"
  let ?w = "\<lambda>k1. (k1, a_wait cs (a_new_sem cs 1 ?A), (\<lambda>_. Outside)(0x1000 := Called_wait))"
  have h: "cs < heap_start (mem k)" "cs \<notin> a_sems ?A" "user_cells k 0x4100 = 0"
    using cs s(2-4) by (auto dest: less_trans)
  obtain k1 where k1: "console_lock (kernel_platform sample_board cs 0x4100) k = Some k1"
    and R: "\<forall>k' A' pc. (lock_step sample_board t cs 0x4100)\<^sup>*\<^sup>* (?w k1) (k', A', pc) \<longrightarrow>
      (\<forall>x u. past_lock cs (k', A', pc) x \<longrightarrow> past_lock cs (k', A', pc) u \<longrightarrow> x = u)"
    using console_lock_excludes [OF s(1) sample_board_ok cs(2) h] by auto
  have x: "y = u" if "past_lock cs (?w k1) y" "past_lock cs (?w k1) u" for y u
    using R [rule_format, OF rtranclp.rtrancl_refl that] .
  have "past_lock cs (?w k1) 0x1000" by (simp add: past_lock_def a_wait_def Let_def)
  then have "{t. past_lock cs (?w k1) t} = {0x1000}" using x by blast
  then show ?thesis using s(1) k1 by blast
qed

section \<open>The first use is a race\<close>

text \<open>C38: console_lock does not exclude on its first use: two threads that are preempted between the test
  of initialized and the initialisation initialise the semaphore twice, and both get past the lock.\<close>

theorem console_lock_race:
  "\<exists>bd f cs ci k A k' A' pc t u. board_ok bd \<and> kinv f k A \<and> cs < heap_start (mem k) \<and> cs \<notin> a_sems A \<and> user_cells k ci = 0 \<and>
     (lock_step bd f cs ci)\<^sup>*\<^sup>* (k, A, \<lambda>_. Outside) (k', A', pc) \<and> kinv f k' A' \<and>
     t \<noteq> u \<and> past_lock cs (k', A', pc) t \<and> past_lock cs (k', A', pc) u"
proof -
  obtain f js k where s: "kinv f k (a_create f js (boot_sched sample_layout))" "lay k = sample_layout" "user_cells k = (\<lambda>_. 0)"
    "slices_ok k (a_create f js (boot_sched sample_layout))" "timer_ticks k = 0"
    "\<exists>us r. alloc_rep (mem k) (us @ [Free r]) \<and> (\<forall>s \<in> set us. \<not> is_free s) \<and> 300 \<le> r"
    by (rule sample_unlocked)
  let ?A0 = "a_create f js (boot_sched sample_layout)"
  obtain us r where h: "alloc_rep (mem k) (us @ [Free r])" "\<forall>s \<in> set us. \<not> is_free s" "136 \<le> r" using s(6) by force
  have p: "(0x5000 :: addr) \<noteq> NULL" "(0x80007000 :: u64) \<noteq> 0" by simp_all
  obtain u ju k' where c: "krep k' (a_create u ju ?A0)" "owned k' (a_create u ju ?A0)" "u \<notin> threads ?A0" "ju \<notin> a_sems ?A0"
    "lay k' = lay k" "slices_kept k k'" "slices k' u = DEFAULT_TIME_SLICE" "timer_ticks k' = timer_ticks k"
    by (rule thread_create_rep [OF kinvD(1,3) [OF s(1)] sample_board_ok p h, where cs = 0 and ci = 0 and arg = 0])
  let ?A = "a_create u ju ?A0" and ?k = "k'\<lparr>user_cells := \<lambda>_. 0\<rparr>"
  obtain cs :: addr where cs: "cs \<noteq> js" "cs \<noteq> ju" "cs \<noteq> NULL" "cs < 0x2000" by (rule free_address)
  have "kinv f k' ?A"
    using c(1,2) counters_ok_create [OF kinvD(2) [OF s(1)] c(4)] kinvD(4) [OF s(1)] by (simp add: kinv_def)
  then have inv: "kinv f ?k ?A" by simp
  have "slices_ok k' ?A"
    using s(4) c(6,7) threads_create [OF c(4), of u] by (simp add: slices_ok_def slices_kept_def slice_of) metis
  then have "calm f cs 0 ?k ?A"
    using inv s(2,5) c(5,8) cs by (simp add: calm_def slices_ok_def a_create_def a_enq_def boot_sched_def)
  moreover have "a_queue ?A Ready = [f, u]" by (simp add: a_create_def a_enq_def boot_sched_def)
  moreover have "cs \<notin> a_sems ?A" using cs by auto
  ultimately obtain k2 A2 pc where r: "(lock_step sample_board f cs 0x4100)\<^sup>*\<^sup>* (?k, ?A, \<lambda>_. Outside) (k2, A2, pc)" "kinv f k2 A2"
    "past_lock cs (k2, A2, pc) (a_cur ?A)" "past_lock cs (k2, A2, pc) u" "u \<noteq> a_cur ?A"
    by (rule race [where bd = sample_board and ci = "0x4100", OF _ sample_board_ok]) simp_all
  have "0x2000 < heap_start (mem ?k)"
    using ownedD(13) [OF kinvD(3) [OF inv]] c(5) s(2) by (simp add: static_addr_def)
  then have cs': "cs < heap_start (mem ?k)" using cs(4) by (rule less_trans [rotated])
  have u0: "user_cells ?k 0x4100 = 0" and out: "cs \<notin> a_sems ?A" and ne: "a_cur ?A \<noteq> u" using cs r(5) by auto
  show ?thesis
    by (rule exI [of _ sample_board], rule exI [of _ f], rule exI [of _ cs], rule exI [of _ "0x4100"], rule exI [of _ ?k],
        rule exI [of _ ?A], rule exI [of _ k2], rule exI [of _ A2], rule exI [of _ pc], rule exI [of _ "a_cur ?A"],
        rule exI [of _ u], intro conjI; fact sample_board_ok inv cs' out u0 r(1-4) ne)
qed

end
