(* ===== verification/Vector_Table.thy ===== *)
theory Vector_Table
  imports Kernel_Run
begin

text \<open>
  src/k_intr_table.S and the hart around the kernel: how a trap finds its routine, what it does to the
  status register, and what sret undoes.  The table is the list of its jump instructions; stvec, the
  causes, the enable bits and the status bits are those of the privileged architecture, as main() and
  the trap code rely on them.
\<close>

unbundle bit_operations_syntax

section \<open>The table\<close>

text \<open>
  Every entry is \<open>jal zero, routine\<close>, which goes to the routine and writes no register.  The
  directive .align 4 puts the table at a multiple of 16, and .org puts the entries at their offsets.
\<close>

datatype routine = K_ecall_trap | K_timer_trap | K_console_trap

definition k_intr_table :: "(u64 \<times> routine) list" where
  "k_intr_table = [(0, K_ecall_trap), (1 * 4, K_timer_trap), (9 * 4, K_console_trap)]"

definition table_aligned :: "layout \<Rightarrow> bool" where
  "table_aligned l \<longleftrightarrow> addr_k_intr_table l AND 0xF = 0"

definition jump_at :: "u64 \<Rightarrow> u64 \<Rightarrow> routine option" where
  "jump_at table pc = map_of k_intr_table (pc - table)"

text \<open>
  The vectored mode of stvec: an exception goes to the base, the interrupt with number n to the base
  plus 4 * n.  The top bit of a cause marks an interrupt.
\<close>

definition interrupt_cause :: "nat \<Rightarrow> u64" where
  "interrupt_cause n = set_bit 63 (of_nat n)"

definition trap_target :: "u64 \<Rightarrow> u64 \<Rightarrow> u64" where
  "trap_target stvec cause =
     (let base = stvec AND NOT 3
      in if stvec AND 3 = 1 \<and> bit cause 63 then base + 4 * unset_bit 63 cause else base)"

section \<open>The status register\<close>

text \<open>Bit 1 (SIE) enables interrupts, bit 5 (SPIE) and bit 8 (SPP) hold what a trap interrupted.\<close>

definition put_bit :: "nat \<Rightarrow> bool \<Rightarrow> u64 \<Rightarrow> u64" where
  "put_bit n b w = (if b then set_bit n w else unset_bit n w)"

definition trap_sstatus :: "bool \<Rightarrow> u64 \<Rightarrow> u64" where
  "trap_sstatus supervisor s = put_bit 8 supervisor (put_bit 5 (bit s 1) (unset_bit 1 s))"

definition sret_sstatus :: "u64 \<Rightarrow> u64" where
  "sret_sstatus s = unset_bit 8 (set_bit 5 (put_bit 1 (bit s 5) s))"

section \<open>The hart\<close>

text \<open>The privilege mode and the program counter, around the state of the kernel.\<close>

record hart =
  supervisor :: bool
  hart_pc :: u64
  hart_kernel :: kstate

definition hart_cpu :: "(cpu \<Rightarrow> cpu) \<Rightarrow> hart \<Rightarrow> hart" where
  "hart_cpu g h = h\<lparr>hart_kernel := (hart_kernel h)\<lparr>cpu_of := g (cpu_of (hart_kernel h))\<rparr>\<rparr>"

definition hart_enter :: "u64 \<Rightarrow> hart \<Rightarrow> kstate" where
  "hart_enter cause h =
     (let k = hart_kernel h
      in k\<lparr>cpu_of := (cpu_of k)\<lparr>csr_scause := cause, csr_sepc := hart_pc h,
           csr_sstatus := trap_sstatus (supervisor h) (csr_sstatus (cpu_of k))\<rparr>\<rparr>)"

definition hart_sret :: "kstate \<Rightarrow> hart" where
  "hart_sret k =
     (let s = csr_sstatus (cpu_of k)
      in \<lparr>supervisor = bit s 8, hart_pc = csr_sepc (cpu_of k),
          hart_kernel = k\<lparr>cpu_of := (cpu_of k)\<lparr>csr_sstatus := sret_sstatus s\<rparr>\<rparr>\<rparr>)"

definition run_routine :: "board \<Rightarrow> u8 \<Rightarrow> u8 \<Rightarrow> routine \<Rightarrow> kstate \<Rightarrow> (unit flow \<times> kstate) option" where
  "run_routine bd stat data r k =
     (case r of
        K_ecall_trap \<Rightarrow> k_ecall_trap (bd_run_wrapper bd) (bd_stat bd) (bd_stat bd) k
      | K_timer_trap \<Rightarrow> k_timer_trap (bd_run_wrapper bd) k
      | K_console_trap \<Rightarrow> k_console_trap (bd_run_wrapper bd) stat data k)"

text \<open>A trap, from the cause to the sret at the end of its routine; a panic never gets there.\<close>

definition hart_trap :: "board \<Rightarrow> u8 \<Rightarrow> u8 \<Rightarrow> u64 \<Rightarrow> hart \<Rightarrow> hart option" where
  "hart_trap bd stat data cause h = do {
     let k = hart_kernel h;
     r \<leftarrow> jump_at (addr_k_intr_table (lay k)) (trap_target (csr_stvec (cpu_of k)) cause);
     (f, k1) \<leftarrow> run_routine bd stat data r (hart_enter cause h);
     (case f of Halts \<Rightarrow> None | _ \<Rightarrow> Some (hart_sret k1))
   }"

text \<open>An interrupt becomes pending, and is taken when it is enabled.\<close>

definition interrupt_enabled :: "nat \<Rightarrow> hart \<Rightarrow> bool" where
  "interrupt_enabled n h \<longleftrightarrow>
     bit (csr_sie (cpu_of (hart_kernel h))) n \<and> (\<not> supervisor h \<or> bit (csr_sstatus (cpu_of (hart_kernel h))) 1)"

definition hart_interrupt :: "board \<Rightarrow> u8 \<Rightarrow> u8 \<Rightarrow> nat \<Rightarrow> hart \<Rightarrow> hart option" where
  "hart_interrupt bd stat data n h =
     (let h1 = hart_cpu (\<lambda>c. c\<lparr>csr_sip := set_bit n (csr_sip c)\<rparr>) h
      in if interrupt_enabled n h1 then hart_trap bd stat data (interrupt_cause n) h1 else Some h1)"

text \<open>k_system_call loads the argument registers and executes ecall.\<close>

definition load_args :: "u64 \<Rightarrow> u64 \<Rightarrow> u64 \<Rightarrow> u64 \<Rightarrow> u64 \<Rightarrow> cpu \<Rightarrow> cpu" where
  "load_args a0 a1 a2 a3 a4 c =
     c\<lparr>regs := (regs c)(X_a0 := a0, X_a1 := a1, X_a2 := a2, X_a3 := a3, X_a4 := a4, X_a5 := 0, X_a6 := 0, X_a7 := 0)\<rparr>"

definition ecall_cause :: "bool \<Rightarrow> u64" where
  "ecall_cause s = (if s then SCAUSE_ECALL_SUPERVISOR else SCAUSE_ECALL_USER)"

definition hart_ecall :: "board \<Rightarrow> u64 \<Rightarrow> u64 \<Rightarrow> u64 \<Rightarrow> u64 \<Rightarrow> u64 \<Rightarrow> hart \<Rightarrow> hart option" where
  "hart_ecall bd a0 a1 a2 a3 a4 h =
     hart_trap bd 0 0 (ecall_cause (supervisor h)) (hart_cpu (load_args a0 a1 a2 a3 a4) h)"

section \<open>Runs of the hart\<close>

text \<open>
  Code outside the kernel computes without touching the supervisor registers; the timer and the console
  interrupt; the running thread makes a system call; the flushing thread, whose critical section reads
  and writes sstatus and so needs supervisor mode, empties the buffer.
\<close>

datatype hart_event =
    Run "gpr \<Rightarrow> u64" u64 "addr \<Rightarrow> u64"
  | Tick
  | Key u8 u8
  | Call u64 u64 u64 u64 u64
  | Flush_buffer "nat \<Rightarrow> u8"

definition hart_step :: "board \<Rightarrow> hart_event \<Rightarrow> hart \<Rightarrow> hart option" where
  "hart_step bd e h =
     (case e of
        Run r p u \<Rightarrow> Some (h\<lparr>hart_pc := p,
          hart_kernel := (hart_kernel h)\<lparr>cpu_of := (cpu_of (hart_kernel h))\<lparr>regs := r\<rparr>, user_cells := u\<rparr>\<rparr>)
      | Tick \<Rightarrow> hart_interrupt bd 0 0 1 h
      | Key stat data \<Rightarrow> hart_interrupt bd stat data 9 h
      | Call code p0 p1 p2 p3 \<Rightarrow> hart_ecall bd code p0 p1 p2 p3 h
      | Flush_buffer stat \<Rightarrow>
          (if supervisor h
           then map_option (\<lambda>k. h\<lparr>hart_kernel := k\<rparr>) (flush_putc_buffer stat (hart_kernel h))
           else None))"

text \<open>The event of the kernel that a step of the hart stands for.\<close>

definition kernel_event :: "hart \<Rightarrow> hart_event \<Rightarrow> event" where
  "kernel_event h e =
     (case e of
        Run r p u \<Rightarrow> Compute ((cpu_of (hart_kernel h))\<lparr>regs := r\<rparr>) u
      | Tick \<Rightarrow> Timer_interrupt
      | Key stat data \<Rightarrow> Console_interrupt stat data
      | Call code p0 p1 p2 p3 \<Rightarrow> Ecall code p0 p1 p2 p3
      | Flush_buffer stat \<Rightarrow> Flush stat)"

section \<open>What the words say\<close>

lemma bit_put_bit [simp]: "n < 64 \<Longrightarrow> bit (put_bit n b w) m = (if m = n then b else bit w m)"
  by (auto simp: put_bit_def bit_set_bit_iff bit_unset_bit_iff possible_bit_word)

lemma bit_sstatus:
  "bit (trap_sstatus v s) 1 = False" "bit (trap_sstatus v s) 5 = bit s 1" "bit (trap_sstatus v s) 8 = v"
  "bit (sret_sstatus s) 1 = bit s 5" "bit (sret_sstatus s) 5" "bit (sret_sstatus s) 8 = False"
  by (simp_all add: trap_sstatus_def sret_sstatus_def bit_set_bit_iff bit_unset_bit_iff possible_bit_word)

lemmas bit_sstatus_simps [simp] = bit_sstatus bit_sstatus [unfolded One_nat_def]

text \<open>The base that main() writes to stvec, and the number of an interrupt.\<close>

lemma vector_base:
  assumes "t AND 0xF = (0 :: u64)"
  shows "(t OR 1) AND 3 = 1" "(t OR 1) AND NOT 3 = t"
proof -
  have m: "(0xF :: u64) = mask 4" "(3 :: u64) = mask 2" by (simp_all add: mask_eq_exp_minus_1)
  have low: "\<not> bit t n" if "n < 4" for n
    using arg_cong [OF assms, of "\<lambda>w. bit w n"] that by (simp add: m bit_and_iff bit_mask_iff possible_bit_word)
  show "(t OR 1) AND 3 = 1"
    by (rule bit_eqI) (use low in \<open>auto simp: m bit_and_iff bit_or_iff bit_1_iff bit_mask_iff\<close>)
  show "(t OR 1) AND NOT 3 = t"
    by (rule bit_eqI) (use low in \<open>auto simp: m bit_and_iff bit_or_iff bit_1_iff bit_not_iff bit_mask_iff\<close>)
qed

lemma interrupt_cause_parts:
  assumes "n < 16"
  shows "bit (interrupt_cause n) 63" "unset_bit 63 (interrupt_cause n) = of_nat n"
proof -
  show "bit (interrupt_cause n) 63" by (simp add: interrupt_cause_def bit_set_bit_iff possible_bit_word)
  have nat_63: "\<not> bit n 63" using assms by (simp add: bit_iff_odd)
  have "\<not> bit (of_nat n :: u64) 63" using assms nat_63 by (simp add: bit_of_nat_iff)
  then show "unset_bit 63 (interrupt_cause n) = of_nat n"
    by (intro bit_eqI) (auto simp: interrupt_cause_def bit_set_bit_iff bit_unset_bit_iff)
qed

text \<open>The entries are exactly those of the exceptions and of the two interrupts that main() enables.\<close>

lemma vector_entries:
  assumes "t AND 0xF = (0 :: u64)"
  shows "jump_at t (trap_target (t OR 1) (interrupt_cause 1)) = Some K_timer_trap"
    and "jump_at t (trap_target (t OR 1) (interrupt_cause 9)) = Some K_console_trap"
    and "\<not> bit cause 63 \<Longrightarrow> jump_at t (trap_target (t OR 1) cause) = Some K_ecall_trap"
    and "bit (0x202 :: u64) n \<longleftrightarrow> n = 1 \<or> n = 9"
proof -
  note b = vector_base [OF assms, simplified] and i = interrupt_cause_parts
  show "jump_at t (trap_target (t OR 1) (interrupt_cause 1)) = Some K_timer_trap"
    "jump_at t (trap_target (t OR 1) (interrupt_cause 9)) = Some K_console_trap"
    by (simp_all add: trap_target_def b i jump_at_def k_intr_table_def)
  show "\<not> bit cause 63 \<Longrightarrow> jump_at t (trap_target (t OR 1) cause) = Some K_ecall_trap"
    by (simp add: trap_target_def b jump_at_def k_intr_table_def)
  have "(0x202 :: u64) = push_bit 1 1 OR push_bit 9 1" by simp
  then have "bit (0x202 :: u64) n \<longleftrightarrow> bit (push_bit 1 1 OR push_bit 9 1 :: u64) n" by (rule arg_cong)
  then have "bit (0x202 :: u64) n \<Longrightarrow> n = 1 \<or> n = 9"
    by (simp only: bit_or_iff bit_push_bit_iff bit_1_iff) auto
  moreover have "bit (0x202 :: u64) 1" "bit (0x202 :: u64) 9" by simp_all
  ultimately show "bit (0x202 :: u64) n \<longleftrightarrow> n = 1 \<or> n = 9" by blast
qed

end
