(* ===== verification/Thread_Status.thy ===== *)
theory Thread_Status
  imports Kernel_Ticks
begin

text \<open>
  The status register as every thread sees it: \<open>thread_status k t\<close> is sstatus for the running
  thread and the saved word of its context for any other.  A switch saves one and loads the other, so
  it changes nobody's; a new thread inherits the word of its creator with the bit set that enables
  interrupts; and only the call that leaves supervisor mode changes the caller's.
\<close>

unbundle bit_operations_syntax

definition thread_status :: "kstate \<Rightarrow> addr \<Rightarrow> u64" where
  "thread_status k t = (if t = current_tcb k then csr_sstatus (cpu_of k) else c_sstatus (tcontext (tcbs k t)))"

definition status_words :: "kstate \<Rightarrow> addr \<Rightarrow> u64" where
  "status_words k t = c_sstatus (tcontext (tcbs k t))"

text \<open>\<open>same_status X k k'\<close>: no thread outside X sees a change, and the vector and the enabled
  and pending interrupts are what they were.\<close>

definition same_status :: "addr set \<Rightarrow> kstate \<Rightarrow> kstate \<Rightarrow> bool" where
  "same_status X k k' \<longleftrightarrow> (\<forall>t. t \<notin> X \<longrightarrow> thread_status k' t = thread_status k t) \<and>
     csr_stvec (cpu_of k') = csr_stvec (cpu_of k) \<and> csr_sie (cpu_of k') = csr_sie (cpu_of k) \<and>
     csr_sip (cpu_of k') = csr_sip (cpu_of k) \<and> lay k' = lay k"

lemma same_status_refl [simp, intro]: "same_status X k k"
  by (simp add: same_status_def)

lemma same_status_trans [trans]: "same_status X k k1 \<Longrightarrow> same_status Y k1 k2 \<Longrightarrow> same_status (X \<union> Y) k k2"
  by (simp add: same_status_def)

lemma same_status_trans_same: "same_status X k k1 \<Longrightarrow> same_status X k1 k2 \<Longrightarrow> same_status X k k2"
  by (simp add: same_status_def)

lemma same_status_mono: "same_status X k k' \<Longrightarrow> X \<subseteq> Y \<Longrightarrow> same_status Y k k'"
  by (auto simp: same_status_def)

lemma same_statusI: "on_cpu k' = on_cpu k \<Longrightarrow> (\<And>p. p \<notin> X \<Longrightarrow> status_words k' p = status_words k p) \<Longrightarrow> same_status X k k'"
  by (simp add: same_status_def thread_status_def status_words_def on_cpu_def)

lemma same_status_fields [simp]:
  "same_status X (k\<lparr>timer_ticks := n\<rparr>) k' = same_status X k k'" "same_status X k (k'\<lparr>timer_ticks := n\<rparr>) = same_status X k k'"
  "same_status X (k\<lparr>getc_buffer := q\<rparr>) k' = same_status X k k'" "same_status X k (k'\<lparr>getc_buffer := q\<rparr>) = same_status X k k'"
  "same_status X (k\<lparr>putc_buffer := q\<rparr>) k' = same_status X k k'" "same_status X k (k'\<lparr>putc_buffer := q\<rparr>) = same_status X k k'"
  "same_status X (k\<lparr>mem := m\<rparr>) k' = same_status X k k'" "same_status X k (k'\<lparr>mem := m\<rparr>) = same_status X k k'"
  "same_status X (k\<lparr>user_cells := u\<rparr>) k' = same_status X k k'" "same_status X k (k'\<lparr>user_cells := u\<rparr>) = same_status X k k'"
  by (simp_all add: same_status_def thread_status_def)

lemma words_frame: "frame X k k' \<Longrightarrow> p \<notin> X \<Longrightarrow> status_words k' p = status_words k p"
  by (simp add: frame_def heap_frame_def saved_def status_words_def)

lemma frame_status: "frame X k k' \<Longrightarrow> on_cpu k' = on_cpu k \<Longrightarrow> same_status X k k'"
  by (intro same_statusI words_frame)

lemma upd_tcb_words: "upd_tcb p f k = Some k' \<Longrightarrow> (\<And>x. c_sstatus (tcontext (f x)) = c_sstatus (tcontext x)) \<Longrightarrow> status_words k' = status_words k"
  by (cases "p = NULL") (auto simp: status_words_def)

lemma upd_sem_words: "upd_sem p f k = Some k' \<Longrightarrow> status_words k' = status_words k"
  by (cases "p = NULL") (auto simp: status_words_def)

lemma words_upd [simp]: "status_words (k\<lparr>mem := m\<rparr>) = status_words k" "status_words (k\<lparr>sems := s\<rparr>) = status_words k"
  "status_words (k\<lparr>user_cells := u\<rparr>) = status_words k" "status_words (k\<lparr>cpu_of := c\<rparr>) = status_words k"
  by (simp_all add: status_words_def fun_eq_iff)

lemma words_tcb [simp]:
  "status_words (k\<lparr>tcbs := h(t := x)\<rparr>) = (status_words (k\<lparr>tcbs := h\<rparr>))(t := c_sstatus (tcontext x))"
  "status_words (k\<lparr>tcbs := tcbs k'\<rparr>) = status_words k'"
  by (auto simp: status_words_def)

lemma word_of: "c_sstatus (tcontext (tcbs k t)) = status_words k t"
  by (simp add: status_words_def)

section \<open>Operations that stay with the thread\<close>

lemma put_tcb_status: "put_tcb t k = Some k' \<Longrightarrow> same_status {} k k'"
  using frame_status [OF put_tcb_frame oncpu.put_tcb_same] .

lemma sem_signal_status: "sem_signal s k = Some (r, k') \<Longrightarrow> same_status {} k k'"
  using frame_status [OF sem_signal_frame oncpu.sem_signal_same] .

lemma sem_close_status: "sem_close s k = Some (r, k') \<Longrightarrow> same_status {} k k'"
  using frame_status [OF sem_close_frame oncpu.sem_close_same] .

lemma put_to_sleep_status: "put_to_sleep t n k = Some k' \<Longrightarrow> same_status {} k k'"
  using frame_status [OF put_to_sleep_frame oncpu.put_to_sleep_same] .

lemma timer_tick_status: "timer_tick k = Some k' \<Longrightarrow> same_status {} k k'"
  using frame_status [OF timer_tick_frame oncpu.timer_tick_same] .

lemma upd_sem_status: "upd_sem p f k = Some k' \<Longrightarrow> same_status {} k k'"
  using frame_status [OF upd_sem_frame oncpu.upd_sem_same] .

lemma upd_tcb_status:
  "upd_tcb p f k = Some k' \<Longrightarrow> (\<And>x. c_sstatus (tcontext (f x)) = c_sstatus (tcontext x)) \<Longrightarrow> same_status {} k k'"
  by (intro same_statusI) (simp_all add: oncpu.upd_tcb_same upd_tcb_words)

lemma set_a0_status: "set_a0 v k = Some k' \<Longrightarrow> same_status {} k k'"
  by (auto simp: set_a0_def intro: upd_tcb_status simp del: upd_tcb_nonnull)

lemma free_mem_status: "free_mem p k = Some k' \<Longrightarrow> same_status {} k k'"
  by (auto simp: free_mem_def split: bind_splits)

lemma free_sem_status: "free_sem s k = Some (r, k') \<Longrightarrow> same_status {} k k'"
  by (auto simp: free_sem_def split: bind_splits)

lemma create_sem_status: "create_sem v k = Some (s, k') \<Longrightarrow> same_status {} k k' \<and> s \<noteq> NULL"
  by (auto simp: create_sem_def sem_initialize_def dest!: upd_sem_status split: bind_splits)

lemma free_mem_words: "free_mem p k = Some k' \<Longrightarrow> status_words k' = status_words k"
  by (auto simp: free_mem_def split: bind_splits)

lemma free_sem_words: "free_sem s k = Some (r, k') \<Longrightarrow> status_words k' = status_words k"
  by (auto simp: free_sem_def split: bind_splits)

lemma free_tcb_words: "free_tcb t k = Some k' \<Longrightarrow> status_words k' = status_words k"
  by (auto simp: free_tcb_def word_of dest!: free_mem_words free_sem_words upd_tcb_words split: if_splits bind_splits)

lemma free_tcb_status: "free_tcb t k = Some k' \<Longrightarrow> same_status {} k k'"
  by (rule same_statusI) (simp_all add: oncpu.free_tcb_same free_tcb_words)

text \<open>A new thread inherits the word of its creator.\<close>

lemma create_sem_words: "create_sem v k = Some (s, k') \<Longrightarrow> status_words k' = status_words k \<and> s \<noteq> NULL"
  by (auto simp: create_sem_def sem_initialize_def dest!: upd_sem_words split: bind_splits)

lemma create_tcb_words:
  assumes "create_tcb bdy ags sp k = Some (t, k')"
  shows "status_words k' = (if t = NULL then status_words k else (status_words k)(t := csr_sstatus (cpu_of k) OR 32))"
  using assms
  by (auto simp: create_tcb_def Let_def word_of dest!: create_sem_words free_tcb_words upd_tcb_words split: if_splits bind_splits)

section \<open>Switching\<close>

text \<open>A switch saves the word of the thread that leaves and loads that of the thread that comes.\<close>

lemma on_cpuD: "on_cpu k' = on_cpu k \<Longrightarrow> cpu_of k' = cpu_of k \<and> current_tcb k' = current_tcb k \<and>
    current_context k' = current_context k \<and> lay k' = lay k"
  by (simp add: on_cpu_def)

lemma yield_status:
  assumes y: "yield cont old new (k\<lparr>current_tcb := new\<rparr>) = Some (f, k')" and new: "current_tcb k' \<noteq> NULL"
    and old: "old = current_tcb k \<or> old = NULL"
  shows "same_status (if old = NULL then {current_tcb k} else {}) k k'"
proof -
  have n: "new \<noteq> NULL"
    using y new by (cases "old = NULL") (auto simp: yield_def save_context_def split: if_splits bind_splits)
  show ?thesis
    using y n old
    by (cases "old = NULL")
      (auto simp: yield_def save_context_def same_status_def thread_status_def k_save_context_def k_restore_context_def Let_def)
qed

lemma switch_away_status:
  assumes y: "(let (t, k1) = next_tcb k in yield cont old t (k1\<lparr>current_tcb := t\<rparr>)) = Some (f, k')"
    and new: "current_tcb k' \<noteq> NULL" and old: "old = current_tcb k \<or> old = NULL"
  shows "same_status (if old = NULL then {current_tcb k} else {}) k k'"
proof -
  obtain t k1 where t: "next_tcb k = (t, k1)" by (cases "next_tcb k")
  have c: "on_cpu k1 = on_cpu k" by (rule oncpu.next_tcb_same [OF t])
  let ?X = "if old = NULL then {current_tcb k} else {}"
  have 1: "same_status ?X k k1" using frame_status [OF next_tcb_frame [OF t] c] .
  have "same_status (if old = NULL then {current_tcb k1} else {}) k1 k'"
    by (rule yield_status [of cont old t k1 f]) (use y t new old on_cpuD [OF c] in simp_all)
  moreover have "current_tcb k1 = current_tcb k" using on_cpuD [OF c] by simp
  ultimately have "same_status ?X k1 k'" by (auto split: if_splits)
  with 1 show ?thesis by (rule same_status_trans_same)
qed

lemma dispatch_status:
  assumes d: "dispatch cont k = Some (f, k')" and cur: "current_tcb k' \<noteq> NULL" "current_tcb k \<noteq> NULL"
  shows "same_status (if status (tcbs k (current_tcb k)) = TERMINATING then {current_tcb k} else {}) k k'"
proof (cases "status (tcbs k (current_tcb k)) = TERMINATING")
  case True
  let ?c = "if join_sem (tcbs k (current_tcb k)) \<noteq> NULL
      then do { (r, k1) \<leftarrow> sem_close (join_sem (tcbs k (current_tcb k))) k; Some k1 } else Some k"
  have "dispatch cont k = (?c \<bind> (\<lambda>k0. free_tcb (current_tcb k) k0 \<bind>
      (\<lambda>k1. let (t, k2) = next_tcb k1 in yield cont NULL t (k2\<lparr>current_tcb := t\<rparr>))))"
    using True cur(2) by (simp add: dispatch_def Let_def)
  with d obtain k0 k1 where s: "?c = Some k0" "free_tcb (current_tcb k) k0 = Some k1"
    "(let (t, k2) = next_tcb k1 in yield cont NULL t (k2\<lparr>current_tcb := t\<rparr>)) = Some (f, k')"
    by (simp only: Option.bind_eq_Some_conv) blast
  have 1: "on_cpu k0 = on_cpu k" "same_status {} k k0"
    using s(1) oncpu.sem_close_same sem_close_status by (auto split: if_splits bind_splits)
  note 2 = oncpu.free_tcb_same [OF s(2)] free_tcb_status [OF s(2)]
  have "current_tcb k1 = current_tcb k" using on_cpuD [OF 1(1)] on_cpuD [OF 2(1)] by simp
  then have "same_status {current_tcb k} k1 k'" using switch_away_status [OF s(3) cur(1)] by simp
  from same_status_trans [OF same_status_trans_same [OF 1(2) 2(2)] this] True show ?thesis by simp
next
  case False
  let ?c = "if status (tcbs k (current_tcb k)) = RUNNING then put_tcb (current_tcb k) k else Some k"
  have "dispatch cont k = (?c \<bind> (\<lambda>k1. let (t, k2) = next_tcb k1 in yield cont (current_tcb k) t (k2\<lparr>current_tcb := t\<rparr>)))"
    using False cur(2) by (simp add: dispatch_def Let_def)
  with d obtain k1 where c: "?c = Some k1"
    and y: "(let (t, k2) = next_tcb k1 in yield cont (current_tcb k) t (k2\<lparr>current_tcb := t\<rparr>)) = Some (f, k')"
    by (simp only: Option.bind_eq_Some_conv) blast
  have s: "on_cpu k1 = on_cpu k" "same_status {} k k1"
    using c oncpu.put_tcb_same put_tcb_status by (auto split: if_splits)
  have "same_status {} k1 k'" using switch_away_status [OF y cur(1)] on_cpuD [OF s(1)] cur(2) by simp
  from same_status_trans_same [OF s(2) this] False show ?thesis by simp
qed

lemma sem_block_status:
  assumes "sem_block cont s k = Some (f, k')" "current_tcb k' \<noteq> NULL" "current_tcb k \<noteq> NULL"
  shows "same_status {} k k'"
proof -
  let ?t = "current_tcb k"
  obtain k1 l h k2 where s: "upd_tcb ?t (status_update (\<lambda>_. SUSPENDED)) k = Some k1"
    "list_add_last ?t (suspended (sems k1 s)) (tcbs k1) = Some (l, h)"
    "upd_sem s (suspended_update (\<lambda>_. l)) (k1\<lparr>tcbs := h\<rparr>) = Some k2"
    "(let (t, k3) = next_tcb k2 in yield cont ?t t (k3\<lparr>current_tcb := t\<rparr>)) = Some (f, k')"
    using assms(1) by (clarsimp simp: sem_block_def Option.bind_eq_Some_conv Let_def)
  have 1: "same_status {} k k1" by (rule upd_tcb_status [OF s(1)]) simp
  have "frame {} k1 (k1\<lparr>tcbs := h\<rparr>)" using list_add_last_frame [OF s(2)] by (rule frame_tcbs)
  then have 2: "same_status {} k1 (k1\<lparr>tcbs := h\<rparr>)" by (rule frame_status) (simp add: on_cpu_def)
  note 3 = upd_sem_status [OF s(3)]
  have "current_tcb k2 = ?t"
    using on_cpuD [OF oncpu.upd_tcb_same [OF s(1)]] on_cpuD [OF oncpu.upd_sem_same [OF s(3)]] by (simp add: on_cpu_def)
  then have "same_status {} k2 k'" using switch_away_status [OF s(4) assms(2)] assms(3) by simp
  then show ?thesis using 1 2 3 same_status_trans_same by metis
qed

lemma sem_wait_status:
  assumes "sem_wait cont s k = Some (f, k')" "current_tcb k' \<noteq> NULL" "current_tcb k \<noteq> NULL"
  shows "same_status {} k k'"
proof -
  obtain k1 where u: "upd_sem s (\<lambda>x. x\<lparr>sem_value := sem_value x - 1\<rparr>) k = Some k1"
    using assms(1) by (auto simp: sem_wait_def split: bind_splits)
  note 1 = upd_sem_status [OF u] on_cpuD [OF oncpu.upd_sem_same [OF u]]
  show ?thesis
  proof (cases "sint (sem_value (sems k1 s)) < 0")
    case True
    then obtain g where b: "sem_block cont s k1 = Some (g, k')"
      using assms(1) u by (auto simp: sem_wait_def split: bind_splits flow.splits)
    show ?thesis using same_status_trans_same [OF 1(1) sem_block_status [OF b]] assms(2,3) 1(2) by simp
  qed (use assms(1) u 1 in \<open>simp add: sem_wait_def\<close>)
qed

section \<open>Traps\<close>

lemma after_wait_status: "after_wait cont r k = Some k' \<Longrightarrow> same_status {} k k'"
  by (auto simp: after_wait_def dest!: set_a0_status split: kcont.splits prod.splits)

lemma after_wait_cpu: "after_wait cont r k = Some k' \<Longrightarrow> on_cpu k' = on_cpu k"
  by (auto simp: after_wait_def on_cpu_def dest!: oncpu.set_a0_same [unfolded on_cpu_def] split: kcont.splits prod.splits)

lemma wait_then_status:
  assumes "wait_then cont s k = Some (f, k')" "current_tcb k' \<noteq> NULL" "current_tcb k \<noteq> NULL"
  shows "same_status {} k k'"
proof -
  obtain g k1 where w: "sem_wait cont s k = Some (g, k1)" "k' = k1 \<or> (\<exists>r. after_wait cont r k1 = Some k')"
  proof -
    obtain g k1 where g: "sem_wait cont s k = Some (g, k1)" using assms(1) by (auto simp: wait_then_def split: bind_splits)
    then show ?thesis using that assms(1) by (cases g) (auto simp: wait_then_def split: bind_splits)
  qed
  have "current_tcb k1 \<noteq> NULL" using w(2) assms(2) on_cpuD [OF after_wait_cpu] by auto
  from sem_wait_status [OF w(1) this assms(3)] show ?thesis
    using w(2) same_status_trans_same after_wait_status by metis
qed

lemma trap_enter_status: "trap_enter k = Some k' \<Longrightarrow> same_status {} k k'"
  by (cases "current_context k = NULL") (auto simp: trap_enter_def Let_def same_status_def thread_status_def)

lemma trap_exit_status: "trap_exit e k = Some k' \<Longrightarrow> same_status {} k k'"
  by (cases "current_context k = NULL") (auto simp: trap_exit_def Let_def same_status_def thread_status_def)

lemma k_tcb_start_status: "k_tcb_start rw k = Some k' \<Longrightarrow> same_status {} k k'"
  by (cases "current_context k = NULL") (auto simp: k_tcb_start_def Let_def same_status_def thread_status_def)

lemma resume_current_status:
  assumes "resume_current rw k = Some k'"
  shows "same_status {} k k'"
proof -
  have w: "same_status {} k k'" if "after_wait c r (k\<lparr>timer_ticks := 0\<rparr>) = Some k2" "trap_exit True k2 = Some k'" for c r k2
    using same_status_trans_same [OF after_wait_status [OF that(1)] trap_exit_status [OF that(2)]] by simp
  show ?thesis
    using assms k_tcb_start_status [of rw k k'] trap_exit_status [of _ "k\<lparr>timer_ticks := 0\<rparr>" k'] w
    by (auto simp: resume_current_def Let_def split: bind_splits kcont.splits)
qed

lemma leave_trap_status: "leave_trap rw e (f, k) = Some (f', k') \<Longrightarrow> same_status {} k k'"
  using trap_exit_status resume_current_status by (auto simp: leave_trap_def split: flow.splits)

section \<open>System calls\<close>

lemma handle_sem_open_status: "handle_sem_open p0 p1 k = Some k' \<Longrightarrow> same_status {} k k'"
  using same_status_trans_same
  by (fastforce simp: handle_sem_open_def Let_def dest!: create_sem_status set_a0_status split: if_splits bind_splits)

lemma handle_sem_close_status:
  assumes "handle_sem_close p0 k = Some k'"
  shows "same_status {} k k'"
proof (cases "p0 = NULL")
  case False
  then obtain v k1 r k2 where s: "sem_close p0 k = Some (v, k1)" "free_sem p0 k1 = Some (r, k2)"
    "(if r = MEM_SUCCESS then set_a0 (int_to_u64 v) k2 else Some k2) = Some k'"
    using assms unfolding handle_sem_close_def by (auto split: bind_splits)
  have "same_status {} k2 k'" using s(3) set_a0_status by (auto split: if_splits)
  then show ?thesis
    by (rule same_status_trans_same [OF same_status_trans_same [OF sem_close_status [OF s(1)] free_sem_status [OF s(2)]]])
qed (use assms in \<open>simp add: handle_sem_close_def\<close>)

text \<open>The thread that CREATE_THREAD makes sees its creator's word, with interrupts enabled on return.\<close>

lemma create_tcb_status:
  assumes "create_tcb bdy ags sp k = Some (t, k')" "t \<noteq> current_tcb k"
  shows "same_status {t} k k'" "t \<noteq> NULL \<Longrightarrow> thread_status k' t = csr_sstatus (cpu_of k) OR 32"
proof -
  note w = create_tcb_words [OF assms(1)] and c = oncpu.create_tcb_same [OF assms(1)]
  show "same_status {t} k k'" by (rule same_statusI [OF c]) (simp add: w)
  show "thread_status k' t = csr_sstatus (cpu_of k) OR 32" if "t \<noteq> NULL"
    using w assms(2) on_cpuD [OF c] that by (simp add: thread_status_def word_of)
qed

lemma handle_create_status:
  assumes c: "handle_create_thread p0 p1 p2 p3 k = Some k'" and p: "p0 \<noteq> NULL" "p1 \<noteq> 0" "p3 \<noteq> NULL"
    and room: "thread_room k t st js m" and t: "t \<noteq> current_tcb k"
  shows "same_status {t} k k'" "thread_status k' t = csr_sstatus (cpu_of k) OR 32"
proof -
  have al: "\<exists>m1 m2. mem_alloc_blocks 6 (mem k) = Some (t, m1) \<and> mem_alloc_blocks 64 m1 = Some (st, m2) \<and>
      mem_alloc_blocks 1 m2 = Some (js, m) \<and> t \<noteq> NULL \<and> st \<noteq> NULL \<and> js \<noteq> NULL"
    using room by (auto simp: thread_room_def)
  then obtain k1 where k1: "create_tcb p1 p2 p3 k = Some (t, k1)" and t0: "t \<noteq> NULL"
    using create_tcb_some [OF p(2,3)] by blast
  note s = create_tcb_status [OF k1 t]
  obtain k2 where k2: "put_tcb t (k1\<lparr>user_cells := (user_cells k1)(p0 := t)\<rparr>) = Some k2" "set_a0 SUCCESS_SYSCALL k2 = Some k'"
    using c p(1) k1 t0 by (auto simp: handle_create_thread_def Let_def split: bind_splits)
  have same: "same_status {} k1 k'"
    using same_status_trans_same [OF put_tcb_status [OF k2(1)] set_a0_status [OF k2(2)]] by simp
  show "same_status {t} k k'" using same_status_trans [OF s(1) same] by simp
  show "thread_status k' t = csr_sstatus (cpu_of k) OR 32" using s(2) [OF t0] same by (simp add: same_status_def)
qed

text \<open>The effect of a system call on the status words, by its code.\<close>

definition call_status :: "u64 \<Rightarrow> u64 \<Rightarrow> u64" where
  "call_status code s = (if code = USER_MODE_CODE then s AND NOT (push_bit 8 1) else s)"

lemma same_status_at: "same_status {} k k' \<Longrightarrow> thread_status k' t = thread_status k t"
  by (simp add: same_status_def)

lemma sleep_status:
  assumes rep: "krep k A" and sc: "put_to_sleep (current_tcb k) p0 k = Some k1" "set_a0 SUCCESS_SYSCALL k1 = Some k2"
    "dispatch KDispatch k2 = Some (f, k')" and p0: "0 < p0" and new: "current_tcb k' \<noteq> NULL"
  shows "same_status {} k k'"
proof -
  note cur = krepD(2,3,4) [OF rep]
  obtain k1' where "put_to_sleep (a_cur A) p0 k = Some k1'"
    "\<And>q. status (tcbs k1' q) = (if q = a_cur A then SUSPENDED else status (tcbs k q))"
    "current_tcb k1' = current_tcb k" "current_context k1' = current_context k"
    by (rule put_to_sleep_rep [OF krepD(1,4,6) [OF rep] p0]) auto
  then have k1: "current_tcb k1 = a_cur A" "current_context k1 = a_cur A" "status (tcbs k1 (a_cur A)) = SUSPENDED"
    using sc(1) cur by auto
  then have k2: "current_tcb k2 = a_cur A" "status (tcbs k2 (a_cur A)) = SUSPENDED"
    using sc(2) cur(3) by (auto simp: set_a0_def)
  have "same_status {} k2 k'" using dispatch_status [OF sc(3) new] k2 cur(3) by simp
  then show ?thesis using put_to_sleep_status [OF sc(1)] set_a0_status [OF sc(2)] same_status_trans_same by metis
qed

lemma syscall_status:
  assumes rep: "krep k A" and sc: "syscall code p0 p1 p2 p3 k = Some (f, k')" and new: "current_tcb k' \<noteq> NULL"
    and code: "code \<notin> {CREATE_THREAD_CODE, THREAD_EXIT_CODE, USER_MODE_CODE}"
  shows "same_status {} k k'"
proof -
  have cur: "current_tcb k \<noteq> NULL" "status (tcbs k (current_tcb k)) = RUNNING"
    using krepD(2,4,5) [OF rep] by simp_all
  note wt = wait_then_status [OF _ new cur(1)]
  have mem: "same_status {} k k'" if "set_a0 v (k\<lparr>mem := m\<rparr>) = Some k'" for v m using set_a0_status [OF that] by simp
  have sig: "same_status {} k k'" if "sem_signal p0 k = Some (r, k1)" "set_a0 (int_to_u64 r) k1 = Some k'" for r k1
    using same_status_trans_same [OF sem_signal_status [OF that(1)] set_a0_status [OF that(2)]] .
  have disp: "same_status {} k k'" if "dispatch KDispatch k = Some (f, k')" using dispatch_status [OF that new cur(1)] cur(2) by simp
  show ?thesis
    using sc code unfolding syscall_def
    by (auto simp: word_gt_0 dest: wt mem sig disp handle_sem_open_status handle_sem_close_status sleep_status [OF rep _ _ _ _ new]
        split: if_splits bind_splits)
qed

lemma user_mode_status:
  assumes "syscall USER_MODE_CODE p0 p1 p2 p3 k = Some (f, k')"
  shows "same_status {current_tcb k} k k'"
    "thread_status k' (current_tcb k) = thread_status k (current_tcb k) AND NOT (push_bit 8 1)"
proof -
  have "set_a0 SUCCESS_SYSCALL (prepare_user_mode k) = Some k'"
    using assms by (simp add: syscall_def syscall_code_defs)
  note s = set_a0_status [OF this]
  have "same_status {current_tcb k} k (prepare_user_mode k)"
    by (simp add: same_status_def thread_status_def prepare_user_mode_def)
  from same_status_trans [OF this s] show "same_status {current_tcb k} k k'" by simp
  show "thread_status k' (current_tcb k) = thread_status k (current_tcb k) AND NOT (push_bit 8 1)"
    using s by (simp add: same_status_def thread_status_def prepare_user_mode_def)
qed

lemma exit_status:
  assumes "syscall THREAD_EXIT_CODE p0 p1 p2 p3 k = Some (f, k')" "current_tcb k' \<noteq> NULL" "current_tcb k \<noteq> NULL"
    "current_tcb k \<noteq> main_tcb (lay k)"
  shows "same_status {current_tcb k} k k'"
proof -
  obtain k1 k2 where s: "upd_tcb (current_tcb k) (status_update (\<lambda>_. TERMINATING)) k = Some k1"
    "set_a0 SUCCESS_SYSCALL k1 = Some k2" "dispatch KDispatch k2 = Some (f, k')"
    using assms(1,4) by (auto simp: syscall_def syscall_code_defs simp del: upd_tcb_nonnull split: bind_splits)
  have 1: "same_status {} k k1" by (rule upd_tcb_status [OF s(1)]) simp
  have "current_tcb k2 = current_tcb k"
    using on_cpuD [OF oncpu.upd_tcb_same [OF s(1)]] on_cpuD [OF oncpu.set_a0_same [OF s(2)]] by simp
  then have "same_status {current_tcb k} k2 k'"
    using dispatch_status [OF s(3) assms(2)] assms(3) same_status_mono by (auto split: if_splits)
  from same_status_trans [OF same_status_trans_same [OF 1 set_a0_status [OF s(2)]] this] show ?thesis by simp
qed

section \<open>Events\<close>

text \<open>Only CREATE_THREAD makes a thread.\<close>

lemma call_step_no_new:
  assumes inv: "kinv f k A" and may: "may_call f k A code p0 p1 p3" and A': "A' \<in> call_step k code p0 p1 p3 A"
    and code: "code \<noteq> CREATE_THREAD_CODE"
  shows "threads A' \<subseteq> threads A"
  using inv may A'
proof (cases rule: call_step_cases)
  case (exit s)
  then show ?thesis using threads_exit(1) [of s A] krepD(6) [OF kinvD(1) [OF inv]] by auto
qed (use code in \<open>auto simp: threads_wait_may [OF inv] may_signal_def\<close>)

text \<open>\<open>w\<close> are the interrupts that are pending afterwards.\<close>

definition status_step :: "u64 \<Rightarrow> u64 \<Rightarrow> kstate \<Rightarrow> sched \<Rightarrow> kstate \<Rightarrow> sched \<Rightarrow> bool" where
  "status_step w code k A k' A' \<longleftrightarrow> csr_sip (cpu_of k') = w \<and>
     csr_stvec (cpu_of k') = csr_stvec (cpu_of k) \<and> csr_sie (cpu_of k') = csr_sie (cpu_of k) \<and> lay k' = lay k \<and>
     (\<forall>t \<in> threads A \<inter> threads A'. thread_status k' t =
        (if t = a_cur A then call_status code (thread_status k t) else thread_status k t)) \<and>
     (\<forall>t \<in> threads A' - threads A. thread_status k' t = thread_status k (a_cur A) OR 32)"

lemma status_step_same:
  "same_status {} k k' \<Longrightarrow> threads A' \<subseteq> threads A \<Longrightarrow> code \<noteq> USER_MODE_CODE \<Longrightarrow> status_step (csr_sip (cpu_of k)) code k A k' A'"
  by (auto simp: status_step_def same_status_def call_status_def)

lemma status_step_pending:
  "same_status {} (k\<lparr>cpu_of := (cpu_of k)\<lparr>csr_sip := w\<rparr>\<rparr>) k' \<Longrightarrow> threads A' \<subseteq> threads A \<Longrightarrow> code \<noteq> USER_MODE_CODE \<Longrightarrow>
   status_step w code k A k' A'"
  by (auto simp: status_step_def same_status_def call_status_def thread_status_def)

lemma current_status: "krep k A \<Longrightarrow> thread_status k (a_cur A) = csr_sstatus (cpu_of k)"
  using krepD(2) by (simp add: thread_status_def)

lemma syscall_status_step:
  assumes inv: "kinv f k A" and may: "may_call f k A code p0 p1 p3" and A': "A' \<in> call_step k code p0 p1 p3 A"
    and sc: "syscall code p0 p1 p2 p3 k = Some (g, k')" and new: "current_tcb k' \<noteq> NULL"
  shows "status_step (csr_sip (cpu_of k)) code k A k' A'"
proof -
  note rep = kinvD(1) [OF inv] and own = kinvD(3) [OF inv]
  have cur: "current_tcb k = a_cur A" "a_cur A \<noteq> NULL" using krepD(2,4) [OF rep] .
  consider "code \<notin> {CREATE_THREAD_CODE, THREAD_EXIT_CODE, USER_MODE_CODE}" | (user) "code = USER_MODE_CODE"
    | (exit) "code = THREAD_EXIT_CODE" | (create) "code = CREATE_THREAD_CODE" by blast
  then show ?thesis
  proof cases
    case 1
    then show ?thesis
      using syscall_status [OF rep sc new 1] call_step_no_new [OF inv may A'] by (intro status_step_same) auto
  next
    case user
    have "A' = A" using A' by (simp add: user call_step_def syscall_code_defs)
    then show ?thesis
      using user_mode_status [OF sc [unfolded user]] cur
      by (auto simp: status_step_def same_status_def call_status_def user)
  next
    case exit
    show ?thesis
    proof (cases "a_cur A = main_tcb (lay k)")
      case True
      then have "k' = k" "A' = A" using sc A' cur by (simp_all add: exit syscall_def call_step_def syscall_code_defs)
      then show ?thesis by (simp add: status_step_def call_status_def exit syscall_code_defs)
    next
      case False
      then have "A' = a_exit (join_sem (tcbs k (a_cur A))) A" using A' by (simp add: exit call_step_def syscall_code_defs)
      moreover have s: "join_sem (tcbs k (a_cur A)) \<in> a_sems A"
        using ownedD(3) [OF own] False by (simp add: user_threads_def threads_def)
      moreover have "a_cur A \<noteq> f" using may exit unfolding may_call_def by blast
      then have "a_queue A Ready @ a_queue A (Waiting (join_sem (tcbs k (a_cur A)))) \<noteq> []" using kinvD(5) [OF inv] by simp
      ultimately have "threads A' \<subseteq> threads A - {a_cur A}"
        using threads_exit(1) [of "join_sem (tcbs k (a_cur A))" A] krepD(6) [OF rep] by simp
      then show ?thesis
        using exit_status [OF sc [unfolded exit] new] cur False by (auto simp: status_step_def same_status_def exit syscall_code_defs)
    qed
  next
    case create
    show ?thesis
    proof (cases "p0 = NULL \<or> p1 = 0 \<or> p3 = NULL \<or> mem_alloc_blocks 6 (mem k) = Some (NULL, mem k)")
      case True
      have "A' = A" using A' True by (auto simp: create call_step_def)
      moreover have "same_status {} k k'"
      proof (cases "p0 = NULL")
        case False
        have "create_tcb p1 p2 p3 k = Some (NULL, k)"
          using True False create_tcb_no_room [OF ownedD(1) [OF own]] by (auto simp: create_tcb_def)
        then show ?thesis
          using sc False by (auto simp: create syscall_def syscall_code_defs handle_create_thread_def)
      qed (use sc in \<open>auto simp: create syscall_def syscall_code_defs handle_create_thread_def\<close>)
      ultimately show ?thesis by (intro status_step_same) (simp_all add: create syscall_code_defs)
    next
      case False
      then obtain t st js m where t: "A' = a_create t js A" "thread_room k t st js m" using A' by (auto simp: create call_step_def)
      have h: "handle_create_thread p0 p1 p2 p3 k = Some k'" using sc by (auto simp: create syscall_def syscall_code_defs)
      have "t \<notin> threads A" "js \<notin> a_sems A"
        using handle_create_thread_rep [OF rep own _ _ _ _ _ t(2), of p0 p1 p3] False may
        unfolding may_call_def create by metis+
      then have f: "t \<notin> threads A" "t \<noteq> a_cur A" "threads A' = insert t (threads A)"
        using t(1) threads_create by (auto simp: threads_def)
      note s = handle_create_status [OF h _ _ _ t(2)]
      show ?thesis
        using s False f cur current_status [OF rep]
        by (auto simp: status_step_def same_status_def create call_status_def syscall_code_defs)
    qed
  qed
qed

text \<open>A trap is its handler between two parts that leave the status alone.\<close>

lemma trap_status_step:
  assumes h: "handler (entered k) = Some (g, k1)" "kinv f k A" and s: "status_step w code (entered k) A k1 A'"
    and t: "(trap_enter k \<bind> (\<lambda>k0. handler k0 \<bind> leave_trap rw e)) = Some (fl, k')"
  shows "status_step w code k A k' A'"
proof -
  note en = entered_inv(1) [OF h(2)]
  have 1: "same_status {} k (entered k)" by (rule trap_enter_status [OF en])
  have 2: "same_status {} k1 k'" using t h(1) en by (auto intro: leave_trap_status)
  show ?thesis using s 1 2 by (simp add: status_step_def same_status_def)
qed

definition event_code :: "event \<Rightarrow> u64" where
  "event_code e = (case e of Ecall code p0 p1 p2 p3 \<Rightarrow> code | _ \<Rightarrow> 0)"

lemma interrupt_no_new:
  assumes "permitted f k A e" "A' \<in> event_step k e A" "event_code e = 0" "\<not> (\<exists>code p0 p1 p2 p3. e = Ecall code p0 p1 p2 p3)" "kinv f k A"
  shows "threads A' = threads A"
  using assms(1,2,4) ownedD(11) [OF kinvD(3) [OF assms(5)]]
  by (auto simp: event_step_def permitted_def may_signal_def split: event.splits if_splits)

lemma timer_handler_status:
  assumes "k_handle_timer k = Some (g, k')" "current_tcb k' \<noteq> NULL" "krep k A"
  shows "same_status {} (k\<lparr>cpu_of := (cpu_of k)\<lparr>csr_sip := csr_sip (cpu_of k) AND NOT 0x02\<rparr>\<rparr>) k'"
proof -
  let ?z = "k\<lparr>cpu_of := (cpu_of k)\<lparr>csr_sip := csr_sip (cpu_of k) AND NOT 0x02\<rparr>\<rparr>"
  have k0: "krep ?z A" using assms(3) by simp
  obtain k1 where k1: "timer_tick ?z = Some k1" "krep k1 (a_tick A)" by (rule timer_tick_rep [OF k0])
  let ?k2 = "k1\<lparr>timer_ticks := timer_ticks k1 + 1\<rparr>"
  note c = krepD(2,4,5) [OF k1(2)]
  have 1: "same_status {} ?z k1" by (rule timer_tick_status [OF k1(1)])
  have "k' = ?k2 \<or> dispatch KInterrupt ?k2 = Some (g, k')"
    using assms(1) k1(1) by (auto simp: k_handle_timer_def Let_def split: if_splits bind_splits)
  then show ?thesis
  proof
    assume "dispatch KInterrupt ?k2 = Some (g, k')"
    from dispatch_status [OF this assms(2)] have "same_status {} k1 k'" using c by simp
    with 1 show ?thesis by (rule same_status_trans_same)
  qed (use 1 in simp)
qed

lemma console_handler_status:
  assumes h: "k_handle_console stat data k = Some (g, k')" "current_tcb k' \<noteq> NULL" "krep k A"
    and s: "may_signal A (getc_sem (lay k))" "counters_ok A"
  shows "same_status {} (k\<lparr>cpu_of := (cpu_of k)\<lparr>csr_sip := csr_sip (cpu_of k) AND NOT 0x200\<rparr>\<rparr>) k'"
proof -
  let ?z = "k\<lparr>cpu_of := (cpu_of k)\<lparr>csr_sip := csr_sip (cpu_of k) AND NOT 0x200\<rparr>\<rparr>"
  let ?kb = "?z\<lparr>getc_buffer := q_put IO_BUFFER_SIZE data (getc_buffer ?z)\<rparr>"
  have "k' = ?z \<or> (\<exists>r k1. sem_signal (getc_sem (lay k)) ?kb = Some (r, k1) \<and> dispatch KInterrupt k1 = Some (g, k'))"
    using h(1) by (auto simp: k_handle_console_def fill_getc_buffer_def Let_def split: if_splits bind_splits)
  then show ?thesis
  proof
    assume "\<exists>r k1. sem_signal (getc_sem (lay k)) ?kb = Some (r, k1) \<and> dispatch KInterrupt k1 = Some (g, k')"
    then obtain r k1 where d: "sem_signal (getc_sem (lay k)) ?kb = Some (r, k1)" "dispatch KInterrupt k1 = Some (g, k')" by blast
    have "krep ?kb A" using h(3) by simp
    then obtain k2 where "sem_signal (getc_sem (lay k)) ?kb = Some (SIGNAL_SUCCESS, k2)" "krep k2 (a_signal (getc_sem (lay k)) A)"
      by (rule sem_signal_rep) (use s counters_okD [OF s(2)] in \<open>auto simp: may_signal_def\<close>)
    then have c: "krep k1 (a_signal (getc_sem (lay k)) A)" using d(1) by simp
    have "same_status {} ?kb k1" by (rule sem_signal_status [OF d(1)])
    then have 1: "same_status {} ?z k1" by simp
    have "same_status {} k1 k'" using dispatch_status [OF d(2) h(2)] krepD(2,4,5) [OF c] by simp
    with 1 show ?thesis by (rule same_status_trans_same)
  qed simp
qed

lemma ecall_handler_status:
  assumes inv: "kinv f k A" and cause: "csr_scause (cpu_of k) = SCAUSE_ECALL_USER \<or> csr_scause (cpu_of k) = SCAUSE_ECALL_SUPERVISOR"
    and may: "may_call f k A code p0 p1 p3" and A': "A' \<in> call_step k code p0 p1 p3 A"
    and h: "k_handle_ecall s1 s2 code p0 p1 p2 p3 k = Some (g, k')" "current_tcb k' \<noteq> NULL"
  shows "status_step (csr_sip (cpu_of k) AND NOT 0x02) code k A k' A'"
proof -
  let ?c = "(cpu_of k)\<lparr>csr_sepc := csr_sepc (cpu_of k) + INSTRUCTION_SIZE, csr_sip := csr_sip (cpu_of k) AND NOT 0x02\<rparr>"
  let ?kb = "k\<lparr>cpu_of := ?c\<rparr>"
  have "kinv f ?kb A" using inv by simp
  from kinv_set_a0 [OF this, of FAILED_SYSCALL] obtain k1 where
    k1: "set_a0 FAILED_SYSCALL ?kb = Some k1" "kinv f k1 A" "frame {a_cur A} ?kb k1" by metis
  have 0: "same_status {} ?kb k1" by (rule set_a0_status [OF k1(1)])
  have sc: "syscall code p0 p1 p2 p3 k1 = Some (g, k')"
    using h(1) cause k1(1) by (simp add: k_handle_ecall_def Let_def)
  have fr: "frame {a_cur A} k k1" using k1(3) by simp
  have "status_step (csr_sip (cpu_of k1)) code k1 A k' A'"
    by (rule syscall_status_step [OF k1(2) _ _ sc h(2)]) (use may A' may_call_frame [OF fr] in simp_all)
  then show ?thesis using 0 by (simp add: status_step_def same_status_def thread_status_def)
qed

text \<open>A handler acknowledges its own interrupt; so does a system call, which has none.\<close>

definition acknowledged :: "event \<Rightarrow> u64 \<Rightarrow> u64" where
  "acknowledged e w =
     (case e of
        Timer_interrupt \<Rightarrow> w AND NOT 0x02
      | Console_interrupt stat data \<Rightarrow> w AND NOT 0x200
      | Ecall code p0 p1 p2 p3 \<Rightarrow> w AND NOT 0x02
      | _ \<Rightarrow> w)"

text \<open>The whole event: every thread that is still there sees its own word.\<close>

lemma event_status_step:
  assumes inv: "kinv f k A" and bd: "board_ok bd" and ok: "permitted f k A e" and A': "A' \<in> event_step k e A"
    and r: "run_event bd e k = Some k'" and e: "\<not> (\<exists>c u. e = Compute c u)"
  shows "status_step (acknowledged e (csr_sip (cpu_of k))) (event_code e) k A k' A'"
proof (cases "trap_of bd e k")
  case (Some tr)
  obtain k0 c handler where tr: "trap_of bd e k = Some (k0, c, handler)" using Some by (cases tr) auto
  have k0: "kinv f k0 A" "same_status {} k k0" "lay k0 = lay k"
    using tr inv by (cases e; auto simp: same_status_def thread_status_def enter_ecall_def)+
  have hd: "handled (event_step k e A) f k0 A (handler (entered k0))" by (rule event_handled [OF inv bd ok tr])
  then obtain g k1 A1 where h: "handler (entered k0) = Some (g, k1)" "A1 \<in> event_step k e A" "kinv f k1 A1"
    unfolding handled_def by blast
  have A1: "A1 = A'" by (rule event_step_unique [OF h(2) A'])
  have new: "current_tcb k1 \<noteq> NULL" using krepD(2,4) [OF kinvD(1) [OF h(3)]] by simp
  note en = entered_inv [OF k0(1)]
  have sip: "csr_sip (cpu_of (entered k0)) = csr_sip (cpu_of k)"
    using tr by (cases e) (auto simp: entered_def enter_ecall_def Let_def)
  have "status_step (acknowledged e (csr_sip (cpu_of k))) (event_code e) (entered k0) A k1 A'"
  proof (cases e)
    case Timer_interrupt
    have "k_handle_timer (entered k0) = Some (g, k1)" using h(1) tr Timer_interrupt by auto
    note s = timer_handler_status [OF this new kinvD(1) [OF en(2)], unfolded sip]
    have th: "threads A' \<subseteq> threads A" "event_code e \<noteq> USER_MODE_CODE"
      using interrupt_no_new [OF ok A' _ _ inv] Timer_interrupt by (simp_all add: event_code_def syscall_code_defs)
    show ?thesis using status_step_pending [OF s th] Timer_interrupt by (simp add: acknowledged_def)
  next
    case (Console_interrupt stat data)
    have "may_signal A (getc_sem (lay (entered k0)))" using ok Console_interrupt k0(3) by (simp add: permitted_def)
    moreover have "k_handle_console stat data (entered k0) = Some (g, k1)" using h(1) tr Console_interrupt by auto
    ultimately have s: "same_status {} ((entered k0)\<lparr>cpu_of := (cpu_of (entered k0))\<lparr>csr_sip := csr_sip (cpu_of k) AND NOT 0x200\<rparr>\<rparr>) k1"
      using console_handler_status [OF _ new kinvD(1) [OF en(2)] _ kinvD(2) [OF inv], unfolded sip] by blast
    have th: "threads A' \<subseteq> threads A" "event_code e \<noteq> USER_MODE_CODE"
      using interrupt_no_new [OF ok A' _ _ inv] Console_interrupt by (simp_all add: event_code_def syscall_code_defs)
    show ?thesis using status_step_pending [OF s th] Console_interrupt by (simp add: acknowledged_def)
  next
    case (Ecall code p0 p1 p2 p3)
    have k0': "k0 = k\<lparr>cpu_of := enter_ecall bd code p0 p1 p2 p3 (cpu_of k)\<rparr>" using tr Ecall by auto
    have rg: "regs (cpu_of (entered k0)) X_a0 = code" "regs (cpu_of (entered k0)) X_a1 = p0" "regs (cpu_of (entered k0)) X_a2 = p1"
      "regs (cpu_of (entered k0)) X_a3 = p2" "regs (cpu_of (entered k0)) X_a4 = p3"
      by (simp_all add: k0' entered_def enter_ecall_def Let_def)
    have cause: "csr_scause (cpu_of (entered k0)) = SCAUSE_ECALL_USER \<or> csr_scause (cpu_of (entered k0)) = SCAUSE_ECALL_SUPERVISOR"
      using bd by (simp add: k0' board_ok_def enter_ecall_def)
    have hh: "k_handle_ecall (bd_stat bd) (bd_stat bd) code p0 p1 p2 p3 (entered k0) = Some (g, k1)"
      using h(1) tr Ecall rg by (auto simp: Let_def)
    have fr: "frame {a_cur A} k (entered k0)" using en(3) by (simp add: k0')
    have "status_step (csr_sip (cpu_of (entered k0)) AND NOT 0x02) code (entered k0) A k1 A'"
      by (rule ecall_handler_status [OF en(2) cause _ _ hh new])
        (use ok A' Ecall may_call_frame [OF fr] in \<open>simp_all add: permitted_def event_step_def\<close>)
    then show ?thesis by (simp add: Ecall event_code_def acknowledged_def sip)
  qed (use tr in simp_all)
  moreover obtain fl where "(trap_enter k0 \<bind> (\<lambda>k0. handler k0 \<bind> leave_trap (bd_run_wrapper bd) c)) = Some (fl, k')"
    using r run_event_trap [OF tr] by auto
  ultimately have "status_step (acknowledged e (csr_sip (cpu_of k))) (event_code e) k0 A k' A'"
    by (intro trap_status_step [where handler = handler, OF h(1) k0(1)])
  then show ?thesis using k0(2) by (simp add: status_step_def same_status_def)
next
  case None
  then obtain stat where f: "e = Flush stat" using e by (cases e) auto
  let ?n = "tx_ready stat (q_get_length (putc_buffer k))"
  obtain k2 where k2: "flush_putc_buffer stat k = Some k2" "kinv f k2 (a_signals (putc_sem (lay k)) ?n A)" "frame {} k k2" "cpu_of k2 = cpu_of k"
    by (rule kinv_flush [OF inv, of ?n stat]) (use ok f in \<open>simp_all add: permitted_def\<close>)
  have "k2 = k'" using r f k2(1) by (simp add: run_event_def)
  have A: "A' = a_signals (putc_sem (lay k)) ?n A" using A' f by (simp add: event_step_def)
  have "on_cpu k' = on_cpu k"
    using k2(2-4) krepD(2,3) [OF kinvD(1) [OF inv]] krepD(2,3) [OF kinvD(1) [OF k2(2)]]
    unfolding \<open>k2 = k'\<close> by (simp add: on_cpu_def frameD(2))
  then have "same_status {} k k'" using frame_status k2(3) \<open>k2 = k'\<close> by simp
  then show ?thesis
    using interrupt_no_new [OF ok A' _ _ inv] f status_step_same [of k k' A' A "event_code e"]
    by (simp add: event_code_def syscall_code_defs acknowledged_def)
qed

end
