(* ===== verification/Hart_Runs.thy ===== *)
theory Hart_Runs
  imports Vector_Table Thread_Status
begin

text \<open>
  The kernel on its hart: every trap that the hart takes finds the routine of the kernel that the
  event stands for, the kernel is entered and left with interrupts masked, code outside the kernel runs
  with them enabled, and no thread gets a privilege that its creator did not have.
\<close>

unbundle bit_operations_syntax

section \<open>The invariant\<close>

text \<open>
  Inside the kernel every thread, the running one too, has a status word that masks interrupts and
  enables them on return; outside, the running program has them enabled.  The flushing thread is in
  supervisor mode.
\<close>

definition word_ok :: "u64 \<Rightarrow> bool" where
  "word_ok s \<longleftrightarrow> \<not> bit s 1 \<and> bit s 5"

definition vector_ok :: "kstate \<Rightarrow> bool" where
  "vector_ok k \<longleftrightarrow> csr_stvec (cpu_of k) = addr_k_intr_table (lay k) OR 1 \<and> table_aligned (lay k) \<and> csr_sie (cpu_of k) = 0x202"

definition trap_ok :: "addr \<Rightarrow> kstate \<Rightarrow> sched \<Rightarrow> bool" where
  "trap_ok f k A \<longleftrightarrow> kinv f k A \<and> vector_ok k \<and> (\<forall>t \<in> threads A. word_ok (thread_status k t)) \<and> bit (thread_status k f) 8"

definition runs_supervisor :: "hart \<Rightarrow> addr \<Rightarrow> bool" where
  "runs_supervisor h t =
     (if t = current_tcb (hart_kernel h) then supervisor h else bit (c_sstatus (tcontext (tcbs (hart_kernel h) t))) 8)"

definition hart_ok :: "addr \<Rightarrow> hart \<Rightarrow> sched \<Rightarrow> bool" where
  "hart_ok f h A \<longleftrightarrow> kinv f (hart_kernel h) A \<and> vector_ok (hart_kernel h) \<and> bit (csr_sstatus (cpu_of (hart_kernel h))) 1 \<and>
     (\<forall>t \<in> threads A. t \<noteq> a_cur A \<longrightarrow> word_ok (c_sstatus (tcontext (tcbs (hart_kernel h) t)))) \<and> runs_supervisor h f"

lemma flusher_thread: "kinv f k A \<Longrightarrow> f \<in> threads A"
  using kinvD(4) by (auto simp: threads_split)

lemma cpu_irrelevant [simp]:
  "permitted f (k\<lparr>cpu_of := c\<rparr>) A e = permitted f k A e" "event_step (k\<lparr>cpu_of := c\<rparr>) e A = event_step k e A"
  using may_call_frame [of "{}" k "k\<lparr>cpu_of := c\<rparr>"] by (simp_all add: permitted_def event_step_def split: event.splits)

lemma vector_ok_upd [simp]:
  "vector_ok (k\<lparr>cpu_of := (cpu_of k)\<lparr>regs := r\<rparr>\<rparr>) = vector_ok k" "vector_ok (k\<lparr>user_cells := u\<rparr>) = vector_ok k"
  "vector_ok (k\<lparr>cpu_of := (cpu_of k)\<lparr>csr_sip := p\<rparr>\<rparr>) = vector_ok k" "vector_ok (k\<lparr>cpu_of := (cpu_of k)\<lparr>csr_sstatus := s\<rparr>\<rparr>) = vector_ok k"
  by (simp_all add: vector_ok_def)

section \<open>Entering and leaving the kernel\<close>

lemma hart_cpu_fields [simp]:
  "supervisor (hart_cpu g h) = supervisor h" "hart_pc (hart_cpu g h) = hart_pc h"
  "hart_kernel (hart_cpu g h) = (hart_kernel h)\<lparr>cpu_of := g (cpu_of (hart_kernel h))\<rparr>"
  by (simp_all add: hart_cpu_def)

lemma entered_status:
  "thread_status (hart_enter cause h) t =
     (if t = current_tcb (hart_kernel h) then trap_sstatus (supervisor h) (csr_sstatus (cpu_of (hart_kernel h)))
      else c_sstatus (tcontext (tcbs (hart_kernel h) t)))"
  by (simp add: thread_status_def hart_enter_def Let_def)

lemma entered_mode: "bit (thread_status (hart_enter cause h) t) 8 = runs_supervisor h t"
  by (simp add: entered_status runs_supervisor_def)

lemma left_mode: "runs_supervisor (hart_sret k) t = bit (thread_status k t) 8"
  by (simp add: runs_supervisor_def hart_sret_def thread_status_def Let_def)

lemma enter_trap_ok:
  assumes "hart_ok f h A"
  shows "trap_ok f (hart_enter cause h) A"
proof -
  note h = assms [unfolded hart_ok_def]
  have cur: "current_tcb (hart_kernel h) = a_cur A" using krepD(2) [OF kinvD(1)] h by blast
  have "word_ok (thread_status (hart_enter cause h) t)" if "t \<in> threads A" for t
    using h that cur by (simp add: entered_status word_ok_def)
  moreover have "vector_ok (hart_enter cause h)" "kinv f (hart_enter cause h) A"
    using h by (simp_all add: hart_enter_def Let_def vector_ok_def)
  ultimately show ?thesis using h by (simp add: trap_ok_def entered_mode)
qed

lemma sret_hart_ok:
  assumes "trap_ok f k A"
  shows "hart_ok f (hart_sret k) A"
proof -
  note k = assms [unfolded trap_ok_def]
  have cur: "current_tcb k = a_cur A" using krepD(2) [OF kinvD(1)] k by blast
  have "a_cur A \<in> threads A" by (simp add: threads_def)
  then have "bit (thread_status k (a_cur A)) 5" using k by (simp add: word_ok_def)
  then have "bit (csr_sstatus (cpu_of k)) 5" using cur by (simp add: thread_status_def)
  moreover have "word_ok (c_sstatus (tcontext (tcbs k t)))" if "t \<in> threads A" "t \<noteq> a_cur A" for t
    using k that cur by (metis thread_status_def)
  moreover have "kinv f (hart_kernel (hart_sret k)) A" "vector_ok (hart_kernel (hart_sret k))"
    using k by (simp_all add: hart_sret_def Let_def)
  ultimately show ?thesis using k left_mode [of k f] by (simp add: hart_ok_def hart_sret_def Let_def)
qed

text \<open>A handler keeps the invariant, whoever runs after it.\<close>

lemma call_status_bits: "word_ok s \<Longrightarrow> word_ok (call_status code s)" "bit (call_status code s) 8 = (code \<noteq> USER_MODE_CODE \<and> bit s 8)"
proof -
  have b: "bit (push_bit 8 1 :: u64) n \<longleftrightarrow> n = 8" for n
    unfolding bit_push_bit_iff bit_1_iff by (auto simp: possible_bit_word)
  show "word_ok s \<Longrightarrow> word_ok (call_status code s)"
    unfolding call_status_def word_ok_def by (simp add: bit_and_iff bit_not_iff b del: push_bit_of_1)
  show "bit (call_status code s) 8 = (code \<noteq> USER_MODE_CODE \<and> bit s 8)"
    unfolding call_status_def by (simp add: bit_and_iff bit_not_iff b del: push_bit_of_1)
qed

lemma inherit_bits: "word_ok s \<Longrightarrow> word_ok (s OR 32)" "bit (s OR 32) 8 = bit s (8::nat)" for s :: u64
  by (simp_all add: word_ok_def bit_or_iff)

lemma trap_ok_step:
  assumes ok: "trap_ok f k A" and st: "status_step w code k A k' A'" and inv: "kinv f k' A'"
    and f: "code = USER_MODE_CODE \<Longrightarrow> a_cur A \<noteq> f"
  shows "trap_ok f k' A'"
    and "t \<in> threads A \<Longrightarrow> t \<in> threads A' \<Longrightarrow>
       bit (thread_status k' t) 8 = (if t = a_cur A \<and> code = USER_MODE_CODE then False else bit (thread_status k t) 8)"
    and "t \<in> threads A' \<Longrightarrow> t \<notin> threads A \<Longrightarrow> bit (thread_status k' t) 8 = bit (thread_status k (a_cur A)) 8"
proof -
  note k = ok [unfolded trap_ok_def] and s = st [unfolded status_step_def]
  have old: "thread_status k' t = (if t = a_cur A then call_status code (thread_status k t) else thread_status k t)"
    if "t \<in> threads A" "t \<in> threads A'" for t
    using s that by blast
  have new: "thread_status k' t = thread_status k (a_cur A) OR 32" if "t \<in> threads A'" "t \<notin> threads A" for t
    using s that by blast
  have cur: "a_cur A \<in> threads A" by (simp add: threads_def)
  have "word_ok (thread_status k' t)" if "t \<in> threads A'" for t
    using that old [of t] new [of t] k cur call_status_bits(1) inherit_bits(1) by (cases "t \<in> threads A") auto
  moreover have fl: "f \<in> threads A" "f \<in> threads A'" using flusher_thread k inv by blast+
  have "bit (thread_status k' f) 8"
    using k f unfolding old [OF fl] by (auto simp: call_status_bits(2))
  moreover have "vector_ok k'" using k s by (simp add: vector_ok_def)
  ultimately show "trap_ok f k' A'" using inv by (simp add: trap_ok_def)
  show "bit (thread_status k' t) 8 = (if t = a_cur A \<and> code = USER_MODE_CODE then False else bit (thread_status k t) 8)"
    if "t \<in> threads A" "t \<in> threads A'"
    unfolding old [OF that] by (simp add: call_status_bits(2))
  show "bit (thread_status k' t) 8 = bit (thread_status k (a_cur A)) 8" if "t \<in> threads A'" "t \<notin> threads A"
    unfolding new [OF that] by (rule inherit_bits(2))
qed

section \<open>A step of the hart\<close>

text \<open>A trap comes back, as the event of the kernel does.\<close>

lemma event_returns:
  assumes inv: "kinv f k A" and bd: "board_ok bd" and ok: "permitted f k A e" and tr: "trap_of bd e k = Some (k0, c, handler)"
  obtains k' A' where "(trap_enter k0 \<bind> (\<lambda>k1. handler k1 \<bind> leave_trap (bd_run_wrapper bd) c)) = Some (Returns (), k')"
    "run_event bd e k = Some k'" "A' \<in> event_step k e A" "kinv f k' A'"
proof -
  have k0: "kinv f k0 A" using tr inv by (cases e) auto
  obtain k' A' where r: "(trap_enter k0 \<bind> (\<lambda>k1. handler k1 \<bind> leave_trap (bd_run_wrapper bd) c)) = Some (Returns (), k')"
    "A' \<in> event_step k e A" "kinv f k' A'"
    by (rule trap_event [where handler = handler and rw = "bd_run_wrapper bd" and e = c, OF k0 event_handled [OF inv bd ok tr]])
  then show ?thesis using run_event_trap [OF tr] by (intro that) simp_all
qed

definition hart_permitted :: "addr \<Rightarrow> hart \<Rightarrow> sched \<Rightarrow> hart_event \<Rightarrow> bool" where
  "hart_permitted f h A e \<longleftrightarrow> permitted f (hart_kernel h) A (kernel_event h e) \<and>
     (case e of Call code p0 p1 p2 p3 \<Rightarrow> code = USER_MODE_CODE \<longrightarrow> a_cur A \<noteq> f
      | Flush_buffer stat \<Rightarrow> a_cur A = f | _ \<Rightarrow> True)"

text \<open>The modes of the threads after a step: nobody gets more privileged, a new thread is like its creator.\<close>

definition modes_step :: "hart \<Rightarrow> sched \<Rightarrow> hart_event \<Rightarrow> hart \<Rightarrow> sched \<Rightarrow> bool" where
  "modes_step h A e h' A' \<longleftrightarrow>
     (\<forall>t \<in> threads A \<inter> threads A'. runs_supervisor h' t =
        (if t = a_cur A \<and> event_code (kernel_event h e) = USER_MODE_CODE then False else runs_supervisor h t)) \<and>
     (\<forall>t \<in> threads A' - threads A. runs_supervisor h' t = runs_supervisor h (a_cur A))"

lemma trap_step:
  assumes ok: "trap_ok f k A" and modes: "\<And>t. bit (thread_status k t) 8 = runs_supervisor h t"
    and k: "k = (hart_kernel h)\<lparr>cpu_of := c\<rparr>" and bd: "board_ok bd" and p: "hart_permitted f h A e"
    and A': "A' \<in> event_step (hart_kernel h) (kernel_event h e) A" and r: "run_event bd (kernel_event h e) k = Some k'"
    and e: "\<not> (\<exists>c u. kernel_event h e = Compute c u)"
  shows "hart_ok f (hart_sret k') A'" "modes_step h A e (hart_sret k') A'" "\<not> bit (csr_sstatus (cpu_of k')) 1"
    "csr_sip (cpu_of (hart_kernel (hart_sret k'))) = acknowledged (kernel_event h e) (csr_sip (cpu_of k))"
proof -
  have inv: "kinv f k A" using ok by (simp add: trap_ok_def)
  have p': "permitted f k A (kernel_event h e)" "A' \<in> event_step k (kernel_event h e) A"
    using p A' by (simp_all add: hart_permitted_def k)
  have inv': "kinv f k' A'" by (rule run_event_inv(1) [OF inv bd p'(1) r p'(2)])
  have st: "status_step (acknowledged (kernel_event h e) (csr_sip (cpu_of k))) (event_code (kernel_event h e)) k A k' A'" by (rule event_status_step [OF inv bd p' r e])
  have "event_code (kernel_event h e) = USER_MODE_CODE \<Longrightarrow> a_cur A \<noteq> f"
    using p by (cases e) (auto simp: hart_permitted_def kernel_event_def event_code_def USER_MODE_CODE_def)
  note t = trap_ok_step [OF ok st inv' this]
  show "hart_ok f (hart_sret k') A'" using t(1) by (rule sret_hart_ok)
  show "modes_step h A e (hart_sret k') A'" unfolding modes_step_def left_mode modes [symmetric] using t(2,3) by blast
  have "a_cur A' \<in> threads A'" by (simp add: threads_def)
  then have "word_ok (thread_status k' (a_cur A'))" using t(1) by (simp add: trap_ok_def)
  then show "\<not> bit (csr_sstatus (cpu_of k')) 1" using krepD(2) [OF kinvD(1) [OF inv']] by (simp add: word_ok_def thread_status_def)
  show "csr_sip (cpu_of (hart_kernel (hart_sret k'))) = acknowledged (kernel_event h e) (csr_sip (cpu_of k))"
    using st by (simp add: status_step_def hart_sret_def Let_def)
qed

lemma vector_jump:
  assumes "vector_ok k"
  shows "jump_at (addr_k_intr_table (lay k)) (trap_target (csr_stvec (cpu_of k)) (interrupt_cause 1)) = Some K_timer_trap"
    and "jump_at (addr_k_intr_table (lay k)) (trap_target (csr_stvec (cpu_of k)) (interrupt_cause 9)) = Some K_console_trap"
    and "\<not> bit cause 63 \<Longrightarrow> jump_at (addr_k_intr_table (lay k)) (trap_target (csr_stvec (cpu_of k)) cause) = Some K_ecall_trap"
    and "bit (csr_sie (cpu_of k)) n \<longleftrightarrow> n = 1 \<or> n = 9"
proof -
  have v: "csr_stvec (cpu_of k) = addr_k_intr_table (lay k) OR 1" "addr_k_intr_table (lay k) AND 0xF = 0"
    "csr_sie (cpu_of k) = 0x202"
    using assms by (simp_all add: vector_ok_def table_aligned_def)
  note e = vector_entries [OF v(2)]
  show "jump_at (addr_k_intr_table (lay k)) (trap_target (csr_stvec (cpu_of k)) (interrupt_cause 1)) = Some K_timer_trap"
    "jump_at (addr_k_intr_table (lay k)) (trap_target (csr_stvec (cpu_of k)) (interrupt_cause 9)) = Some K_console_trap"
    unfolding v(1) by (rule e)+
  show "\<not> bit cause 63 \<Longrightarrow> jump_at (addr_k_intr_table (lay k)) (trap_target (csr_stvec (cpu_of k)) cause) = Some K_ecall_trap"
    unfolding v(1) by (rule e(3))
  show "bit (csr_sie (cpu_of k)) n \<longleftrightarrow> n = 1 \<or> n = 9" unfolding v(3) by (rule e(4))
qed

lemma hart_ok_pending: "hart_ok f (hart_cpu (\<lambda>c. c\<lparr>csr_sip := set_bit n (csr_sip c)\<rparr>) h) A = hart_ok f h A"
  by (simp add: hart_ok_def runs_supervisor_def)

lemma hart_ok_args: "hart_ok f (hart_cpu (load_args a0 a1 a2 a3 a4) h) A = hart_ok f h A"
  by (simp add: hart_ok_def runs_supervisor_def load_args_def)

lemma hart_ok_enabled: "hart_ok f h A \<Longrightarrow> interrupt_enabled n h \<longleftrightarrow> n = 1 \<or> n = 9"
  using vector_jump(4) by (auto simp: hart_ok_def interrupt_enabled_def)

text \<open>An interrupt, up to the sret.\<close>

lemma interrupt_step:
  assumes ok: "hart_ok f h A" and bd: "board_ok bd" and p: "hart_permitted f h A e"
    and e: "e = Tick \<and> n = 1 \<and> r = K_timer_trap \<or> e = Key stat data \<and> n = 9 \<and> r = K_console_trap"
  obtains k k' A' where "trap_ok f k A" "k = hart_enter (interrupt_cause n) (hart_cpu (\<lambda>c. c\<lparr>csr_sip := set_bit n (csr_sip c)\<rparr>) h)"
    "run_routine bd stat data r k = Some (Returns (), k')"
    "hart_interrupt bd stat data n h = Some (hart_sret k')" "A' \<in> event_step (hart_kernel h) (kernel_event h e) A"
    "run_event bd (kernel_event h e) k = Some k'" "hart_ok f (hart_sret k') A'" "modes_step h A e (hart_sret k') A'"
    "\<not> bit (csr_sstatus (cpu_of k')) 1"
    "csr_sip (cpu_of (hart_kernel (hart_sret k'))) = acknowledged (kernel_event h e) (set_bit n (csr_sip (cpu_of (hart_kernel h))))"
proof -
  let ?h = "hart_cpu (\<lambda>c. c\<lparr>csr_sip := set_bit n (csr_sip c)\<rparr>) h"
  let ?k = "hart_enter (interrupt_cause n) ?h"
  have h1: "hart_ok f ?h A" using ok by (simp only: hart_ok_pending)
  have t: "trap_ok f ?k A" by (rule enter_trap_ok [OF h1])
  obtain c where c: "?k = (hart_kernel h)\<lparr>cpu_of := c\<rparr>" by (simp add: hart_enter_def Let_def)
  have p': "permitted f ?k A (kernel_event h e)" using p by (simp add: hart_permitted_def c)
  have inv: "kinv f ?k A" using t by (simp add: trap_ok_def)
  obtain handler where tr: "trap_of bd (kernel_event h e) ?k = Some (?k, False, handler)"
    and rt: "run_routine bd stat data r ?k = (trap_enter ?k \<bind> (\<lambda>k1. handler k1 \<bind> leave_trap (bd_run_wrapper bd) False))"
    using e by (auto simp: kernel_event_def run_routine_def k_timer_trap_def k_console_trap_def)
  obtain k' A' where r: "(trap_enter ?k \<bind> (\<lambda>k1. handler k1 \<bind> leave_trap (bd_run_wrapper bd) False)) = Some (Returns (), k')"
    "run_event bd (kernel_event h e) ?k = Some k'" "A' \<in> event_step ?k (kernel_event h e) A" "kinv f k' A'"
    by (rule event_returns [OF inv bd p' tr])
  have A': "A' \<in> event_step (hart_kernel h) (kernel_event h e) A" using r(3) by (simp add: c)
  have v: "vector_ok (hart_kernel ?h)" using h1 by (simp only: hart_ok_def)
  have "jump_at (addr_k_intr_table (lay (hart_kernel ?h))) (trap_target (csr_stvec (cpu_of (hart_kernel ?h))) (interrupt_cause n)) = Some r"
    using vector_jump(1,2) [OF v] e by blast
  then have "hart_trap bd stat data (interrupt_cause n) ?h = Some (hart_sret k')"
    using r(1) rt by (simp add: hart_trap_def)
  moreover have "interrupt_enabled n ?h" using hart_ok_enabled [OF h1] e by blast
  ultimately have hi: "hart_interrupt bd stat data n h = Some (hart_sret k')" by (simp add: hart_interrupt_def)
  have m: "bit (thread_status ?k u) 8 = runs_supervisor h u" for u by (simp add: entered_mode) (simp add: runs_supervisor_def)
  have nc: "\<not> (\<exists>c u. kernel_event h e = Compute c u)" using e by (auto simp: kernel_event_def)
  note s = trap_step [OF t m c bd p A' r(2) nc]
  have p: "csr_sip (cpu_of ?k) = set_bit n (csr_sip (cpu_of (hart_kernel h)))" by (simp add: hart_enter_def Let_def)
  show ?thesis by (rule that [OF t refl _ hi A' r(2) s(1-3) s(4) [unfolded p]]) (simp add: rt r(1))
qed

text \<open>A system call, which the mode of the caller gives its cause.\<close>

definition call_board :: "board \<Rightarrow> hart \<Rightarrow> board" where
  "call_board bd h = bd\<lparr>bd_cause := ecall_cause (supervisor h), bd_epc := hart_pc h\<rparr>"

lemma call_board_ok [simp]: "board_ok (call_board bd h)"
  by (simp add: call_board_def board_ok_def ecall_cause_def)

lemma call_board_fields [simp]: "bd_run_wrapper (call_board bd h) = bd_run_wrapper bd" "bd_stat (call_board bd h) = bd_stat bd"
  by (simp_all add: call_board_def)

lemma ecall_enters:
  "hart_enter (ecall_cause (supervisor h)) (hart_cpu (load_args a0 a1 a2 a3 a4) h) =
     (hart_enter cause h)\<lparr>cpu_of := enter_ecall (call_board bd h) a0 a1 a2 a3 a4 (cpu_of (hart_enter cause h))\<rparr>"
  by (simp add: hart_enter_def load_args_def enter_ecall_def call_board_def Let_def)

lemma call_step_ok:
  assumes ok: "hart_ok f h A" and p: "hart_permitted f h A e" and e: "e = Call code p0 p1 p2 p3"
  obtains k' A' where "hart_step bd e h = Some (hart_sret k')" "A' \<in> event_step (hart_kernel h) (kernel_event h e) A"
    "run_event (call_board bd h) (kernel_event h e) (hart_enter (ecall_cause (supervisor h)) h) = Some k'"
    "hart_ok f (hart_sret k') A'" "modes_step h A e (hart_sret k') A'" "\<not> bit (csr_sstatus (cpu_of k')) 1"
    "csr_sip (cpu_of (hart_kernel (hart_sret k'))) = acknowledged (kernel_event h e) (csr_sip (cpu_of (hart_kernel h)))"
proof -
  let ?bd = "call_board bd h"
  let ?k = "hart_enter (ecall_cause (supervisor h)) h"
  let ?z = "?k\<lparr>cpu_of := enter_ecall ?bd code p0 p1 p2 p3 (cpu_of ?k)\<rparr>"
  have ev: "kernel_event h e = Ecall code p0 p1 p2 p3" by (simp add: e kernel_event_def)
  have t: "trap_ok f ?k A" by (rule enter_trap_ok [OF ok])
  obtain c where c: "?k = (hart_kernel h)\<lparr>cpu_of := c\<rparr>" by (simp add: hart_enter_def Let_def)
  have inv: "kinv f ?k A" using t by (simp add: trap_ok_def)
  have p': "permitted f ?k A (Ecall code p0 p1 p2 p3)" using p by (simp add: hart_permitted_def c ev)
  obtain handler where tr: "trap_of ?bd (Ecall code p0 p1 p2 p3) ?k = Some (?z, True, handler)"
    and rt: "k_ecall_trap (bd_run_wrapper ?bd) (bd_stat ?bd) (bd_stat ?bd) ?z =
       (trap_enter ?z \<bind> (\<lambda>k1. handler k1 \<bind> leave_trap (bd_run_wrapper ?bd) True))"
    by (simp add: k_ecall_trap_def Let_def)
  obtain k' A' where r: "(trap_enter ?z \<bind> (\<lambda>k1. handler k1 \<bind> leave_trap (bd_run_wrapper ?bd) True)) = Some (Returns (), k')"
    "run_event ?bd (Ecall code p0 p1 p2 p3) ?k = Some k'" "A' \<in> event_step ?k (Ecall code p0 p1 p2 p3) A" "kinv f k' A'"
    by (rule event_returns [OF inv call_board_ok p' tr])
  have A': "A' \<in> event_step (hart_kernel h) (kernel_event h e) A" using r(3) by (simp add: c ev)
  have "\<not> bit (ecall_cause v) 63" for v
    by (simp add: ecall_cause_def SCAUSE_ECALL_SUPERVISOR_def SCAUSE_ECALL_USER_def)
  moreover have "vector_ok (hart_kernel (hart_cpu (load_args code p0 p1 p2 p3) h))"
    using ok by (simp add: hart_ok_def load_args_def)
  ultimately have j: "jump_at (addr_k_intr_table (lay (hart_kernel h))) (trap_target (csr_stvec (cpu_of (hart_kernel h))) (ecall_cause (supervisor h)))
      = Some K_ecall_trap"
    using vector_jump(3) [of "hart_kernel h"] ok by (simp add: hart_ok_def)
  have en: "hart_enter (ecall_cause (supervisor h)) (hart_cpu (load_args code p0 p1 p2 p3) h) = ?z" by (rule ecall_enters)
  have st: "hart_step bd e h = Some (hart_sret k')"
    using j r(1) rt en by (simp add: e hart_step_def hart_ecall_def hart_trap_def run_routine_def load_args_def)
  have m: "bit (thread_status ?k u) 8 = runs_supervisor h u" for u by (rule entered_mode)
  have r2: "run_event ?bd (kernel_event h e) ?k = Some k'" using r(2) ev by simp
  have nc: "\<not> (\<exists>c u. kernel_event h e = Compute c u)" by (simp add: ev)
  note s = trap_step [OF t m c call_board_ok p A' r2 nc]
  have p: "csr_sip (cpu_of ?k) = csr_sip (cpu_of (hart_kernel h))" by (simp add: hart_enter_def Let_def)
  show ?thesis by (rule that [OF st A' r2 s(1-3) s(4) [unfolded p]])
qed

lemma flush_step_ok:
  assumes ok: "hart_ok f h A" and p: "hart_permitted f h A (Flush_buffer stat)"
  obtains h' A' where "hart_step bd (Flush_buffer stat) h = Some h'"
    "A' \<in> event_step (hart_kernel h) (kernel_event h (Flush_buffer stat)) A" "hart_ok f h' A'" "modes_step h A (Flush_buffer stat) h' A'"
proof -
  note h = ok [unfolded hart_ok_def]
  let ?s = "putc_sem (lay (hart_kernel h))" and ?n = "tx_ready stat (q_get_length (putc_buffer (hart_kernel h)))"
  have inv: "kinv f (hart_kernel h) A" using h by blast
  have cur: "a_cur A = f" using p by (simp add: hart_permitted_def)
  have s: "?s \<in> a_sems A" by (rule ownedD(11) [OF kinvD(3) [OF inv]])
  have pn: "a_val A ?s + int ?n < 2 ^ 31" using p by (simp add: hart_permitted_def kernel_event_def permitted_def)
  obtain k where k: "flush_putc_buffer stat (hart_kernel h) = Some k" "kinv f k (a_signals ?s ?n A)" "frame {} (hart_kernel h) k"
    "cpu_of k = cpu_of (hart_kernel h)"
    by (rule kinv_flush [OF inv refl pn])
  let ?A = "a_signals ?s ?n A" and ?h = "h\<lparr>hart_kernel := k\<rparr>"
  have A: "a_cur ?A = a_cur A" "threads ?A = threads A" using s by auto
  have ct: "current_tcb k = a_cur A" "current_tcb (hart_kernel h) = a_cur A"
    using krepD(2) [OF kinvD(1) [OF inv]] krepD(2) [OF kinvD(1) [OF k(2)]] A(1) by simp_all
  have w: "c_sstatus (tcontext (tcbs k t)) = c_sstatus (tcontext (tcbs (hart_kernel h) t))" for t
    using words_frame [OF k(3), of t] by (simp add: status_words_def)
  have m: "runs_supervisor ?h t = runs_supervisor h t" for t using ct by (simp add: runs_supervisor_def w)
  have sup: "supervisor h" using h ct cur by (simp add: runs_supervisor_def)
  have "hart_ok f ?h ?A"
    using h k(2) m [of f] frameD(2) [OF k(3)] by (simp add: hart_ok_def A w vector_ok_def k(4))
  moreover have "modes_step h A (Flush_buffer stat) ?h ?A"
    by (simp add: modes_step_def m A(2) kernel_event_def event_code_def syscall_code_defs)
  moreover have "hart_step bd (Flush_buffer stat) h = Some ?h" using sup k(1) by (simp add: hart_step_def)
  ultimately show ?thesis by (intro that [of ?h ?A]) (simp_all add: kernel_event_def event_step_def)
qed

text \<open>Every permitted step of the hart happens, is the step of the abstract scheduler, and keeps the invariant.\<close>

lemma hart_step_ok:
  assumes ok: "hart_ok f h A" and bd: "board_ok bd" and p: "hart_permitted f h A e"
  obtains h' A' where "hart_step bd e h = Some h'" "A' \<in> event_step (hart_kernel h) (kernel_event h e) A"
    "hart_ok f h' A'" "modes_step h A e h' A'"
proof (cases e)
  case (Run r q u)
  let ?h = "h\<lparr>hart_pc := q, hart_kernel := (hart_kernel h)\<lparr>cpu_of := (cpu_of (hart_kernel h))\<lparr>regs := r\<rparr>, user_cells := u\<rparr>\<rparr>"
  have m: "runs_supervisor ?h t = runs_supervisor h t" for t by (simp add: runs_supervisor_def)
  have "hart_ok f ?h A" using ok by (simp add: hart_ok_def runs_supervisor_def vector_ok_def)
  moreover have "modes_step h A e ?h A" by (simp add: modes_step_def m Run kernel_event_def event_code_def syscall_code_defs)
  ultimately show ?thesis
    by (intro that [of ?h A]) (simp_all add: Run hart_step_def kernel_event_def event_step_def)
next
  case Tick
  obtain k k' A' where "hart_interrupt bd 0 0 1 h = Some (hart_sret k')" "A' \<in> event_step (hart_kernel h) (kernel_event h e) A"
    "hart_ok f (hart_sret k') A'" "modes_step h A e (hart_sret k') A'"
    by (rule interrupt_step [OF ok bd p, of 1 K_timer_trap 0 0]) (simp_all add: Tick)
  then show ?thesis by (intro that) (simp_all add: Tick hart_step_def)
next
  case (Key stat data)
  obtain k k' A' where "hart_interrupt bd stat data 9 h = Some (hart_sret k')" "A' \<in> event_step (hart_kernel h) (kernel_event h e) A"
    "hart_ok f (hart_sret k') A'" "modes_step h A e (hart_sret k') A'"
    by (rule interrupt_step [OF ok bd p, of 9 K_console_trap stat data]) (simp_all add: Key)
  then show ?thesis by (intro that) (simp_all add: Key hart_step_def)
next
  case (Call code p0 p1 p2 p3)
  obtain k' A' where "hart_step bd e h = Some (hart_sret k')" "A' \<in> event_step (hart_kernel h) (kernel_event h e) A"
    "hart_ok f (hart_sret k') A'" "modes_step h A e (hart_sret k') A'"
    by (rule call_step_ok [OF ok p Call, of bd])
  then show ?thesis by (rule that)
next
  case (Flush_buffer stat)
  then show ?thesis using flush_step_ok [OF ok, of stat bd] p that by blast
qed

text \<open>Every trap ends with interrupts masked, until its sret.\<close>

definition traps :: "hart_event \<Rightarrow> bool" where
  "traps e \<longleftrightarrow> (case e of Run r p u \<Rightarrow> False | Flush_buffer stat \<Rightarrow> False | _ \<Rightarrow> True)"

lemma trap_leaves_masked:
  assumes ok: "hart_ok f h A" and bd: "board_ok bd" and p: "hart_permitted f h A e" and e: "traps e"
  obtains k' where "hart_step bd e h = Some (hart_sret k')" "\<not> bit (csr_sstatus (cpu_of k')) 1"
proof (cases e)
  case Tick
  obtain k' where "hart_interrupt bd 0 0 1 h = Some (hart_sret k')" "\<not> bit (csr_sstatus (cpu_of k')) 1"
    by (rule interrupt_step [OF ok bd p, of 1 K_timer_trap 0 0]) (simp_all add: Tick)
  then show ?thesis by (intro that) (simp_all add: Tick hart_step_def)
next
  case (Key stat data)
  obtain k' where "hart_interrupt bd stat data 9 h = Some (hart_sret k')" "\<not> bit (csr_sstatus (cpu_of k')) 1"
    by (rule interrupt_step [OF ok bd p, of 9 K_console_trap stat data]) (simp_all add: Key)
  then show ?thesis by (intro that) (simp_all add: Key hart_step_def)
next
  case (Call code p0 p1 p2 p3)
  show ?thesis by (rule call_step_ok [OF ok p Call, of bd]) (rule that)
qed (use e in \<open>simp_all add: traps_def\<close>)

lemma hart_step_inv:
  assumes "hart_ok f h A" "board_ok bd" "hart_permitted f h A e" "hart_step bd e h = Some h'"
    and "A' \<in> event_step (hart_kernel h) (kernel_event h e) A"
  shows "hart_ok f h' A'" "modes_step h A e h' A'"
proof -
  obtain h1 A1 where s: "hart_step bd e h = Some h1" "A1 \<in> event_step (hart_kernel h) (kernel_event h e) A"
    "hart_ok f h1 A1" "modes_step h A e h1 A1"
    by (rule hart_step_ok [OF assms(1-3)])
  with assms(4) event_step_unique [OF assms(5) s(2)] show "hart_ok f h' A'" "modes_step h A e h' A'" by simp_all
qed

section \<open>Runs\<close>

text \<open>The list records every event with the thread that runs when it happens.\<close>

inductive hart_run :: "board \<Rightarrow> addr \<Rightarrow> hart \<Rightarrow> sched \<Rightarrow> (hart_event \<times> addr) list \<Rightarrow> hart \<Rightarrow> sched \<Rightarrow> bool"
  for bd f where
  hart_nil: "hart_run bd f h A [] h A"
| hart_cons: "\<lbrakk>hart_permitted f h A e; hart_step bd e h = Some h1; A1 \<in> event_step (hart_kernel h) (kernel_event h e) A;
     hart_run bd f h1 A1 es h2 A2\<rbrakk> \<Longrightarrow> hart_run bd f h A ((e, a_cur A) # es) h2 A2"

inductive_simps hart_run_nil [simp]: "hart_run bd f h A [] h' A'"

lemma hart_run_ok: "hart_run bd f h A es h' A' \<Longrightarrow> board_ok bd \<Longrightarrow> hart_ok f h A \<Longrightarrow> hart_ok f h' A'"
proof (induction rule: hart_run.induct)
  case (hart_cons h A e h1 A1 es h2 A2)
  then show ?case using hart_step_inv(1) by metis
qed

text \<open>Threads in supervisor mode come from the threads K only, as long as those make no more.\<close>

definition creates :: "hart_event \<Rightarrow> bool" where
  "creates e \<longleftrightarrow> (\<exists>p0 p1 p2 p3. e = Call CREATE_THREAD_CODE p0 p1 p2 p3)"

lemma new_thread_creates:
  assumes "kinv f (hart_kernel h) A" "hart_permitted f h A e" "A' \<in> event_step (hart_kernel h) (kernel_event h e) A" "\<not> creates e"
  shows "threads A' \<subseteq> threads A"
proof (cases e)
  case (Call code p0 p1 p2 p3)
  then show ?thesis
    using assms call_step_no_new [OF assms(1), of code p0 p1 p3 A']
    by (auto simp: creates_def kernel_event_def event_step_def hart_permitted_def permitted_def)
next
  case (Run r p u)
  then show ?thesis using assms(3) by (simp add: kernel_event_def event_step_def)
qed (use assms(2,3) interrupt_no_new [OF _ _ _ _ assms(1), of "kernel_event h e" A'] in
     \<open>auto simp: hart_permitted_def kernel_event_def event_code_def\<close>)

lemma user_mode_step:
  assumes m: "modes_step h A e h' A'" and u: "\<forall>t \<in> threads A - K. \<not> runs_supervisor h t"
    and e: "a_cur A \<in> K \<longrightarrow> threads A' \<subseteq> threads A"
  shows "\<forall>t \<in> threads A' - K. \<not> runs_supervisor h' t"
proof
  fix t assume t: "t \<in> threads A' - K"
  note ms = m [unfolded modes_step_def]
  show "\<not> runs_supervisor h' t"
  proof (cases "t \<in> threads A")
    case True
    then show ?thesis using ms u t by auto
  next
    case False
    then have "runs_supervisor h' t = runs_supervisor h (a_cur A)" using ms t by blast
    moreover have "a_cur A \<in> threads A - K" using e t False by (auto simp: threads_def)
    ultimately show ?thesis using u by blast
  qed
qed

lemma hart_run_user:
  assumes "hart_run bd f h A es h' A'" "board_ok bd" "hart_ok f h A"
    and "\<forall>t \<in> threads A - K. \<not> runs_supervisor h t" "\<forall>(e, t) \<in> set es. creates e \<longrightarrow> t \<notin> K"
  shows "\<forall>t \<in> threads A' - K. \<not> runs_supervisor h' t"
  using assms
proof (induction rule: hart_run.induct)
  case (hart_cons h A e h1 A1 es h2 A2)
  note i = hart_step_inv [OF hart_cons.prems(2,1) hart_cons.hyps(1-3)]
  have inv: "kinv f (hart_kernel h) A" using hart_cons.prems(2) by (simp add: hart_ok_def)
  have "a_cur A \<in> K \<longrightarrow> threads A1 \<subseteq> threads A"
    using new_thread_creates [OF inv hart_cons.hyps(1,3)] hart_cons.prems(4) by auto
  from user_mode_step [OF i(2) hart_cons.prems(3) this] show ?case
    using hart_cons.IH [OF hart_cons.prems(1) i(1)] hart_cons.prems(4) by simp
qed simp

section \<open>A tick during a system call\<close>

text \<open>
  k_handle_ecall clears the pending bit of the timer, which it has not handled: a tick that arrives
  between the ecall instruction and that line leaves no trace.
\<close>

definition tick_pending :: "bool \<Rightarrow> kstate \<Rightarrow> kstate" where
  "tick_pending b k = k\<lparr>cpu_of := (cpu_of k)\<lparr>csr_sip := put_bit 1 b (csr_sip (cpu_of k))\<rparr>\<rparr>"

lemma clear_pending: "put_bit 1 b w AND NOT 2 = w AND NOT 2"
proof (rule bit_eqI)
  fix n
  have "(2 :: u64) = push_bit 1 1" by simp
  then have two: "bit (2 :: u64) n \<longleftrightarrow> n = 1" unfolding bit_1_iff by (simp only: bit_push_bit_iff bit_1_iff) (auto simp: possible_bit_word)
  show "bit (put_bit 1 b w AND NOT 2) n \<longleftrightarrow> bit (w AND NOT 2) n"
    by (auto simp only: bit_and_iff bit_not_iff two) (simp_all split: if_splits)
qed

lemma ecall_forgets_tick:
  assumes "csr_scause (cpu_of k) = SCAUSE_ECALL_USER \<or> csr_scause (cpu_of k) = SCAUSE_ECALL_SUPERVISOR"
  shows "k_ecall_trap rw s1 s2 (tick_pending True k) = k_ecall_trap rw s1 s2 (tick_pending False k)"
proof (cases "current_context k = NULL")
  case False
  then show ?thesis
    using assms clear_pending [of True] clear_pending [of False]
    by (simp add: k_ecall_trap_def trap_enter_def tick_pending_def k_handle_ecall_def Let_def)
qed (simp add: k_ecall_trap_def trap_enter_def tick_pending_def)

definition with_tick :: "bool \<Rightarrow> hart \<Rightarrow> hart" where
  "with_tick b h = hart_cpu (\<lambda>c. c\<lparr>csr_sip := put_bit 1 b (csr_sip c)\<rparr>) h"

lemma with_tick_fields [simp]:
  "supervisor (with_tick b h) = supervisor h" "hart_pc (with_tick b h) = hart_pc h" "csr_sip (cpu_of (hart_kernel (with_tick b h))) = put_bit 1 b (csr_sip (cpu_of (hart_kernel h)))"
  "hart_ok f (with_tick b h) A = hart_ok f h A" "hart_permitted f (with_tick b h) A (Call code p0 p1 p2 p3) = hart_permitted f h A (Call code p0 p1 p2 p3)"
  "hart_permitted f (with_tick b h) A (Key stat data) = hart_permitted f h A (Key stat data)"
  by (simp_all add: with_tick_def hart_ok_def runs_supervisor_def hart_permitted_def kernel_event_def)

text \<open>A system call forgets a pending tick; a console interrupt leaves it for the sret.\<close>

lemma call_forgets_tick:
  assumes ok: "hart_ok f h A" and p: "hart_permitted f h A (Call code p0 p1 p2 p3)"
  obtains h' where "hart_step bd (Call code p0 p1 p2 p3) (with_tick True h) = Some h'"
    "hart_step bd (Call code p0 p1 p2 p3) (with_tick False h) = Some h'" "\<not> bit (csr_sip (cpu_of (hart_kernel h'))) 1"
proof -
  let ?e = "Call code p0 p1 p2 p3"
  let ?k = "\<lambda>b. hart_enter (ecall_cause (supervisor h)) (hart_cpu (load_args code p0 p1 p2 p3) (with_tick b h))"
  have v: "vector_ok (hart_kernel (with_tick b h))" for b using ok by (simp add: hart_ok_def with_tick_def)
  have n: "\<not> bit (ecall_cause (supervisor h)) 63"
    by (simp add: ecall_cause_def SCAUSE_ECALL_SUPERVISOR_def SCAUSE_ECALL_USER_def)
  have step: "hart_step bd ?e (with_tick b h) = (k_ecall_trap (bd_run_wrapper bd) (bd_stat bd) (bd_stat bd) (?k b) \<bind>
      (\<lambda>(f, k1). case f of Halts \<Rightarrow> None | _ \<Rightarrow> Some (hart_sret k1)))" for b
    using vector_jump(3) [OF v n, of b] by (simp add: hart_step_def hart_ecall_def hart_trap_def run_routine_def load_args_def)
  let ?z = "hart_enter (ecall_cause (supervisor h)) (hart_cpu (load_args code p0 p1 p2 p3) h)"
  have k: "?k b = tick_pending b ?z" for b
    by (simp add: with_tick_def tick_pending_def hart_enter_def load_args_def Let_def)
  have "csr_scause (cpu_of ?z) = ecall_cause (supervisor h)" by (simp add: hart_enter_def Let_def)
  then have "k_ecall_trap rw s1 s2 (?k True) = k_ecall_trap rw s1 s2 (?k False)" for rw s1 s2
    unfolding k by (intro ecall_forgets_tick) (simp add: ecall_cause_def)
  then have same: "hart_step bd ?e (with_tick True h) = hart_step bd ?e (with_tick False h)" by (simp only: step)
  have o: "hart_ok f (with_tick True h) A" "hart_permitted f (with_tick True h) A ?e" using ok p by simp_all
  obtain k' where k': "hart_step bd ?e (with_tick True h) = Some (hart_sret k')"
    "csr_sip (cpu_of (hart_kernel (hart_sret k'))) = acknowledged (kernel_event (with_tick True h) ?e) (csr_sip (cpu_of (hart_kernel (with_tick True h))))"
    by (rule call_step_ok [OF o refl, of bd])
  have "\<not> bit (w AND NOT 2) 1" for w :: u64 by (simp add: bit_and_iff bit_not_iff)
  then have "\<not> bit (csr_sip (cpu_of (hart_kernel (hart_sret k')))) 1" unfolding k'(2) by (simp add: kernel_event_def acknowledged_def)
  then show ?thesis using k'(1) same by (intro that) simp_all
qed

lemma key_keeps_tick:
  assumes ok: "hart_ok f h A" and bd: "board_ok bd" and p: "hart_permitted f h A (Key stat data)"
  obtains h' where "hart_step bd (Key stat data) (with_tick True h) = Some h'" "bit (csr_sip (cpu_of (hart_kernel h'))) 1"
proof -
  have o: "hart_ok f (with_tick True h) A" "hart_permitted f (with_tick True h) A (Key stat data)" using ok p by simp_all
  obtain k' where k': "hart_interrupt bd stat data 9 (with_tick True h) = Some (hart_sret k')"
    "csr_sip (cpu_of (hart_kernel (hart_sret k'))) =
       acknowledged (kernel_event (with_tick True h) (Key stat data)) (set_bit 9 (csr_sip (cpu_of (hart_kernel (with_tick True h)))))"
    by (rule interrupt_step [OF o(1) bd o(2), of 9 K_console_trap stat data]) simp_all
  have "bit (csr_sip (cpu_of (hart_kernel (hart_sret k')))) 1"
    unfolding k'(2) by (simp add: kernel_event_def acknowledged_def bit_and_iff bit_not_iff bit_set_bit_iff)
  then show ?thesis using k'(1) by (intro that [of "hart_sret k'"]) (simp_all add: hart_step_def)
qed

end
