(* ===== verification/Hart_Boot.thy ===== *)
theory Hart_Boot
  imports Hart_Runs Boot_Correct
begin

text \<open>
  main() on the hart: its two system calls trap from supervisor mode with interrupts still off, and
  the state in which it enables them is one of the hart's invariant.
\<close>

unbundle bit_operations_syntax

text \<open>The status register around a system call that is made in supervisor mode.\<close>

definition call_entry :: "cpu \<Rightarrow> cpu" where
  "call_entry c = c\<lparr>csr_sstatus := trap_sstatus True (csr_sstatus c)\<rparr>"

definition call_return :: "cpu \<Rightarrow> cpu" where
  "call_return c = c\<lparr>csr_sstatus := sret_sstatus (csr_sstatus c)\<rparr>"

definition supervisor_ecall :: "board \<Rightarrow> kstate ecall" where
  "supervisor_ecall bd a0 a1 a2 a3 a4 k =
     map_option (\<lambda>(r, k'). (r, k'\<lparr>cpu_of := call_return (cpu_of k')\<rparr>))
       (kernel_ecall bd a0 a1 a2 a3 a4 (k\<lparr>cpu_of := call_entry (cpu_of k)\<rparr>))"

definition hart_platform :: "board \<Rightarrow> addr \<Rightarrow> addr \<Rightarrow> kstate platform" where
  "hart_platform bd cs ci = (kernel_platform bd cs ci)\<lparr>pf_ecall := supervisor_ecall bd\<rparr>"

lemma hart_platform_wraps: "wraps_kernel bd (hart_platform bd cs ci) call_entry call_return"
  by (simp add: wraps_kernel_def hart_platform_def supervisor_ecall_def)

text \<open>It is the hart's ecall, when the call returns to its caller.\<close>

lemma supervisor_ecall_hart:
  assumes "supervisor_ecall (call_board bd h) a0 a1 a2 a3 a4 (hart_kernel h) = Some (r, k')" "supervisor h" "vector_ok (hart_kernel h)"
  shows "\<exists>h'. hart_ecall bd a0 a1 a2 a3 a4 h = Some h' \<and> hart_kernel h' = k' \<and> regs (cpu_of k') X_a0 = r"
proof -
  let ?k = "hart_kernel h"
  obtain k1 where k1: "kernel_ecall (call_board bd h) a0 a1 a2 a3 a4 (?k\<lparr>cpu_of := call_entry (cpu_of ?k)\<rparr>) = Some (r, k1)"
    "k' = k1\<lparr>cpu_of := call_return (cpu_of k1)\<rparr>"
    using assms(1) by (auto simp: supervisor_ecall_def)
  have en: "hart_enter (ecall_cause (supervisor h)) (hart_cpu (load_args a0 a1 a2 a3 a4) h) =
      ?k\<lparr>cpu_of := enter_ecall (call_board bd h) a0 a1 a2 a3 a4 (call_entry (cpu_of ?k))\<rparr>"
    by (simp add: hart_enter_def load_args_def enter_ecall_def call_board_def call_entry_def assms(2) Let_def)
  have "\<not> bit (ecall_cause (supervisor h)) 63" by (simp add: ecall_cause_def SCAUSE_ECALL_SUPERVISOR_def SCAUSE_ECALL_USER_def)
  note j = vector_jump(3) [OF assms(3) this]
  obtain x where x: "k_ecall_trap (bd_run_wrapper bd) (bd_stat bd) (bd_stat bd)
      (?k\<lparr>cpu_of := enter_ecall (call_board bd h) a0 a1 a2 a3 a4 (call_entry (cpu_of ?k))\<rparr>) = Some (Returns x, k1)"
    "regs (cpu_of k1) X_a0 = r"
    using kernel_ecall_some(1,3) [OF k1(1)] by simp
  have "hart_ecall bd a0 a1 a2 a3 a4 h = Some (hart_sret k1)"
    using j x(1) by (simp add: hart_ecall_def hart_trap_def run_routine_def en load_args_def)
  moreover have "hart_kernel (hart_sret k1) = k'" by (simp add: hart_sret_def k1(2) call_return_def Let_def)
  moreover have "regs (cpu_of k') X_a0 = r" using x(2) by (simp add: k1(2) call_return_def)
  ultimately show ?thesis by blast
qed

lemma ecall_event:
  "kernel_ecall bd code p0 p1 p2 p3 k = Some (r, k') \<Longrightarrow> run_event bd (Ecall code p0 p1 p2 p3) k = Some k'"
  using kernel_ecall_some(1) by (fastforce simp: run_event_def)

lemma boot_hart:
  assumes l: "layout_ok l (heap_start m)" "table_aligned l" and bd: "board_ok bd" "bd_flush_loop bd \<noteq> 0"
    and heap: "alloc_rep m [Free n]" "200 \<le> n" and k: "k = kernel_image l m ts ss c cells"
  obtains t js k' where "main_boot bd (hart_platform bd cs ci) k = Some k'" "kernel_started k t js bd k'" "t \<noteq> main_tcb l"
    "hart_ok t \<lparr>supervisor = True, hart_pc = pc, hart_kernel = k'\<rparr> (a_create t js (boot_sched l))"
    "\<exists>us. alloc_rep (mem k') (us @ [Free (n - 199)]) \<and> (\<forall>s \<in> set us. \<not> is_free s)"
proof -
  obtain st m1 u t ts0 js m' k3 k4 k' where b: "main_boot bd (hart_platform bd cs ci) k = Some k'" "kernel_started k t js bd k'"
    "t \<noteq> main_tcb l" "js \<noteq> putc_sem l" "js \<noteq> getc_sem l"
    "\<exists>us. alloc_rep (mem k') (us @ [Free (n - 199)]) \<and> (\<forall>s \<in> set us. \<not> is_free s)"
    "kernel_ecall bd MEM_ALLOC_CODE 64 0 0 0
       ((boot_prepared l st m1 k)\<lparr>cpu_of := call_entry (cpu_of (boot_prepared l st m1 k))\<rparr>) = Some (u, k3)"
    "krep k3 (boot_sched l)" "owned k3 (boot_sched l)" "u + DEFAULT_STACK_SIZE \<noteq> NULL" "live_blocks (mem k3) u \<noteq> None"
    "\<not> kernel_owned k3 (boot_sched l) u" "thread_room k3 t ts0 js m'"
    "kernel_ecall bd CREATE_THREAD_CODE (flush_tcb_cell l) (bd_flush_loop bd) 0 (u + DEFAULT_STACK_SIZE)
       (k3\<lparr>cpu_of := call_entry (call_return (cpu_of k3))\<rparr>) = Some (SUCCESS_SYSCALL, k4)"
    "k' = k4\<lparr>cpu_of := (call_return (cpu_of k4))\<lparr>csr_sie := 0x202, csr_sstatus := csr_sstatus (call_return (cpu_of k4)) OR 0x02\<rparr>\<rparr>"
    "krep (boot_prepared l st m1 k) (boot_sched l)" "owned (boot_prepared l st m1 k) (boot_sched l)"
    "handle_word k3 (boot_sched l) (flush_tcb_cell l)"
    by (rule main_boot_wrapped [OF l(1) bd heap k hart_platform_wraps [of bd cs ci]])
  let ?A = "boot_sched l" and ?M = "main_tcb l"
  let ?kp = "(boot_prepared l st m1 k)\<lparr>cpu_of := call_entry (cpu_of (boot_prepared l st m1 k))\<rparr>"
  let ?kc = "k3\<lparr>cpu_of := call_entry (call_return (cpu_of k3))\<rparr>"
  have ring: "?M \<in> set (run_ring ?A)" by (simp add: run_ring_def)
  have ip: "kinv ?M ?kp ?A" using b(16,17) counters_boot ring by (simp add: kinv_def [of _ "boot_prepared l st m1 k"])
  have pp: "permitted ?M ?kp ?A (Ecall MEM_ALLOC_CODE 64 0 0 0)" by (simp add: permitted_def may_call_def syscall_code_defs)
  have ep: "?A \<in> event_step ?kp (Ecall MEM_ALLOC_CODE 64 0 0 0) ?A" by (simp add: event_step_def call_step_def syscall_code_defs)
  note s3 = event_status_step [OF ip bd(1) pp ep ecall_event [OF b(7)], simplified, unfolded status_step_def]
  have lp: "lay ?kp = l" "csr_stvec (cpu_of ?kp) = addr_k_intr_table l OR 1"
    by (simp_all add: boot_prepared_def k kernel_image_def call_entry_def)
  have l3: "lay k3 = l" "csr_stvec (cpu_of k3) = addr_k_intr_table l OR 1" using s3 lp by simp_all
  have ic: "kinv ?M ?kc ?A" using b(8,9) counters_boot ring by (simp add: kinv_def [of _ k3])
  let ?e = "Ecall CREATE_THREAD_CODE (flush_tcb_cell l) (bd_flush_loop bd) 0 (u + DEFAULT_STACK_SIZE)"
  let ?B = "a_create t js ?A"
  have room: "thread_room ?kc t ts0 js m'" using b(13) by (simp add: thread_room_def)
  have own: "live_blocks (mem ?kc) u \<noteq> None" "\<not> kernel_owned ?kc ?A u"
    using b(11,12) by (simp_all add: kernel_owned_def user_threads_def thread_regions_def l3(1))
  have sp: "u + DEFAULT_STACK_SIZE - DEFAULT_STACK_SIZE = u" by simp
  have hw: "handle_word ?kc ?A (flush_tcb_cell l)" using b(18) by (simp add: handle_word_def kernel_memory_def)
  have pc: "permitted ?M ?kc ?A ?e"
    unfolding permitted_def may_call_def event.case sp using own room hw by (auto simp: syscall_code_defs)
  have some: "\<exists>m1. mem_alloc_blocks 6 (mem ?kc) = Some (t, m1) \<and> t \<noteq> NULL" using room by (auto simp: thread_room_def)
  have cell: "flush_tcb_cell l \<noteq> NULL" using l(1) by (simp add: layout_ok_def)
  have ec: "?B \<in> event_step ?kc ?e ?A"
    unfolding event_step_def event.case call_step_def using cell bd(2) b(10) some room by auto
  note s4 = event_status_step [OF ic bd(1) pc ec ecall_event [OF b(14)], simplified, unfolded status_step_def]
  have kin: "kinv t k' ?B" using b(2) by (simp add: kernel_started_def k kernel_image_def)
  have new: "t \<notin> threads ?A" using b(3) by simp
  have js: "js \<notin> a_sems ?A" using b(4,5) by simp
  have th: "threads ?B = {t, ?M}" using threads_create [OF js, of t] by simp
  have cur: "current_tcb k4 = ?M" using krepD(2) [OF kinvD(1) [OF kin]] b(15) by simp
  have "thread_status k4 t = thread_status ?kc ?M OR 32" using s4 new th by (auto simp: event_code_def syscall_code_defs)
  moreover have ck: "current_tcb k3 = ?M" using krepD(2) [OF b(8)] by simp
  then have "thread_status ?kc ?M = trap_sstatus True (sret_sstatus (csr_sstatus (cpu_of k3)))"
    by (simp add: thread_status_def call_entry_def call_return_def)
  ultimately have "word_ok (thread_status k4 t)" "bit (thread_status k4 t) 8"
    by (simp_all add: word_ok_def bit_or_iff)
  then have w: "word_ok (c_sstatus (tcontext (tcbs k' t)))" "bit (c_sstatus (tcontext (tcbs k' t))) 8"
    using cur b(3) by (simp_all add: thread_status_def b(15))
  have "lay k4 = l" "csr_stvec (cpu_of k4) = addr_k_intr_table l OR 1"
    using s4 l3 by (simp_all add: call_entry_def call_return_def)
  then have v: "vector_ok k'" using l(2) by (simp add: vector_ok_def b(15) call_return_def)
  have "bit (csr_sstatus (cpu_of k')) 1" by (simp add: b(15) bit_or_iff)
  then have "hart_ok t \<lparr>supervisor = True, hart_pc = pc, hart_kernel = k'\<rparr> ?B"
    using kin v w b(3) cur by (simp add: hart_ok_def th runs_supervisor_def b(15))
  then show ?thesis by (rule that [OF b(1,2,3) _ b(6)])
qed

end
