(* ===== verification/Props_Hart.thy ===== *)
theory Props_Hart
  imports Hart_Boot Sample_System Kernel_Join
begin

text \<open>
  The properties of the kernel on its hart: traps find their routines, interrupts are masked inside the
  kernel and enabled outside, threads do not gain privileges, and what a system call does to a tick.
\<close>

unbundle bit_operations_syntax

lemma tick_permitted: "hart_permitted f h A Tick"
  by (simp add: hart_permitted_def kernel_event_def permitted_def)

section \<open>The sample machine on its hart\<close>

lemma sample_hart:
  obtains t js k where "main_boot sample_board (hart_platform sample_board 0x4000 0x4100) sample_image = Some k"
    "hart_ok t \<lparr>supervisor = True, hart_pc = 0x80006000, hart_kernel = k\<rparr> (a_create t js (boot_sched sample_layout))"
    "t \<noteq> 0x1000" "lay k = sample_layout"
proof -
  obtain n where n: "alloc_rep sample_heap [Free n]" "200 \<le> n" using sample_heap_rep by auto
  have b: "bd_flush_loop sample_board \<noteq> 0" "table_aligned sample_layout"
    by (simp_all add: sample_board_def table_aligned_def sample_layout_def)
  obtain t js k where "main_boot sample_board (hart_platform sample_board 0x4000 0x4100) sample_image = Some k"
    "kernel_started sample_image t js sample_board k" "t \<noteq> main_tcb sample_layout"
    "hart_ok t \<lparr>supervisor = True, hart_pc = 0x80006000, hart_kernel = k\<rparr> (a_create t js (boot_sched sample_layout))"
    by (rule boot_hart [OF sample_layout_ok b(2) sample_board_ok b(1) n sample_image_def, where cs = "0x4000" and ci = "0x4100" and pc = "0x80006000"])
  then show ?thesis by (intro that [of k t js]) (simp_all add: kernel_started_def sample_image_def kernel_image_def)
qed

section \<open>Traps reach their routines\<close>

text \<open>C2: the kernel on its hart implements the abstract scheduler: whatever happens (the timer or the
  console interrupts, the running thread makes a system call or computes, the flushing thread flushes),
  the hart finds the routine in the interrupt table, the routine comes back by sret, the effect is the
  unique step of the scheduler for that event, and the invariant holds again.\<close>

theorem hart_refines_kernel:
  assumes "hart_ok f h A" "board_ok bd" "hart_permitted f h A e"
  shows "\<exists>h' A'. hart_step bd e h = Some h' \<and> event_step (hart_kernel h) (kernel_event h e) A = {A'} \<and> hart_ok f h' A'"
proof -
  obtain h' A' where s: "hart_step bd e h = Some h'" "A' \<in> event_step (hart_kernel h) (kernel_event h e) A" "hart_ok f h' A'"
    by (rule hart_step_ok [OF assms])
  have "event_step (hart_kernel h) (kernel_event h e) A = {A'}" using event_step_unique [OF _ s(2)] s(2) by blast
  then show ?thesis using s by blast
qed

theorem hart_refines_kernel_witness:
  "\<exists>t h h' A A'. hart_step sample_board Tick h = Some h' \<and> event_step (hart_kernel h) Timer_interrupt A = {A'} \<and> hart_ok t h' A'"
proof -
  obtain t js k where s: "hart_ok t \<lparr>supervisor = True, hart_pc = 0x80006000, hart_kernel = k\<rparr> (a_create t js (boot_sched sample_layout))"
    by (rule sample_hart)
  let ?h = "\<lparr>supervisor = True, hart_pc = 0x80006000, hart_kernel = k\<rparr>" and ?A = "a_create t js (boot_sched sample_layout)"
  have e: "kernel_event ?h Tick = Timer_interrupt" by (simp add: kernel_event_def)
  from hart_refines_kernel [OF s sample_board_ok tick_permitted] show ?thesis unfolding e by blast
qed

section \<open>Interrupts are masked inside the kernel\<close>

text \<open>C10: the kernel is never interrupted and never left masked: main() enables interrupts in a state from
  which, over every run of the hart, code outside the kernel can be interrupted by exactly the timer and
  the console, every trap enters the kernel with all interrupts masked, and every routine reaches its sret
  with them still masked.\<close>

theorem kernel_masks_interrupts:
  assumes "layout_ok l (heap_start m)" "table_aligned l" "board_ok bd" "bd_flush_loop bd \<noteq> 0" "alloc_rep m [Free n]" "200 \<le> n"
  shows "\<exists>t js k. main_boot bd (hart_platform bd cs ci) (kernel_image l m ts ss c cells) = Some k \<and>
    (\<forall>es h A. hart_run bd t \<lparr>supervisor = True, hart_pc = pc, hart_kernel = k\<rparr> (a_create t js (boot_sched l)) es h A \<longrightarrow>
       (\<forall>i. interrupt_enabled i h \<longleftrightarrow> i = 1 \<or> i = 9) \<and>
       (\<forall>i cause q. \<not> interrupt_enabled i \<lparr>supervisor = True, hart_pc = q, hart_kernel = hart_enter cause h\<rparr>) \<and>
       (\<forall>e. traps e \<and> hart_permitted t h A e \<longrightarrow>
          (\<exists>k1. hart_step bd e h = Some (hart_sret k1) \<and>
             (\<forall>i q. \<not> interrupt_enabled i \<lparr>supervisor = True, hart_pc = q, hart_kernel = k1\<rparr>))))"
proof -
  obtain t js k where b: "main_boot bd (hart_platform bd cs ci) (kernel_image l m ts ss c cells) = Some k"
    "hart_ok t \<lparr>supervisor = True, hart_pc = pc, hart_kernel = k\<rparr> (a_create t js (boot_sched l))"
    by (rule boot_hart [OF assms refl, where cs = cs and ci = ci and pc = pc])
  have "(\<forall>i. interrupt_enabled i h \<longleftrightarrow> i = 1 \<or> i = 9) \<and>
      (\<forall>i cause q. \<not> interrupt_enabled i \<lparr>supervisor = True, hart_pc = q, hart_kernel = hart_enter cause h\<rparr>) \<and>
      (\<forall>e. traps e \<and> hart_permitted t h A e \<longrightarrow>
         (\<exists>k1. hart_step bd e h = Some (hart_sret k1) \<and>
            (\<forall>i q. \<not> interrupt_enabled i \<lparr>supervisor = True, hart_pc = q, hart_kernel = k1\<rparr>)))"
    if r: "hart_run bd t \<lparr>supervisor = True, hart_pc = pc, hart_kernel = k\<rparr> (a_create t js (boot_sched l)) es h A" for es h A
  proof -
    have ok: "hart_ok t h A" by (rule hart_run_ok [OF r assms(3) b(2)])
    have "\<exists>k1. hart_step bd e h = Some (hart_sret k1) \<and>
        (\<forall>i q. \<not> interrupt_enabled i \<lparr>supervisor = True, hart_pc = q, hart_kernel = k1\<rparr>)"
      if "traps e" "hart_permitted t h A e" for e
      by (rule trap_leaves_masked [OF ok assms(3) that(2,1)]) (auto simp: interrupt_enabled_def)
    then show ?thesis using hart_ok_enabled [OF ok]
      by (auto simp: interrupt_enabled_def hart_enter_def Let_def)
  qed
  then show ?thesis using b(1) by blast
qed

theorem kernel_masks_interrupts_witness:
  "\<exists>t k k1. main_boot sample_board (hart_platform sample_board 0x4000 0x4100) sample_image = Some k \<and>
     hart_step sample_board Tick \<lparr>supervisor = True, hart_pc = 0, hart_kernel = k\<rparr> = Some (hart_sret k1) \<and>
     interrupt_enabled 9 \<lparr>supervisor = True, hart_pc = 0, hart_kernel = k\<rparr> \<and>
     \<not> interrupt_enabled 9 \<lparr>supervisor = True, hart_pc = 0, hart_kernel = k1\<rparr>"
proof -
  obtain n where n: "alloc_rep sample_heap [Free n]" "200 \<le> n" using sample_heap_rep by auto
  have b: "bd_flush_loop sample_board \<noteq> 0" "table_aligned sample_layout"
    by (simp_all add: sample_board_def table_aligned_def sample_layout_def)
  have e: "traps Tick" by (simp add: traps_def)
  note all = kernel_masks_interrupts [OF sample_layout_ok b(2) sample_board_ok b(1) n, where cs = "0x4000" and ci = "0x4100" and pc = 0
        and ts = "\<lambda>_. main_tcb_init" and ss = "\<lambda>_. \<lparr>sem_value = 0, suspended = \<lparr>lh_head = 0, lh_tail = 0\<rparr>\<rparr>" and c = sample_cpu
        and cells = "\<lambda>_. 0", folded sample_image_def]
  then show ?thesis
  proof (elim exE conjE, goal_cases)
    case (1 t js k)
    note r = 1(2) [THEN spec, THEN spec, THEN spec, THEN mp, OF hart_nil]
    show ?case
      using 1(1) r [THEN conjunct1, THEN spec, of 9] r [THEN conjunct2, THEN conjunct2, THEN spec, of Tick] e tick_permitted by blast
  qed
qed

section \<open>Privileges\<close>

text \<open>C11: user mode is a one-way street: as long as the threads of K create no thread, over every run of
  the hart no thread outside K is ever in supervisor mode again, whether it runs, waits or is new, and
  the hart is not in supervisor mode while one of them runs.\<close>

theorem user_mode_never_left:
  assumes "hart_run bd f h A es h' A'" "board_ok bd" "hart_ok f h A"
    and "\<forall>t \<in> threads A - K. \<not> runs_supervisor h t" "\<forall>(e, t) \<in> set es. creates e \<longrightarrow> t \<notin> K"
  shows "(\<forall>t \<in> threads A' - K. \<not> runs_supervisor h' t) \<and> (a_cur A' \<notin> K \<longrightarrow> \<not> supervisor h')"
proof -
  have u: "\<forall>t \<in> threads A' - K. \<not> runs_supervisor h' t" by (rule hart_run_user [OF assms])
  have "hart_ok f h' A'" by (rule hart_run_ok [OF assms(1-3)])
  then have "kinv f (hart_kernel h') A'" by (simp add: hart_ok_def)
  then have "current_tcb (hart_kernel h') = a_cur A'" by (intro krepD(2) kinvD(1))
  moreover have "a_cur A' \<in> threads A'" by (simp add: threads_def)
  ultimately show ?thesis using u unfolding runs_supervisor_def by (metis DiffI)
qed

text \<open>On the sample machine the main thread leaves supervisor mode; K holds the flushing thread only.\<close>

lemma sample_user:
  obtains t h A where "hart_ok t h A" "0x1000 \<in> threads A" "t \<noteq> 0x1000" "\<forall>u \<in> threads A - {t}. \<not> runs_supervisor h u"
proof -
  obtain t js k where s: "hart_ok t \<lparr>supervisor = True, hart_pc = 0x80006000, hart_kernel = k\<rparr> (a_create t js (boot_sched sample_layout))"
    "t \<noteq> 0x1000" by (rule sample_hart)
  let ?h = "\<lparr>supervisor = True, hart_pc = 0x80006000, hart_kernel = k\<rparr>" and ?A = "a_create t js (boot_sched sample_layout)"
  let ?e = "Call USER_MODE_CODE 0 0 0 0"
  have p: "hart_permitted t ?h ?A ?e"
    using s(2) by (simp add: hart_permitted_def kernel_event_def permitted_def may_call_def syscall_code_defs)
  obtain h A where r: "A \<in> event_step (hart_kernel ?h) (kernel_event ?h ?e) ?A" "hart_ok t h A" "modes_step ?h ?A ?e h A"
    by (rule hart_step_ok [OF s(1) sample_board_ok p])
  have A: "A = ?A" using r(1) by (simp add: kernel_event_def event_step_def call_step_def syscall_code_defs)
  have "\<not> runs_supervisor h 0x1000"
    using r(3) by (simp add: modes_step_def A kernel_event_def event_code_def threads_split run_ring_def)
  moreover have "set (a_queue ?A q) \<subseteq> {t}" for q by (cases q) (simp_all add: a_create_def a_enq_def boot_sched_def)
  then have "threads ?A \<subseteq> {t, 0x1000}" by (auto simp: threads_def)
  moreover have "0x1000 \<in> threads ?A" by (simp add: threads_def)
  ultimately show ?thesis using r(2) s(2) unfolding A by (intro that [of t h ?A]) blast+
qed

theorem user_mode_never_left_witness:
  "\<exists>t h h' A A'. hart_run sample_board t h A [(Tick, a_cur A)] h' A' \<and> 0x1000 \<in> threads A' \<and> \<not> runs_supervisor h' 0x1000"
proof -
  obtain t h A where s: "hart_ok t h A" "0x1000 \<in> threads A" "t \<noteq> 0x1000" "\<forall>u \<in> threads A - {t}. \<not> runs_supervisor h u"
    by (rule sample_user)
  note p = tick_permitted [of t h A]
  obtain h' A' where r: "hart_step sample_board Tick h = Some h'" "A' \<in> event_step (hart_kernel h) (kernel_event h Tick) A"
    by (rule hart_step_ok [OF s(1) sample_board_ok p])
  have run: "hart_run sample_board t h A [(Tick, a_cur A)] h' A'" by (rule hart_cons [OF p r hart_nil])
  have "kinv t (hart_kernel h) A" using s(1) by (simp add: hart_ok_def)
  then have "0x1000 \<in> threads A'"
    by (rule event_keeps_threads [OF _ _ r(2) s(2)]) (use p in \<open>simp_all add: hart_permitted_def kernel_event_def exits_def\<close>)
  moreover have "\<forall>(e, u) \<in> set [(Tick, a_cur A)]. creates e \<longrightarrow> u \<notin> {t}" by (simp add: creates_def)
  note u = user_mode_never_left [OF run sample_board_ok s(1,4) this, THEN conjunct1]
  ultimately show ?thesis using run s(3) by blast
qed

section \<open>A tick during a system call\<close>

text \<open>C39: a system call swallows a timer tick: one that becomes pending after the ecall and before the
  handler's csrc sip, 0x02 is forgotten, the state after the call being the same as without it, whereas a
  console interrupt leaves a pending tick pending for its sret.\<close>

theorem system_call_loses_tick:
  assumes "hart_ok f h A" "board_ok bd" "hart_permitted f h A (Call code p0 p1 p2 p3)" "hart_permitted f h A (Key stat data)"
  shows "(\<exists>h'. hart_step bd (Call code p0 p1 p2 p3) (with_tick True h) = Some h' \<and>
      hart_step bd (Call code p0 p1 p2 p3) (with_tick False h) = Some h' \<and> \<not> bit (csr_sip (cpu_of (hart_kernel h'))) 1) \<and>
    (\<exists>h'. hart_step bd (Key stat data) (with_tick True h) = Some h' \<and> bit (csr_sip (cpu_of (hart_kernel h'))) 1)"
proof
  show "\<exists>h'. hart_step bd (Call code p0 p1 p2 p3) (with_tick True h) = Some h' \<and>
      hart_step bd (Call code p0 p1 p2 p3) (with_tick False h) = Some h' \<and> \<not> bit (csr_sip (cpu_of (hart_kernel h'))) 1"
    by (rule call_forgets_tick [OF assms(1,3), of bd]) blast
  show "\<exists>h'. hart_step bd (Key stat data) (with_tick True h) = Some h' \<and> bit (csr_sip (cpu_of (hart_kernel h'))) 1"
    by (rule key_keeps_tick [OF assms(1,2,4)]) blast
qed

theorem system_call_loses_tick_witness:
  "\<exists>h h'. hart_step sample_board (Call THREAD_DISPATCH_CODE 0 0 0 0) (with_tick True h) = Some h' \<and>
     bit (csr_sip (cpu_of (hart_kernel (with_tick True h)))) 1 \<and> \<not> bit (csr_sip (cpu_of (hart_kernel h'))) 1"
proof -
  obtain t js k where s: "hart_ok t \<lparr>supervisor = True, hart_pc = 0x80006000, hart_kernel = k\<rparr> (a_create t js (boot_sched sample_layout))"
    "t \<noteq> 0x1000" "lay k = sample_layout" by (rule sample_hart)
  let ?h = "\<lparr>supervisor = True, hart_pc = 0x80006000, hart_kernel = k\<rparr>" and ?A = "a_create t js (boot_sched sample_layout)"
  have "hart_permitted t ?h ?A (Call THREAD_DISPATCH_CODE 0 0 0 0)"
    by (simp add: hart_permitted_def kernel_event_def permitted_def may_call_def syscall_code_defs)
  moreover have "hart_permitted t ?h ?A (Key 1 65)"
    using s(3) by (simp add: hart_permitted_def kernel_event_def permitted_def may_signal_def)
  ultimately show ?thesis
    using system_call_loses_tick [OF s(1) sample_board_ok, of THREAD_DISPATCH_CODE 0 0 0 0 1 65] by auto
qed

end
