(* ===== verification/Spec2Isabelle.thy ===== *)
theory Spec2Isabelle
  imports Props_Runs Props_Lock Props_Hart
begin

text \<open>
  A small RISC-V operating system kernel: the sources under src/project (h, src).

  \<^bold>\<open>The program.\<close>  The kernel runs threads on one hart.  A trap (ecall, timer, console) enters
  through src/k_traps.S, which switches from the user stack to the running thread's kernel stack and
  saves the registers there; the handlers of src/k_trap_handlers.cpp then work with interrupts off.
  A thread that has to give up the processor calls yield (src/k_tcb.cpp): k_save_context stores the
  registers in the thread's context, k_restore_context loads those of the next thread, and the
  suspended C++ call of that thread continues.  The ready queue (src/k_scheduler.cpp), the queue of
  every semaphore (src/k_sem.cpp) and the delta list of the sleeping threads
  (src/k_tcb_sleep_queue.cpp) link the thread control blocks themselves (h/list.hpp).  Two ring
  buffers (h/queue.hpp) with two semaphores decouple the console from the threads; one kernel thread
  flushes the output.  Memory comes from a best-fit allocator (src/k_memory.cpp).  User programs see
  the C interface (src/syscall_c.cpp), the C++ classes over it, and a console library
  (src/console.cpp).

  \<^bold>\<open>The state.\<close>  Kernel_State holds the record \<open>kstate\<close>: the static variables of the classes
  (current thread, ticks, queues, buffers), the heaps of thread control blocks and of semaphores as
  functions of the address, the allocator, the registers of the processor, the user's memory cells the
  kernel writes, and what went to the console's data register.  Machine integers are words of their
  width; a fault (a write through the null pointer, an index outside a table) and an endless loop are
  \<open>None\<close>.  Code that ends in another thread's stack is the value \<open>Switches\<close> of \<open>flow\<close>;
  what the old thread still has to do is a constructor of \<open>kcont\<close> in the ghost field
  \<open>resume\<close> of its control block (the C++ call stack), and the registers that the trap pushed are
  the ghost field \<open>trap_frame\<close>.

  \<^bold>\<open>Theories that model code.\<close>
  \<^item> Kernel_Utils: h/k_utils.hpp and the digit loops.
  \<^item> Ring_Queue: h/queue.hpp.  Intrusive_List: h/list.hpp.
  \<^item> Mem_Allocator: h/k_memory.hpp, src/k_memory.cpp.
  \<^item> Reg_Context: h/k_context.hpp, src/k_save_context.S, src/k_restore_context.S.
  \<^item> Kernel_State: h/k_tcb.hpp and the static state.  Context_Switch: src/k_scheduler.cpp and yield.
  \<^item> Semaphores: src/k_sem.cpp.  Thread_Control: the rest of src/k_tcb.cpp.  Sleep_Queue:
    src/k_tcb_sleep_queue.cpp.
  \<^item> Trap_Handlers: src/k_trap_handlers.cpp, src/k_traps.S, src/k_tcb_start.S.
  \<^item> Vector_Table: src/k_intr_table.S, and the hart that goes through it: the record \<open>hart\<close> adds the
    privilege mode and the program counter to the kernel's state, a trap looks its routine up at the address
    that stvec and the cause give, and sret takes mode, interrupt bit and program counter back.
  \<^item> User_API: src/syscall_c.cpp, src/thread.cpp, src/semaphore.cpp, src/periodic_thread.cpp,
    src/cpp_allocators.cpp, src/console.cpp, over the record \<open>platform\<close> (the ecall instruction and the
    words of memory of the caller).
  \<^item> Boot: src/main.cpp from the first line of main to its last, and the kernel itself as such a
    platform.  An ecall
    (\<open>kernel_call\<close>) comes back to its caller, gives up the processor or panics; \<open>None\<close>
    is left for a fault.  The library runs on after the first (\<open>kernel_ecall\<close>).  The kernel tests and userMain are arguments.

  \<^bold>\<open>Data structures.\<close>  Three contracts are locales, interpreted for the modelled code:
  \<open>bounded_fifo\<close> (the ring buffer), \<open>shared_fifo\<close> (the intrusive list: several lists in one
  heap) and \<open>block_store\<close> (the allocator: live blocks are disjoint, a failed call changes nothing).
  Heap_Tiling specifies the allocator as a sequence of free and used segments; Mem_Allocator_Correct
  shows that the code with its free list, its sizes inside the free blocks and its allocation table
  implements it; Block_Store gives the constructor and the contract that the kernel uses.

  \<^bold>\<open>The scheduler.\<close>  Sched_Spec and Sched_Refine state the abstract scheduler \<open>sched\<close>: the
  running thread, a queue for each place where a thread waits, the counters of the semaphores and
  the ticks that each sleeper has left.  \<open>krep k A\<close> relates it to the kernel state.  Sched_Ops,
  Semaphore_Correct, Sleep_Correct, Trap_Correct, Syscall_Correct and Thread_Correct show that the
  operations, the handlers and the life of a thread compute their abstract counterparts.  Kernel_Steps
  adds the rotation of the ready threads and the locale \<open>alarm_clock\<close> of the sleeping threads.

  \<^bold>\<open>The whole kernel.\<close>  Kernel_Frame says what each operation leaves alone, Kernel_Owner and
  Kernel_Life who owns which block of memory.  Kernel_Run defines the events (user code computes, the
  timer, the console, an ecall, a round of the flushing thread), the invariant \<open>kinv\<close> and the
  condition \<open>permitted\<close> under which an event is covered; Kernel_Safe shows that every permitted event is
  handled without a fault and is a step of the abstract scheduler; Kernel_Traces lifts this to runs
  (\<open>kernel_run\<close>, an inductive relation).  Kernel_IO has a chain of locales for what operations leave
  alone: \<open>heap_view\<close> (operations that stay with the running thread), \<open>kernel_core_view\<close> (and the
  switches), \<open>kernel_view\<close> (and the life of threads), interpreted for the processor, the words of user
  memory, the console and the tick counter;
  Kernel_Ticks follows the tick counter and the time slices through every event, and Kernel_Fair
  derives from it that a ready thread runs within two ticks for every thread before it and two for the
  running one.  Kernel_Semaphore_Runs counts the waits and the signals of a semaphore over a run that
  does not close it (\<open>sem_run\<close>) and shows that its queue is first come, first served (\<open>fifo_step\<close>).  Kernel_Join shows that a thread keeps its stacks and its join
  semaphore until it exits, and that who joins it waits until then.  Console_Flush, Console_Flow and
  Console_Runs follow the characters: the counters of the two semaphores, the buffers, and the threads
  that have been woken but have not yet put or taken their character.  Kernel_Calls follows a system
  call through the trap and back; Boot_Correct reaches the invariant from the linker's image;
  Cpp_Objects enters user mode and runs the classes Thread, Semaphore and PeriodicThread on the kernel;
  Console_Library is the user's console and the kernel's panic message.  get_string writes its line into
  memory; the locale \<open>line_terminal\<close> has its proof for every platform on which keys arrive and
  characters go out, and is interpreted for the kernel between two ecalls.  Console_Lock takes the lock of
  src/console.cpp apart into the steps between which a thread can be preempted (\<open>lock_step\<close>, over the
  events of the kernel): its invariant gives mutual exclusion and the order in which
  the lock is handed over, and its first use is shown to be a race.

  \<^bold>\<open>The kernel on its hart.\<close>  Thread_Status follows the status register as every thread sees it
  (sstatus for the running thread, the saved word for the others) through every event: switches change
  nobody's, a new thread inherits its creator's with the interrupt bit set, and only the call that leaves
  supervisor mode clears the mode.  Hart_Runs puts the hart of Vector_Table around the kernel: its invariant
  \<open>hart_ok\<close> is kept by every step, each step is one of the abstract scheduler, and \<open>hart_run\<close>
  carries masking and privileges over whole runs.  It also shows what becomes of a tick that arrives inside a
  system call.  Hart_Boot shows that main(), whose system calls trap from supervisor mode before interrupts
  are enabled, reaches that invariant.

  The properties of the development are in Props_Data, Props_Kernel, Props_System, Props_Life, Props_Runs,
  Props_Lock and Props_Hart, with concrete instances in Sample_Kernel and Sample_System.

  \<^bold>\<open>Bounds and loops.\<close>  The loops over linked lists (\<open>best_fit\<close>, \<open>find_place\<close>,
  \<open>sleep_search\<close>, \<open>wake_expired\<close>, \<open>sem_close\<close>) and the flush loop are
  partial functions, so that not ending would be \<open>None\<close>; the properties state that they return.
  The body of a periodic thread and the reading of a line end only if the surroundings let them: the
  first when the thread is terminated, the second when enter comes or the array is full, which is what
  \<open>get_string_edits_line\<close> asks of the keys.  Bounded waiting asks that the tick counter does not
  overflow its 64 bits during the run: it is not reset by threads that run for the first time.
  \<open>permitted\<close> asks of a program what the kernel does not check: handles that were returned to it,
  stacks that it allocated, an address for a new handle that is null or a word outside the kernel's own
  memory (\<open>handle_word\<close>: the kernel stores the handle of a new thread or semaphore there without a
  check), initial counters below \<open>2 ^ 31\<close> and counters that stay in that range, and
  memory for a semaphore or thread that it opens (without it create_sem faults).  The flushing thread
  never blocks, so the ready queue is never empty when another thread gives up the processor.
  \<open>polite\<close> programs leave the two semaphores of the console to putc and getc.  The buffers hold 2048
  characters, as IO_BUFFER_SIZE says.

  \<^bold>\<open>Not modelled.\<close>  The binary libraries of the board (plic, the console's interrupt controller,
  userMain); the optional kernel tests src/k_tests.cpp and the programs under test, which use the kernel
  and are not part of it; interrupts other than the two that main() enables.  That a status word has the
  bits of the privileged architecture is part of Vector_Table, the rest of sstatus is the hardware's; a tick
  that comes while the kernel runs is seen only where it makes a difference (\<open>with_tick\<close>: during a system
  call), since interrupts are masked until the sret.  Kernel objects and the allocator's free blocks are
  kept in separate heaps: that they cannot overlap is what \<open>live_regions_apart\<close> and the
  ownership invariant show, but reading freed memory is not modelled, and the properties about C++ objects are
  about objects outside the kernel's own memory.  Threads are resumed through
  \<open>resume\<close>, so the kernel stack's bytes are not.

  \<^bold>\<open>Possible extensions.\<close>  Freeing as well as allocating in the ownership of user memory.
\<close>

end
